(* ===== verification/VPrelude.thy ===== *)
theory VPrelude
  imports Main "HOL-Library.Word" "HOL-Library.State_Monad"
begin

text \<open>
  Shared vocabulary of the development.

  \<^item> The model's types: bytes are \<open>8 word\<close>, Python's integers are \<open>int\<close>, strings are
    \<open>char list\<close>, an exception is a value of \<open>py_error\<close> and code that may raise returns
    \<open>'a result\<close> (\<open>Inl\<close> the exception).
  \<^item> The parts of Python's library that several sources use: \<open>struct\<close>'s little-endian integers,
    \<open>bytes.ljust\<close>, slices and pieces of a byte string.
  \<^item> Bit fields of integers (\<open>field lo n\<close>), with a collection of rewrite rules
    (\<open>field_simps_bits\<close>) that reads the fields of an encoded instruction back.
\<close>

unbundle bit_operations_syntax

section \<open>Errors as values\<close>

text \<open>Text from a device is a list of code points; a message is what an exception's text is formatted from.\<close>

type_synonym utext = "nat list"

datatype message =
    Line utext
  | NoAnswer "8 word list"
  | Refused message utext
  | NotStarted utext utext

datatype py_error =
    AssertionError
  | KeyError
  | ValueError
  | IndexError
  | StructError
  | UnicodeError
  | FileNotFoundError
  | TimeoutError
  | RuntimeError
  | OverflowError
  | SystemExit
  | UploadError message
  | S2Error utext

type_synonym 'a result = "py_error + 'a"

definition rbind :: "'a result \<Rightarrow> ('a \<Rightarrow> 'b result) \<Rightarrow> 'b result" where
  "rbind m f = (case m of Inl e \<Rightarrow> Inl e | Inr x \<Rightarrow> f x)"

definition rmap :: "('a \<Rightarrow> 'b) \<Rightarrow> 'a result \<Rightarrow> 'b result" where
  "rmap f m = (case m of Inl e \<Rightarrow> Inl e | Inr x \<Rightarrow> Inr (f x))"

text \<open>\<open>assert c\<close> and \<open>d[k]\<close> of Python.\<close>

definition rassert :: "bool \<Rightarrow> 'a result \<Rightarrow> 'a result" where
  "rassert c m = (if c then m else Inl AssertionError)"

definition rlookup :: "('k \<times> 'v) list \<Rightarrow> 'k \<Rightarrow> 'v result" where
  "rlookup d k = (case map_of d k of None \<Rightarrow> Inl KeyError | Some v \<Rightarrow> Inr v)"

text \<open>A loop over a list that stops at the first exception.\<close>

fun rmapM :: "('a \<Rightarrow> 'b result) \<Rightarrow> 'a list \<Rightarrow> 'b list result" where
  "rmapM f [] = Inr []"
| "rmapM f (x # xs) = rbind (f x) (\<lambda>y. rmap ((#) y) (rmapM f xs))"

lemma rbind_simps [simp]:
  "rbind (Inl e) f = Inl e" "rbind (Inr x) f = f x"
  by (simp_all add: rbind_def)

lemma rmap_simps [simp]:
  "rmap g (Inl e) = Inl e" "rmap g (Inr x) = Inr (g x)"
  by (simp_all add: rmap_def)

lemma rassert_simps [simp]:
  "rassert True m = m" "rassert False m = Inl AssertionError"
  by (simp_all add: rassert_def)

lemma rbind_eq_Inr [simp]: "rbind m f = Inr y \<longleftrightarrow> (\<exists>x. m = Inr x \<and> f x = Inr y)"
  by (cases m) simp_all

lemma rmap_eq_Inr [simp]: "rmap g m = Inr y \<longleftrightarrow> (\<exists>x. m = Inr x \<and> y = g x)"
  by (cases m) auto

lemma rassert_eq_Inr [simp]: "rassert c m = Inr y \<longleftrightarrow> c \<and> m = Inr y"
  by (simp add: rassert_def)

lemma rmapM_Inr_iff: "rmapM f xs = Inr ys \<longleftrightarrow> list_all2 (\<lambda>x y. f x = Inr y) xs ys"
  by (induction xs arbitrary: ys) (auto simp: list_all2_Cons1)

lemma rmapM_length: "rmapM f xs = Inr ys \<Longrightarrow> length ys = length xs"
  by (auto simp: rmapM_Inr_iff dest: list_all2_lengthD)

lemma rmapM_nth: "rmapM f xs = Inr ys \<Longrightarrow> i < length xs \<Longrightarrow> f (xs ! i) = Inr (ys ! i)"
  by (auto simp: rmapM_Inr_iff list_all2_conv_all_nth)

lemma rmapM_total:
  assumes "\<And>x. x \<in> set xs \<Longrightarrow> \<exists>y. f x = Inr y"
  shows "\<exists>ys. rmapM f xs = Inr ys"
  using assms by (induction xs) fastforce+

section \<open>Bytes and little-endian integers\<close>

type_synonym byte = "8 word"

fun le_bytes :: "nat \<Rightarrow> int \<Rightarrow> byte list" where
  "le_bytes 0 v = []"
| "le_bytes (Suc n) v = word_of_int v # le_bytes n (v div 256)"

fun int_of_le :: "byte list \<Rightarrow> int" where
  "int_of_le [] = 0"
| "int_of_le (b # bs) = uint b + 256 * int_of_le bs"

lemma length_le_bytes [simp]: "length (le_bytes n v) = n"
  by (induction n arbitrary: v) simp_all

lemma uint_byte_of_int [simp]: "uint (word_of_int v :: byte) = v mod 256"
  by (simp add: uint_word_of_int)

lemma uint_byte_range: "0 \<le> uint (b :: byte) \<and> uint b < 256"
  using uint_lt2p [of b] by simp

lemma int_of_le_range: "0 \<le> int_of_le bs \<and> int_of_le bs < 256 ^ length bs"
proof (induction bs)
  case Nil
  then show ?case by simp
next
  case (Cons b bs)
  then show ?case using uint_byte_range [of b] by simp
qed

lemma int_of_le_zeros: "int_of_le (replicate n 0) = 0"
  by (induction n) simp_all

lemma int_of_le_bytes_mod: "int_of_le (le_bytes n v) = v mod 256 ^ n"
proof (induction n arbitrary: v)
  case 0
  then show ?case by simp
next
  case (Suc n)
  have "v mod (256 * 256 ^ n) = 256 * (v div 256 mod 256 ^ n) + v mod 256"
    by (rule zmod_zmult2_eq) simp
  with Suc show ?case by simp
qed

lemma int_of_le_bytes: "0 \<le> v \<Longrightarrow> v < 256 ^ n \<Longrightarrow> int_of_le (le_bytes n v) = v"
  by (simp add: int_of_le_bytes_mod)

lemma le_bytes_of_le [simp]: "le_bytes (length bs) (int_of_le bs) = bs"
proof (induction bs)
  case Nil
  then show ?case by simp
next
  case (Cons b bs)
  have b: "0 \<le> uint b" "uint b < 256" using uint_byte_range [of b] by simp_all
  then have "(uint b + 256 * int_of_le bs) div 256 = int_of_le bs" by simp
  moreover have "word_of_int (uint b + 256 * int_of_le bs) = b"
    by (rule word_uint_eqI) (subst uint_byte_of_int, simp add: b)
  ultimately show ?case using Cons by simp
qed

text \<open>\<open>struct.pack\<close>'s unsigned formats: out-of-range values raise \<open>struct.error\<close>.\<close>

definition pack_u :: "nat \<Rightarrow> int \<Rightarrow> byte list result" where
  "pack_u n v = (if 0 \<le> v \<and> v < 256 ^ n then Inr (le_bytes n v) else Inl StructError)"

lemma pack_u_Inr: "pack_u n v = Inr bs \<longleftrightarrow> 0 \<le> v \<and> v < 256 ^ n \<and> bs = le_bytes n v"
  by (auto simp: pack_u_def)

text \<open>\<open>bytes.ljust(n, b"\0")\<close>, \<open>data[i:j]\<close> with non-negative bounds, \<open>data[i:i+n]\<close> pieces.\<close>

definition ljust :: "nat \<Rightarrow> 'a \<Rightarrow> 'a list \<Rightarrow> 'a list" where
  "ljust n x xs = xs @ replicate (n - length xs) x"

definition slice :: "nat \<Rightarrow> nat \<Rightarrow> 'a list \<Rightarrow> 'a list" where
  "slice i j xs = take (j - i) (drop i xs)"

lemma length_ljust [simp]: "length (ljust n x xs) = max n (length xs)"
  by (simp add: ljust_def)

lemma length_slice [simp]: "length (slice i j xs) = min (j - i) (length xs - i)"
  by (simp add: slice_def)

function pieces :: "nat \<Rightarrow> 'a list \<Rightarrow> 'a list list" where
  "pieces n xs = (if n = 0 \<or> xs = [] then [] else take n xs # pieces n (drop n xs))"
  by pat_completeness auto
termination
  by (relation "measure (\<lambda>(n, xs). length xs)") auto

declare pieces.simps [simp del]

lemma pieces_Nil [simp]: "pieces n [] = []"
  by (subst pieces.simps) simp

lemma pieces_step: "0 < n \<Longrightarrow> xs \<noteq> [] \<Longrightarrow> pieces n xs = take n xs # pieces n (drop n xs)"
  by (subst pieces.simps) simp

lemma concat_pieces: "0 < n \<Longrightarrow> concat (pieces n xs) = xs"
proof (induction n xs rule: pieces.induct)
  case (1 n xs)
  then show ?case by (cases "xs = []") (simp_all add: pieces_step)
qed

lemma pieces_append_exact:
  assumes "length xs = n" "0 < n"
  shows "pieces n (xs @ ys) = xs # pieces n ys"
proof -
  have "xs @ ys \<noteq> []" using assms by auto
  then show ?thesis using assms by (simp add: pieces_step)
qed

lemma pieces_concat:
  assumes "0 < n" "\<And>x. x \<in> set xss \<Longrightarrow> length x = n"
  shows "pieces n (concat xss) = xss"
  using assms(2)
proof (induction xss)
  case Nil
  then show ?case by simp
next
  case (Cons x xss)
  then show ?case using assms(1) by (simp add: pieces_append_exact)
qed

lemma length_pieces: "0 < n \<Longrightarrow> length (pieces n xs) = (length xs + n - 1) div n"
proof (induction n xs rule: pieces.induct)
  case (1 n xs)
  show ?case
  proof (cases "xs = []")
    case True
    with 1(2) show ?thesis by simp
  next
    case False
    with 1 have IH: "length (pieces n (drop n xs)) = (length xs - n + n - 1) div n" by simp
    show ?thesis
    proof (cases "length xs \<le> n")
      case True
      have "(length xs + n - 1) div n = 1"
        using True False 1(2) by (intro div_nat_eqI) (auto simp: neq_Nil_conv)
      moreover have "drop n xs = []" using True by simp
      ultimately show ?thesis using False 1(2) by (simp add: pieces_step)
    next
      case long: False
      have "length xs + n - 1 = (length xs - n + n - 1) + n" using long by simp
      then have "(length xs + n - 1) div n = (length xs - n + n - 1) div n + 1"
        using 1(2) by (metis add_diff_cancel_right' div_add_self2 less_irrefl Suc_eq_plus1 add.commute)
      then show ?thesis using False 1(2) IH by (simp add: pieces_step)
    qed
  qed
qed

lemma pieces_short: "0 < n \<Longrightarrow> c \<in> set (pieces n xs) \<Longrightarrow> length c \<le> n"
proof (induction n xs rule: pieces.induct)
  case (1 n xs)
  then show ?case by (cases "xs = []") (auto simp: pieces_step)
qed

lemma nth_pieces: "0 < n \<Longrightarrow> j < length (pieces n xs) \<Longrightarrow> pieces n xs ! j = take n (drop (n * j) xs)"
proof (induction j arbitrary: xs)
  case 0
  then show ?case by (cases "xs = []") (simp_all add: pieces_step)
next
  case (Suc j)
  show ?case
  proof (cases "xs = []")
    case False
    then show ?thesis using Suc.IH [of "drop n xs"] Suc.prems by (simp add: pieces_step add.commute)
  qed (use Suc.prems in simp)
qed

section \<open>Bit fields of integers\<close>

definition field :: "nat \<Rightarrow> nat \<Rightarrow> int \<Rightarrow> int" where
  "field lo n w = take_bit n (drop_bit lo w)"

named_theorems field_simps_bits \<open>reading the bit fields of an encoded word\<close>

lemma bit_field_iff: "bit (field lo n w) i \<longleftrightarrow> i < n \<and> bit w (lo + i)"
  by (simp add: field_def bit_take_bit_iff bit_drop_bit_eq)

lemma field_or [field_simps_bits]: "field lo n (a OR b) = (field lo n a OR field lo n b)"
  by (rule bit_eqI) (auto simp: bit_field_iff bit_or_iff)

lemma field_push_above [field_simps_bits]: "lo + n \<le> k \<Longrightarrow> field lo n (push_bit k a) = 0"
  by (rule bit_eqI) (auto simp: bit_field_iff bit_push_bit_iff)

lemma field_push_below [field_simps_bits]: "k \<le> lo \<Longrightarrow> field lo n (push_bit k a) = field (lo - k) n a"
  by (rule bit_eqI) (auto simp: bit_field_iff bit_push_bit_iff)

lemma field_push_inside [field_simps_bits]:
  "lo \<le> k \<Longrightarrow> k < lo + n \<Longrightarrow> field lo n (push_bit k a) = push_bit (k - lo) (take_bit (lo + n - k) a)"
  by (rule bit_eqI) (auto simp: bit_field_iff bit_push_bit_iff bit_take_bit_iff add.commute)

lemma field_small [field_simps_bits]: "0 \<le> a \<Longrightarrow> a < 2 ^ lo \<Longrightarrow> field lo n a = 0"
  by (simp add: field_def drop_bit_eq_div)

lemma field_zero [simp]: "field lo n 0 = 0"
  by (simp add: field_def)

lemma field_0_small: "0 \<le> a \<Longrightarrow> a < 2 ^ n \<Longrightarrow> field 0 n a = a"
  by (simp add: field_def take_bit_int_eq_self)

lemma field_field [field_simps_bits]: "field i m (field lo n w) = field (lo + i) (min m (n - i)) w"
  by (rule bit_eqI) (auto simp: bit_field_iff add.assoc)

lemma field_take_bit [field_simps_bits]: "field lo n (take_bit m w) = field lo (min n (m - lo)) w"
  by (rule bit_eqI) (auto simp: bit_field_iff bit_take_bit_iff)

lemma field_0: "field 0 n w = take_bit n w"
  by (simp add: field_def)

lemma field_empty [simp]: "field lo 0 w = 0"
  by (simp add: field_def)

lemma drop_bit_field [field_simps_bits]: "drop_bit m (field lo n w) = field (lo + m) (n - m) w"
  by (rule bit_eqI) (auto simp: bit_field_iff bit_drop_bit_eq add.assoc)

lemma field_range: "0 \<le> field lo n w \<and> field lo n w < 2 ^ n"
  by (simp add: field_def)

lemma or_lt_pow2: "0 \<le> a \<Longrightarrow> a < 2 ^ n \<Longrightarrow> 0 \<le> b \<Longrightarrow> b < 2 ^ n \<Longrightarrow> a OR b < 2 ^ (n::nat)" for a b :: int
  by (metis take_bit_int_eq_self take_bit_int_less_exp take_bit_or)

lemma push_bit_range:
  "0 \<le> a \<Longrightarrow> a < 2 ^ m \<Longrightarrow> k + m \<le> n \<Longrightarrow> 0 \<le> push_bit k a \<and> push_bit k a < (2::int) ^ n"
proof -
  assume a: "0 \<le> a" "a < 2 ^ m" and n: "k + m \<le> n"
  have "a * 2 ^ k < 2 ^ m * 2 ^ k" using a by simp
  also have "\<dots> = (2::int) ^ (k + m)" by (simp add: power_add)
  also have "\<dots> \<le> 2 ^ n" using n by (rule power_increasing) simp
  finally show ?thesis using a by (simp add: push_bit_eq_mult)
qed

text \<open>Integers of at most \<open>n\<close> bits.\<close>

definition fits :: "nat \<Rightarrow> int \<Rightarrow> bool" where
  "fits n a \<longleftrightarrow> 0 \<le> a \<and> a < 2 ^ n"

lemma fits_or: "fits n a \<Longrightarrow> fits n b \<Longrightarrow> fits n (a OR b)"
  by (simp add: fits_def or_lt_pow2)

lemma fits_push: "k \<le> n \<Longrightarrow> fits (n - k) a \<Longrightarrow> fits n (push_bit k a)"
  using push_bit_range [of a "n - k" k n] by (simp add: fits_def)

lemma fits_numeral [simp]: "fits n (numeral k) \<longleftrightarrow> (numeral k :: int) < 2 ^ n" "fits n 0" "0 < n \<Longrightarrow> fits n 1"
  by (auto simp: fits_def)

lemma fits_mono: "fits m a \<Longrightarrow> m \<le> n \<Longrightarrow> fits n a"
  unfolding fits_def by (meson less_le_trans one_le_numeral power_increasing)

lemma fits_weaken: "3 < n \<Longrightarrow> fits 3 a \<Longrightarrow> fits n a" "5 < n \<Longrightarrow> fits 5 a \<Longrightarrow> fits n a"
  "7 < n \<Longrightarrow> fits 7 a \<Longrightarrow> fits n a"
  by (auto elim: fits_mono)

lemma fits_take: "m \<le> n \<Longrightarrow> fits n (take_bit m a)"
  by (rule fits_mono [of m]) (simp_all add: fits_def)

lemma fits_field: "m \<le> n \<Longrightarrow> fits n (field lo m a)"
  by (rule fits_mono [of m]) (use field_range [of lo m a] in \<open>simp_all add: fits_def\<close>)

end
