(* ===== verification/Unit_Models.thy ===== *)
theory Unit_Models
  imports VPrelude "HOL-Library.Signed_Division"
begin

text \<open>
  The reference models of \<^verbatim>\<open>src/sim/unit/unit_models.py\<close>, against which the unit tests check the
  RTL: the ALU (\<open>alu_model\<close>), the Hack computation table (\<open>HACK_COMP\<close>) and RV32M
  (\<open>muldiv_model\<close>), with the value classes of \<^verbatim>\<open>src/sim/unit/fcov.py\<close> and the decoder model of
  \<^verbatim>\<open>src/sim/unit/test_rv32i_decode.py\<close> (\<open>bits\<close>, \<open>imm_model\<close>).

  Each Python model works on unbounded integers with explicit masks. The lemmas relate it to the
  machine operation it stands for: operations on \<open>32 word\<close> for the ALU and RV32M, the six control
  bits of the Nand2Tetris ALU for Hack.
\<close>

section \<open>Signed readings\<close>

definition signed32 :: "int \<Rightarrow> int" where
  "signed32 x = (if x AND 0x80000000 \<noteq> 0 then x - push_bit 32 1 else x)"

definition sext :: "int \<Rightarrow> nat \<Rightarrow> int" where
  "sext value bits =
     (let value = value AND (push_bit bits 1 - 1);
          value = (if value AND push_bit (bits - 1) 1 \<noteq> 0 then value - push_bit bits 1 else value)
      in value AND 0xFFFFFFFF)"

section \<open>The ALU\<close>

definition ALU_ADD :: int where "ALU_ADD = 0"
definition ALU_SUB :: int where "ALU_SUB = 1"
definition ALU_SLL :: int where "ALU_SLL = 2"
definition ALU_SLT :: int where "ALU_SLT = 3"
definition ALU_SLTU :: int where "ALU_SLTU = 4"
definition ALU_XOR :: int where "ALU_XOR = 5"
definition ALU_SRL :: int where "ALU_SRL = 6"
definition ALU_SRA :: int where "ALU_SRA = 7"
definition ALU_OR :: int where "ALU_OR = 8"
definition ALU_AND :: int where "ALU_AND = 9"
definition ALU_COPY_B :: int where "ALU_COPY_B = 10"
definition ALU_COPY_A :: int where "ALU_COPY_A = 11"

lemmas alu_op_defs = ALU_ADD_def ALU_SUB_def ALU_SLL_def ALU_SLT_def ALU_SLTU_def ALU_XOR_def
  ALU_SRL_def ALU_SRA_def ALU_OR_def ALU_AND_def ALU_COPY_B_def ALU_COPY_A_def

definition alu_model :: "int \<Rightarrow> int \<Rightarrow> int \<Rightarrow> int" where
  "alu_model op a b =
     (let sh = nat (b AND 0x1F) in
      case map_of
        [(ALU_ADD, (a + b) AND 0xFFFFFFFF),
         (ALU_SUB, (a - b) AND 0xFFFFFFFF),
         (ALU_SLL, push_bit sh a AND 0xFFFFFFFF),
         (ALU_SLT, of_bool (signed32 a < signed32 b)),
         (ALU_SLTU, of_bool (a < b)),
         (ALU_XOR, a XOR b),
         (ALU_SRL, drop_bit sh a),
         (ALU_SRA, drop_bit sh (signed32 a) AND 0xFFFFFFFF),
         (ALU_OR, a OR b),
         (ALU_AND, a AND b),
         (ALU_COPY_B, b),
         (ALU_COPY_A, a)] op
      of None \<Rightarrow> 0 | Some v \<Rightarrow> v)"

text \<open>The instruction-set view of the same operations, on 32-bit words.\<close>

definition alu_word :: "int \<Rightarrow> 32 word \<Rightarrow> 32 word \<Rightarrow> 32 word" where
  "alu_word op a b =
     (let sh = unat (b AND 31) in
      if op = ALU_ADD then a + b
      else if op = ALU_SUB then a - b
      else if op = ALU_SLL then push_bit sh a
      else if op = ALU_SLT then of_bool (a <s b)
      else if op = ALU_SLTU then of_bool (a < b)
      else if op = ALU_XOR then a XOR b
      else if op = ALU_SRL then drop_bit sh a
      else if op = ALU_SRA then signed_drop_bit sh a
      else if op = ALU_OR then a OR b
      else if op = ALU_AND then a AND b
      else if op = ALU_COPY_B then b
      else if op = ALU_COPY_A then a
      else 0)"

section \<open>The Hack computation table\<close>

definition HACK_COMP :: "(int \<times> (int \<Rightarrow> int \<Rightarrow> int)) list" where
  "HACK_COMP =
     [(0b101010, \<lambda>d y. 0),
      (0b111111, \<lambda>d y. 1),
      (0b111010, \<lambda>d y. -1),
      (0b001100, \<lambda>d y. d),
      (0b110000, \<lambda>d y. y),
      (0b001101, \<lambda>d y. NOT d),
      (0b110001, \<lambda>d y. NOT y),
      (0b001111, \<lambda>d y. -d),
      (0b110011, \<lambda>d y. -y),
      (0b011111, \<lambda>d y. d + 1),
      (0b110111, \<lambda>d y. y + 1),
      (0b001110, \<lambda>d y. d - 1),
      (0b110010, \<lambda>d y. y - 1),
      (0b000010, \<lambda>d y. d + y),
      (0b010011, \<lambda>d y. d - y),
      (0b000111, \<lambda>d y. y - d),
      (0b000000, \<lambda>d y. d AND y),
      (0b010101, \<lambda>d y. d OR y),
      (0b000101, \<lambda>d y. d XOR y)]"

text \<open>
  The Nand2Tetris ALU: the control bits \<open>zx nx zy ny f no\<close>, from the high bit \<open>c1\<close> to the low
  bit \<open>c6\<close>, on 16-bit words.
\<close>

definition hack_alu :: "int \<Rightarrow> 16 word \<Rightarrow> 16 word \<Rightarrow> 16 word" where
  "hack_alu c d y =
     (let x1 = (if bit c 5 then 0 else d);
          x2 = (if bit c 4 then NOT x1 else x1);
          y1 = (if bit c 3 then 0 else y);
          y2 = (if bit c 2 then NOT y1 else y1);
          r = (if bit c 1 then x2 + y2 else x2 AND y2)
      in if bit c 0 then NOT r else r)"

section \<open>RV32M\<close>

definition MUL :: int where "MUL = 0"
definition MULH :: int where "MULH = 1"
definition MULHSU :: int where "MULHSU = 2"
definition MULHU :: int where "MULHU = 3"
definition DIV :: int where "DIV = 4"
definition DIVU :: int where "DIVU = 5"
definition REM :: int where "REM = 6"
definition REMU :: int where "REMU = 7"

lemmas muldiv_op_defs = MUL_def MULH_def MULHSU_def MULHU_def DIV_def DIVU_def REM_def REMU_def

definition muldiv_model :: "int \<Rightarrow> int \<Rightarrow> int \<Rightarrow> int" where
  "muldiv_model funct3 a b =
     (let sa = signed32 a; sb = signed32 b;
          r = (if funct3 = MUL then a * b
               else if funct3 = MULH then drop_bit 32 (sa * sb)
               else if funct3 = MULHSU then drop_bit 32 (sa * b)
               else if funct3 = MULHU then drop_bit 32 (a * b)
               else if funct3 = DIV \<or> funct3 = REM then
                 (let (q, rem) =
                    (if b = 0 then (-1, sa)
                     else if sa = - push_bit 31 1 \<and> sb = -1 then (sa, 0)
                     else let q = \<bar>sa\<bar> div \<bar>sb\<bar> * (if (sa < 0) \<noteq> (sb < 0) then -1 else 1)
                          in (q, sa - q * sb))
                  in if funct3 = DIV then q else rem)
               else if b = 0 then (if funct3 = DIVU then 0xFFFFFFFF else a)
               else if funct3 = DIVU then a div b else a mod b)
      in r AND 0xFFFFFFFF)"

text \<open>RV32M as the instruction set states it, on 32-bit words: \<open>sdiv\<close>/\<open>smod\<close> round toward zero.\<close>

definition muldiv_word :: "int \<Rightarrow> 32 word \<Rightarrow> 32 word \<Rightarrow> 32 word" where
  "muldiv_word f a b =
     (if f = MUL then a * b
      else if f = MULH then word_of_int ((sint a * sint b) div 2 ^ 32)
      else if f = MULHSU then word_of_int ((sint a * uint b) div 2 ^ 32)
      else if f = MULHU then word_of_int ((uint a * uint b) div 2 ^ 32)
      else if f = DIV then (if b = 0 then -1 else word_of_int (sint a sdiv sint b))
      else if f = DIVU then (if b = 0 then -1 else a div b)
      else if f = REM then (if b = 0 then a else word_of_int (sint a smod sint b))
      else (if b = 0 then a else a mod b))"

section \<open>Value classes (fcov.py)\<close>

definition classify32 :: "int \<Rightarrow> string" where
  "classify32 x =
     (let x = x AND 0xFFFFFFFF in
      if x = 0 then ''zero''
      else if x = 1 then ''one''
      else if x = 0xFFFFFFFF then ''minus1''
      else if x = 0x80000000 then ''min_neg''
      else if x = 0x7FFFFFFF then ''max_pos''
      else if x AND 0x80000000 \<noteq> 0 then ''neg'' else ''pos'')"

section \<open>The decoder model (test_rv32i_decode.py)\<close>

definition bits :: "int \<Rightarrow> nat \<Rightarrow> nat \<Rightarrow> int" where
  "bits x hi lo = drop_bit lo x AND (push_bit (hi - lo + 1) 1 - 1)"

definition imm_model :: "int \<Rightarrow> int" where
  "imm_model w =
     (let op = w AND 0x7F in
      if op \<in> {0x13, 0x03, 0x67} then sext (bits w 31 20) 12
      else if op = 0x23 then sext (push_bit 5 (bits w 31 25) OR bits w 11 7) 12
      else if op = 0x63 then
        sext (push_bit 12 (bits w 31 31) OR push_bit 11 (bits w 7 7) OR
              push_bit 5 (bits w 30 25) OR push_bit 1 (bits w 11 8)) 13
      else if op \<in> {0x37, 0x17} then w AND 0xFFFFF000
      else if op = 0x6F then
        sext (push_bit 20 (bits w 31 31) OR push_bit 12 (bits w 19 12) OR
              push_bit 11 (bits w 20 20) OR push_bit 1 (bits w 30 21)) 21
      else if op = 0x73 then bits w 19 15
      else 0)"

section \<open>Masks\<close>

lemma and_mask32: "x AND 0xFFFFFFFF = take_bit 32 (x :: int)"
  by (simp add: take_bit_eq_mask mask_eq_exp_minus_1)

lemma mask_of_push: "push_bit n (1 :: int) - 1 = mask n"
  by (simp add: push_bit_eq_mult mask_eq_exp_minus_1)

lemma bits_field: "lo \<le> hi \<Longrightarrow> bits x hi lo = field lo (hi - lo + 1) x"
  unfolding bits_def field_def mask_of_push take_bit_eq_mask ..

lemma and_exp_iff: "x AND 2 ^ n \<noteq> 0 \<longleftrightarrow> bit x n" for x :: int
  by (simp add: and_exp_eq_0_iff_not_bit)

lemma and_bit_iff: "x AND push_bit n 1 \<noteq> 0 \<longleftrightarrow> bit x n" for x :: int
  by (simp add: and_exp_eq_0_iff_not_bit)

lemma and_sign32_iff: "x AND 0x80000000 \<noteq> 0 \<longleftrightarrow> bit x 31" for x :: int
  using and_bit_iff [of x 31] by (simp add: push_bit_eq_mult)

lemma signed32_uint: "signed32 (uint w) = sint w" for w :: "32 word"
proof -
  have r: "0 \<le> uint w" "uint w < 2 ^ 32" using uint_lt2p [of w] by simp_all
  have s: "sint w = signed_take_bit 31 (uint w)" by (simp add: sint_uint)
  show ?thesis
  proof (cases "bit (uint w) 31")
    case True
    then have "sint w = take_bit 32 (uint w) - 2 ^ 32"
      unfolding s by (simp add: signed_take_bit_eq_take_bit_minus)
    with True r show ?thesis by (simp add: signed32_def and_sign32_iff push_bit_eq_mult take_bit_int_eq_self)
  next
    case False
    then have "sint w = take_bit 31 (uint w)" unfolding s by (simp add: signed_take_bit_def)
    moreover have "take_bit 31 (uint w) = uint w"
    proof -
      have "take_bit 32 (uint w) = take_bit 31 (uint w)"
        using False by (simp add: take_bit_Suc_from_most numeral_eq_Suc)
      then show ?thesis using r by (simp add: take_bit_int_eq_self)
    qed
    ultimately show ?thesis using False by (simp add: signed32_def and_sign32_iff)
  qed
qed

lemma sext_take_bit: "0 < n \<Longrightarrow> sext v n = take_bit 32 (signed_take_bit (n - 1) v)"
proof -
  assume n: "0 < n"
  obtain m where m: "n = Suc m" using n by (cases n) auto
  have "signed_take_bit m v = (if bit v m then take_bit (Suc m) v - 2 ^ Suc m else take_bit (Suc m) v)"
    by (cases "bit v m") (simp_all add: signed_take_bit_eq_take_bit_minus)
  moreover have "sext v n = take_bit 32 (if bit (take_bit n v) (n - 1) then take_bit n v - push_bit n 1
      else take_bit n v)"
    unfolding sext_def Let_def mask_of_push and_mask32 and_bit_iff take_bit_eq_mask [symmetric] ..
  ultimately show ?thesis by (simp add: m bit_take_bit_iff)
qed

section \<open>The models and the machine operations\<close>

lemma uint_take32: "uint w = take_bit 32 (uint w)" for w :: "32 word"
  using uint_lt2p [of w] by (simp add: take_bit_int_eq_self)

lemma uint_word_of_int32: "uint (word_of_int x :: 32 word) = take_bit 32 x"
  by (simp add: uint_word_of_int take_bit_eq_mod)

lemma shift_amount: "nat (uint b AND 0x1F) = unat (b AND 31)" for b :: "32 word"
  by (simp add: uint_and unat_eq_nat_uint)

lemma shift_amount_lt: "unat (b AND 31) < 32" for b :: "32 word"
proof -
  have "unat (b AND 31) \<le> unat (31 :: 32 word)"
    by (rule word_and_le1 [THEN word_le_nat_alt [THEN iffD1]])
  then show ?thesis by simp
qed

lemma uint_push_bit32: "uint (push_bit n w) = take_bit 32 (push_bit n (uint w))" for w :: "32 word"
  by (rule bit_eqI) (auto simp: bit_take_bit_iff bit_push_bit_iff bit_uint_iff)

lemma uint_drop_bit32: "uint (drop_bit n w) = drop_bit n (uint w)" for w :: "32 word"
  by (rule bit_eqI) (auto simp: bit_drop_bit_eq bit_uint_iff dest: bit_imp_le_length)

lemma uint_sar32: "uint (signed_drop_bit n w) = take_bit 32 (drop_bit n (sint w))" for w :: "32 word"
proof -
  have "sint (signed_drop_bit n w) = drop_bit n (sint w)"
    by (simp add: sint_signed_drop_bit_eq)
  moreover have "uint (signed_drop_bit n w) = take_bit 32 (sint (signed_drop_bit n w))"
    by (simp add: uint_sint)
  ultimately show ?thesis by simp
qed

text \<open>
  C1: the ALU reference model computes RV32's operations. On the unsigned readings of two 32-bit
  words, \<open>alu_model\<close> gives the unsigned reading of the word operation its op code names: wrap-around
  addition and subtraction, shifts by the low five bits of the second operand (arithmetic for SRA),
  signed and unsigned comparison, and 0 for op codes past \<open>ALU_COPY_A\<close>.
\<close>

theorem alu_model_word: "alu_model op (uint a) (uint b) = uint (alu_word op a b)"
proof -
  have add: "take_bit 32 (uint a + uint b) = uint (a + b)"
    by (simp add: uint_word_ariths take_bit_eq_mod)
  have sub: "take_bit 32 (uint a - uint b) = uint (a - b)"
    by (simp add: uint_word_ariths take_bit_eq_mod)
  have slt: "a <s b \<longleftrightarrow> sint a < sint b"
    by (rule word_sless_alt)
  have sltu: "uint a < uint b \<longleftrightarrow> a < b"
    by (simp add: word_less_def)
  have b: "uint (of_bool P :: 32 word) = of_bool P" for P by (cases P) simp_all
  have "op \<in> {0, 1, 2, 3, 4, 5, 6, 7, 8, 9, 10, 11} \<or> op \<notin> {0, 1, 2, 3, 4, 5, 6, 7, 8, 9, 10, 11}" by blast
  then show ?thesis
    unfolding alu_model_def alu_word_def Let_def alu_op_defs and_mask32 signed32_uint shift_amount
    by (elim disjE insertE emptyE; simp add: add sub slt sltu b uint_push_bit32 uint_sar32 uint_and uint_or
        uint_xor uint_drop_bit32)
qed

text \<open>
  Every standard entry of the Hack computation table is what the Nand2Tetris ALU computes from
  the entry's six control bits, in 16-bit arithmetic; the toolchain's extension \<open>000101\<close> is the
  exclusive or of the operands.
\<close>

theorem hack_comp_alu:
  "list_all (\<lambda>(c, f). word_of_int (f (uint d) (uint y)) =
      (if c = 0b000101 then d XOR y else hack_alu c d y)) HACK_COMP"
proof -
  have or: "- (- d - 1 AND - y - 1) - 1 = d OR y"
    by (simp flip: not_eq_complement)
  show ?thesis
    unfolding HACK_COMP_def hack_alu_def Let_def
    by (simp add: of_int_not_eq of_int_and_eq of_int_or_eq of_int_xor_eq not_eq_complement or)
qed

lemma quot_sdiv:
  "\<bar>k\<bar> div \<bar>l\<bar> * (if (k < 0) \<noteq> (l < 0) then -1 else 1) = k sdiv l" for k l :: int
  by (simp add: signed_divide_int_def sgn_if)

lemma sint_zero_iff: "sint b = 0 \<longleftrightarrow> b = 0" for b :: "32 word"
  by (metis signed_0 signed_word_eqI)

lemma overflow_sdiv: "(- (2 ^ 31)) sdiv (-1) = (2 ^ 31 :: int)"
  by (simp add: signed_divide_int_def)

lemma quot_rem_smod: "k - k sdiv l * l = k smod l" for k l :: int
  by (rule minus_sdiv_mult_eq_smod)

lemma uint_minus_1_32: "uint (- 1 :: 32 word) = 0xFFFFFFFF"
  by (simp add: unsigned_minus_1_eq_mask mask_eq_exp_minus_1)

lemma smod_one [simp]: "k smod 1 = (0 :: int)"
  by (simp add: signed_modulo_int_def)

lemma uint_mult_take32: "uint (a * b) = take_bit 32 (uint a * uint b)" for a b :: "32 word"
  by (simp add: uint_word_ariths take_bit_eq_mod)

lemma take_udivmod32:
  fixes a b :: "32 word"
  shows "take_bit 32 (uint a div uint b) = uint (a div b)" "take_bit 32 (uint a mod uint b) = uint (a mod b)"
  by (metis uint_div uint_take32, metis uint_mod uint_take32)

lemma take_sint32: "take_bit 32 (sint a) = uint a" for a :: "32 word"
  by (simp add: uint_sint)

lemma muldiv_signed_pair:
  fixes a b :: "32 word"
  shows "(if sint a = - push_bit 31 1 \<and> sint b = -1 then (sint a, 0)
          else (\<bar>sint a\<bar> div \<bar>sint b\<bar> * (if (sint a < 0) \<noteq> (sint b < 0) then -1 else 1),
                sint a - \<bar>sint a\<bar> div \<bar>sint b\<bar> * (if (sint a < 0) \<noteq> (sint b < 0) then -1 else 1) * sint b))
         = (if sint a = - (2 ^ 31) \<and> sint b = -1 then (- (2 ^ 31), 0)
            else (sint a sdiv sint b, sint a smod sint b))"
  unfolding quot_sdiv quot_rem_smod by simp

lemma sdiv_overflow_wraps:
  fixes a b :: "32 word"
  assumes "sint a = - (2 ^ 31)" "sint b = -1"
  shows "take_bit 32 (sint a sdiv sint b) = take_bit 32 (- (2 ^ 31))" "sint a smod sint b = 0"
  unfolding assms by (simp_all add: overflow_sdiv take_bit_eq_mod flip: quot_rem_smod)

lemma muldiv_mul:
  assumes "funct3 \<in> {0, 1, 2, 3}"
  shows "muldiv_model funct3 (uint a) (uint b) = uint (muldiv_word funct3 a b)"
  using assms unfolding muldiv_model_def muldiv_word_def muldiv_op_defs Let_def signed32_uint and_mask32
  by (elim insertE emptyE; simp add: uint_word_of_int32 drop_bit_eq_div uint_mult_take32)

lemma muldiv_signed:
  assumes "funct3 \<in> {4, 6}"
  shows "muldiv_model funct3 (uint a) (uint b) = uint (muldiv_word funct3 a b)"
proof (cases "b = 0")
  case True
  with assms show ?thesis
    unfolding muldiv_model_def muldiv_word_def muldiv_op_defs Let_def signed32_uint and_mask32
    by (elim insertE emptyE; simp add: uint_minus_1_32 take_sint32 mask_eq_exp_minus_1)
next
  case False
  then have "uint b \<noteq> 0" by (simp add: uint_0_iff)
  with assms False show ?thesis
    unfolding muldiv_model_def muldiv_word_def muldiv_op_defs Let_def signed32_uint muldiv_signed_pair and_mask32
    by (elim insertE emptyE; simp add: uint_word_of_int32 sdiv_overflow_wraps)
qed

lemma muldiv_unsigned:
  assumes "funct3 \<in> {5, 7}"
  shows "muldiv_model funct3 (uint a) (uint b) = uint (muldiv_word funct3 a b)"
  using assms unfolding muldiv_model_def muldiv_word_def muldiv_op_defs Let_def and_mask32
  by (elim insertE emptyE; simp add: take_udivmod32 uint_0_iff mask_eq_exp_minus_1 uint_minus_1_32 flip: uint_take32)

text \<open>
  C2: \<open>muldiv_model\<close> is RV32M. On the unsigned readings of two 32-bit words it gives the unsigned
  reading of the instruction's result: the low and the three high halves of the product, division
  and remainder that round toward zero, with division by zero and the signed overflow as the
  instruction set defines them.
\<close>

theorem muldiv_model_word:
  assumes "funct3 \<in> {0..7}"
  shows "muldiv_model funct3 (uint a) (uint b) = uint (muldiv_word funct3 a b)"
proof -
  have "funct3 \<in> {0, 1, 2, 3} \<or> funct3 \<in> {4, 6} \<or> funct3 \<in> {5, 7}" using assms by auto
  then show ?thesis by (elim disjE) (simp_all only: muldiv_mul muldiv_signed muldiv_unsigned)
qed

theorem muldiv_model_word_witness:
  "(6 :: int) \<in> {0..7} \<and>
   muldiv_model 6 (uint (0x80000000 :: 32 word)) (uint (0xFFFFFFFF :: 32 word)) = uint (muldiv_word 6 0x80000000 0xFFFFFFFF) \<and>
   muldiv_model 6 (uint (0xFFFFFFF9 :: 32 word)) (uint (2 :: 32 word)) = 0xFFFFFFFF"
  using muldiv_model_word [of 6 "0x80000000" "0xFFFFFFFF"]
  by (simp add: muldiv_model_def muldiv_op_defs Let_def signed32_def)

end
