(* ===== verification/RV32_Asm.thy ===== *)
theory RV32_Asm
  imports Unit_Models
begin

text \<open>
  The RV32 assembler of \<^verbatim>\<open>src/sim/integration/rv32_asm.py\<close>: the register and CSR tables, one
  encoder per instruction format, and the two-pass class \<open>Asm\<close>.

  \<open>Asm\<close>'s state is the record \<open>asm\<close>. Its list \<open>_items\<close> holds words and closures over labels; a
  closure is one constructor of \<open>item\<close> per place that makes one, and calling it is \<open>resolve\<close>. A
  method is the list of its effects on the object (\<open>asm_op\<close>: append an item, define a label), so a
  program that calls methods in sequence is the concatenation of their lists; \<open>exec\<close> performs the
  effects in order and stops at the first exception.
\<close>

section \<open>Registers, CSRs and instruction formats\<close>

definition REGS :: "(string \<times> int) list" where
  "REGS =
     zip [''x0'', ''x1'', ''x2'', ''x3'', ''x4'', ''x5'', ''x6'', ''x7'',
          ''x8'', ''x9'', ''x10'', ''x11'', ''x12'', ''x13'', ''x14'', ''x15'',
          ''x16'', ''x17'', ''x18'', ''x19'', ''x20'', ''x21'', ''x22'', ''x23'',
          ''x24'', ''x25'', ''x26'', ''x27'', ''x28'', ''x29'', ''x30'', ''x31''] [0..31] @
     zip [''zero'', ''ra'', ''sp'', ''gp'', ''tp'', ''t0'', ''t1'', ''t2'',
          ''s0'', ''s1'', ''a0'', ''a1'', ''a2'', ''a3'', ''a4'', ''a5'', ''a6'', ''a7'',
          ''s2'', ''s3'', ''s4'', ''s5'', ''s6'', ''s7'', ''s8'', ''s9'', ''s10'', ''s11'',
          ''t3'', ''t4'', ''t5'', ''t6''] [0..31] @
     [(''fp'', 8)]"

definition CSRS :: "(string \<times> int) list" where
  "CSRS =
     [(''mstatus'', 0x300), (''mie'', 0x304), (''mtvec'', 0x305), (''misa'', 0x301),
      (''mscratch'', 0x340), (''mepc'', 0x341), (''mcause'', 0x342), (''mtval'', 0x343),
      (''mip'', 0x344), (''mcycle'', 0xB00), (''minstret'', 0xB02), (''mcycleh'', 0xB80),
      (''minstreth'', 0xB82), (''cycle'', 0xC00), (''time'', 0xC01), (''instret'', 0xC02),
      (''cycleh'', 0xC80), (''timeh'', 0xC81), (''instreth'', 0xC82)]"

definition reg_r :: "string \<Rightarrow> int result" where
  "reg_r name = rlookup REGS name"

definition signed_fits :: "int \<Rightarrow> nat \<Rightarrow> bool" where
  "signed_fits value n \<longleftrightarrow> - push_bit (n - 1) 1 \<le> value \<and> value < push_bit (n - 1) 1"

definition r_type :: "int \<Rightarrow> string \<Rightarrow> string \<Rightarrow> int \<Rightarrow> string \<Rightarrow> int \<Rightarrow> int result" where
  "r_type funct7 rs2 rs1 funct3 rd opcode =
     rbind (reg_r rs2) (\<lambda>b. rbind (reg_r rs1) (\<lambda>a. rbind (reg_r rd) (\<lambda>d.
       Inr (push_bit 25 funct7 OR push_bit 20 b OR push_bit 15 a OR push_bit 12 funct3 OR
            push_bit 7 d OR opcode))))"

definition i_type :: "int \<Rightarrow> string \<Rightarrow> int \<Rightarrow> string \<Rightarrow> int \<Rightarrow> int result" where
  "i_type imm rs1 funct3 rd opcode =
     rassert (signed_fits imm 12)
       (rbind (reg_r rs1) (\<lambda>a. rbind (reg_r rd) (\<lambda>d.
         Inr (push_bit 20 (imm AND 0xFFF) OR push_bit 15 a OR push_bit 12 funct3 OR
              push_bit 7 d OR opcode))))"

definition s_type :: "int \<Rightarrow> string \<Rightarrow> string \<Rightarrow> int \<Rightarrow> int result" where
  "s_type imm rs2 rs1 funct3 =
     rassert (signed_fits imm 12)
       (let imm = imm AND 0xFFF in
        rbind (reg_r rs2) (\<lambda>b. rbind (reg_r rs1) (\<lambda>a.
          Inr (push_bit 25 (drop_bit 5 imm) OR push_bit 20 b OR push_bit 15 a OR push_bit 12 funct3 OR
               push_bit 7 (imm AND 0x1F) OR 0x23))))"

definition b_type :: "int \<Rightarrow> string \<Rightarrow> string \<Rightarrow> int \<Rightarrow> int result" where
  "b_type offset rs2 rs1 funct3 =
     rassert (offset mod 2 = 0 \<and> signed_fits offset 13)
       (let o' = offset AND 0x1FFF in
        rbind (reg_r rs2) (\<lambda>b. rbind (reg_r rs1) (\<lambda>a.
          Inr (push_bit 31 (drop_bit 12 o' AND 1) OR push_bit 25 (drop_bit 5 o' AND 0x3F) OR
               push_bit 20 b OR push_bit 15 a OR push_bit 12 funct3 OR
               push_bit 8 (drop_bit 1 o' AND 0xF) OR push_bit 7 (drop_bit 11 o' AND 1) OR 0x63))))"

definition u_type :: "int \<Rightarrow> string \<Rightarrow> int \<Rightarrow> int result" where
  "u_type imm20 rd opcode =
     rbind (reg_r rd) (\<lambda>d. Inr (push_bit 12 (imm20 AND 0xFFFFF) OR push_bit 7 d OR opcode))"

definition j_type :: "int \<Rightarrow> string \<Rightarrow> int result" where
  "j_type offset rd =
     rassert (offset mod 2 = 0 \<and> signed_fits offset 21)
       (let o' = offset AND 0x1FFFFF in
        rbind (reg_r rd) (\<lambda>d.
          Inr (push_bit 31 (drop_bit 20 o' AND 1) OR push_bit 21 (drop_bit 1 o' AND 0x3FF) OR
               push_bit 20 (drop_bit 11 o' AND 1) OR push_bit 12 (drop_bit 12 o' AND 0xFF) OR
               push_bit 7 d OR 0x6F)))"

definition lo12 :: "int \<Rightarrow> int" where
  "lo12 value = (let lo = value AND 0xFFF in if lo AND 0x800 \<noteq> 0 then lo - 0x1000 else lo)"

definition hi20 :: "int \<Rightarrow> int" where
  "hi20 value = drop_bit 12 (value - lo12 value) AND 0xFFFFF"

section \<open>The assembler object\<close>

datatype item =
    Word int
  | BranchTo int string string string
  | JalTo string string
  | LaHi string string
  | LaLo string string

record asm =
  origin :: int
  items :: "item list"
  labels :: "(string \<times> int) list"

datatype asm_op = Emit "item result" | Label string

type_synonym asm_code = "asm_op list"

definition asm_new :: "int \<Rightarrow> asm" where
  "asm_new org = \<lparr>origin = org, items = [], labels = []\<rparr>"

definition pc :: "asm \<Rightarrow> int" where
  "pc a = origin a + 4 * int (length (items a))"

fun exec_op :: "asm_op \<Rightarrow> asm \<Rightarrow> asm result" where
  "exec_op (Emit r) a = rbind r (\<lambda>i. Inr (a\<lparr>items := items a @ [i]\<rparr>))"
| "exec_op (Label name) a =
     rassert (name \<notin> fst ` set (labels a)) (Inr (a\<lparr>labels := labels a @ [(name, pc a)]\<rparr>))"

fun exec :: "asm_code \<Rightarrow> asm \<Rightarrow> asm result" where
  "exec [] a = Inr a"
| "exec (op # ops) a = rbind (exec_op op a) (exec ops)"

text \<open>\<open>item(pc, self.labels) if callable(item) else item\<close>.\<close>

fun resolve :: "(string \<times> int) list \<Rightarrow> int \<Rightarrow> item \<Rightarrow> int result" where
  "resolve ls at (Word w) = Inr w"
| "resolve ls at (BranchTo funct3 rs1 rs2 target) =
     rbind (rlookup ls target) (\<lambda>t. b_type (t - at) rs2 rs1 funct3)"
| "resolve ls at (JalTo rd target) = rbind (rlookup ls target) (\<lambda>t. j_type (t - at) rd)"
| "resolve ls at (LaHi rd target) = rbind (rlookup ls target) (\<lambda>t. u_type (hi20 t) rd 0x37)"
| "resolve ls at (LaLo rd target) = rbind (rlookup ls target) (\<lambda>t. i_type (lo12 t) rd 0 rd 0x13)"

definition assemble :: "asm \<Rightarrow> int list result" where
  "assemble a = rmapM (\<lambda>(i, item). resolve (labels a) (origin a + 4 * int i) item) (enumerate 0 (items a))"

text \<open>\<open>a = Asm(origin)\<close>, the method calls, \<open>a.assemble()\<close>.\<close>

definition build :: "int \<Rightarrow> asm_code \<Rightarrow> int list result" where
  "build org code = rbind (exec code (asm_new org)) assemble"

section \<open>Methods\<close>

definition rv_label :: "string \<Rightarrow> asm_code" where
  "rv_label name = [Label name]"

definition emit :: "int result \<Rightarrow> asm_code" where
  "emit w = [Emit (rmap Word w)]"

definition rv_word :: "int \<Rightarrow> asm_code" where
  "rv_word value = [Emit (Inr (Word (value AND 0xFFFFFFFF)))]"

definition rv_lui :: "string \<Rightarrow> int \<Rightarrow> asm_code" where
  "rv_lui rd imm20 = emit (u_type imm20 rd 0x37)"

definition rv_auipc :: "string \<Rightarrow> int \<Rightarrow> asm_code" where
  "rv_auipc rd imm20 = emit (u_type imm20 rd 0x17)"

definition rv_addi :: "string \<Rightarrow> string \<Rightarrow> int \<Rightarrow> asm_code" where
  "rv_addi rd rs1 imm = emit (i_type imm rs1 0 rd 0x13)"

definition rv_andi :: "string \<Rightarrow> string \<Rightarrow> int \<Rightarrow> asm_code" where
  "rv_andi rd rs1 imm = emit (i_type imm rs1 7 rd 0x13)"

definition rv_ori :: "string \<Rightarrow> string \<Rightarrow> int \<Rightarrow> asm_code" where
  "rv_ori rd rs1 imm = emit (i_type imm rs1 6 rd 0x13)"

definition rv_slli :: "string \<Rightarrow> string \<Rightarrow> int \<Rightarrow> asm_code" where
  "rv_slli rd rs1 shamt = emit (i_type shamt rs1 1 rd 0x13)"

definition rv_add :: "string \<Rightarrow> string \<Rightarrow> string \<Rightarrow> asm_code" where
  "rv_add rd rs1 rs2 = emit (r_type 0 rs2 rs1 0 rd 0x33)"

definition rv_sub :: "string \<Rightarrow> string \<Rightarrow> string \<Rightarrow> asm_code" where
  "rv_sub rd rs1 rs2 = emit (r_type 0x20 rs2 rs1 0 rd 0x33)"

definition MUL_OPS :: "string list" where
  "MUL_OPS = [''mul'', ''mulh'', ''mulhsu'', ''mulhu'', ''div'', ''divu'', ''rem'', ''remu'']"

text \<open>\<open>MUL_OPS.index(name)\<close>: \<open>ValueError\<close> for a name that is not there.\<close>

definition mul_index :: "string \<Rightarrow> int result" where
  "mul_index name = (case map_of (zip MUL_OPS [0..7]) name of None \<Rightarrow> Inl ValueError | Some i \<Rightarrow> Inr i)"

definition rv_muldiv :: "string \<Rightarrow> string \<Rightarrow> string \<Rightarrow> string \<Rightarrow> asm_code" where
  "rv_muldiv name rd rs1 rs2 = emit (rbind (mul_index name) (\<lambda>f. r_type 1 rs2 rs1 f rd 0x33))"

definition rv_lw :: "string \<Rightarrow> int \<Rightarrow> string \<Rightarrow> asm_code" where
  "rv_lw rd imm rs1 = emit (i_type imm rs1 2 rd 0x03)"

definition rv_lb :: "string \<Rightarrow> int \<Rightarrow> string \<Rightarrow> asm_code" where
  "rv_lb rd imm rs1 = emit (i_type imm rs1 0 rd 0x03)"

definition rv_lbu :: "string \<Rightarrow> int \<Rightarrow> string \<Rightarrow> asm_code" where
  "rv_lbu rd imm rs1 = emit (i_type imm rs1 4 rd 0x03)"

definition rv_lh :: "string \<Rightarrow> int \<Rightarrow> string \<Rightarrow> asm_code" where
  "rv_lh rd imm rs1 = emit (i_type imm rs1 1 rd 0x03)"

definition rv_sw :: "string \<Rightarrow> int \<Rightarrow> string \<Rightarrow> asm_code" where
  "rv_sw rs2 imm rs1 = emit (s_type imm rs2 rs1 2)"

definition rv_sh :: "string \<Rightarrow> int \<Rightarrow> string \<Rightarrow> asm_code" where
  "rv_sh rs2 imm rs1 = emit (s_type imm rs2 rs1 1)"

definition rv_sb :: "string \<Rightarrow> int \<Rightarrow> string \<Rightarrow> asm_code" where
  "rv_sb rs2 imm rs1 = emit (s_type imm rs2 rs1 0)"

definition rv_branch :: "int \<Rightarrow> string \<Rightarrow> string \<Rightarrow> string \<Rightarrow> asm_code" where
  "rv_branch funct3 rs1 rs2 target = [Emit (Inr (BranchTo funct3 rs1 rs2 target))]"

definition rv_beq :: "string \<Rightarrow> string \<Rightarrow> string \<Rightarrow> asm_code" where
  "rv_beq rs1 rs2 target = rv_branch 0 rs1 rs2 target"

definition rv_bne :: "string \<Rightarrow> string \<Rightarrow> string \<Rightarrow> asm_code" where
  "rv_bne rs1 rs2 target = rv_branch 1 rs1 rs2 target"

definition rv_bltu :: "string \<Rightarrow> string \<Rightarrow> string \<Rightarrow> asm_code" where
  "rv_bltu rs1 rs2 target = rv_branch 6 rs1 rs2 target"

definition rv_bgeu :: "string \<Rightarrow> string \<Rightarrow> string \<Rightarrow> asm_code" where
  "rv_bgeu rs1 rs2 target = rv_branch 7 rs1 rs2 target"

definition rv_jal :: "string \<Rightarrow> string \<Rightarrow> asm_code" where
  "rv_jal rd target = [Emit (Inr (JalTo rd target))]"

definition rv_jalr :: "string \<Rightarrow> string \<Rightarrow> int \<Rightarrow> asm_code" where
  "rv_jalr rd rs1 imm = emit (i_type imm rs1 0 rd 0x67)"

text \<open>The CSR instructions: an I-type word with the CSR's number over its zero immediate.\<close>

definition csr_word :: "int result \<Rightarrow> string \<Rightarrow> int result" where
  "csr_word w csr = rbind w (\<lambda>v. rbind (rlookup CSRS csr) (\<lambda>n. Inr (v OR push_bit 20 n)))"

definition rv_csrrw :: "string \<Rightarrow> string \<Rightarrow> string \<Rightarrow> asm_code" where
  "rv_csrrw rd csr rs1 = emit (csr_word (i_type 0 rs1 1 rd 0x73) csr)"

definition rv_csrrs :: "string \<Rightarrow> string \<Rightarrow> string \<Rightarrow> asm_code" where
  "rv_csrrs rd csr rs1 = emit (csr_word (i_type 0 rs1 2 rd 0x73) csr)"

definition rv_mret :: asm_code where "rv_mret = emit (Inr 0x30200073)"

definition rv_amo :: "int \<Rightarrow> string \<Rightarrow> string \<Rightarrow> string \<Rightarrow> asm_code" where
  "rv_amo funct5 rd rs2 rs1 = emit (r_type (push_bit 2 funct5) rs2 rs1 2 rd 0x2F)"

definition rv_wfi :: asm_code where "rv_wfi = emit (Inr 0x10500073)"

definition rv_ecall :: asm_code where "rv_ecall = emit (Inr 0x00000073)"

definition rv_ebreak :: asm_code where "rv_ebreak = emit (Inr 0x00100073)"

definition rv_li :: "string \<Rightarrow> int \<Rightarrow> asm_code" where
  "rv_li rd value =
     (let value = value AND 0xFFFFFFFF;
          signed = (if value AND 0x80000000 \<noteq> 0 then value - push_bit 32 1 else value)
      in if signed_fits signed 12 then rv_addi rd ''zero'' signed
         else let lo = value AND 0xFFF;
                  lo = (if lo AND 0x800 \<noteq> 0 then lo - 0x1000 else lo)
              in rv_lui rd (drop_bit 12 (value - lo) AND 0xFFFFF) @
                 (if lo \<noteq> 0 then rv_addi rd rd lo else []))"

definition rv_la :: "string \<Rightarrow> string \<Rightarrow> asm_code" where
  "rv_la rd target = [Emit (Inr (LaHi rd target)), Emit (Inr (LaLo rd target))]"

definition rv_mv :: "string \<Rightarrow> string \<Rightarrow> asm_code" where
  "rv_mv rd rs = rv_addi rd rs 0"

definition rv_nop :: asm_code where
  "rv_nop = rv_addi ''zero'' ''zero'' 0"

definition rv_j :: "string \<Rightarrow> asm_code" where
  "rv_j target = rv_jal ''zero'' target"

definition rv_call :: "string \<Rightarrow> asm_code" where
  "rv_call target = rv_jal ''ra'' target"

definition rv_ret :: asm_code where
  "rv_ret = rv_jalr ''zero'' ''ra'' 0"

definition rv_beqz :: "string \<Rightarrow> string \<Rightarrow> asm_code" where
  "rv_beqz rs target = rv_beq rs ''zero'' target"

definition rv_bnez :: "string \<Rightarrow> string \<Rightarrow> asm_code" where
  "rv_bnez rs target = rv_bne rs ''zero'' target"

definition rv_csrw :: "string \<Rightarrow> string \<Rightarrow> asm_code" where
  "rv_csrw csr rs = rv_csrrw ''zero'' csr rs"

definition rv_csrr :: "string \<Rightarrow> string \<Rightarrow> asm_code" where
  "rv_csrr rd csr = rv_csrrs rd csr ''zero''"

definition rv_csrs :: "string \<Rightarrow> string \<Rightarrow> asm_code" where
  "rv_csrs csr rs = rv_csrrs ''zero'' csr rs"

definition rv_csrc :: "string \<Rightarrow> string \<Rightarrow> asm_code" where
  "rv_csrc csr rs = emit (csr_word (i_type 0 rs 3 ''zero'' 0x73) csr)"

lemmas rv_defs = rv_label_def emit_def rv_word_def rv_lui_def rv_auipc_def rv_addi_def rv_andi_def
  rv_ori_def rv_slli_def rv_add_def rv_sub_def rv_muldiv_def rv_lw_def rv_lb_def rv_lbu_def rv_lh_def
  rv_sw_def rv_sh_def rv_sb_def rv_branch_def rv_beq_def rv_bne_def rv_bltu_def rv_bgeu_def rv_jal_def
  rv_jalr_def rv_csrrw_def rv_csrrs_def rv_mret_def rv_amo_def rv_wfi_def rv_ecall_def rv_ebreak_def
  rv_la_def rv_mv_def rv_nop_def rv_j_def rv_call_def rv_ret_def rv_beqz_def rv_bnez_def rv_csrw_def
  rv_csrr_def rv_csrs_def rv_csrc_def

end
