(* ===== verification/RV32_Decode.thy ===== *)
theory RV32_Decode
  imports RV32_Asm
begin

text \<open>
  What the assembler of \<open>RV32_Asm\<close> encodes, read back with the decoder's reference model
  (\<open>bits\<close> and \<open>imm_model\<close> of \<open>Unit_Models\<close>): per format the opcode, register, function and
  immediate fields; branches and jumps that reach their label; the constant \<open>li\<close> and the address
  \<open>la\<close> leaves in its register.
\<close>

section \<open>The register table\<close>

lemma reg_simps [simp]:
  "reg_r ''x0'' = Inr 0" "reg_r ''x1'' = Inr 1" "reg_r ''x2'' = Inr 2" "reg_r ''x3'' = Inr 3"
  "reg_r ''x4'' = Inr 4" "reg_r ''x5'' = Inr 5" "reg_r ''x6'' = Inr 6" "reg_r ''x7'' = Inr 7"
  "reg_r ''x8'' = Inr 8" "reg_r ''x9'' = Inr 9" "reg_r ''x10'' = Inr 10" "reg_r ''x11'' = Inr 11"
  "reg_r ''x12'' = Inr 12" "reg_r ''x13'' = Inr 13" "reg_r ''x14'' = Inr 14" "reg_r ''x15'' = Inr 15"
  "reg_r ''x16'' = Inr 16" "reg_r ''x17'' = Inr 17" "reg_r ''x18'' = Inr 18" "reg_r ''x19'' = Inr 19"
  "reg_r ''x20'' = Inr 20" "reg_r ''x21'' = Inr 21" "reg_r ''x22'' = Inr 22" "reg_r ''x23'' = Inr 23"
  "reg_r ''x24'' = Inr 24" "reg_r ''x25'' = Inr 25" "reg_r ''x26'' = Inr 26" "reg_r ''x27'' = Inr 27"
  "reg_r ''x28'' = Inr 28" "reg_r ''x29'' = Inr 29" "reg_r ''x30'' = Inr 30" "reg_r ''x31'' = Inr 31"
  "reg_r ''zero'' = Inr 0" "reg_r ''ra'' = Inr 1" "reg_r ''sp'' = Inr 2" "reg_r ''gp'' = Inr 3"
  "reg_r ''tp'' = Inr 4" "reg_r ''t0'' = Inr 5" "reg_r ''t1'' = Inr 6" "reg_r ''t2'' = Inr 7"
  "reg_r ''s0'' = Inr 8" "reg_r ''s1'' = Inr 9" "reg_r ''a0'' = Inr 10" "reg_r ''a1'' = Inr 11"
  "reg_r ''a2'' = Inr 12" "reg_r ''a3'' = Inr 13" "reg_r ''a4'' = Inr 14" "reg_r ''a5'' = Inr 15"
  "reg_r ''a6'' = Inr 16" "reg_r ''a7'' = Inr 17" "reg_r ''s2'' = Inr 18" "reg_r ''s3'' = Inr 19"
  "reg_r ''s4'' = Inr 20" "reg_r ''s5'' = Inr 21" "reg_r ''s6'' = Inr 22" "reg_r ''s7'' = Inr 23"
  "reg_r ''s8'' = Inr 24" "reg_r ''s9'' = Inr 25" "reg_r ''s10'' = Inr 26" "reg_r ''s11'' = Inr 27"
  "reg_r ''t3'' = Inr 28" "reg_r ''t4'' = Inr 29" "reg_r ''t5'' = Inr 30" "reg_r ''t6'' = Inr 31"
  "reg_r ''fp'' = Inr 8"
  unfolding reg_r_def rlookup_def REGS_def by (simp_all add: upto_rec1)

lemma REGS_range: "list_all (\<lambda>(_, k). 0 \<le> k \<and> k < 32) REGS"
  unfolding REGS_def by (simp add: upto_rec1)

lemma reg_r_range: "reg_r n = Inr k \<Longrightarrow> 0 \<le> k \<and> k < 32"
  using REGS_range
  by (auto simp: reg_r_def rlookup_def list_all_iff split: option.splits dest!: map_of_SomeD)

lemma reg_r_KeyError: "reg_r n = Inl e \<Longrightarrow> e = KeyError"
  by (auto simp: reg_r_def rlookup_def split: option.splits)

section \<open>The fields of an encoded word\<close>

lemma and_masks:
  "x AND 1 = take_bit 1 (x :: int)" "x AND 0xF = take_bit 4 x" "x AND 0x1F = take_bit 5 x"
  "x AND 0x3F = take_bit 6 x" "x AND 0x7F = take_bit 7 x" "x AND 0xFF = take_bit 8 x"
  "x AND 0x3FF = take_bit 10 x" "x AND 0xFFF = take_bit 12 x" "x AND 0x1FFF = take_bit 13 x"
  "x AND 0xFFFFF = take_bit 20 x" "x AND 0x1FFFFF = take_bit 21 x"
  by (simp_all add: take_bit_eq_mask mask_eq_exp_minus_1)

lemma drop_bit_of_take_bit: "drop_bit m (take_bit n x) = field m (n - m) (x :: int)"
  by (simp add: field_def drop_bit_take_bit)

lemma take_bit_field: "take_bit k (field m n x) = field m (min k n) x"
  by (simp add: field_def)

lemmas word_field_simps = bits_field and_masks drop_bit_of_take_bit take_bit_field field_simps_bits
  field_0_small

lemma r_type_fields:
  assumes "r_type funct7 rs2 rs1 funct3 rd opcode = Inr w"
    and "fits 7 funct7" "fits 3 funct3" "fits 7 opcode"
  shows "w AND 0x7F = opcode \<and> reg_r rd = Inr (bits w 11 7) \<and> bits w 14 12 = funct3 \<and>
    reg_r rs1 = Inr (bits w 19 15) \<and> reg_r rs2 = Inr (bits w 24 20) \<and> bits w 31 25 = funct7"
  using assms reg_r_range [of rs1] reg_r_range [of rs2] reg_r_range [of rd]
  by (auto simp: r_type_def fits_def word_field_simps simp flip: field_0)

lemma i_type_fields:
  assumes "i_type imm rs1 funct3 rd opcode = Inr w" and "fits 3 funct3" "fits 7 opcode"
  shows "w AND 0x7F = opcode \<and> reg_r rd = Inr (bits w 11 7) \<and> bits w 14 12 = funct3 \<and>
    reg_r rs1 = Inr (bits w 19 15) \<and> bits w 31 20 = take_bit 12 imm"
  using assms reg_r_range [of rs1] reg_r_range [of rd]
  by (auto simp: i_type_def fits_def word_field_simps simp flip: field_0)

lemma s_type_fields:
  assumes "s_type imm rs2 rs1 funct3 = Inr w" and "fits 3 funct3"
  shows "w AND 0x7F = 0x23 \<and> bits w 14 12 = funct3 \<and> reg_r rs1 = Inr (bits w 19 15) \<and>
    reg_r rs2 = Inr (bits w 24 20) \<and> bits w 31 25 = field 5 7 imm \<and> bits w 11 7 = take_bit 5 imm"
  using assms reg_r_range [of rs1] reg_r_range [of rs2]
  by (auto simp: s_type_def fits_def Let_def word_field_simps simp flip: field_0)

lemma b_type_fields:
  assumes "b_type offset rs2 rs1 funct3 = Inr w" and "fits 3 funct3"
  shows "w AND 0x7F = 0x63 \<and> bits w 14 12 = funct3 \<and> reg_r rs1 = Inr (bits w 19 15) \<and>
    reg_r rs2 = Inr (bits w 24 20) \<and> bits w 31 31 = field 12 1 offset \<and> bits w 30 25 = field 5 6 offset \<and>
    bits w 11 8 = field 1 4 offset \<and> bits w 7 7 = field 11 1 offset"
  using assms reg_r_range [of rs1] reg_r_range [of rs2]
  by (auto simp: b_type_def fits_def Let_def word_field_simps simp flip: field_0)

lemma u_type_fields:
  assumes "u_type imm20 rd opcode = Inr w" and "fits 7 opcode"
  shows "w AND 0x7F = opcode \<and> reg_r rd = Inr (bits w 11 7) \<and> bits w 31 12 = take_bit 20 imm20"
  using assms reg_r_range [of rd]
  by (auto simp: u_type_def fits_def word_field_simps simp flip: field_0)

lemma j_type_fields:
  assumes "j_type offset rd = Inr w"
  shows "w AND 0x7F = 0x6F \<and> reg_r rd = Inr (bits w 11 7) \<and> bits w 31 31 = field 20 1 offset \<and>
    bits w 30 21 = field 1 10 offset \<and> bits w 20 20 = field 11 1 offset \<and> bits w 19 12 = field 12 8 offset"
  using assms reg_r_range [of rd]
  by (auto simp: j_type_def Let_def word_field_simps simp flip: field_0)

section \<open>Immediates\<close>

lemma bit_push_field: "bit (push_bit lo (field lo n x)) i \<longleftrightarrow> lo \<le> i \<and> i < lo + n \<and> bit x i"
  by (auto simp: bit_push_bit_iff bit_field_iff)

lemma join_s: "push_bit 5 (field 5 7 x) OR take_bit 5 x = take_bit 12 (x :: int)"
  by (rule bit_eqI) (auto simp: bit_or_iff bit_push_field bit_take_bit_iff)

lemma join_b:
  assumes "x mod 2 = 0"
  shows "push_bit 12 (field 12 1 x) OR push_bit 11 (field 11 1 x) OR push_bit 5 (field 5 6 x) OR
    push_bit 1 (field 1 4 x) = take_bit 13 (x :: int)"
proof (rule bit_eqI)
  fix i
  have "\<not> bit x 0" using assms by (simp add: bit_0 even_iff_mod_2_eq_zero)
  then show "bit (push_bit 12 (field 12 1 x) OR push_bit 11 (field 11 1 x) OR push_bit 5 (field 5 6 x) OR
    push_bit 1 (field 1 4 x)) i = bit (take_bit 13 x) i"
    unfolding bit_or_iff bit_push_field bit_take_bit_iff by (cases "i = 0") (auto simp del: bit_0)
qed

lemma join_j:
  assumes "x mod 2 = 0"
  shows "push_bit 20 (field 20 1 x) OR push_bit 12 (field 12 8 x) OR push_bit 11 (field 11 1 x) OR
    push_bit 1 (field 1 10 x) = take_bit 21 (x :: int)"
proof (rule bit_eqI)
  fix i
  have "\<not> bit x 0" using assms by (simp add: bit_0 even_iff_mod_2_eq_zero)
  then show "bit (push_bit 20 (field 20 1 x) OR push_bit 12 (field 12 8 x) OR push_bit 11 (field 11 1 x) OR
    push_bit 1 (field 1 10 x)) i = bit (take_bit 21 x) i"
    unfolding bit_or_iff bit_push_field bit_take_bit_iff by (cases "i = 0") (auto simp del: bit_0)
qed

lemma sext_take_bit_signed: "0 < n \<Longrightarrow> signed_fits v n \<Longrightarrow> sext (take_bit n v) n = take_bit 32 v"
  by (simp add: sext_take_bit signed_take_bit_take_bit signed_take_bit_int_eq_self signed_fits_def)

lemma i_type_fits: "i_type imm rs1 funct3 rd opcode = Inr w \<Longrightarrow> signed_fits imm 12"
  by (simp add: i_type_def)

lemma s_type_fits: "s_type imm rs2 rs1 funct3 = Inr w \<Longrightarrow> signed_fits imm 12"
  by (simp add: s_type_def)

lemma b_type_fits: "b_type offset rs2 rs1 funct3 = Inr w \<Longrightarrow> offset mod 2 = 0 \<and> signed_fits offset 13"
  by (simp add: b_type_def)

lemma j_type_fits: "j_type offset rd = Inr w \<Longrightarrow> offset mod 2 = 0 \<and> signed_fits offset 21"
  by (simp add: j_type_def)

lemma imm_model_i:
  assumes "i_type imm rs1 funct3 rd opcode = Inr w" "fits 3 funct3" "opcode \<in> {0x13, 0x03, 0x67}"
  shows "imm_model w = take_bit 32 imm"
proof -
  have "fits 7 opcode" using assms(3) by (auto simp: fits_def)
  note f = i_type_fields [OF assms(1,2) this]
  then show ?thesis
    using assms(3) i_type_fits [OF assms(1)] by (simp add: imm_model_def Let_def sext_take_bit_signed)
qed

lemma imm_model_s:
  assumes "s_type imm rs2 rs1 funct3 = Inr w" "fits 3 funct3"
  shows "imm_model w = take_bit 32 imm"
  using s_type_fields [OF assms] s_type_fits [OF assms(1)]
  by (simp add: imm_model_def Let_def join_s sext_take_bit_signed)

lemma imm_model_b:
  assumes "b_type offset rs2 rs1 funct3 = Inr w" "fits 3 funct3"
  shows "imm_model w = take_bit 32 offset"
  using b_type_fields [OF assms] b_type_fits [OF assms(1)]
  by (simp add: imm_model_def Let_def join_b sext_take_bit_signed del: One_nat_def)

lemma imm_model_j:
  assumes "j_type offset rd = Inr w"
  shows "imm_model w = take_bit 32 offset"
  using j_type_fields [OF assms] j_type_fits [OF assms]
  by (simp add: imm_model_def Let_def join_j sext_take_bit_signed del: One_nat_def)

lemma u_imm: "w AND 0xFFFFF000 = push_bit 12 (field 12 20 (w :: int))"
proof -
  have m: "(0xFFFFF000 :: int) = push_bit 12 (mask 20)" by (simp add: push_bit_eq_mult mask_eq_exp_minus_1)
  show ?thesis unfolding m
    by (rule bit_eqI) (auto simp: bit_and_iff bit_push_bit_iff bit_mask_iff bit_field_iff)
qed

lemma imm_model_u:
  assumes "u_type imm20 rd opcode = Inr w" "opcode \<in> {0x37, 0x17}"
  shows "imm_model w = push_bit 12 (take_bit 20 imm20)"
proof -
  have "fits 7 opcode" using assms(2) by (auto simp: fits_def)
  note f = u_type_fields [OF assms(1) this]
  then have "field 12 20 w = take_bit 20 imm20" by (simp add: bits_field)
  with f assms(2) show ?thesis by (auto simp: imm_model_def Let_def u_imm)
qed

end
