(* ===== verification/RV32_Layout.thy ===== *)
theory RV32_Layout
  imports RV32_Decode
begin

text \<open>
  Two-pass assembly in one view: what a sequence of method calls leaves in the assembler (its items
  and label addresses), when assembling succeeds, and where the words and branch targets are.
  The checker \<open>code_ok\<close> evaluates on a concrete program; \<open>build_ok\<close> turns it into the result of
  \<open>exec\<close> and \<open>assemble\<close>.
\<close>

section \<open>Words of 32 bits\<close>

definition is_reg :: "string \<Rightarrow> bool" where
  "is_reg n \<longleftrightarrow> (\<exists>k. reg_r n = Inr k)"

definition enc_ok :: "int result \<Rightarrow> bool" where
  "enc_ok r \<longleftrightarrow> (\<exists>w. r = Inr w \<and> fits 32 w)"

lemma reg_fits: "reg_r n = Inr k \<Longrightarrow> fits 5 k"
  using reg_r_range [of n k] by (simp add: fits_def)

lemma is_reg_fits: "is_reg n \<longleftrightarrow> (\<exists>k. reg_r n = Inr k \<and> fits 5 k)"
  by (auto simp: is_reg_def dest: reg_fits)

lemmas fits_intros = fits_or fits_push fits_take fits_field

lemma r_type_ok:
  assumes "is_reg rs2" "is_reg rs1" "is_reg rd" "fits 7 funct7" "fits 3 funct3" "fits 7 opcode"
  shows "enc_ok (r_type funct7 rs2 rs1 funct3 rd opcode)"
  using assms unfolding enc_ok_def is_reg_fits r_type_def
  by (auto simp: fits_weaken intro!: fits_intros)

lemma i_type_ok:
  assumes "signed_fits imm 12" "is_reg rs1" "is_reg rd" "fits 3 funct3" "fits 7 opcode"
  shows "enc_ok (i_type imm rs1 funct3 rd opcode)"
  using assms unfolding enc_ok_def is_reg_fits i_type_def
  by (auto simp: and_masks fits_weaken intro!: fits_intros)

lemma s_type_ok:
  assumes "signed_fits imm 12" "is_reg rs2" "is_reg rs1" "fits 3 funct3"
  shows "enc_ok (s_type imm rs2 rs1 funct3)"
  using assms unfolding enc_ok_def is_reg_fits s_type_def Let_def
  by (auto simp: and_masks drop_bit_of_take_bit fits_weaken intro!: fits_intros)

lemma b_type_ok:
  assumes "offset mod 2 = 0" "signed_fits offset 13" "is_reg rs2" "is_reg rs1" "fits 3 funct3"
  shows "enc_ok (b_type offset rs2 rs1 funct3)"
  using assms unfolding enc_ok_def is_reg_fits b_type_def Let_def
  by (auto simp: and_masks drop_bit_of_take_bit take_bit_field fits_weaken intro!: fits_intros
     )

lemma u_type_ok:
  assumes "is_reg rd" "fits 7 opcode"
  shows "enc_ok (u_type imm20 rd opcode)"
  using assms unfolding enc_ok_def is_reg_fits u_type_def
  by (auto simp: and_masks fits_weaken intro!: fits_intros)

lemma j_type_ok:
  assumes "offset mod 2 = 0" "signed_fits offset 21" "is_reg rd"
  shows "enc_ok (j_type offset rd)"
  using assms unfolding enc_ok_def is_reg_fits j_type_def Let_def
  by (auto simp: and_masks drop_bit_of_take_bit take_bit_field fits_weaken intro!: fits_intros
     )

lemma CSRS_range: "rlookup CSRS csr = Inr n \<Longrightarrow> fits 12 n"
proof -
  have "list_all (\<lambda>(_, n). fits 12 n) CSRS" by (simp add: CSRS_def)
  then show "rlookup CSRS csr = Inr n \<Longrightarrow> fits 12 n"
    by (auto simp: rlookup_def list_all_iff split: option.splits dest!: map_of_SomeD)
qed

lemma csr_word_ok: "enc_ok r \<Longrightarrow> \<not> isl (rlookup CSRS csr) \<Longrightarrow> enc_ok (csr_word r csr)"
  unfolding enc_ok_def csr_word_def
  by (cases "rlookup CSRS csr") (auto intro!: fits_or fits_push CSRS_range [of csr])

lemma mul_index_ok: "mul_index name = Inr f \<Longrightarrow> fits 3 f"
proof -
  have "list_all (\<lambda>(_, f). fits 3 f) (zip MUL_OPS [0..7])" by (simp add: MUL_OPS_def upto_rec1)
  then show "mul_index name = Inr f \<Longrightarrow> fits 3 f"
    by (auto simp: mul_index_def list_all_iff split: option.splits dest!: map_of_SomeD)
qed

lemma Inr_ok: "fits 32 w \<Longrightarrow> enc_ok (Inr w)"
  by (simp add: enc_ok_def)

section \<open>The layout of a program\<close>

fun code_items :: "asm_code \<Rightarrow> item list" where
  "code_items [] = []"
| "code_items (Emit (Inr i) # ops) = i # code_items ops"
| "code_items (Emit (Inl e) # ops) = code_items ops"
| "code_items (Label name # ops) = code_items ops"

fun code_labels :: "int \<Rightarrow> asm_code \<Rightarrow> (string \<times> int) list" where
  "code_labels at [] = []"
| "code_labels at (Emit r # ops) = code_labels (at + 4) ops"
| "code_labels at (Label name # ops) = (name, at) # code_labels at ops"

fun code_size :: "asm_code \<Rightarrow> nat" where
  "code_size [] = 0"
| "code_size (Emit r # ops) = Suc (code_size ops)"
| "code_size (Label name # ops) = code_size ops"

fun item_fits :: "item \<Rightarrow> bool" where
  "item_fits (Word w) \<longleftrightarrow> fits 32 w"
| "item_fits (BranchTo f rs1 rs2 t) \<longleftrightarrow> fits 3 f \<and> is_reg rs1 \<and> is_reg rs2"
| "item_fits (JalTo rd t) \<longleftrightarrow> is_reg rd"
| "item_fits (LaHi rd t) \<longleftrightarrow> is_reg rd"
| "item_fits (LaLo rd t) \<longleftrightarrow> is_reg rd"

definition op_ok :: "asm_op \<Rightarrow> bool" where
  "op_ok op \<longleftrightarrow> (case op of Emit r \<Rightarrow> (\<exists>i. r = Inr i \<and> item_fits i) | Label _ \<Rightarrow> True)"

text \<open>The label a closure needs is defined and, for a branch or jump, in reach.\<close>

fun reach_ok :: "(string \<times> int) list \<Rightarrow> int \<Rightarrow> item \<Rightarrow> bool" where
  "reach_ok ls at (Word w) \<longleftrightarrow> True"
| "reach_ok ls at (BranchTo f rs1 rs2 t) \<longleftrightarrow>
     (case map_of ls t of None \<Rightarrow> False | Some a \<Rightarrow> (a - at) mod 2 = 0 \<and> signed_fits (a - at) 13)"
| "reach_ok ls at (JalTo rd t) \<longleftrightarrow>
     (case map_of ls t of None \<Rightarrow> False | Some a \<Rightarrow> (a - at) mod 2 = 0 \<and> signed_fits (a - at) 21)"
| "reach_ok ls at (LaHi rd t) \<longleftrightarrow> map_of ls t \<noteq> None"
| "reach_ok ls at (LaLo rd t) \<longleftrightarrow> map_of ls t \<noteq> None"

fun refs_ok :: "(string \<times> int) list \<Rightarrow> int \<Rightarrow> asm_code \<Rightarrow> bool" where
  "refs_ok ls at [] \<longleftrightarrow> True"
| "refs_ok ls at (Emit r # ops) \<longleftrightarrow>
     (case r of Inl e \<Rightarrow> True | Inr i \<Rightarrow> reach_ok ls at i) \<and> refs_ok ls (at + 4) ops"
| "refs_ok ls at (Label n # ops) \<longleftrightarrow> refs_ok ls at ops"

definition code_ok :: "int \<Rightarrow> asm_code \<Rightarrow> bool" where
  "code_ok org code \<longleftrightarrow> list_all op_ok code \<and> distinct (map fst (code_labels org code)) \<and>
     refs_ok (code_labels org code) org code"

lemma exec_layout:
  assumes "list_all op_ok code" "distinct (map fst (labels a @ code_labels (pc a) code))"
  shows "exec code a = Inr (a\<lparr>items := items a @ code_items code,
    labels := labels a @ code_labels (pc a) code\<rparr>)"
  using assms
proof (induction code arbitrary: a)
  case Nil
  then show ?case by simp
next
  case (Cons op code)
  show ?case
  proof (cases op)
    case (Emit r)
    with Cons.prems obtain i where i: "r = Inr i" by (auto simp: op_ok_def)
    let ?a = "a\<lparr>items := items a @ [i]\<rparr>"
    have "pc ?a = pc a + 4" by (simp add: pc_def)
    with Cons.prems Emit have "exec code ?a = Inr (?a\<lparr>items := items ?a @ code_items code,
        labels := labels ?a @ code_labels (pc ?a) code\<rparr>)"
      by (intro Cons.IH) auto
    with \<open>pc ?a = pc a + 4\<close> show ?thesis by (simp add: Emit i)
  next
    case (Label name)
    let ?a = "a\<lparr>labels := labels a @ [(name, pc a)]\<rparr>"
    have "pc ?a = pc a" by (simp add: pc_def)
    with Cons.prems Label have "exec code ?a = Inr (?a\<lparr>items := items ?a @ code_items code,
        labels := labels ?a @ code_labels (pc ?a) code\<rparr>)"
      by (intro Cons.IH) auto
    moreover have "name \<notin> fst ` set (labels a)" using Cons.prems Label by auto
    ultimately show ?thesis using \<open>pc ?a = pc a\<close> by (simp add: Label)
  qed
qed

lemma length_code_items: "list_all op_ok code \<Longrightarrow> length (code_items code) = code_size code"
  by (induction code rule: code_items.induct) (auto simp: op_ok_def)

lemma code_items_fit: "list_all op_ok code \<Longrightarrow> list_all item_fits (code_items code)"
  by (induction code rule: code_items.induct) (auto simp: op_ok_def)

lemma refs_ok_nth:
  "list_all op_ok code \<Longrightarrow> refs_ok ls at code \<Longrightarrow> i < length (code_items code) \<Longrightarrow>
   reach_ok ls (at + 4 * int i) (code_items code ! i)"
proof (induction code arbitrary: at i rule: code_items.induct)
  case (2 it ops)
  show ?case
  proof (cases i)
    case 0
    with 2 show ?thesis by simp
  next
    case (Suc k)
    have "reach_ok ls (at + 4 + 4 * int k) (code_items ops ! k)"
      using 2 Suc by simp
    with Suc show ?thesis by (simp add: algebra_simps)
  qed
qed (auto simp: op_ok_def)

lemma bit11_iff:
  fixes x :: int
  assumes "0 \<le> x" "x < 0x1000"
  shows "bit x 11 \<longleftrightarrow> 0x800 \<le> x"
proof (cases "0x800 \<le> x")
  case True
  then have "x div 0x800 = 1" using assms by (simp add: int_div_pos_eq [of x 0x800 1])
  with True show ?thesis by (simp add: bit_iff_odd)
next
  case False
  then show ?thesis using assms by (simp add: bit_iff_odd)
qed

lemma lo12_cases:
  "lo12 v = (if 0x800 \<le> take_bit 12 v then take_bit 12 v - 0x1000 else take_bit 12 v)"
proof -
  have "take_bit 12 v AND 0x800 \<noteq> 0 \<longleftrightarrow> bit (take_bit 12 v) 11"
    using and_exp_iff [of "take_bit 12 v" 11] by simp
  moreover have "bit (take_bit 12 v) 11 \<longleftrightarrow> 0x800 \<le> take_bit 12 v"
    using take_bit_int_less_exp [of 12 v] by (intro bit11_iff) simp_all
  ultimately show ?thesis by (simp add: lo12_def Let_def and_masks)
qed

lemma lo12_range: "- 0x800 \<le> lo12 v \<and> lo12 v < 0x800"
proof -
  obtain x where x: "x = take_bit 12 v" "0 \<le> x" "x < 0x1000"
    using take_bit_int_less_exp [of 12 v] by simp
  then show ?thesis unfolding lo12_cases x(1) [symmetric] by simp
qed

lemma lo12_fits: "signed_fits (lo12 v) 12"
  using lo12_range [of v] by (simp add: signed_fits_def)

lemma resolve_ok: "item_fits it \<Longrightarrow> reach_ok ls at it \<Longrightarrow> enc_ok (resolve ls at it)"
  by (cases it) (auto simp: rlookup_def enc_ok_def [of "Inr _"] split: option.splits
      intro!: b_type_ok j_type_ok u_type_ok i_type_ok lo12_fits)

definition code_word :: "int \<Rightarrow> asm_code \<Rightarrow> nat \<Rightarrow> int result" where
  "code_word org code i = resolve (code_labels org code) (org + 4 * int i) (code_items code ! i)"

lemma code_word_ok: "code_ok org code \<Longrightarrow> i < code_size code \<Longrightarrow> enc_ok (code_word org code i)"
  unfolding code_word_def
proof (rule resolve_ok)
  assume "code_ok org code" "i < code_size code"
  then have ok: "list_all op_ok code" "refs_ok (code_labels org code) org code"
    and i: "i < length (code_items code)"
    by (auto simp: code_ok_def length_code_items)
  show "item_fits (code_items code ! i)"
    using code_items_fit [OF ok(1)] i by (simp add: list_all_length)
  show "reach_ok (code_labels org code) (org + 4 * int i) (code_items code ! i)"
    using ok i by (rule refs_ok_nth)
qed

lemma build_layout:
  assumes "code_ok org code"
  shows "build org code = rmapM (code_word org code) [0..<code_size code]"
proof -
  have ok: "list_all op_ok code" "distinct (map fst (code_labels org code))"
    using assms by (simp_all add: code_ok_def)
  have "exec code (asm_new org) = Inr (\<lparr>origin = org, items = code_items code, labels = code_labels org code\<rparr>)"
    using exec_layout [of code "asm_new org"] ok by (simp add: asm_new_def pc_def)
  moreover have "enumerate 0 (code_items code) = map (\<lambda>i. (i, code_items code ! i)) [0..<code_size code]"
    using length_code_items [OF ok(1)] by (simp add: enumerate_eq_zip zip_map_map map_nth list_eq_iff_nth_eq)
  moreover have "rmapM f (map g xs) = rmapM (f \<circ> g) xs" for f :: "nat \<times> item \<Rightarrow> int result" and g and xs :: "nat list"
    by (induction xs) simp_all
  ultimately show ?thesis
    by (simp add: build_def assemble_def comp_def code_word_def [abs_def])
qed

lemma build_ok:
  assumes "code_ok org code"
  shows "\<exists>ws. build org code = Inr ws \<and> length ws = code_size code \<and> list_all (fits 32) ws"
proof -
  have w: "enc_ok (code_word org code i)" if "i \<in> set [0..<code_size code]" for i
    using that code_word_ok [OF assms] by simp
  then obtain ws where ws: "rmapM (code_word org code) [0..<code_size code] = Inr ws"
    using rmapM_total [of "[0..<code_size code]" "code_word org code"] by (auto simp: enc_ok_def)
  moreover have "length ws = code_size code" using rmapM_length [OF ws] by simp
  moreover have "fits 32 (ws ! i)" if "i < length ws" for i
    using rmapM_nth [OF ws, of i] w [of i] that \<open>length ws = code_size code\<close> by (auto simp: enc_ok_def)
  ultimately show ?thesis
    using build_layout [OF assms] by (auto simp: list_all_length)
qed

section \<open>Evaluating the checker\<close>

lemma op_ok_simps:
  "op_ok (Emit (rmap Word r)) \<longleftrightarrow> enc_ok r"
  "op_ok (Emit (Inr i)) \<longleftrightarrow> item_fits i"
  "op_ok (Label n)"
  by (cases r) (auto simp: op_ok_def enc_ok_def)

lemma refs_ok_word: "(case rmap Word r of Inl e \<Rightarrow> True | Inr i \<Rightarrow> reach_ok ls at i) \<longleftrightarrow> True"
  by (cases r) simp_all

lemma muldiv_ok:
  "enc_ok (rbind (mul_index name) (\<lambda>f. r_type 1 rs2 rs1 f rd 0x33))"
  if "\<not> isl (mul_index name)" "is_reg rs2" "is_reg rs1" "is_reg rd"
  using that by (cases "mul_index name") (auto intro!: r_type_ok dest: mul_index_ok)

lemmas enc_ok_simps = r_type_ok i_type_ok s_type_ok b_type_ok u_type_ok j_type_ok csr_word_ok Inr_ok muldiv_ok

lemmas code_ok_simps = op_ok_simps refs_ok_word enc_ok_simps signed_fits_def is_reg_def rv_defs rv_li_def Let_def
  rlookup_def CSRS_def mul_index_def MUL_OPS_def upto_rec1

end
