(* ===== verification/RV32_Machine.thy ===== *)
theory RV32_Machine
  imports RV32_Layout
begin

text \<open>
  A reference machine for the instructions the assembler emits, decoded from the 32-bit words
  themselves: the fields are read at the positions of the instruction set, immediates by
  \<open>imm_model\<close>, results by \<open>alu_model\<close> and \<open>muldiv_model\<close>. It is the specification the assembler is
  measured against (what \<open>li\<close>, \<open>la\<close>, branches and a generated copy sequence do when they run); the
  instructions that trap or touch CSRs have no step here.

  The bus is a parameter: \<open>ld out f3 addr\<close> is what a load of kind \<open>f3\<close> returns at \<open>addr\<close> after the
  stores \<open>out\<close>. Stores are recorded in order as (kind, address, value).
\<close>

type_synonym stores = "(int \<times> int \<times> int) list"

record rv_state =
  rv_pc :: int
  rv_regs :: "int \<Rightarrow> int"
  rv_out :: stores

definition set_reg :: "int \<Rightarrow> int \<Rightarrow> rv_state \<Rightarrow> rv_state" where
  "set_reg d v s = (if d = 0 then s else s\<lparr>rv_regs := (rv_regs s)(d := v)\<rparr>)"

definition get_reg :: "int \<Rightarrow> rv_state \<Rightarrow> int" where
  "get_reg r s = (if r = 0 then 0 else rv_regs s r)"

definition next_pc :: "rv_state \<Rightarrow> rv_state" where
  "next_pc s = s\<lparr>rv_pc := take_bit 32 (rv_pc s + 4)\<rparr>"

definition branch_taken :: "int \<Rightarrow> int \<Rightarrow> int \<Rightarrow> bool" where
  "branch_taken f3 a b =
     (if f3 = 0 then a = b else if f3 = 1 then a \<noteq> b
      else if f3 = 4 then signed32 a < signed32 b else if f3 = 5 then signed32 b \<le> signed32 a
      else if f3 = 6 then a < b else b \<le> a)"

definition imm_alu_op :: "int \<Rightarrow> int option" where
  "imm_alu_op f3 = (if f3 = 0 then Some ALU_ADD else if f3 = 1 then Some ALU_SLL
     else if f3 = 2 then Some ALU_SLT else if f3 = 3 then Some ALU_SLTU else if f3 = 4 then Some ALU_XOR
     else if f3 = 6 then Some ALU_OR else if f3 = 7 then Some ALU_AND else None)"

definition rv_exec :: "(stores \<Rightarrow> int \<Rightarrow> int \<Rightarrow> int) \<Rightarrow> int \<Rightarrow> rv_state \<Rightarrow> rv_state option" where
  "rv_exec ld w s =
     (let opc = w AND 0x7F; d = bits w 11 7; f3 = bits w 14 12;
          a = get_reg (bits w 19 15) s; b = get_reg (bits w 24 20) s; f7 = bits w 31 25;
          imm = imm_model w; addr = take_bit 32 (a + imm)
      in if opc = 0x37 then Some (next_pc (set_reg d imm s))
         else if opc = 0x17 then Some (next_pc (set_reg d (take_bit 32 (rv_pc s + imm)) s))
         else if opc = 0x13 then
           (case imm_alu_op f3 of None \<Rightarrow> None | Some op \<Rightarrow> Some (next_pc (set_reg d (alu_model op a imm) s)))
         else if opc = 0x33 then
           (if f7 = 1 then Some (next_pc (set_reg d (muldiv_model f3 a b) s))
            else if f7 = 0 \<and> f3 = 0 then Some (next_pc (set_reg d (alu_model ALU_ADD a b) s))
            else if f7 = 0x20 \<and> f3 = 0 then Some (next_pc (set_reg d (alu_model ALU_SUB a b) s))
            else None)
         else if opc = 0x03 then Some (next_pc (set_reg d (ld (rv_out s) f3 addr) s))
         else if opc = 0x23 then
           (if f3 \<in> {0, 1, 2} then Some (next_pc (s\<lparr>rv_out := rv_out s @ [(f3, addr, take_bit (8 * 2 ^ nat f3) b)]\<rparr>))
            else None)
         else if opc = 0x63 then
           (if f3 \<in> {2, 3} then None
            else if branch_taken f3 a b then Some (s\<lparr>rv_pc := take_bit 32 (rv_pc s + imm)\<rparr>) else Some (next_pc s))
         else if opc = 0x6F then Some ((set_reg d (take_bit 32 (rv_pc s + 4)) s)\<lparr>rv_pc := take_bit 32 (rv_pc s + imm)\<rparr>)
         else if opc = 0x67 then
           (if f3 = 0 then Some ((set_reg d (take_bit 32 (rv_pc s + 4)) s)\<lparr>rv_pc := 2 * (addr div 2)\<rparr>) else None)
         else if opc = 0x0F then Some (next_pc s)
         else None)"

text \<open>A straight line of words, and steps of a machine that fetches.\<close>

fun rv_line :: "(stores \<Rightarrow> int \<Rightarrow> int \<Rightarrow> int) \<Rightarrow> int list \<Rightarrow> rv_state \<Rightarrow> rv_state option" where
  "rv_line ld [] s = Some s"
| "rv_line ld (w # ws) s =
     (case rv_exec ld w s of None \<Rightarrow> None
      | Some s' \<Rightarrow> if rv_pc s' = take_bit 32 (rv_pc s + 4) then rv_line ld ws s' else None)"

definition fetch_at :: "int \<Rightarrow> int list \<Rightarrow> int \<Rightarrow> int option" where
  "fetch_at org ws p =
     (if org \<le> p \<and> (p - org) mod 4 = 0 \<and> nat ((p - org) div 4) < length ws
      then Some (ws ! nat ((p - org) div 4)) else None)"

fun rv_steps :: "(int \<Rightarrow> int option) \<Rightarrow> (stores \<Rightarrow> int \<Rightarrow> int \<Rightarrow> int) \<Rightarrow> nat \<Rightarrow> rv_state \<Rightarrow> rv_state option" where
  "rv_steps f ld 0 s = Some s"
| "rv_steps f ld (Suc n) s =
     (case f (rv_pc s) of None \<Rightarrow> None
      | Some w \<Rightarrow> case rv_exec ld w s of None \<Rightarrow> None | Some s' \<Rightarrow> rv_steps f ld n s')"

lemma rv_line_append:
  "rv_line ld (us @ vs) s = (case rv_line ld us s of None \<Rightarrow> None | Some s' \<Rightarrow> rv_line ld vs s')"
  by (induction us arbitrary: s) (auto split: option.splits)

section \<open>Single instructions\<close>

lemma exec_lui:
  assumes "u_type imm20 rd 0x37 = Inr w" "reg_r rd = Inr d"
  shows "rv_exec ld w s = Some (next_pc (set_reg d (push_bit 12 (take_bit 20 imm20)) s))"
  using u_type_fields [OF assms(1)] imm_model_u [OF assms(1)] assms(2)
  by (simp add: rv_exec_def Let_def)

lemma exec_addi:
  assumes "i_type imm rs1 0 rd 0x13 = Inr w" "reg_r rd = Inr d" "reg_r rs1 = Inr a"
  shows "rv_exec ld w s = Some (next_pc (set_reg d (take_bit 32 (get_reg a s + take_bit 32 imm)) s))"
  using i_type_fields [OF assms(1)] imm_model_i [OF assms(1)] assms(2,3)
  by (simp add: rv_exec_def Let_def imm_alu_op_def alu_model_def alu_op_defs and_mask32)

lemma exec_sw:
  assumes "s_type imm rs2 rs1 2 = Inr w" "reg_r rs2 = Inr b" "reg_r rs1 = Inr a"
  shows "rv_exec ld w s = Some (next_pc (s\<lparr>rv_out := rv_out s @
     [(2, take_bit 32 (get_reg a s + take_bit 32 imm), take_bit 32 (get_reg b s))]\<rparr>))"
  using s_type_fields [OF assms(1)] imm_model_s [OF assms(1)] assms(2,3)
  by (simp add: rv_exec_def Let_def)

lemma exec_load:
  assumes "i_type imm rs1 f3 rd 0x03 = Inr w" "reg_r rd = Inr d" "reg_r rs1 = Inr a" "fits 3 f3"
  shows "rv_exec ld w s = Some (next_pc (set_reg d
     (ld (rv_out s) f3 (take_bit 32 (get_reg a s + take_bit 32 imm))) s))"
  using i_type_fields [OF assms(1,4)] imm_model_i [OF assms(1,4)] assms(2,3)
  by (simp add: rv_exec_def Let_def)

lemma exec_branch:
  assumes "b_type offset rs2 rs1 f3 = Inr w" "reg_r rs2 = Inr b" "reg_r rs1 = Inr a" "f3 \<in> {0, 1, 4, 5, 6, 7}"
  shows "rv_exec ld w s = Some (if branch_taken f3 (get_reg a s) (get_reg b s)
     then s\<lparr>rv_pc := take_bit 32 (rv_pc s + take_bit 32 offset)\<rparr> else next_pc s)"
proof -
  have f3: "fits 3 f3" "f3 \<notin> {2, 3}" using assms(4) by (auto simp: fits_def)
  show ?thesis
    using b_type_fields [OF assms(1) f3(1)] imm_model_b [OF assms(1) f3(1)] assms(2,3) f3(2)
    by (simp add: rv_exec_def Let_def)
qed

lemma exec_jal:
  assumes "j_type offset rd = Inr w" "reg_r rd = Inr d"
  shows "rv_exec ld w s = Some ((set_reg d (take_bit 32 (rv_pc s + 4)) s)
     \<lparr>rv_pc := take_bit 32 (rv_pc s + take_bit 32 offset)\<rparr>)"
  using j_type_fields [OF assms(1)] imm_model_j [OF assms(1)] assms(2)
  by (simp add: rv_exec_def Let_def)

section \<open>Loading a value\<close>

lemma take_hi_lo:
  "take_bit 32 (push_bit 12 (hi20 v) + take_bit 32 (lo12 v)) = take_bit 32 v"
proof -
  define k where "k = v div 4096 + (if 0x800 \<le> v mod 4096 then 1 else 0)"
  have "v = 4096 * (v div 4096) + v mod 4096" by (rule mult_div_mod_eq [symmetric])
  then have k: "v - lo12 v = 4096 * k" by (simp add: lo12_cases take_bit_eq_mod k_def algebra_simps)
  then have "push_bit 12 (drop_bit 12 (v - lo12 v)) = v - lo12 v"
    by (simp add: push_bit_eq_mult drop_bit_eq_div)
  then have "push_bit 12 (hi20 v) = take_bit 32 (v - lo12 v)"
    unfolding hi20_def and_masks by (simp add: push_bit_take_bit)
  then show ?thesis by (simp add: take_bit_eq_mod mod_add_eq)
qed

lemma lo12_li: "(if (v AND 0xFFF) AND 0x800 \<noteq> 0 then (v AND 0xFFF) - 0x1000 else v AND 0xFFF) = lo12 v"
  by (simp add: lo12_def Let_def)

definition words_code :: "int list \<Rightarrow> asm_code" where
  "words_code ws = map (\<lambda>w. Emit (Inr (Word w))) ws"

lemma words_code_append [simp]: "words_code (us @ vs) = words_code us @ words_code vs"
  by (simp add: words_code_def)

lemma emit_words: "r = Inr w \<Longrightarrow> emit r = words_code [w]"
  by (simp add: emit_def words_code_def)

lemma exec_words: "exec (words_code ws) a = Inr (a\<lparr>items := items a @ map Word ws\<rparr>)"
  by (induction ws arbitrary: a) (simp_all add: words_code_def)

lemma rmapM_words: "rmapM (\<lambda>(i, it). resolve ls (org + 4 * int i) it) (enumerate k (map Word ws)) = Inr ws"
  by (induction ws arbitrary: k) simp_all

lemma build_words: "build org (words_code ws) = Inr ws"
  by (simp add: build_def exec_words asm_new_def assemble_def rmapM_words)

definition advance :: "nat \<Rightarrow> rv_state \<Rightarrow> rv_state" where
  "advance n s = s\<lparr>rv_pc := take_bit 32 (rv_pc s + 4 * int n)\<rparr>"

lemma next_pc_advance: "next_pc s = advance 1 s"
  by (simp add: next_pc_def advance_def)

lemma advance_advance: "advance m (advance n s) = advance (n + m) s"
  by (simp add: advance_def take_bit_eq_mod mod_add_left_eq add.assoc)

lemma advance_set_reg: "advance n (set_reg d v s) = set_reg d v (advance n s)"
  by (simp add: advance_def set_reg_def)

lemma pc_simps [simp]:
  "rv_pc (set_reg d v s) = rv_pc s" "rv_pc (advance n s) = take_bit 32 (rv_pc s + 4 * int n)"
  "rv_out (set_reg d v s) = rv_out s" "rv_out (advance n s) = rv_out s"
  "rv_regs (advance n s) = rv_regs s" "get_reg r (advance n s) = get_reg r s"
  by (simp_all add: set_reg_def advance_def get_reg_def)

lemma set_reg_set_reg: "set_reg d v (set_reg d u s) = set_reg d v s"
  by (simp add: set_reg_def)

lemma get_set_reg: "get_reg r (set_reg d v s) = (if r = d \<and> d \<noteq> 0 then v else get_reg r s)"
  by (auto simp: get_reg_def set_reg_def)

lemma take_signed32: "take_bit 32 (if v AND 0x80000000 \<noteq> 0 then v - push_bit 32 1 else v) = take_bit 32 (v :: int)"
  by (simp add: take_bit_eq_mod)

lemma rv_lui_line:
  assumes "reg_r rd = Inr d"
  shows "\<exists>w. rv_lui rd imm20 = words_code [w] \<and>
    (\<forall>ld s. rv_line ld [w] s = Some (advance 1 (set_reg d (push_bit 12 (take_bit 20 imm20)) s)))"
proof -
  obtain w where w: "u_type imm20 rd 0x37 = Inr w" using assms by (simp add: u_type_def)
  then show ?thesis using exec_lui [OF w assms] by (auto simp: rv_lui_def emit_words next_pc_advance)
qed

lemma rv_addi_line:
  assumes "reg_r rd = Inr d" "reg_r rs1 = Inr a" "signed_fits imm 12"
  shows "\<exists>w. rv_addi rd rs1 imm = words_code [w] \<and>
    (\<forall>ld s. rv_line ld [w] s = Some (advance 1 (set_reg d (take_bit 32 (get_reg a s + take_bit 32 imm)) s)))"
proof -
  obtain w where w: "i_type imm rs1 0 rd 0x13 = Inr w" using assms by (simp add: i_type_def)
  then show ?thesis using exec_addi [OF w assms(1,2)] by (auto simp: rv_addi_def emit_words next_pc_advance)
qed

lemma rv_sw_line:
  assumes "reg_r rs2 = Inr b" "reg_r rs1 = Inr a" "signed_fits imm 12"
  shows "\<exists>w. rv_sw rs2 imm rs1 = words_code [w] \<and>
    (\<forall>ld s. rv_line ld [w] s = Some (advance 1 (s\<lparr>rv_out := rv_out s @
       [(2, take_bit 32 (get_reg a s + take_bit 32 imm), take_bit 32 (get_reg b s))]\<rparr>)))"
proof -
  obtain w where w: "s_type imm rs2 rs1 2 = Inr w" using assms by (simp add: s_type_def Let_def)
  then show ?thesis using exec_sw [OF w assms(1,2)] by (auto simp: rv_sw_def emit_words next_pc_advance)
qed

lemma rv_line_two:
  "rv_line ld [u] s = Some s' \<Longrightarrow> rv_line ld [w] s' = Some s'' \<Longrightarrow> rv_line ld [u, w] s = Some s''"
  by (auto split: option.splits if_splits)

lemma rv_li_line:
  assumes "reg_r rd = Inr d"
  shows "\<exists>ws. rv_li rd v = words_code ws \<and> length ws \<le> 2 \<and>
    (\<forall>ld s. rv_line ld ws s = Some (advance (length ws) (set_reg d (take_bit 32 v) s)))"
proof -
  define u where "u = take_bit 32 v"
  define sv where "sv = (if u AND 0x80000000 \<noteq> 0 then u - push_bit 32 1 else u)"
  have sv: "take_bit 32 sv = u" unfolding sv_def take_signed32 by (simp add: u_def)
  have li: "rv_li rd v = (if signed_fits sv 12 then rv_addi rd ''zero'' sv
      else rv_lui rd (hi20 u) @ (if lo12 u \<noteq> 0 then rv_addi rd rd (lo12 u) else []))"
    unfolding rv_li_def Let_def and_mask32 lo12_li by (simp add: u_def sv_def hi20_def)
  have z: "reg_r ''zero'' = Inr 0" by simp
  show ?thesis
  proof (cases "signed_fits sv 12")
    case True
    with rv_addi_line [OF assms z True] li sv show ?thesis
      by (fastforce simp: get_reg_def u_def intro: exI [of _ "[_]"])
  next
    case False
    obtain w where w: "rv_lui rd (hi20 u) = words_code [w]"
      "\<And>ld s. rv_line ld [w] s = Some (advance 1 (set_reg d (push_bit 12 (hi20 u)) s))"
      using rv_lui_line [OF assms, of "hi20 u"] by (auto simp: hi20_def and_masks)
    show ?thesis
    proof (cases "lo12 u = 0")
      case True
      have "push_bit 12 (hi20 u) = take_bit 32 (push_bit 12 (hi20 u))"
        by (simp add: hi20_def and_masks push_bit_take_bit)
      then have "push_bit 12 (hi20 u) = u" using take_hi_lo [of u] True by (simp add: u_def)
      with False True li w show ?thesis by (intro exI [of _ "[w]"]) (simp add: u_def)
    next
      case lo: False
      obtain x where x: "rv_addi rd rd (lo12 u) = words_code [x]"
        "\<And>ld s. rv_line ld [x] s = Some (advance 1 (set_reg d (take_bit 32 (get_reg d s + take_bit 32 (lo12 u))) s))"
        using rv_addi_line [OF assms assms lo12_fits [of u]] by blast
      have "set_reg d (take_bit 32 (get_reg d (set_reg d (push_bit 12 (hi20 u)) s) + take_bit 32 (lo12 u)))
          (set_reg d (push_bit 12 (hi20 u)) s) = set_reg d u s" for s
        using take_hi_lo [of u] by (cases "d = 0") (simp_all add: get_reg_def set_reg_def u_def)
      then have "rv_line ld [w, x] s = Some (advance 2 (set_reg d u s))" for ld s
        using rv_line_two [OF w(2) x(2), of ld s]
        by (simp del: rv_line.simps add: advance_set_reg [symmetric] advance_advance numeral_2_eq_2)
      with False lo li w x show ?thesis
        by (intro exI [of _ "[w, x]"]) (simp add: words_code_def u_def numeral_2_eq_2)
    qed
  qed
qed

section \<open>What assembled code does\<close>

lemma take32_pc_twice: "take_bit 32 (take_bit 32 (x + 4) + 4) = take_bit 32 (x + 8)" for x :: int
proof -
  have "take_bit 32 (take_bit 32 (x + 4) + 4) = (x + 4 + 4) mod 2 ^ 32"
    unfolding take_bit_eq_mod by (rule mod_add_left_eq)
  also have "x + 4 + 4 = x + 8" by simp
  finally show ?thesis by (simp add: take_bit_eq_mod)
qed

lemma build_nth:
  assumes "code_ok org code" "i < code_size code"
  shows "\<exists>ws. build org code = Inr ws \<and> length ws = code_size code \<and> code_word org code i = Inr (ws ! i)"
proof -
  obtain ws where ws: "build org code = Inr ws" "length ws = code_size code"
    using build_ok [OF assms(1)] by blast
  then have "rmapM (code_word org code) [0..<code_size code] = Inr ws" using build_layout [OF assms(1)] by simp
  from rmapM_nth [OF this, of i] ws assms(2) show ?thesis by simp
qed

text \<open>
  The words \<open>Asm.li\<close> emits, run on the reference machine, put the value modulo \<open>2 ^ 32\<close> into the
  register and change nothing else, in at most two instructions (the short form, \<open>lui\<close> alone, or
  \<open>lui\<close> and \<open>addi\<close> with the carry of the sign-extended low half).
\<close>

theorem li_loads:
  assumes "reg_r rd = Inr d"
  shows "\<exists>ws. build org (rv_li rd v) = Inr ws \<and> length ws \<le> 2 \<and>
    (\<forall>ld s. rv_line ld ws s = Some (advance (length ws) (set_reg d (take_bit 32 v) s)))"
  using rv_li_line [OF assms, of v] build_words by metis

theorem li_loads_witness:
  "reg_r ''t0'' = Inr 5 \<and>
   (\<exists>ws. build 0 (rv_li ''t0'' 0xDEADBEEF) = Inr ws \<and> length ws \<le> 2 \<and>
     (\<forall>ld s. rv_line ld ws s = Some (advance (length ws) (set_reg 5 0xDEADBEEF s))))"
proof -
  have "take_bit 32 (0xDEADBEEF :: int) = 0xDEADBEEF" by (simp add: take_bit_eq_mod)
  then show ?thesis using li_loads [of "''t0''" 5 0 "0xDEADBEEF"] by simp
qed

text \<open>
  C4: \<open>Asm.la\<close> loads a label's address. In a program that assembles, the two words at the place of
  \<open>la rd, target\<close> put the address the label has in that program into \<open>rd\<close>.
\<close>

theorem la_loads:
  assumes "code_ok org code" "Suc i < code_size code"
    and "code_items code ! i = LaHi rd target" "code_items code ! Suc i = LaLo rd target"
    and "map_of (code_labels org code) target = Some a" "reg_r rd = Inr d"
  shows "\<exists>ws. build org code = Inr ws \<and>
    rv_line ld [ws ! i, ws ! Suc i] s = Some (advance 2 (set_reg d (take_bit 32 a) s))"
proof -
  obtain ws where ws: "build org code = Inr ws"
    and i: "code_word org code i = Inr (ws ! i)" and j: "code_word org code (Suc i) = Inr (ws ! Suc i)"
    using build_nth [OF assms(1), of i] build_nth [OF assms(1,2)] assms(2) by auto
  have u: "u_type (hi20 a) rd 0x37 = Inr (ws ! i)" "i_type (lo12 a) rd 0 rd 0x13 = Inr (ws ! Suc i)"
    using i j assms(3-5) by (simp_all add: code_word_def rlookup_def)
  have hi: "take_bit 20 (hi20 a) = hi20 a" by (simp add: hi20_def and_masks)
  let ?s = "set_reg d (push_bit 12 (hi20 a)) s"
  have "set_reg d (take_bit 32 (get_reg d ?s + take_bit 32 (lo12 a))) ?s = set_reg d (take_bit 32 a) s"
    using take_hi_lo [of a] by (cases "d = 0") (simp_all add: get_reg_def set_reg_def)
  then have "rv_line ld [ws ! i, ws ! Suc i] s = Some (advance 2 (set_reg d (take_bit 32 a) s))"
    using exec_lui [OF u(1) assms(6)] exec_addi [OF u(2) assms(6,6)] hi
    by (simp add: next_pc_advance numeral_2_eq_2 advance_set_reg [symmetric] advance_advance)
      (simp add: take32_pc_twice)
  with ws show ?thesis by blast
qed

theorem la_loads_witness:
  "\<forall>ld s. \<exists>ws. build 0x80001000 (rv_la ''t0'' ''here'' @ rv_label ''here'') = Inr ws \<and>
    rv_line ld [ws ! 0, ws ! 1] s = Some (advance 2 (set_reg 5 (take_bit 32 0x80001008) s))"
proof (intro allI)
  fix ld s
  show "\<exists>ws. build 0x80001000 (rv_la ''t0'' ''here'' @ rv_label ''here'') = Inr ws \<and>
    rv_line ld [ws ! 0, ws ! 1] s = Some (advance 2 (set_reg 5 (take_bit 32 0x80001008) s))"
    using la_loads [where org = "0x80001000" and code = "rv_la ''t0'' ''here'' @ rv_label ''here''" and i = 0
      and rd = "''t0''" and target = "''here''" and a = "0x80001008" and d = 5 and ld = ld and s = s]
    by (simp add: code_ok_def code_ok_simps)
qed

text \<open>
  C5: branches and jumps go to their labels. In a program that assembles, the machine at the
  address of a branch goes to the target's address when the condition holds and to the next
  instruction otherwise, and at the address of \<open>jal\<close> it goes to the target and links.
\<close>

theorem branch_reaches_label:
  assumes "code_ok org code" "i < code_size code" "rv_pc s = take_bit 32 (org + 4 * int i)"
    and "map_of (code_labels org code) target = Some a"
  shows "\<exists>ws. build org code = Inr ws \<and>
    (\<forall>f3 rs1 rs2 x y. code_items code ! i = BranchTo f3 rs1 rs2 target \<and> f3 \<in> {0, 1, 4, 5, 6, 7} \<and>
       reg_r rs1 = Inr x \<and> reg_r rs2 = Inr y \<longrightarrow>
       rv_exec ld (ws ! i) s = Some (if branch_taken f3 (get_reg x s) (get_reg y s)
         then s\<lparr>rv_pc := take_bit 32 a\<rparr> else advance 1 s)) \<and>
    (\<forall>rd d. code_items code ! i = JalTo rd target \<and> reg_r rd = Inr d \<longrightarrow>
       rv_exec ld (ws ! i) s = Some ((set_reg d (take_bit 32 (org + 4 * int i + 4)) s)\<lparr>rv_pc := take_bit 32 a\<rparr>))"
proof -
  obtain ws where ws: "build org code = Inr ws" and i: "code_word org code i = Inr (ws ! i)"
    using build_nth [OF assms(1,2)] by blast
  have t: "take_bit 32 (rv_pc s + take_bit 32 (a - (org + 4 * int i))) = take_bit 32 a"
    "take_bit 32 (rv_pc s + 4) = take_bit 32 (org + 4 * int i + 4)"
    unfolding assms(3) by (simp_all add: take_bit_eq_mod mod_add_eq mod_add_left_eq mod_add_right_eq)
  show ?thesis
  proof (intro exI [of _ ws] conjI allI impI ws)
    fix f3 rs1 rs2 x y
    assume *: "code_items code ! i = BranchTo f3 rs1 rs2 target \<and> f3 \<in> {0, 1, 4, 5, 6, 7} \<and>
       reg_r rs1 = Inr x \<and> reg_r rs2 = Inr y"
    then have "b_type (a - (org + 4 * int i)) rs2 rs1 f3 = Inr (ws ! i)"
      using i assms(4) by (simp add: code_word_def rlookup_def)
    from exec_branch [OF this] * show "rv_exec ld (ws ! i) s = Some (if branch_taken f3 (get_reg x s) (get_reg y s)
         then s\<lparr>rv_pc := take_bit 32 a\<rparr> else advance 1 s)"
      by (simp add: t(1) next_pc_advance del: insert_iff)
  next
    fix rd d
    assume *: "code_items code ! i = JalTo rd target \<and> reg_r rd = Inr d"
    then have "j_type (a - (org + 4 * int i)) rd = Inr (ws ! i)"
      using i assms(4) by (simp add: code_word_def rlookup_def)
    from exec_jal [OF this] * show "rv_exec ld (ws ! i) s =
        Some ((set_reg d (take_bit 32 (org + 4 * int i + 4)) s)\<lparr>rv_pc := take_bit 32 a\<rparr>)"
      by (simp add: t)
  qed
qed

theorem branch_reaches_label_witness:
  "\<forall>ld. \<exists>ws. build 0x100 (rv_label ''top'' @ rv_nop @ rv_nop @ rv_bnez ''t0'' ''top'') = Inr ws \<and>
    rv_exec ld (ws ! 2) \<lparr>rv_pc = 0x108, rv_regs = (\<lambda>_. 7), rv_out = []\<rparr> =
      Some \<lparr>rv_pc = 0x100, rv_regs = (\<lambda>_. 7), rv_out = []\<rparr>"
proof
  fix ld
  let ?code = "rv_label ''top'' @ rv_nop @ rv_nop @ rv_bnez ''t0'' ''top''"
  let ?s = "\<lparr>rv_pc = 0x108, rv_regs = (\<lambda>_. 7), rv_out = []\<rparr>"
  have "code_ok 0x100 ?code" "2 < code_size ?code" "map_of (code_labels 0x100 ?code) ''top'' = Some 0x100"
    by (simp_all add: code_ok_def code_ok_simps)
  moreover have "code_items ?code ! 2 = BranchTo 1 ''t0'' ''zero'' ''top''"
    by (simp add: rv_defs i_type_def signed_fits_def)
  moreover have "rv_pc ?s = take_bit 32 (0x100 + 4 * int 2)" by (simp add: take_bit_eq_mod)
  ultimately show "\<exists>ws. build 0x100 ?code = Inr ws \<and> rv_exec ld (ws ! 2) ?s =
      Some \<lparr>rv_pc = 0x100, rv_regs = (\<lambda>_. 7), rv_out = []\<rparr>"
    using branch_reaches_label [of "0x100" ?code 2 ?s "''top''" "0x100" ld]
    by (fastforce simp: branch_taken_def get_reg_def take_bit_eq_mod)
qed

end
