(* ===== verification/RV32_Contract.thy ===== *)
theory RV32_Contract
  imports RV32_Machine
begin

text \<open>
  The assembler's contract on every branch: immediates outside a format's range raise and the others
  read back; a program assembles exactly when the checker of \<open>RV32_Layout\<close> accepts it; and the
  self-test of the source.
\<close>

section \<open>Formats\<close>

lemma i_type_cases:
  assumes "is_reg rs1" "is_reg rd" "fits 3 f3" "opcode \<in> {0x13, 0x03, 0x67}"
  shows "if signed_fits imm 12 then \<exists>w. i_type imm rs1 f3 rd opcode = Inr w \<and> fits 32 w \<and> imm_model w = take_bit 32 imm
    else i_type imm rs1 f3 rd opcode = Inl AssertionError"
proof (cases "signed_fits imm 12")
  case True
  have "fits 7 opcode" using assms(4) by (auto simp: fits_def)
  with True assms obtain w where "i_type imm rs1 f3 rd opcode = Inr w" "fits 32 w"
    using i_type_ok [of imm rs1 rd f3 opcode] by (auto simp: enc_ok_def)
  with True assms imm_model_i show ?thesis by auto
qed (simp add: i_type_def)

lemma s_type_cases:
  assumes "is_reg rs1" "is_reg rs2" "fits 3 f3"
  shows "if signed_fits imm 12 then \<exists>w. s_type imm rs2 rs1 f3 = Inr w \<and> fits 32 w \<and> imm_model w = take_bit 32 imm
    else s_type imm rs2 rs1 f3 = Inl AssertionError"
proof (cases "signed_fits imm 12")
  case True
  with assms obtain w where "s_type imm rs2 rs1 f3 = Inr w" "fits 32 w"
    using s_type_ok [of imm rs2 rs1 f3] by (auto simp: enc_ok_def)
  with True assms imm_model_s show ?thesis by auto
qed (simp add: s_type_def)

lemma b_type_cases:
  assumes "is_reg rs1" "is_reg rs2" "fits 3 f3"
  shows "if offset mod 2 = 0 \<and> signed_fits offset 13
    then \<exists>w. b_type offset rs2 rs1 f3 = Inr w \<and> fits 32 w \<and> imm_model w = take_bit 32 offset
    else b_type offset rs2 rs1 f3 = Inl AssertionError"
proof (cases "offset mod 2 = 0 \<and> signed_fits offset 13")
  case True
  with assms obtain w where "b_type offset rs2 rs1 f3 = Inr w" "fits 32 w"
    using b_type_ok [of offset rs2 rs1 f3] by (auto simp: enc_ok_def)
  with True assms imm_model_b show ?thesis by auto
next
  case False
  show ?thesis unfolding b_type_def rassert_def by (simp only: False if_False)
qed

lemma j_type_cases:
  assumes "is_reg rd"
  shows "if offset mod 2 = 0 \<and> signed_fits offset 21
    then \<exists>w. j_type offset rd = Inr w \<and> fits 32 w \<and> imm_model w = take_bit 32 offset
    else j_type offset rd = Inl AssertionError"
proof (cases "offset mod 2 = 0 \<and> signed_fits offset 21")
  case True
  with assms obtain w where "j_type offset rd = Inr w" "fits 32 w"
    using j_type_ok [of offset rd] by (auto simp: enc_ok_def)
  with True assms imm_model_j show ?thesis by auto
next
  case False
  show ?thesis unfolding j_type_def rassert_def by (simp only: False if_False)
qed

lemma u_type_cases:
  assumes "is_reg rd" "opcode \<in> {0x37, 0x17}"
  shows "\<exists>w. u_type imm20 rd opcode = Inr w \<and> fits 32 w \<and> imm_model w = push_bit 12 (take_bit 20 imm20)"
proof -
  have "fits 7 opcode" using assms(2) by (auto simp: fits_def)
  then obtain w where "u_type imm20 rd opcode = Inr w" "fits 32 w"
    using u_type_ok [OF assms(1)] by (auto simp: enc_ok_def)
  with assms(2) imm_model_u show ?thesis by blast
qed

text \<open>
  C3: encode and decode agree on immediates. With valid registers the encoders of the formats I (with the opcodes of
  the loads, the immediate operations and \<open>jalr\<close>), S, B and J raise \<open>AssertionError\<close> exactly when the immediate or
  offset is out of the format's range (odd offsets included, for B and J); otherwise the word has 32 bits and the
  decoder's immediate generator \<open>imm_model\<close> gives the value back, sign-extended to 32 bits. The encoder of the format U
  (\<open>lui\<close>, \<open>auipc\<close>) raises for no immediate: it keeps the low 20 bits, which \<open>imm_model\<close> gives back as bits 31 to 12.
\<close>

theorem encode_decode_immediates:
  assumes "is_reg rs1" "is_reg rs2" "is_reg rd" "fits 3 f3" "opcode \<in> {0x13, 0x03, 0x67}"
    and "upper \<in> {0x37, 0x17}"
  shows "(if signed_fits imm 12 then \<exists>w. i_type imm rs1 f3 rd opcode = Inr w \<and> fits 32 w \<and> imm_model w = take_bit 32 imm
     else i_type imm rs1 f3 rd opcode = Inl AssertionError) \<and>
   (if signed_fits imm 12 then \<exists>w. s_type imm rs2 rs1 f3 = Inr w \<and> fits 32 w \<and> imm_model w = take_bit 32 imm
     else s_type imm rs2 rs1 f3 = Inl AssertionError) \<and>
   (if imm mod 2 = 0 \<and> signed_fits imm 13
     then \<exists>w. b_type imm rs2 rs1 f3 = Inr w \<and> fits 32 w \<and> imm_model w = take_bit 32 imm
     else b_type imm rs2 rs1 f3 = Inl AssertionError) \<and>
   (if imm mod 2 = 0 \<and> signed_fits imm 21
     then \<exists>w. j_type imm rd = Inr w \<and> fits 32 w \<and> imm_model w = take_bit 32 imm
     else j_type imm rd = Inl AssertionError) \<and>
   (\<exists>w. u_type imm rd upper = Inr w \<and> fits 32 w \<and> imm_model w = push_bit 12 (take_bit 20 imm))"
  by (intro conjI i_type_cases s_type_cases b_type_cases j_type_cases u_type_cases assms)

theorem encode_decode_immediates_witness:
  "(\<exists>w. i_type (- 2048) ''s2'' 2 ''t3'' 0x03 = Inr w \<and> fits 32 w \<and> imm_model w = take_bit 32 (- 2048)) \<and>
   b_type (- 2048) ''t0'' ''s2'' 2 \<noteq> Inl AssertionError \<and>
   i_type 2048 ''s2'' 2 ''t3'' 0x03 = Inl AssertionError \<and>
   (\<exists>w. u_type (- 2048) ''t3'' 0x37 = Inr w \<and> imm_model w = push_bit 12 0xFF800)"
proof -
  have r: "is_reg ''s2''" "is_reg ''t0''" "is_reg ''t3''" by (simp_all add: is_reg_def)
  have o: "(0x03 :: int) \<in> {0x13, 0x03, 0x67}" "fits 3 2" "(0x37 :: int) \<in> {0x37, 0x17}" by simp_all
  show ?thesis
    using encode_decode_immediates [OF r o(2,1,3), of "- 2048"] encode_decode_immediates [OF r o(2,1,3), of 2048]
    by (auto simp: signed_fits_def take_bit_eq_mod)
qed

section \<open>When a program assembles\<close>

definition op_emits :: "asm_op \<Rightarrow> bool" where
  "op_emits op \<longleftrightarrow> (case op of Emit r \<Rightarrow> \<not> isl r | Label _ \<Rightarrow> True)"

lemma exec_Inr_D:
  assumes "exec code a = Inr b" "distinct (map fst (labels a))"
  shows "list_all op_emits code \<and> distinct (map fst (labels a @ code_labels (pc a) code)) \<and>
    b = a\<lparr>items := items a @ code_items code, labels := labels a @ code_labels (pc a) code\<rparr>"
  using assms
proof (induction code arbitrary: a)
  case Nil
  then show ?case by simp
next
  case (Cons op code)
  show ?case
  proof (cases op)
    case (Emit r)
    with Cons.prems obtain i where i: "r = Inr i" "exec code (a\<lparr>items := items a @ [i]\<rparr>) = Inr b" by auto
    have "pc (a\<lparr>items := items a @ [i]\<rparr>) = pc a + 4" by (simp add: pc_def)
    with Cons.IH [OF i(2)] Cons.prems(2) show ?thesis by (simp add: Emit i(1) op_emits_def)
  next
    case (Label name)
    let ?a = "a\<lparr>labels := labels a @ [(name, pc a)]\<rparr>"
    have n: "name \<notin> fst ` set (labels a)" "exec code ?a = Inr b" using Cons.prems(1) Label by auto
    have "pc ?a = pc a" by (simp add: pc_def)
    with Cons.IH [OF n(2)] Cons.prems(2) n(1) show ?thesis by (auto simp: Label op_emits_def)
  qed
qed

text \<open>The constants a method passes fit their fields; register names and labels are arbitrary.\<close>

fun item_sane :: "item \<Rightarrow> bool" where
  "item_sane (Word w) \<longleftrightarrow> fits 32 w"
| "item_sane (BranchTo f rs1 rs2 t) \<longleftrightarrow> fits 3 f"
| "item_sane _ \<longleftrightarrow> True"

lemma resolve_Inr_iff:
  assumes "item_sane it"
  shows "\<not> isl (resolve ls at it) \<longleftrightarrow> item_fits it \<and> reach_ok ls at it"
proof (cases it)
  case (BranchTo f rs1 rs2 t)
  then show ?thesis using assms
    by (cases "map_of ls t"; cases "reg_r rs1"; cases "reg_r rs2")
      (auto simp: rlookup_def is_reg_def b_type_def Let_def rassert_def)
next
  case (JalTo rd t)
  then show ?thesis
    by (cases "map_of ls t"; cases "reg_r rd") (auto simp: rlookup_def is_reg_def j_type_def Let_def rassert_def)
next
  case (LaHi rd t)
  then show ?thesis
    by (cases "map_of ls t"; cases "reg_r rd") (auto simp: rlookup_def is_reg_def u_type_def)
next
  case (LaLo rd t)
  then show ?thesis
    by (cases "map_of ls t"; cases "reg_r rd") (auto simp: rlookup_def is_reg_def i_type_def lo12_fits)
qed (use assms in simp)

lemma op_ok_split: "op_ok op \<longleftrightarrow> op_emits op \<and> (case op of Emit (Inr i) \<Rightarrow> item_fits i | _ \<Rightarrow> True)"
  by (cases op) (auto simp: op_ok_def op_emits_def split: sum.splits)

lemma refs_ok_all:
  assumes "list_all op_emits code"
    and "\<And>i. i < length (code_items code) \<Longrightarrow>
      item_fits (code_items code ! i) \<and> reach_ok ls (at + 4 * int i) (code_items code ! i)"
  shows "list_all op_ok code \<and> refs_ok ls at code"
  using assms
proof (induction code arbitrary: at rule: code_items.induct)
  case (2 it ops)
  have "item_fits (code_items ops ! i) \<and> reach_ok ls (at + 4 + 4 * int i) (code_items ops ! i)"
    if "i < length (code_items ops)" for i
    using 2(3) [of "Suc i"] that by (simp add: algebra_simps)
  moreover have "item_fits it \<and> reach_ok ls at it" using 2(3) [of 0] by simp
  ultimately show ?case using 2(1) [of "at + 4"] 2(2) by (simp add: op_ok_split)
qed (auto simp: op_ok_split op_emits_def)

text \<open>
  C6: assembling succeeds exactly when it should. For a sequence of method calls whose numeric
  arguments fit their fields, \<open>assemble\<close> returns words if and only if every call was valid, no label is
  defined twice, every label that is used is defined, and every branch and jump reaches its label; a
  repeated label raises \<open>AssertionError\<close> and so on, as \<open>exec\<close> and \<open>resolve\<close> say.
\<close>

theorem build_iff_code_ok:
  assumes "list_all item_sane (code_items code)"
  shows "\<not> isl (build org code) \<longleftrightarrow> code_ok org code"
proof
  assume "\<not> isl (build org code)"
  then obtain ws where "build org code = Inr ws" by (cases "build org code") auto
  then obtain b where b: "exec code (asm_new org) = Inr b" "assemble b = Inr ws" by (auto simp: build_def)
  from exec_Inr_D [OF b(1)] have l: "list_all op_emits code" "distinct (map fst (code_labels org code))"
    "b = \<lparr>origin = org, items = code_items code, labels = code_labels org code\<rparr>"
    by (simp_all add: asm_new_def pc_def)
  have r: "rmapM (\<lambda>(i, it). resolve (code_labels org code) (org + 4 * int i) it) (enumerate 0 (code_items code)) = Inr ws"
    using b(2) l(3) by (simp add: assemble_def)
  have "item_fits (code_items code ! i) \<and> reach_ok (code_labels org code) (org + 4 * int i) (code_items code ! i)"
    if i: "i < length (code_items code)" for i
  proof -
    have "resolve (code_labels org code) (org + 4 * int i) (code_items code ! i) = Inr (ws ! i)"
      using rmapM_nth [OF r, of i] i by (simp add: nth_enumerate_eq)
    with assms i show ?thesis
      using resolve_Inr_iff [of "code_items code ! i" "code_labels org code" "org + 4 * int i"]
      by (simp add: list_all_length)
  qed
  from refs_ok_all [OF l(1) this] l(2) show "code_ok org code" by (simp add: code_ok_def)
next
  assume "code_ok org code"
  from build_ok [OF this] show "\<not> isl (build org code)" by auto
qed

theorem build_iff_code_ok_witness:
  "list_all item_sane (code_items (rv_label ''a'' @ rv_j ''a'' @ rv_label ''a'')) \<and>
   \<not> code_ok 0 (rv_label ''a'' @ rv_j ''a'' @ rv_label ''a'') \<and>
   isl (build 0 (rv_label ''a'' @ rv_j ''a'' @ rv_label ''a''))"
  using build_iff_code_ok [of "rv_label ''a'' @ rv_j ''a'' @ rv_label ''a''" 0]
  by (simp add: code_ok_def rv_defs)

section \<open>The self-test\<close>

definition selftest_code :: asm_code where
  "selftest_code = concat [
     rv_label ''top'',
     rv_lui ''a1'' 0x40000,
     rv_addi ''a0'' ''zero'' 0x23,
     rv_sb ''a0'' 0 ''a1'',
     rv_jal ''zero'' ''top0'',
     rv_label ''top0'']"

definition selftest_checks :: "(int result \<times> int) list" where
  "selftest_checks =
     [(s_type (- 4) ''t0'' ''s2'' 2, 0xFE592E23),
      (i_type 8 ''s4'' 2 ''t3'' 0x03, 0x008A2E03),
      (i_type 1 ''s2'' 0 ''t3'' 0x03, 0x00190E03),
      (b_type 64 ''t2'' ''t3'' 1, 0x047E1063),
      (b_type (- 8) ''t1'' ''t0'' 0, 0xFE628CE3),
      (j_type 2048 ''ra'', 0x001000EF),
      (rmap (\<lambda>w. w OR push_bit 20 0x305) (i_type 0 ''t0'' 1 ''zero'' 0x73), 0x30529073),
      (rmap (\<lambda>w. w OR push_bit 20 0x342) (i_type 0 ''zero'' 2 ''t0'' 0x73), 0x342022F3),
      (r_type 0x20 ''t2'' ''t1'' 0 ''t0'' 0x33, 0x407302B3),
      (rbind (mul_index ''mulhsu'') (\<lambda>f. r_type 1 ''a1'' ''a0'' f ''a2'' 0x33), 0x02B52633),
      (rbind (mul_index ''remu'') (\<lambda>f. r_type 1 ''t2'' ''t1'' f ''t0'' 0x33), 0x027372B3)]"

definition selftest :: "unit result" where
  "selftest =
     rbind (build 0 selftest_code) (\<lambda>words.
     rbind (j_type 0 ''zero'') (\<lambda>w.
     rassert (words[3 := w] = [0x400005B7, 0x02300513, 0x00A58023, 0x0000006F])
     (rbind (rmapM (\<lambda>(got, want). rbind got (\<lambda>g. rassert (g = want) (Inr ()))) selftest_checks) (\<lambda>_. Inr ()))))"

text \<open>The self-test passes: the encodings agree with the words GNU as gives.\<close>

theorem selftest_passes: "selftest = Inr ()"
  unfolding selftest_def selftest_code_def selftest_checks_def
  by (simp add: build_def exec_words rv_defs r_type_def i_type_def s_type_def b_type_def j_type_def u_type_def
      signed_fits_def asm_new_def pc_def assemble_def rlookup_def mul_index_def MUL_OPS_def upto_rec1 Let_def)

end
