(* ===== verification/Hack_Asm.thy ===== *)
theory Hack_Asm
  imports RV32_Contract
begin

text \<open>
  The Hack assembler of \<^verbatim>\<open>src/sim/integration/hack_asm.py\<close>: the tables, \<open>encode_c\<close> (which parses
  \<open>dest=comp;jump\<close>) and the class \<open>Asm\<close>. A method is the list of its effects (\<open>hack_op\<close>), as in the
  RV32 assembler.
\<close>

section \<open>String methods\<close>

text \<open>\<open>str.partition\<close> and \<open>str.rpartition\<close> without the separator they also return; \<open>str.strip\<close>.\<close>

definition partition_str :: "char \<Rightarrow> string \<Rightarrow> string \<times> string" where
  "partition_str c s = (takeWhile ((\<noteq>) c) s, drop 1 (dropWhile ((\<noteq>) c) s))"

definition rpartition_str :: "char \<Rightarrow> string \<Rightarrow> string \<times> string" where
  "rpartition_str c s =
     (rev (drop 1 (dropWhile ((\<noteq>) c) (rev s))), rev (takeWhile ((\<noteq>) c) (rev s)))"

definition is_space :: "char \<Rightarrow> bool" where
  "is_space c \<longleftrightarrow> of_char c \<in> {0x09, 0x0A, 0x0B, 0x0C, 0x0D, 0x1C, 0x1D, 0x1E, 0x1F, 0x20, 0x85, 0xA0 :: nat}"

definition strip :: "string \<Rightarrow> string" where
  "strip s = rev (dropWhile is_space (rev (dropWhile is_space s)))"

lemma while_not_char:
  "c \<notin> set a \<Longrightarrow> takeWhile ((\<noteq>) c) (a @ c # b) = a" "c \<notin> set a \<Longrightarrow> dropWhile ((\<noteq>) c) (a @ c # b) = c # b"
  "c \<notin> set a \<Longrightarrow> takeWhile ((\<noteq>) c) a = a" "c \<notin> set a \<Longrightarrow> dropWhile ((\<noteq>) c) a = []"
  by (induction a) auto

lemma partition_str_absent: "c \<notin> set s \<Longrightarrow> partition_str c s = (s, [])"
  by (simp add: partition_str_def while_not_char)

lemma partition_str_split: "c \<notin> set a \<Longrightarrow> partition_str c (a @ c # b) = (a, b)"
  by (simp add: partition_str_def while_not_char)

lemma rpartition_str_absent: "c \<notin> set s \<Longrightarrow> rpartition_str c s = ([], s)"
  by (simp add: rpartition_str_def while_not_char)

lemma rpartition_str_split: "c \<notin> set b \<Longrightarrow> rpartition_str c (a @ c # b) = (a, b)"
  by (simp add: rpartition_str_def while_not_char)

lemma strip_no_space:
  assumes "list_all (\<lambda>c. \<not> is_space c) s"
  shows "strip s = s"
proof -
  have "dropWhile is_space s = s"
    using assms by (cases s) simp_all
  moreover have "dropWhile is_space (rev s) = rev s"
    using assms by (cases s rule: rev_cases) simp_all
  ultimately show ?thesis by (simp add: strip_def)
qed

section \<open>Encoding\<close>

definition COMP_A :: "(string \<times> int) list" where
  "COMP_A =
     [(''0'', 0b0101010),
      (''1'', 0b0111111),
      (''-1'', 0b0111010),
      (''D'', 0b0001100),
      (''A'', 0b0110000),
      (''!D'', 0b0001101),
      (''!A'', 0b0110001),
      (''-D'', 0b0001111),
      (''-A'', 0b0110011),
      (''D+1'', 0b0011111),
      (''A+1'', 0b0110111),
      (''D-1'', 0b0001110),
      (''A-1'', 0b0110010),
      (''D+A'', 0b0000010),
      (''D-A'', 0b0010011),
      (''A-D'', 0b0000111),
      (''D&A'', 0b0000000),
      (''D|A'', 0b0010101)]"

definition COMP :: "(string \<times> int) list" where
  "COMP = COMP_A @
     [(map (\<lambda>c. if c = CHR ''A'' then CHR ''M'' else c) k, v OR 0b1000000). (k, v) \<leftarrow> COMP_A, CHR ''A'' \<in> set k]"

definition DEST_BITS :: "(char \<times> int) list" where
  "DEST_BITS = [(CHR ''A'', 0b100), (CHR ''D'', 0b010), (CHR ''M'', 0b001)]"

definition JUMP :: "(string \<times> int) list" where
  "JUMP = [('''', 0), (''JGT'', 1), (''JEQ'', 2), (''JGE'', 3), (''JLT'', 4), (''JNE'', 5), (''JLE'', 6), (''JMP'', 7)]"

fun dest_code :: "int \<Rightarrow> string \<Rightarrow> int result" where
  "dest_code d [] = Inr d"
| "dest_code d (ch # cs) = rbind (rlookup DEST_BITS ch) (\<lambda>b. dest_code (d OR b) cs)"

definition encode_c :: "string \<Rightarrow> int result" where
  "encode_c text =
     (let (dest, rest) = rpartition_str (CHR ''='') text;
          (cmp, jump) = partition_str (CHR '';'') rest
      in rbind (dest_code 0 dest) (\<lambda>d.
         rbind (rlookup COMP (strip cmp)) (\<lambda>c.
         rbind (rlookup JUMP (strip jump)) (\<lambda>j.
           Inr (0xE000 OR push_bit 6 c OR push_bit 3 d OR j)))))"

section \<open>The assembler object\<close>

datatype hack_item = HInstr int | HRef string

record hack_asm =
  h_items :: "hack_item list"
  h_labels :: "(string \<times> int) list"

datatype hack_op = HEmit "hack_item result" | HLabel string

type_synonym hack_code = "hack_op list"

definition hack_new :: hack_asm where
  "hack_new = \<lparr>h_items = [], h_labels = []\<rparr>"

fun hack_exec_op :: "hack_op \<Rightarrow> hack_asm \<Rightarrow> hack_asm result" where
  "hack_exec_op (HEmit r) a = rbind r (\<lambda>i. Inr (a\<lparr>h_items := h_items a @ [i]\<rparr>))"
| "hack_exec_op (HLabel name) a =
     rassert (name \<notin> fst ` set (h_labels a))
       (Inr (a\<lparr>h_labels := h_labels a @ [(name, int (length (h_items a)))]\<rparr>))"

fun hack_exec :: "hack_code \<Rightarrow> hack_asm \<Rightarrow> hack_asm result" where
  "hack_exec [] a = Inr a"
| "hack_exec (op # ops) a = rbind (hack_exec_op op a) (hack_exec ops)"

definition h_label :: "string \<Rightarrow> hack_code" where
  "h_label name = [HLabel name]"

text \<open>\<open>at\<close> takes a number or a label name.\<close>

definition h_at :: "int \<Rightarrow> hack_code" where
  "h_at value = [HEmit (rassert (0 \<le> value \<and> value \<le> 0x7FFF) (Inr (HInstr value)))]"

definition h_at_label :: "string \<Rightarrow> hack_code" where
  "h_at_label name = [HEmit (Inr (HRef name))]"

definition h_c :: "string \<Rightarrow> hack_code" where
  "h_c text = [HEmit (rmap HInstr (encode_c text))]"

fun instruction :: "(string \<times> int) list \<Rightarrow> hack_item \<Rightarrow> int result" where
  "instruction ls (HRef name) = rlookup ls name"
| "instruction ls (HInstr v) = Inr v"

definition instructions :: "hack_asm \<Rightarrow> int list result" where
  "instructions a = rmapM (instruction (h_labels a)) (h_items a)"

fun pack_pairs :: "int list \<Rightarrow> int list" where
  "pack_pairs (a # b # is) = (push_bit 16 b OR a) # pack_pairs is"
| "pack_pairs is = []"

definition hack_assemble :: "hack_asm \<Rightarrow> int list result" where
  "hack_assemble a = rmap (\<lambda>instrs.
     pack_pairs (if length instrs mod 2 \<noteq> 0 then instrs @ [0] else instrs)) (instructions a)"

definition hack_build :: "hack_code \<Rightarrow> int list result" where
  "hack_build code = rbind (hack_exec code hack_new) hack_assemble"

definition hack_cases :: "(string \<times> int) list" where
  "hack_cases = [(''D=M'', 0xFC10), (''M=D'', 0xE308), (''0;JMP'', 0xEA87), (''D;JGT'', 0xE301), (''D;JNE'', 0xE305),
     (''D=D+A'', 0xE090), (''AM=M-1'', 0xFCA8), (''D=D&A'', 0xE010), (''MD=M+1'', 0xFDD8), (''AMD=D|M'', 0xF578),
     (''D=A-D'', 0xE1D0)]"

definition hack_selftest :: "unit result" where
  "hack_selftest =
     rbind (rmapM (\<lambda>(text, want). rbind (encode_c text) (\<lambda>got. rassert (got = want) (Inr ()))) hack_cases) (\<lambda>_.
     rbind (hack_build (h_at_label ''end'' @ h_c ''0;JMP'' @ h_label ''end'' @ h_at 0x6000)) (\<lambda>ws.
       rassert (ws = [0xEA870002, 0x00006000]) (Inr ())))"

lemmas hack_defs = h_label_def h_at_def h_at_label_def h_c_def

lemma comp_table: "COMP = COMP_A @
   [(''M'', 0b1110000), (''!M'', 0b1110001), (''-M'', 0b1110011), (''M+1'', 0b1110111), (''M-1'', 0b1110010),
    (''D+M'', 0b1000010), (''D-M'', 0b1010011), (''M-D'', 0b1000111), (''D&M'', 0b1000000), (''D|M'', 0b1010101)]"
  by (simp add: COMP_def COMP_A_def)

lemmas encode_c_simps = encode_c_def partition_str_def rpartition_str_def strip_def is_space_def DEST_BITS_def
  rlookup_def JUMP_def comp_table COMP_A_def

section \<open>Properties\<close>

text \<open>The Hack self-test passes: encodings and packing agree with the nand2tetris assembler's.\<close>

theorem hack_selftest_passes: "hack_selftest = Inr ()"
  by (simp add: hack_selftest_def hack_cases_def encode_c_simps hack_build_def hack_new_def hack_defs
      hack_assemble_def instructions_def)

subsection \<open>Encodings\<close>

text \<open>What a \<open>comp\<close> mnemonic means: an operand, a sign or complement of one, or an operation on two.\<close>

definition operand :: "int \<Rightarrow> int \<Rightarrow> int \<Rightarrow> char \<Rightarrow> int" where
  "operand d a m ch = (if ch = CHR ''0'' then 0 else if ch = CHR ''1'' then 1
     else if ch = CHR ''D'' then d else if ch = CHR ''A'' then a else m)"

fun mnemonic :: "int \<Rightarrow> int \<Rightarrow> int \<Rightarrow> string \<Rightarrow> int option" where
  "mnemonic d a m [x] = Some (operand d a m x)"
| "mnemonic d a m [u, x] = (if u = CHR ''!'' then Some (NOT (operand d a m x))
     else if u = CHR ''-'' then Some (- operand d a m x) else None)"
| "mnemonic d a m [x, f, y] = (if f = CHR ''+'' then Some (operand d a m x + operand d a m y)
     else if f = CHR ''-'' then Some (operand d a m x - operand d a m y)
     else if f = CHR ''&'' then Some (operand d a m x AND operand d a m y)
     else if f = CHR ''|'' then Some (operand d a m x OR operand d a m y) else None)"
| "mnemonic d a m _ = None"

definition show_c :: "string \<Rightarrow> string \<Rightarrow> string \<Rightarrow> string" where
  "show_c dest cmp jump = (if dest = [] then [] else dest @ ''='') @ cmp @ (if jump = [] then [] else '';'' @ jump)"

definition comp_means :: "int \<Rightarrow> string \<Rightarrow> int \<Rightarrow> int \<Rightarrow> int \<Rightarrow> bool" where
  "comp_means v cmp d a m \<longleftrightarrow> (case map_of HACK_COMP (take_bit 6 v) of None \<Rightarrow> False
     | Some f \<Rightarrow> mnemonic d a m cmp = Some (f d (if bit v 6 then m else a)))"

lemma COMP_syntax:
  "list_all (\<lambda>(k, v). CHR ''='' \<notin> set k \<and> CHR '';'' \<notin> set k \<and> list_all (\<lambda>c. \<not> is_space c) k \<and> fits 7 v) COMP"
  by (simp add: comp_table COMP_A_def is_space_def)

lemma COMP_meaning: "list_all (\<lambda>(k, v). comp_means v k d a m) COMP"
  by (simp add: comp_table COMP_A_def comp_means_def HACK_COMP_def operand_def)

lemma COMP_facts:
  "list_all (\<lambda>(k, v). CHR ''='' \<notin> set k \<and> CHR '';'' \<notin> set k \<and> list_all (\<lambda>c. \<not> is_space c) k \<and> fits 7 v \<and>
     comp_means v k d a m) COMP"
  using COMP_syntax COMP_meaning [of d a m] by (auto simp: list_all_iff)

lemma JUMP_facts: "list_all (\<lambda>(k, v). CHR ''='' \<notin> set k \<and> list_all (\<lambda>c. \<not> is_space c) k \<and> fits 3 v) JUMP"
  by (simp add: JUMP_def is_space_def)

lemma table_keys: "distinct (map fst COMP)" "distinct (map fst JUMP)"
  by (simp_all add: comp_table COMP_A_def JUMP_def)

lemma dest_code_bits:
  assumes "set dest \<subseteq> {CHR ''A'', CHR ''D'', CHR ''M''}" "fits 3 d"
  shows "\<exists>m. dest_code d dest = Inr m \<and> fits 3 m \<and> (bit m 2 \<longleftrightarrow> bit d 2 \<or> CHR ''A'' \<in> set dest) \<and>
    (bit m 1 \<longleftrightarrow> bit d 1 \<or> CHR ''D'' \<in> set dest) \<and> (bit m 0 \<longleftrightarrow> bit d 0 \<or> CHR ''M'' \<in> set dest)"
  using assms
proof (induction dest arbitrary: d)
  case Nil
  then show ?case by simp
next
  case (Cons ch cs)
  have "ch \<in> {CHR ''A'', CHR ''D'', CHR ''M''}" using Cons.prems(1) by simp
  then obtain b where b: "rlookup DEST_BITS ch = Inr b" "fits 3 b"
    "bit b 2 \<longleftrightarrow> ch = CHR ''A''" "bit b 1 \<longleftrightarrow> ch = CHR ''D''" "bit b 0 \<longleftrightarrow> ch = CHR ''M''"
    by (elim insertE emptyE; simp add: rlookup_def DEST_BITS_def)
  obtain m where m: "dest_code (d OR b) cs = Inr m" "fits 3 m" "bit m 2 \<longleftrightarrow> bit (d OR b) 2 \<or> CHR ''A'' \<in> set cs"
    "bit m 1 \<longleftrightarrow> bit (d OR b) 1 \<or> CHR ''D'' \<in> set cs" "bit m 0 \<longleftrightarrow> bit (d OR b) 0 \<or> CHR ''M'' \<in> set cs"
    using Cons.IH [of "d OR b"] Cons.prems fits_or [OF Cons.prems(2) b(2)] by auto
  show ?case
    unfolding list.set dest_code.simps b(1) rbind_simps
    by (rule exI [of _ m]) (use m b(3-5) in \<open>simp add: bit_or_iff; blast\<close>)
qed

lemma encode_c_show:
  assumes "set dest \<subseteq> {CHR ''A'', CHR ''D'', CHR ''M''}" "(cmp, c) \<in> set COMP" "(jump, j) \<in> set JUMP"
  shows "encode_c (show_c dest cmp jump) = rmap (\<lambda>d. 0xE000 OR push_bit 6 c OR push_bit 3 d OR j) (dest_code 0 dest)"
proof -
  have cmp: "CHR ''='' \<notin> set cmp" "CHR '';'' \<notin> set cmp" "strip cmp = cmp" "map_of COMP cmp = Some c"
    using COMP_facts [of 0 0 0] assms(2) strip_no_space [of cmp] map_of_is_SomeI [OF table_keys(1) assms(2)]
    by (auto simp: list_all_iff)
  have jump: "CHR ''='' \<notin> set jump" "strip jump = jump" "map_of JUMP jump = Some j"
    using JUMP_facts assms(3) strip_no_space [of jump] map_of_is_SomeI [OF table_keys(2) assms(3)]
    by (auto simp: list_all_iff)
  have "rpartition_str (CHR ''='') (show_c dest cmp jump) = (dest, cmp @ (if jump = [] then [] else '';'' @ jump))"
    using cmp(1) jump(1) unfolding show_c_def
    by (auto simp: rpartition_str_absent rpartition_str_split)
  moreover have "partition_str (CHR '';'') (cmp @ (if jump = [] then [] else '';'' @ jump)) = (cmp, jump)"
    using cmp(2) by (auto simp: partition_str_absent partition_str_split)
  ultimately show ?thesis
    using cmp jump by (cases "dest_code 0 dest") (simp_all add: encode_c_def rlookup_def)
qed

text \<open>
  C7: a C-instruction's encoding means its text. For every destination set, every \<open>comp\<close> mnemonic and
  every jump of the tables, \<open>encode_c\<close> of the printed instruction is a 16-bit word with the prefix
  \<open>111\<close>, the destination bits of exactly the registers named, the jump's code, and computation bits for
  which the reference table \<open>HACK_COMP\<close> computes the value the mnemonic denotes, on M instead of A
  exactly for the M-forms.
\<close>

theorem hack_encode_decode:
  assumes "set dest \<subseteq> {CHR ''A'', CHR ''D'', CHR ''M''}" "(cmp, c) \<in> set COMP" "(jump, j) \<in> set JUMP"
  shows "\<exists>w. encode_c (show_c dest cmp jump) = Inr w \<and> fits 16 w \<and> bits w 15 13 = 7 \<and>
    (bit w 5 \<longleftrightarrow> CHR ''A'' \<in> set dest) \<and> (bit w 4 \<longleftrightarrow> CHR ''D'' \<in> set dest) \<and> (bit w 3 \<longleftrightarrow> CHR ''M'' \<in> set dest) \<and>
    bits w 2 0 = j \<and> comp_means (bits w 12 6) cmp d a m"
proof -
  have cj: "fits 7 c" "fits 3 j" "comp_means c cmp d a m"
    using COMP_facts [of d a m] JUMP_facts assms(2,3) by (auto simp: list_all_iff)
  obtain b where b: "dest_code 0 dest = Inr b" "fits 3 b" "bit b 2 \<longleftrightarrow> CHR ''A'' \<in> set dest"
    "bit b 1 \<longleftrightarrow> CHR ''D'' \<in> set dest" "bit b 0 \<longleftrightarrow> CHR ''M'' \<in> set dest"
    using dest_code_bits [OF assms(1), of 0] by auto
  let ?w = "0xE000 OR push_bit 6 c OR push_bit 3 b OR j"
  have E: "field 13 3 0xE000 = 7" "field 0 3 0xE000 = 0" "field 6 7 0xE000 = 0" "field 3 3 0xE000 = 0"
    by (simp_all add: field_def drop_bit_eq_div take_bit_eq_mod)
  have "encode_c (show_c dest cmp jump) = Inr ?w"
    using encode_c_show [OF assms] b(1) by simp
  moreover have "fits 16 ?w" using cj b(2) by (auto intro!: fits_or fits_push simp: fits_weaken)
  moreover have "bits ?w 15 13 = 7" "bits ?w 2 0 = j" "bits ?w 12 6 = c"
    using cj(1,2) b(2) by (simp_all add: bits_field field_simps_bits field_0_small fits_def E)
  moreover have "field 3 3 ?w = b"
    using cj(1,2) b(2) by (simp_all add: field_simps_bits field_0_small fits_def E)
  then have "bit ?w 5 = bit b 2" "bit ?w 4 = bit b 1" "bit ?w 3 = bit b 0"
    using bit_field_iff [of 3 3 ?w 2] bit_field_iff [of 3 3 ?w 1] bit_field_iff [of 3 3 ?w 0] by simp_all
  ultimately show ?thesis using b cj(3) by auto
qed

theorem hack_encode_decode_witness:
  "set ''AM'' \<subseteq> {CHR ''A'', CHR ''D'', CHR ''M''} \<and> (''D-M'', 0b1010011) \<in> set COMP \<and> (''JLE'', 6) \<in> set JUMP \<and>
   show_c ''AM'' ''D-M'' ''JLE'' = ''AM=D-M;JLE'' \<and>
   (\<exists>w. encode_c ''AM=D-M;JLE'' = Inr w \<and> comp_means (bits w 12 6) ''D-M'' 5 6 7)"
proof -
  have p: "set ''AM'' \<subseteq> {CHR ''A'', CHR ''D'', CHR ''M''}" "(''D-M'', 0b1010011) \<in> set COMP" "(''JLE'', 6) \<in> set JUMP"
    "show_c ''AM'' ''D-M'' ''JLE'' = ''AM=D-M;JLE''"
    by (simp_all add: comp_table JUMP_def show_c_def)
  show ?thesis using hack_encode_decode [OF p(1-3), of 5 6 7] p by auto
qed

subsection \<open>Packing\<close>

fun hack_op_sane :: "hack_op \<Rightarrow> bool" where
  "hack_op_sane (HEmit (Inr (HInstr v))) \<longleftrightarrow> fits 16 v"
| "hack_op_sane _ \<longleftrightarrow> True"

lemma encode_c_fits: "encode_c text = Inr w \<Longrightarrow> fits 16 w"
proof -
  assume "encode_c text = Inr w"
  moreover obtain dest rest where "rpartition_str (CHR ''='') text = (dest, rest)" by fastforce
  moreover obtain cmp jump where "partition_str (CHR '';'') rest = (cmp, jump)" by fastforce
  ultimately obtain d c j where w: "w = (0xE000 OR push_bit 6 c OR push_bit 3 d OR j)"
    and d: "dest_code 0 dest = Inr d" and c: "map_of COMP (strip cmp) = Some c" and j: "map_of JUMP (strip jump) = Some j"
    by (auto simp: encode_c_def rlookup_def split: option.splits)
  have "set dest \<subseteq> {CHR ''A'', CHR ''D'', CHR ''M''}" if "dest_code b dest = Inr d" for b
    using that by (induction dest arbitrary: b) (auto simp: rlookup_def DEST_BITS_def split: option.splits if_splits)
  with d dest_code_bits [of dest 0] have "fits 3 d" by fastforce
  moreover have "fits 7 c" "fits 3 j"
    using c j COMP_facts [of 0 0 0] JUMP_facts by (auto simp: list_all_iff dest!: map_of_SomeD)
  ultimately show ?thesis unfolding w by (auto intro!: fits_or fits_push simp: fits_weaken)
qed

lemma methods_sane:
  "list_all hack_op_sane (h_label n)" "list_all hack_op_sane (h_at v)" "list_all hack_op_sane (h_at_label n)"
  "list_all hack_op_sane (h_c t)"
proof -
  show "list_all hack_op_sane (h_at v)" by (cases "0 \<le> v \<and> v \<le> 0x7FFF") (simp_all add: h_at_def rassert_def fits_def)
  show "list_all hack_op_sane (h_c t)" by (cases "encode_c t") (simp_all add: h_c_def encode_c_fits)
qed (simp_all add: hack_defs)

definition hack_inv :: "hack_asm \<Rightarrow> bool" where
  "hack_inv a \<longleftrightarrow> list_all (\<lambda>it. case it of HInstr v \<Rightarrow> fits 16 v | HRef _ \<Rightarrow> True) (h_items a) \<and>
     list_all (\<lambda>l. 0 \<le> snd l \<and> snd l \<le> int (length (h_items a))) (h_labels a) \<and> distinct (map fst (h_labels a))"

lemma hack_exec_op_inv:
  "hack_exec_op op a = Inr b \<Longrightarrow> hack_op_sane op \<Longrightarrow> hack_inv a \<Longrightarrow> hack_inv b"
  by (cases "(op, a)" rule: hack_exec_op.cases)
    (fastforce simp: hack_inv_def list_all_iff split: hack_item.splits)+

lemma hack_exec_inv:
  "hack_exec code a = Inr b \<Longrightarrow> list_all hack_op_sane code \<Longrightarrow> hack_inv a \<Longrightarrow> hack_inv b"
  by (induction code arbitrary: a) (auto intro: hack_exec_op_inv)

lemma instructions_fit:
  assumes "hack_inv a" "instructions a = Inr instrs" "length (h_items a) \<le> 0x7FFF"
  shows "list_all (fits 16) instrs"
proof -
  have "fits 16 v" if "instruction (h_labels a) it = Inr v" "it \<in> set (h_items a)" for it v
  proof (cases it)
    case (HRef n)
    with that have "(n, v) \<in> set (h_labels a)" by (auto simp: rlookup_def split: option.splits dest!: map_of_SomeD)
    with assms show ?thesis by (auto simp: hack_inv_def list_all_iff fits_def)
  qed (use that assms in \<open>auto simp: hack_inv_def list_all_iff split: hack_item.splits\<close>)
  then show ?thesis
    using rmapM_nth [OF assms(2) [unfolded instructions_def]] rmapM_length [OF assms(2) [unfolded instructions_def]]
    by (metis list_all_length nth_mem)
qed

lemma pack_pairs_halves:
  "even (length is) \<Longrightarrow> list_all (fits 16) is \<Longrightarrow>
   length (pack_pairs is) = length is div 2 \<and> list_all (fits 32) (pack_pairs is) \<and>
   (\<forall>i < length is. field (16 * (i mod 2)) 16 (pack_pairs is ! (i div 2)) = is ! i)"
proof (induction "is" rule: pack_pairs.induct)
  case (1 a b "is")
  have ab: "fits 16 a" "fits 16 b" using 1(3) by simp_all
  have w: "field 0 16 (push_bit 16 b OR a) = a" "field 16 16 (push_bit 16 b OR a) = b"
    using ab by (simp_all add: field_simps_bits field_0_small fits_def)
  have IH: "length (pack_pairs is) = length is div 2" "list_all (fits 32) (pack_pairs is)"
    "\<And>i. i < length is \<Longrightarrow> field (16 * (i mod 2)) 16 (pack_pairs is ! (i div 2)) = is ! i"
    using 1 by simp_all
  have "field (16 * (i mod 2)) 16 (pack_pairs (a # b # is) ! (i div 2)) = (a # b # is) ! i"
    if i: "i < length (a # b # is)" for i
  proof -
    consider "i = 0" | "i = 1" | k where "i = Suc (Suc k)" by (metis One_nat_def not0_implies_Suc)
    then show ?thesis
    proof cases
      case 3
      with i IH(3) [of k] show ?thesis by simp
    qed (simp_all add: w)
  qed
  moreover have "fits 32 (push_bit 16 b OR a)"
    using ab fits_push [of 16 32 b] fits_mono [of 16 a 32] by (simp add: fits_or)
  ultimately show ?case using IH(1,2) by simp
qed simp_all

text \<open>
  \<open>assemble\<close> packs the program. For a sequence of method calls that succeeds and makes at most
  \<open>0x7FFF\<close> instructions, every resolved instruction has 16 bits, the result has half as many 32-bit
  words (rounded up, padded with \<open>@0\<close>), and instruction \<open>i\<close> is the low half of word \<open>i div 2\<close> for even
  \<open>i\<close> and the high half for odd \<open>i\<close>.
\<close>

theorem hack_assemble_halves:
  assumes "list_all hack_op_sane code" "hack_exec code hack_new = Inr a" "instructions a = Inr instrs"
    and "length (h_items a) \<le> 0x7FFF"
  shows "\<exists>ws. hack_build code = Inr ws \<and> length ws = (length instrs + 1) div 2 \<and>
    list_all (fits 16) instrs \<and> list_all (fits 32) ws \<and>
    (\<forall>i < length instrs. field (16 * (i mod 2)) 16 (ws ! (i div 2)) = instrs ! i)"
proof -
  have "hack_inv hack_new" by (simp add: hack_inv_def hack_new_def)
  with assms have f: "list_all (fits 16) instrs" by (blast intro: instructions_fit hack_exec_inv)
  define padded where "padded = (if length instrs mod 2 \<noteq> 0 then instrs @ [0] else instrs)"
  have p: "even (length padded)" "list_all (fits 16) padded" "length padded div 2 = (length instrs + 1) div 2"
    using f by (auto simp: padded_def)
  have "padded ! i = instrs ! i" "i < length padded" if "i < length instrs" for i
    using that by (auto simp: padded_def nth_append)
  moreover have "hack_build code = Inr (pack_pairs padded)"
    by (simp add: hack_build_def assms(2,3) hack_assemble_def padded_def)
  ultimately show ?thesis using pack_pairs_halves [OF p(1,2)] p(3) f by simp
qed

theorem hack_assemble_halves_witness:
  "\<exists>ws. hack_build (h_at_label ''end'' @ h_c ''0;JMP'' @ h_label ''end'') = Inr ws \<and> length ws = 1 \<and>
    field 0 16 (ws ! 0) = 2 \<and> field 16 16 (ws ! 0) = 0xEA87"
proof -
  let ?code = "h_at_label ''end'' @ h_c ''0;JMP'' @ h_label ''end''"
  let ?a = "\<lparr>h_items = [HRef ''end'', HInstr 0xEA87], h_labels = [(''end'', 2)]\<rparr>"
  have "hack_exec ?code hack_new = Inr ?a" "instructions ?a = Inr [2, 0xEA87]"
    by (simp_all add: hack_new_def hack_defs encode_c_simps instructions_def)
  from hack_assemble_halves [OF _ this] show ?thesis
    by (force simp: methods_sane)
qed

end
