(* ===== verification/Lockstep_Base.thy ===== *)
theory Lockstep_Base
  imports Hack_Asm
begin

text \<open>
  The shared part of \<^verbatim>\<open>src/sim/integration/lockstep_programs.py\<close>: the memory map's constants, the
  ranges of the window that programs use (\<open>XMEM_USED\<close>), the record of a program with its stimulus,
  and the routines several programs call. A program function is the code it gives the assembler
  (\<open>\<dots>_code\<close>, an \<open>asm_code\<close>) and the result of assembling it (\<open>rom_program\<close> where the source asserts the
  ROM's size).
\<close>

section \<open>Constants\<close>

definition UART_BIT :: int where "UART_BIT = 156"
definition UART_FRAME :: int where "UART_FRAME = 10 * UART_BIT"
definition XMEM :: int where "XMEM = 0x80000000"
definition XMEM_BYTES :: int where "XMEM_BYTES = 0x800000"
definition XMEM_WAIT :: int where "XMEM_WAIT = 35"
definition XMEM_WRITE_WAIT :: int where "XMEM_WRITE_WAIT = 34"
definition XMEM_LINE_WORDS :: int where "XMEM_LINE_WORDS = 8"
definition XMEM_BURST_EXTRA :: int where "XMEM_BURST_EXTRA = 2 * (XMEM_LINE_WORDS - 1)"
definition XMEM_LINE_FILL :: int where "XMEM_LINE_FILL = XMEM_WAIT + XMEM_BURST_EXTRA"
definition XMEM_LINE_DIRTY :: int where "XMEM_LINE_DIRTY = XMEM_WRITE_WAIT + XMEM_BURST_EXTRA + 2 + XMEM_LINE_FILL"
definition XMEM_FETCH_FILL :: int where "XMEM_FETCH_FILL = XMEM_LINE_FILL"
definition XMEM_FETCH_PROBE :: int where "XMEM_FETCH_PROBE = XMEM_WRITE_WAIT + XMEM_BURST_EXTRA + 3 + XMEM_FETCH_FILL"
definition HACK_I_BASE :: int where "HACK_I_BASE = 0x80000000"
definition HACK_D_BASE :: int where "HACK_D_BASE = 0x80020000"

record Program =
  p_name :: string
  cycles :: int
  imem_words :: "int list option"
  uart_rx :: "(int \<times> byte list) list"
  button :: "(int \<times> bool) list"
  sd_sectors :: "(nat \<times> byte list) list"
  xmem_init :: "(int \<times> byte list) list"
  slow :: bool
  needs :: "string list"

definition csr_read :: "int \<Rightarrow> int \<Rightarrow> int" where
  "csr_read rd csr = (push_bit 20 csr OR push_bit 12 2 OR push_bit 7 rd OR 0x73)"

definition XMEM_IRQS :: int where "XMEM_IRQS = 4"
definition XMEM_ADDR_LINES :: "nat list" where "XMEM_ADDR_LINES = [9, 10, 11, 12, 13, 14, 15, 16, 17, 18, 19, 20]"
definition STAGE2_BASE :: int where "STAGE2_BASE = 0x80700000"
definition XCACHE_I_BYTES :: int where "XCACHE_I_BYTES = 0x4000"
definition XCACHE_D_BYTES :: int where "XCACHE_D_BYTES = 0x800"
definition XCACHE_A :: int where "XCACHE_A = 0x600"
definition XCACHE_B :: int where "XCACHE_B = 0x600 + XCACHE_I_BYTES"
definition XCACHE_D :: int where "XCACHE_D = 0x700"
definition XCACHE_D2 :: int where "XCACHE_D2 = XCACHE_D + 0x1000"
definition XCACHE_P :: int where "XCACHE_P = 0x780"
definition XCACHE_P2 :: int where "XCACHE_P2 = XCACHE_P + XCACHE_D_BYTES"
definition XCACHE_C :: int where "XCACHE_C = 0x7D8"
definition XCACHE_C2 :: int where "XCACHE_C2 = XCACHE_C + 0x800"
definition HACK_DEMO_BYTES :: int where "HACK_DEMO_BYTES = 0x1600"
definition HACK_STUB_FLAG :: int where "HACK_STUB_FLAG = XMEM + 0x400000"
definition XCACHE_HACK_WORDS :: "int list" where "XCACHE_HACK_WORDS = [3, 3 + 512, 3 + 1024]"
definition RV_DATA :: int where "RV_DATA = XMEM + 0x50000"
definition XMEM_ASIDE :: int where "XMEM_ASIDE = XMEM + 0x60000"
definition MULDIV_CODE :: int where "MULDIV_CODE = XMEM + 0x3000"
definition AMO_DATA :: int where "AMO_DATA = XMEM + 0x70000"
definition AMO_CODE :: int where "AMO_CODE = AMO_DATA + 0x20"
definition S2L_CODE :: int where "S2L_CODE = XMEM + 0x1000"
definition S2L_COPY :: int where "S2L_COPY = XMEM + 0x1800"
definition S2L_APP :: int where "S2L_APP = XMEM + 0x2000"
definition S2L_BYTES :: int where "S2L_BYTES = 0x200"
definition CLINT :: int where "CLINT = 0x20000000"
definition CLINT_MTIMECMP :: int where "CLINT_MTIMECMP = CLINT + 0x4000"
definition CLINT_MTIME :: int where "CLINT_MTIME = CLINT + 0xBFF8"
definition UART :: int where "UART = 0x40000000"
definition HACK_BACK :: int where "HACK_BACK = 0x53"

text \<open>\<open>XMEM_USED\<close>, in the order the source extends it.\<close>

definition XMEM_USED :: "(int \<times> int) list" where
  "XMEM_USED =
     [(0, 0x800), (0x7FF840, 0x7FF848)] @ map (\<lambda>b. (push_bit b 4, push_bit b 4 + 4)) XMEM_ADDR_LINES @
     [(0x6F0000, 0x6F0100), (0x6FE000, 0x700000), (0x700000, 0x700100)] @
     [(0x1000, 0x1200), (0x1800, 0x1A00), (0x2000, 0x2200)] @
     [(XCACHE_B, XCACHE_B + 0x40), (XCACHE_D2, XCACHE_D2 + 0x20), (XCACHE_P2, XCACHE_P2 + 0x20)] @
     [(XCACHE_C2 AND NOT 0x1F, (XCACHE_C2 AND NOT 0x1F) + 0x20)] @
     [(0x800, HACK_DEMO_BYTES), (0x20000, 0x20400), (0x2F800, 0x30000)] @
     [(HACK_STUB_FLAG - XMEM, HACK_STUB_FLAG - XMEM + 4)] @
     map (\<lambda>w. (0x20000 + 4 * (w AND NOT 7), 0x20000 + 4 * (w AND NOT 7) + 0x20)) (drop 1 XCACHE_HACK_WORDS) @
     [(RV_DATA - XMEM - 0x200, RV_DATA - XMEM + 0x200), (XMEM_ASIDE - XMEM + 0x40, XMEM_ASIDE - XMEM + 0x44)] @
     [(MULDIV_CODE - XMEM, MULDIV_CODE - XMEM + 0x100)] @
     [(AMO_DATA - XMEM, AMO_DATA - XMEM + 0x40), (AMO_DATA - XMEM + XCACHE_D_BYTES, AMO_DATA - XMEM + 0x840)]"

lemmas lockstep_consts = XMEM_def XMEM_BYTES_def HACK_I_BASE_def HACK_D_BASE_def XMEM_IRQS_def XMEM_ADDR_LINES_def
  STAGE2_BASE_def XCACHE_I_BYTES_def XCACHE_D_BYTES_def XCACHE_A_def XCACHE_B_def XCACHE_D_def XCACHE_D2_def
  XCACHE_P_def XCACHE_P2_def XCACHE_C_def XCACHE_C2_def HACK_DEMO_BYTES_def HACK_STUB_FLAG_def
  XCACHE_HACK_WORDS_def RV_DATA_def XMEM_ASIDE_def MULDIV_CODE_def AMO_DATA_def AMO_CODE_def S2L_CODE_def
  S2L_COPY_def S2L_APP_def S2L_BYTES_def CLINT_def CLINT_MTIMECMP_def CLINT_MTIME_def UART_def HACK_BACK_def
  csr_read_def UART_BIT_def UART_FRAME_def

section \<open>Shared routines\<close>

text \<open>\<open>a.word(i_type(\<dots>))\<close>.\<close>

definition rv_word_of :: "int result \<Rightarrow> asm_code" where
  "rv_word_of r = [Emit (rmap (\<lambda>v. Word (v AND 0xFFFFFFFF)) r)]"

definition soft_reset_key :: "string \<Rightarrow> asm_code" where
  "soft_reset_key gpio = concat [
     rv_lui ''t0'' 0xA,
     rv_addi ''t0'' ''t0'' 0x55A,
     rv_sw ''t0'' 0xC gpio]"

definition put_char :: "int \<Rightarrow> string \<Rightarrow> asm_code" where
  "put_char ch tag = concat [
     rv_label tag,
     rv_lw ''t0'' 4 ''s1'',
     rv_bnez ''t0'' tag,
     rv_li ''t0'' ch,
     rv_sb ''t0'' 0 ''s1'']"

definition rom_program :: "asm_code \<Rightarrow> int list result" where
  "rom_program code = rbind (build 0 code) (\<lambda>words. rassert (int (length words) \<le> 0x3800 div 4) (Inr words))"

text \<open>\<open>for k, w in enumerate(words): a.li("t0", w); a.sw("t0", off + 4 * k, base)\<close>.\<close>

definition copy_words :: "int \<Rightarrow> string \<Rightarrow> int list \<Rightarrow> asm_code" where
  "copy_words off base words = concat (map (\<lambda>(k, w). concat [
     rv_li ''t0'' w,
     rv_sw ''t0'' (off + 4 * int k) base]) (enumerate 0 words))"

definition hack_stub_code :: asm_code where
  "hack_stub_code = concat [
     rv_li ''s0'' HACK_STUB_FLAG,
     rv_lui ''s1'' 0x40003,
     rv_lw ''t0'' 0 ''s0'',
     rv_bnez ''t0'' ''back'',
     rv_addi ''t0'' ''zero'' 1,
     rv_sw ''t0'' 0 ''s0'',
     rv_addi ''t0'' ''zero'' 0x100,
     rv_sw ''t0'' 8 ''s1'',
     soft_reset_key ''s1'',
     rv_label ''spin'',
     rv_j ''spin'',
     rv_label ''back'',
     rv_lui ''s1'' 0x40000,
     put_char HACK_BACK ''wait'',
     rv_label ''halt'',
     rv_j ''halt'']"

definition hack_stub :: "int list result" where
  "hack_stub = build 0 hack_stub_code"

text \<open>\<open>struct.pack(f"<{len(words)}I", *words)\<close>.\<close>

definition pack_words :: "int list \<Rightarrow> byte list result" where
  "pack_words words = rmap concat (rmapM (pack_u 4) words)"

definition hack_image_bytes :: "int list \<Rightarrow> byte list result" where
  "hack_image_bytes words = pack_words words"

section \<open>Programs that fit the ROM\<close>

definition rom_ok :: "int list result \<Rightarrow> bool" where
  "rom_ok r \<longleftrightarrow> (\<exists>ws. r = Inr ws \<and> length ws \<le> 0xE00 \<and> list_all (fits 32) ws)"

lemma word_of_ok: "op_ok (Emit (rmap (\<lambda>v. Word (v AND 0xFFFFFFFF)) r)) \<longleftrightarrow> \<not> isl r"
  by (cases r) (auto simp: op_ok_def and_mask32 fits_take)

lemma refs_ok_word_of:
  "(case rmap (\<lambda>v. Word (v AND 0xFFFFFFFF)) r of Inl e \<Rightarrow> True | Inr i \<Rightarrow> reach_ok ls at i) \<longleftrightarrow> True"
  by (cases r) simp_all

lemma build_rom_ok:
  assumes "code_ok 0 code" "code_size code \<le> 0xE00"
  shows "rom_ok (build 0 code)" "rom_ok (rom_program code)"
proof -
  obtain ws where "build 0 code = Inr ws" "length ws = code_size code" "list_all (fits 32) ws"
    using build_ok [OF assms(1)] by blast
  with assms(2) show "rom_ok (build 0 code)" "rom_ok (rom_program code)"
    by (simp_all add: rom_ok_def rom_program_def)
qed

lemma not_isl_types:
  "signed_fits imm 12 \<Longrightarrow> is_reg rs1 \<Longrightarrow> is_reg rd \<Longrightarrow> \<not> isl (i_type imm rs1 f3 rd opc)"
  "is_reg rs1 \<Longrightarrow> is_reg rs2 \<Longrightarrow> is_reg rd \<Longrightarrow> \<not> isl (r_type f7 rs2 rs1 f3 rd opc)"
  by (auto simp: is_reg_def i_type_def r_type_def)

lemmas rom_simps = code_ok_simps word_of_ok refs_ok_word_of rv_word_of_def soft_reset_key_def put_char_def
  copy_words_def lockstep_consts not_isl_types

text \<open>Evaluating an assembly.\<close>

lemmas asm_eval = build_def rv_defs rv_li_def r_type_def i_type_def s_type_def b_type_def j_type_def u_type_def
  lo12_def hi20_def signed_fits_def asm_new_def pc_def assemble_def rlookup_def csr_word_def CSRS_def Let_def
  mask_eq_exp_minus_1

lemmas hack_eval = hack_build_def hack_new_def hack_defs hack_assemble_def instructions_def encode_c_simps

lemma hack_stub_ok: "rom_ok hack_stub"
  unfolding hack_stub_def
  by (rule build_rom_ok; simp add: hack_stub_code_def code_ok_def rom_simps)

end
