(* ===== verification/Lockstep_Window.thy ===== *)
theory Lockstep_Window
  imports Lockstep_Base
begin

text \<open>
  The programs on the wait-state window (\<open>xmem\<close>, \<open>xcache\<close>) of
  \<^verbatim>\<open>src/sim/integration/lockstep_programs.py\<close>. Both assemble routines for window addresses first and
  store their words there one by one.
\<close>

section \<open>xmem\<close>

definition xmem_routine_code :: asm_code where
  "xmem_routine_code = concat [
     rv_sb ''a0'' 0 ''s1'',
     rv_lw ''t0'' 0 ''a6'',
     rv_csrr ''t1'' ''mcycle'',
     rv_lw ''t2'' 0x40 ''s0'',
     rv_sw ''t1'' 0x48 ''s0'',
     rv_jalr ''zero'' ''ra'' 0,
     rv_label ''spin'',
     rv_addi ''s6'' ''s6'' 1,
     rv_li ''t1'' XMEM_IRQS,
     rv_bltu ''s5'' ''t1'' ''spin'',
     rv_jalr ''zero'' ''ra'' 0]"

definition xmem_code :: "int list \<Rightarrow> int \<Rightarrow> asm_code" where
  "xmem_code routine spin = concat [
     rv_li ''s0'' XMEM,
     rv_li ''s1'' 0x40000000,
     rv_li ''s2'' CLINT_MTIMECMP,
     rv_li ''a6'' CLINT_MTIME,
     rv_li ''s10'' XMEM_ASIDE,
     rv_li ''t0'' 0x11223344,
     rv_sw ''t0'' 0x40 ''s0'',
     rv_li ''t1'' 0xA5,
     rv_sb ''t1'' 0x41 ''s0'',
     rv_li ''t1'' 0xBEEF,
     rv_sh ''t1'' 0x46 ''s0'',
     rv_lw ''t2'' 0x40 ''s0'',
     rv_lb ''t3'' 0x41 ''s0'',
     rv_lbu ''t4'' 0x41 ''s0'',
     rv_lh ''t5'' 0x46 ''s0'',
     rv_word_of (i_type 0x46 ''s0'' 5 ''t6'' 0x03),
     rv_li ''s3'' (XMEM + XMEM_BYTES),
     rv_lw ''t2'' 0x40 ''s3'',
     rv_li ''s4'' 0x8FFFF800,
     rv_sw ''t0'' 0x44 ''s4'',
     rv_li ''t1'' ((XMEM + XMEM_BYTES) - 0x800),
     rv_lw ''t3'' 0x44 ''t1'',
     rv_sw ''t3'' 0x40 ''s10'',
     rv_li ''t1'' 0xC0DE0020,
     rv_sw ''t1'' 0x20 ''s3'',
     rv_lw ''t2'' 0x20 ''s0'',
     concat (map (\<lambda>b. concat [
         rv_li ''t1'' (XMEM + (push_bit b 4)),
         rv_li ''t0'' ((0x5A000000 OR push_bit 8 (int b)) OR int b),
         rv_sw ''t0'' 0 ''t1'']) XMEM_ADDR_LINES),
     concat (map (\<lambda>b. concat [
         rv_li ''t1'' (XMEM + (push_bit b 4)),
         rv_lw ''t2'' 0 ''t1'']) XMEM_ADDR_LINES),
     copy_words 0x100 ''s0'' routine,
     rv_word 0x0000100F,
     rv_li ''a0'' 0x57,
     rv_li ''t0'' (XMEM + 0x100),
     rv_jalr ''ra'' ''t0'' 0,
     rv_lw ''t4'' 0x48 ''s0'',
     rv_la ''t0'' ''handler'',
     rv_csrw ''mtvec'' ''t0'',
     rv_li ''s7'' 211,
     rv_call ''arm'',
     rv_li ''t0'' 0x80,
     rv_csrw ''mie'' ''t0'',
     rv_li ''t0'' 8,
     rv_csrs ''mstatus'' ''t0'',
     rv_li ''t0'' spin,
     rv_jalr ''ra'' ''t0'' 0,
     rv_label ''done'',
     rv_j ''done'',
     rv_label ''arm'',
     rv_li ''t0'' (- 1),
     rv_sw ''t0'' 4 ''s2'',
     rv_lw ''t0'' 0 ''a6'',
     rv_add ''t0'' ''t0'' ''s7'',
     rv_sw ''t0'' 0 ''s2'',
     rv_sw ''zero'' 4 ''s2'',
     rv_ret,
     rv_label ''handler'',
     rv_csrr ''s8'' ''mepc'',
     rv_addi ''s5'' ''s5'' 1,
     rv_addi ''s7'' ''s7'' 37,
     rv_mv ''s9'' ''ra'',
     rv_call ''arm'',
     rv_mv ''ra'' ''s9'',
     rv_mret]"

definition xmem :: "int list result" where
  "xmem =
     rbind (exec xmem_routine_code (asm_new (XMEM + 0x100))) (\<lambda>r.
     rbind (assemble r) (\<lambda>routine.
     rbind (rlookup (labels r) ''spin'') (\<lambda>spin.
       rom_program (xmem_code routine spin))))"

section \<open>xcache\<close>

definition XCACHE_LOOPS :: int where "XCACHE_LOOPS = 40"
definition XCACHE_IRQ_LOOPS :: int where "XCACHE_IRQ_LOOPS = 400"

definition xcache_a_code :: asm_code where
  "xcache_a_code = concat [
     rv_label ''loop'',
     rv_lw ''a5'' XCACHE_D ''s0'',
     rv_addi ''s6'' ''s6'' 1,
     rv_bltu ''s6'' ''s7'' ''loop'',
     rv_label ''smc'',
     rv_sw ''t2'' 4 ''s5'',
     rv_addi ''a1'' ''zero'' 1,
     rv_label ''other'',
     rv_sw ''zero'' 12 ''s11'',
     rv_addi ''a2'' ''a2'' 1,
     rv_jalr ''zero'' ''ra'' 0]"

definition xcache_b_code :: asm_code where
  "xcache_b_code = concat [
     rv_addi ''s8'' ''s8'' 1,
     rv_jalr ''zero'' ''ra'' 0]"

definition xcache_c_code :: asm_code where
  "xcache_c_code = concat [
     rv_addi ''s9'' ''s9'' 1,
     rv_addi ''s9'' ''s9'' 1,
     rv_addi ''s9'' ''s9'' 1,
     rv_jalr ''zero'' ''ra'' 0]"

definition xcache_lines_code :: "int list \<Rightarrow> int list \<Rightarrow> int list \<Rightarrow> int \<Rightarrow> int \<Rightarrow> asm_code" where
  "xcache_lines_code ra_words rb_words rc_words smc_word smc = concat [
     rv_li ''s0'' XMEM,
     rv_li ''s2'' CLINT_MTIMECMP,
     rv_li ''a6'' CLINT_MTIME,
     concat (map (\<lambda>(base, words). concat [
         rv_li ''t1'' (XMEM + base),
         copy_words 0 ''t1'' words]) [(XCACHE_A, ra_words), (XCACHE_B, rb_words), (XCACHE_C, rc_words)]),
     rv_li ''t2'' smc_word,
     rv_li ''s5'' smc,
     rv_li ''s11'' (smc + XCACHE_I_BYTES),
     rv_li ''s7'' XCACHE_LOOPS,
     rv_li ''s3'' (XMEM + XCACHE_A),
     rv_li ''s4'' (XMEM + XCACHE_B),
     rv_jalr ''ra'' ''s3'' 0,
     concat (map (\<lambda>_. concat [
         rv_jalr ''ra'' ''s4'' 0,
         rv_mv ''s6'' ''zero'',
         rv_li ''s7'' 2,
         rv_jalr ''ra'' ''s3'' 0]) [0, 1, 2 :: nat]),
     rv_li ''t0'' ((XMEM + XMEM_BYTES) + XCACHE_A),
     rv_mv ''s6'' ''zero'',
     rv_jalr ''ra'' ''t0'' 0,
     rv_li ''s10'' (XMEM + XCACHE_C),
     rv_li ''t1'' (XMEM + XCACHE_C2),
     rv_jalr ''ra'' ''s10'' 0,
     rv_jalr ''ra'' ''s10'' 0,
     rv_sw ''zero'' (- 0x10) ''s10'',
     rv_jalr ''ra'' ''s10'' 0,
     rv_sw ''zero'' (- 0x10) ''s10'',
     rv_lw ''t0'' 0 ''t1'',
     rv_jalr ''ra'' ''s10'' 0]"

definition xcache_data_code :: asm_code where
  "xcache_data_code = concat [
     rv_la ''t0'' ''handler'',
     rv_csrw ''mtvec'' ''t0'',
     rv_li ''t0'' (- 1),
     rv_sw ''t0'' 4 ''s2'',
     rv_lw ''t0'' 0 ''a6'',
     rv_addi ''t0'' ''t0'' 523,
     rv_sw ''t0'' 0 ''s2'',
     rv_sw ''zero'' 4 ''s2'',
     rv_li ''t0'' 0x80,
     rv_csrw ''mie'' ''t0'',
     rv_li ''t0'' 8,
     rv_csrs ''mstatus'' ''t0'',
     rv_mv ''s6'' ''zero'',
     rv_li ''s7'' XCACHE_IRQ_LOOPS,
     rv_jalr ''ra'' ''s3'' 0,
     rv_li ''s1'' (XMEM + XCACHE_D),
     rv_li ''s3'' (XMEM + XCACHE_D2),
     rv_li ''t0'' 0x12345678,
     rv_sw ''t0'' 0 ''s1'',
     rv_lw ''a3'' 0 ''s1'',
     rv_li ''t0'' 0xA5,
     rv_sb ''t0'' 1 ''s1'',
     rv_lw ''a3'' 0 ''s1'',
     rv_lw ''a4'' 0 ''s3'',
     rv_lw ''a3'' 0 ''s1'',
     rv_li ''t0'' 0xBEEF,
     rv_sh ''t0'' 2 ''s3'',
     rv_lw ''a3'' 0 ''s1'',
     rv_li ''t0'' 0x0BADF00D,
     rv_sw ''t0'' 0 ''s3'',
     rv_lw ''a4'' 0 ''s3'',
     rv_li ''t1'' ((XMEM + XMEM_BYTES) + XCACHE_D2),
     rv_lw ''a4'' 0 ''t1'',
     rv_li ''s1'' (XMEM + XCACHE_P),
     rv_li ''s3'' (XMEM + XCACHE_P2),
     rv_li ''t0'' 0x5A,
     rv_sb ''t0'' 1 ''s1'',
     rv_li ''t0'' 0xC3A5,
     rv_sh ''t0'' 6 ''s1'',
     rv_lw ''a5'' 0 ''s3'',
     rv_lw ''a3'' 0 ''s1'',
     rv_lw ''a4'' 4 ''s1'',
     rv_label ''done'',
     rv_j ''done'',
     rv_label ''handler'',
     rv_csrr ''s10'' ''mepc'',
     rv_addi ''s9'' ''s9'' 1,
     rv_li ''t0'' (- 1),
     rv_sw ''t0'' 4 ''s2'',
     rv_mret]"

definition xcache :: "int list result" where
  "xcache =
     rbind (exec xcache_a_code (asm_new (XMEM + XCACHE_A))) (\<lambda>r.
     rbind (assemble r) (\<lambda>ra_words.
     rbind (rlookup (labels r) ''smc'') (\<lambda>smc.
     rbind (rlookup (labels r) ''other'') (\<lambda>other.
     rassert (other + 4 + XCACHE_I_BYTES = smc + XCACHE_I_BYTES + 12)
     (rassert (smc + XCACHE_I_BYTES + 12 \<ge> XMEM + XCACHE_B + 8)
     (rbind (build (XMEM + XCACHE_B) xcache_b_code) (\<lambda>rb_words.
     rbind (build (XMEM + XCACHE_C) xcache_c_code) (\<lambda>rc_words.
     rbind (build 0 (rv_addi ''a1'' ''zero'' 2)) (\<lambda>t.
       rom_program (xcache_lines_code ra_words rb_words rc_words (t ! 0) smc @ xcache_data_code))))))))))"

section \<open>They assemble\<close>

lemma xmem_words: "xmem = rom_program (xmem_code [0x00A48023, 0x00082283, 0xB0002373, 0x04042383, 0x04642423, 0x00008067, 0x001B0B13, 0x00400313,
      0xFE6AECE3, 0x00008067] 0x80000118)"
  by (simp add: xmem_def xmem_routine_code_def asm_eval lockstep_consts)

lemma xmem_ok: "rom_ok xmem"
  unfolding xmem_words by (rule build_rom_ok; simp add: xmem_code_def code_ok_def rom_simps)

lemma xcache_words: "xcache = rom_program (xcache_lines_code [0x70042783, 0x001B0B13, 0xFF7B6CE3, 0x007AA223, 0x00100593, 0x000DA623, 0x00160613, 0x00008067]
    [0x001C0C13, 0x00008067] [0x001C8C93, 0x001C8C93, 0x001C8C93, 0x00008067] 0x00200593 0x8000060C @ xcache_data_code)"
  by (simp add: xcache_def xcache_a_code_def xcache_b_code_def xcache_c_code_def asm_eval lockstep_consts)

lemma xcache_ok: "rom_ok xcache"
  unfolding xcache_words
  by (rule build_rom_ok; simp add: xcache_lines_code_def xcache_data_code_def code_ok_def rom_simps
      XCACHE_LOOPS_def XCACHE_IRQ_LOOPS_def)

end
