(* ===== verification/Lockstep_Privileged.thy ===== *)
theory Lockstep_Privileged
  imports Lockstep_Window
begin

text \<open>
  Traps, interrupts and CSRs (\<open>traps\<close>), U-mode (\<open>umode\<close>) and atomics (\<open>amo\<close>) of
  \<^verbatim>\<open>src/sim/integration/lockstep_programs.py\<close>.
\<close>

section \<open>traps\<close>

definition traps_code :: asm_code where
  "traps_code = concat [
     rv_bnez ''x5'' ''second'',
     rv_la ''t0'' ''handler'',
     rv_csrw ''mtvec'' ''t0'',
     rv_li ''sp'' RV_DATA,
     rv_li ''s1'' 0x40000000,
     rv_li ''s2'' CLINT_MTIMECMP,
     rv_li ''a6'' CLINT_MTIME,
     rv_ecall,
     rv_ebreak,
     rv_word 0,
     rv_word 0xFFFFFFFF,
     rv_word 0x7C002073,
     rv_word 0xC0001073,
     rv_lw ''t1'' 1 ''sp'',
     rv_sh ''t1'' 3 ''sp'',
     rv_la ''t1'' ''after_ma'',
     rv_jalr ''ra'' ''t1'' 2,
     rv_label ''after_ma'',
     rv_nop,
     rv_lw ''t1'' 0 ''zero'',
     rv_lbu ''t1'' 8 ''s1'',
     rv_li ''t1'' 0x12345678,
     rv_csrw ''mscratch'' ''t1'',
     rv_csrr ''t2'' ''mscratch'',
     rv_csrw ''mcycle'' ''zero'',
     rv_csrr ''t3'' ''mcycle'',
     rv_csrw ''minstret'' ''zero'',
     rv_csrr ''t4'' ''minstret'',
     rv_csrr ''t5'' ''mstatus'',
     rv_csrr ''t6'' ''mip'',
     rv_word ((((push_bit 20 0x320) OR (push_bit 15 6)) OR (push_bit 12 1)) OR 0x73),
     rv_word ((((push_bit 20 0x33F) OR (push_bit 15 6)) OR (push_bit 12 1)) OR 0x73),
     rv_word (csr_read 7 0x320),
     rv_word (csr_read 28 0xB03),
     rv_word (csr_read 29 0xB9F),
     concat (map (\<lambda>ch. concat [
         rv_li ''t1'' ch,
         rv_sw ''t1'' 0 ''s1'']) [0x48, 0x69, 0x21, 0xa]),
     rv_lw ''t1'' 4 ''s1'',
     rv_lw ''t1'' 0 ''a6'',
     rv_addi ''t1'' ''t1'' 200,
     rv_sw ''zero'' 4 ''s2'',
     rv_sw ''t1'' 0 ''s2'',
     rv_li ''t1'' 2,
     rv_sw ''t1'' 0x14 ''s1'',
     rv_li ''t1'' 0x880,
     rv_csrw ''mie'' ''t1'',
     rv_li ''t1'' 8,
     rv_csrs ''mstatus'' ''t1'',
     rv_label ''wait'',
     rv_li ''t1'' 2,
     rv_bltu ''s3'' ''t1'' ''wait'',
     rv_li ''x5'' 1,
     rv_li ''t1'' 0x40003000,
     rv_li ''t2'' 0xA55A,
     rv_sw ''t2'' 0xC ''t1'',
     rv_label ''spin_reset'',
     rv_j ''spin_reset'',
     rv_label ''second'',
     rv_csrr ''t1'' ''mtvec'',
     rv_csrr ''t2'' ''mcycle'',
     rv_label ''done'',
     rv_j ''done'',
     rv_label ''handler'',
     rv_csrr ''s0'' ''mcause'',
     rv_csrr ''s4'' ''mtval'',
     rv_bltu ''s0'' ''zero'' ''handler'',
     rv_li ''t0'' 0x80000000,
     rv_bgeu ''s0'' ''t0'' ''interrupt'',
     rv_csrr ''t0'' ''mepc'',
     rv_addi ''t0'' ''t0'' 4,
     rv_csrw ''mepc'' ''t0'',
     rv_mret,
     rv_label ''interrupt'',
     rv_addi ''s3'' ''s3'' 1,
     rv_li ''t0'' 0x8000000B,
     rv_beq ''s0'' ''t0'' ''ext'',
     rv_li ''t0'' (- 1),
     rv_sw ''t0'' 4 ''s2'',
     rv_mret,
     rv_label ''ext'',
     rv_lw ''s5'' 0 ''s1'',
     rv_mret]"

definition traps :: "int list result" where
  "traps = build 0 traps_code"

section \<open>umode\<close>

definition UMODE_MPP :: int where "UMODE_MPP = 0x1800"
definition UMODE_MPRV :: int where "UMODE_MPRV = push_bit 17 1"
definition UMODE_TW :: int where "UMODE_TW = push_bit 21 1"

definition umode_code :: asm_code where
  "umode_code = concat [
     rv_la ''t0'' ''handler'',
     rv_csrw ''mtvec'' ''t0'',
     rv_li ''s2'' CLINT_MTIMECMP,
     rv_li ''a6'' CLINT_MTIME,
     concat (map (\<lambda>value. concat [
         rv_li ''t0'' value,
         rv_csrw ''mstatus'' ''t0'',
         rv_csrr ''t1'' ''mstatus'']) [0, 0x0800, 0x1000, ((UMODE_MPP OR UMODE_MPRV) OR UMODE_TW), 0xFFFFFFFF, 0]),
     rv_csrr ''t2'' ''misa'',
     rv_word (((((push_bit 20 0x306) OR (push_bit 15 5)) OR (push_bit 12 1)) OR (push_bit 7 6)) OR 0x73),
     rv_word (csr_read 7 0x306),
     rv_word (csr_read 7 0x30A),
     rv_word (csr_read 7 0x31A),
     rv_li ''t0'' (UMODE_MPP OR UMODE_MPRV),
     rv_csrw ''mstatus'' ''t0'',
     rv_la ''t0'' ''in_m'',
     rv_csrw ''mepc'' ''t0'',
     rv_mret,
     rv_label ''in_m'',
     rv_csrr ''s6'' ''mstatus'',
     rv_csrr ''s7'' ''mscratch'',
     rv_la ''t0'' ''user1'',
     rv_csrw ''mepc'' ''t0'',
     rv_mret,
     rv_label ''user1'',
     rv_addi ''s5'' ''s5'' 1,
     rv_wfi,
     rv_word (csr_read 8 0x300),
     rv_word (csr_read 8 0x340),
     rv_word (csr_read 8 0xC00),
     rv_word (csr_read 8 0xC01),
     rv_word (csr_read 8 0xC02),
     rv_word (csr_read 8 0x306),
     rv_mret,
     rv_ecall,
     rv_j ''bad'',
     rv_label ''in_m2'',
     rv_csrr ''s6'' ''mstatus'',
     rv_li ''t0'' UMODE_TW,
     rv_csrs ''mstatus'' ''t0'',
     rv_wfi,
     rv_li ''t0'' 0x1800,
     rv_csrc ''mstatus'' ''t0'',
     rv_la ''t0'' ''user2'',
     rv_csrw ''mepc'' ''t0'',
     rv_mret,
     rv_label ''user2'',
     rv_wfi,
     rv_ecall,
     rv_label ''in_m3'',
     rv_li ''t0'' UMODE_TW,
     rv_csrc ''mstatus'' ''t0'',
     rv_li ''t0'' (- 1),
     rv_sw ''t0'' 4 ''s2'',
     rv_lw ''t0'' 0 ''a6'',
     rv_addi ''t0'' ''t0'' 100,
     rv_sw ''t0'' 0 ''s2'',
     rv_sw ''zero'' 4 ''s2'',
     rv_li ''t0'' 0x80,
     rv_csrw ''mie'' ''t0'',
     rv_li ''t3'' 80,
     rv_label ''m_wait'',
     rv_addi ''t3'' ''t3'' (- 1),
     rv_bnez ''t3'' ''m_wait'',
     rv_la ''t0'' ''user3'',
     rv_csrw ''mepc'' ''t0'',
     rv_li ''s3'' 0,
     rv_mret,
     rv_label ''user3'',
     rv_beqz ''s3'' ''user3'',
     rv_ecall,
     rv_label ''done'',
     rv_j ''done'',
     rv_label ''bad'',
     rv_j ''bad'',
     rv_label ''handler'',
     rv_csrr ''s0'' ''mcause'',
     rv_csrr ''s4'' ''mtval'',
     rv_csrr ''s8'' ''mstatus'',
     rv_li ''t0'' 8,
     rv_beq ''s0'' ''t0'' ''from_ecall'',
     rv_bltu ''s0'' ''zero'' ''handler'',
     rv_li ''t0'' 0x80000000,
     rv_bgeu ''s0'' ''t0'' ''from_irq'',
     rv_csrr ''t0'' ''mepc'',
     rv_addi ''t0'' ''t0'' 4,
     rv_csrw ''mepc'' ''t0'',
     rv_mret,
     rv_label ''from_irq'',
     rv_li ''t0'' (- 1),
     rv_sw ''t0'' 4 ''s2'',
     rv_li ''s3'' 1,
     rv_mret,
     rv_label ''from_ecall'',
     rv_addi ''s9'' ''s9'' 1,
     rv_li ''t0'' 0x1800,
     rv_csrs ''mstatus'' ''t0'',
     rv_li ''t0'' 1,
     rv_la ''t1'' ''in_m2'',
     rv_beq ''s9'' ''t0'' ''go'',
     rv_li ''t0'' 2,
     rv_la ''t1'' ''in_m3'',
     rv_beq ''s9'' ''t0'' ''go'',
     rv_la ''t1'' ''done'',
     rv_label ''go'',
     rv_csrw ''mepc'' ''t1'',
     rv_mret]"

definition umode :: "int list result" where
  "umode = build 0 umode_code"

section \<open>amo\<close>

definition AMO_LR :: int where "AMO_LR = 0b00010"
definition AMO_SC :: int where "AMO_SC = 0b00011"
definition AMO_OPS :: "int list" where
  "AMO_OPS = [0b00000, 0b00001, 0b00100, 0b01000, 0b01100, 0b10000, 0b10100, 0b11000, 0b11100]"

definition amo_code :: asm_code where
  "amo_code = concat [
     rv_la ''t0'' ''handler'',
     rv_csrw ''mtvec'' ''t0'',
     rv_li ''s1'' AMO_DATA,
     rv_li ''s2'' (AMO_DATA + XCACHE_D_BYTES),
     rv_li ''s3'' 0x40000000,
     concat (map (\<lambda>(old, src). concat [
         concat (map (\<lambda>op. concat [
             rv_li ''t1'' old,
             rv_sw ''t1'' 0 ''s1'',
             rv_li ''t2'' src,
             rv_amo op ''t3'' ''t2'' ''s1'',
             rv_lw ''t4'' 0 ''s1'']) AMO_OPS)]) [(5, 9), ((- 5), 3), (7, 7), (0x7FFFFFFF, 0x80000000)]),
     rv_mv ''t3'' ''s1'',
     rv_li ''t2'' 2,
     rv_amo 0 ''t3'' ''t2'' ''t3'',
     rv_amo 0 ''t2'' ''t2'' ''s1'',
     rv_amo 0 ''zero'' ''t2'' ''s1'',
     rv_lw ''t4'' 0 ''s1'',
     rv_amo 0b00001 ''t3'' ''t2'' ''s2'',
     rv_amo 0b00001 ''t3'' ''t2'' ''s1'',
     rv_amo AMO_LR ''t3'' ''zero'' ''s2'',
     rv_lw ''t4'' 0 ''s2'',
     rv_amo AMO_LR ''t3'' ''zero'' ''s1'',
     rv_li ''t2'' 0x55,
     rv_amo AMO_SC ''t5'' ''t2'' ''s1'',
     rv_amo AMO_SC ''t5'' ''t2'' ''s1'',
     rv_amo AMO_LR ''t3'' ''zero'' ''s1'',
     rv_addi ''t1'' ''s1'' 4,
     rv_amo AMO_SC ''t5'' ''t2'' ''t1'',
     rv_amo AMO_SC ''t5'' ''t2'' ''s1'',
     rv_amo AMO_LR ''t3'' ''zero'' ''s1'',
     rv_sw ''t2'' 8 ''s1'',
     rv_amo AMO_SC ''t5'' ''t2'' ''s1'',
     rv_amo AMO_LR ''t3'' ''zero'' ''s1'',
     rv_ecall,
     rv_amo AMO_SC ''t5'' ''t2'' ''s1'',
     rv_amo AMO_LR ''t3'' ''zero'' ''s1'',
     rv_mv ''t5'' ''s1'',
     rv_amo AMO_SC ''t5'' ''t2'' ''t5'',
     rv_addi ''t1'' ''s1'' 1,
     rv_amo AMO_LR ''t3'' ''zero'' ''t1'',
     rv_amo AMO_SC ''t3'' ''t2'' ''t1'',
     rv_addi ''t1'' ''s1'' 2,
     rv_amo 0 ''t3'' ''t2'' ''t1'',
     rv_word (0x0023B1AF OR (push_bit 27 0b00000)),
     rv_word ((((((push_bit 27 AMO_LR) OR (push_bit 20 2)) OR (push_bit 15 9)) OR (push_bit 12 2)) OR (push_bit 7 28)) OR 0x2F),
     rv_word ((((((push_bit 27 0b00101) OR (push_bit 20 7)) OR (push_bit 15 9)) OR (push_bit 12 2)) OR (push_bit 7 28)) OR 0x2F),
     rv_li ''t1'' 0x10,
     rv_amo 0 ''t3'' ''t2'' ''t1'',
     rv_amo AMO_LR ''t3'' ''zero'' ''t1'',
     rv_amo AMO_SC ''t5'' ''t2'' ''t1'',
     rv_li ''t1'' 0x10000000,
     rv_amo 0 ''t3'' ''t2'' ''t1'',
     rv_li ''t1'' AMO_CODE,
     rv_li ''t2'' 0x00008067,
     rv_amo 0b00001 ''t3'' ''t2'' ''t1'',
     rv_jalr ''ra'' ''t1'' 0,
     concat (map (\<lambda>(op, rd). concat [
         rv_csrr ''a0'' ''minstret'',
         rv_li ''t2'' 1,
         rv_amo op rd (if op = AMO_LR then ''zero'' else ''t2'') ''s1'',
         rv_csrr ''a1'' ''minstret'']) [(0, ''t3''), (AMO_LR, ''t3''), (AMO_SC, ''t5''), (AMO_SC, ''t5'')]),
     rv_la ''t0'' ''user'',
     rv_csrw ''mepc'' ''t0'',
     rv_li ''t0'' 0x1800,
     rv_csrc ''mstatus'' ''t0'',
     rv_mret,
     rv_label ''user'',
     rv_amo AMO_LR ''t3'' ''zero'' ''s1'',
     rv_amo AMO_SC ''t5'' ''t2'' ''s1'',
     rv_amo 0 ''t3'' ''t2'' ''s1'',
     rv_ecall,
     rv_label ''rx_wait'',
     rv_lw ''t1'' 8 ''s3'',
     rv_bnez ''t1'' ''rx_wait'',
     rv_li ''t2'' 1,
     rv_amo 0 ''t3'' ''t2'' ''s3'',
     rv_lw ''t1'' 8 ''s3'',
     rv_label ''done'',
     rv_j ''done'',
     rv_label ''handler'',
     rv_csrr ''s4'' ''mcause'',
     rv_csrr ''s5'' ''mtval'',
     rv_li ''t0'' 8,
     rv_beq ''s4'' ''t0'' ''stay_m'',
     rv_j ''skip'',
     rv_label ''stay_m'',
     rv_li ''t0'' 0x1800,
     rv_csrs ''mstatus'' ''t0'',
     rv_label ''skip'',
     rv_csrr ''t0'' ''mepc'',
     rv_addi ''t0'' ''t0'' 4,
     rv_csrw ''mepc'' ''t0'',
     rv_mret]"

definition amo :: "int list result" where
  "amo = rom_program amo_code"

section \<open>They assemble\<close>

lemma traps_ok: "rom_ok traps"
  unfolding traps_def
  by (rule build_rom_ok; simp add: traps_code_def code_ok_def rom_simps)

lemma umode_ok: "rom_ok umode"
  unfolding umode_def
  by (rule build_rom_ok; simp add: umode_code_def code_ok_def rom_simps UMODE_MPP_def UMODE_MPRV_def UMODE_TW_def)

lemma amo_ok: "rom_ok amo"
  unfolding amo_def
  by (rule build_rom_ok; simp add: amo_code_def code_ok_def rom_simps AMO_LR_def AMO_SC_def AMO_OPS_def)

end
