(* ===== verification/Lockstep_Boot.thy ===== *)
theory Lockstep_Boot
  imports Lockstep_Privileged
begin

text \<open>
  Programs that start other programs, of \<^verbatim>\<open>src/sim/integration/lockstep_programs.py\<close>: the Hack
  programs \<open>hack_stub\<close> starts, \<open>boot_mode_hack\<close>, the hand-assembled launcher \<open>s2_launch\<close>, the SD divider
  program and \<open>hash_program\<close>.
\<close>

section \<open>Hack programs\<close>

definition hack_soft_reset_code :: "bool \<Rightarrow> bool \<Rightarrow> hack_code" where
  "hack_soft_reset_code key_by_addition mode_rv32 = concat [
     h_at 0x52,
     h_c ''D=A'',
     h_at 0x6000,
     h_c ''M=D'',
     if mode_rv32 then concat [
         h_at 0x101,
         h_c ''D=A'',
         h_at 0x6008,
         h_c ''M=D'',
         h_c ''D=M'']
     else [],
     if key_by_addition then concat [
         h_at 0x255A,
         h_c ''D=A'',
         h_at 0x4000,
         h_c ''D=D+A'',
         h_at 0x4000,
         h_c ''D=D+A'']
     else concat [
         h_at 0x5AA5,
         h_c ''D=!A''],
     h_at 0x600C,
     h_c ''M=D'',
     h_label ''spin'',
     h_at_label ''spin'',
     h_c ''0;JMP'']"

definition hack_soft_reset :: "bool \<Rightarrow> bool \<Rightarrow> int list result" where
  "hack_soft_reset key_by_addition mode_rv32 = hack_build (hack_soft_reset_code key_by_addition mode_rv32)"

definition xcache_hack_code :: hack_code where
  "xcache_hack_code = concat [
     h_at (XCACHE_HACK_WORDS ! 0),
     h_c ''M=1'',
     h_at (XCACHE_HACK_WORDS ! 1),
     h_c ''AM=M+1'',
     h_at (XCACHE_HACK_WORDS ! 0),
     h_c ''D=M'',
     h_at (XCACHE_HACK_WORDS ! 2),
     h_c ''M=-1'',
     h_at (XCACHE_HACK_WORDS ! 0),
     h_c ''AMD=M+1'',
     h_at 0x30,
     h_c ''D=D+A'',
     h_at 0x6000,
     h_c ''M=D'',
     h_label ''spin'',
     h_at_label ''spin'',
     h_c ''0;JMP'']"

definition xcache_hack :: "int list result" where
  "xcache_hack = hack_build xcache_hack_code"

definition liteuart_hack_code :: hack_code where
  "liteuart_hack_code = concat [
     h_label ''wait'',
     h_at 0x6002,
     h_c ''D=M'',
     h_at_label ''wait'',
     h_c ''D;JNE'',
     h_at 0x6001,
     h_c ''D=M'',
     h_at 0x6003,
     h_c ''D=M'',
     concat (map (\<lambda>w. concat [
         h_at w,
         h_c ''M=-1'']) [0x6001, 0x6002, 0x6003]),
     h_at 0x6000,
     h_c ''D=M'',
     h_at 16,
     h_c ''M=D'',
     h_at 0x6002,
     h_c ''D=M'',
     h_at 0x6003,
     h_c ''D=M'',
     h_at 16,
     h_c ''D=M'',
     h_at 0x6000,
     h_c ''M=D'',
     h_label ''spin'',
     h_at_label ''spin'',
     h_c ''0;JMP'']"

definition liteuart_hack :: "int list result" where
  "liteuart_hack = hack_build liteuart_hack_code"

section \<open>boot_mode_hack\<close>

definition boot_hack_code :: hack_code where
  "boot_hack_code = concat [
     h_at 0,
     h_c ''D=A'',
     h_at 0x48,
     h_c ''D=D+A'',
     h_at 0x6000,
     h_c ''M=D'',
     h_label ''halt'',
     h_at_label ''halt'',
     h_c ''0;JMP'']"

definition boot_mode_hack_code :: "int list \<Rightarrow> asm_code" where
  "boot_mode_hack_code hack_words = concat [
     rv_li ''s0'' HACK_I_BASE,
     copy_words 0 ''s0'' hack_words,
     rv_lui ''s1'' 0x40003,
     rv_addi ''t0'' ''zero'' 0x100,
     rv_sw ''t0'' 8 ''s1'',
     rv_lw ''s2'' 8 ''s1'',
     soft_reset_key ''s1'',
     rv_label ''spin'',
     rv_j ''spin'']"

definition boot_mode_hack :: "int list result" where
  "boot_mode_hack = rbind (hack_build boot_hack_code) (\<lambda>hack_words. build 0 (boot_mode_hack_code hack_words))"

section \<open>s2_launch\<close>

definition s2l_hack_code :: hack_code where
  "s2l_hack_code = concat [
     h_at 0x4b,
     h_c ''D=A'',
     h_at 0x6000,
     h_c ''M=D'',
     h_label ''halt'',
     h_at_label ''halt'',
     h_c ''0;JMP'']"

definition s2l_app_code :: asm_code where
  "s2l_app_code = concat [
     rv_lui ''s1'' 0x40000,
     put_char 0x4c ''w'',
     rv_label ''halt'',
     rv_j ''halt'']"

definition s2l_target :: "bool \<Rightarrow> int list result" where
  "s2l_target hack = (if hack then hack_build s2l_hack_code else build S2L_APP s2l_app_code)"

definition s2l_second_code :: "bool \<Rightarrow> int list \<Rightarrow> asm_code" where
  "s2l_second_code hack target = concat [
     put_char 0x50 ''w'',
     rv_la ''a0'' ''target'',
     rv_li ''a1'' (if hack then HACK_I_BASE else S2L_APP),
     rv_li ''a2'' (int (length target)),
     rv_label ''copy'',
     rv_lw ''t0'' 0 ''a0'',
     rv_sw ''t0'' 0 ''a1'',
     rv_addi ''a0'' ''a0'' 4,
     rv_addi ''a1'' ''a1'' 4,
     rv_addi ''a2'' ''a2'' (- 1),
     rv_bnez ''a2'' ''copy'',
     if hack then concat [
         rv_word 0x0000100F,
         rv_lui ''s2'' 0x40003,
         rv_li ''t0'' 0x100,
         rv_sw ''t0'' 8 ''s2'',
         rv_lw ''s3'' 8 ''s2'',
         soft_reset_key ''s2'']
     else concat [
         rv_li ''a0'' 1,
         rv_li ''a1'' 0x800,
         rv_li ''a2'' 1,
         rv_word 0x0000100F,
         rv_li ''t0'' S2L_APP,
         rv_jalr ''zero'' ''t0'' 0],
     rv_label ''spin'',
     rv_j ''spin'',
     rv_label ''target'',
     concat (map (\<lambda>w. rv_word w) target)]"

definition s2l_first_code :: "int list \<Rightarrow> asm_code" where
  "s2l_first_code second = concat [
     rv_la ''a0'' ''second'',
     rv_li ''a1'' S2L_COPY,
     rv_li ''a2'' (int (length second)),
     rv_label ''copy'',
     rv_lw ''t0'' 0 ''a0'',
     rv_sw ''t0'' 0 ''a1'',
     rv_addi ''a0'' ''a0'' 4,
     rv_addi ''a1'' ''a1'' 4,
     rv_addi ''a2'' ''a2'' (- 1),
     rv_bnez ''a2'' ''copy'',
     rv_word 0x0000100F,
     rv_li ''t0'' S2L_COPY,
     rv_jalr ''zero'' ''t0'' 0,
     rv_label ''second'',
     concat (map (\<lambda>w. rv_word w) second)]"

definition s2l_rom_code :: "int list \<Rightarrow> asm_code" where
  "s2l_rom_code first = concat [
     rv_li ''s1'' 0x40000000,
     rv_li ''s0'' S2L_CODE,
     copy_words 0 ''s0'' first,
     rv_word 0x0000100F,
     rv_jalr ''zero'' ''s0'' 0]"

definition s2_launch :: "bool \<Rightarrow> int list result" where
  "s2_launch hack =
     rbind (s2l_target hack) (\<lambda>target.
     rbind (build S2L_COPY (s2l_second_code hack target)) (\<lambda>second.
     rbind (build S2L_CODE (s2l_first_code second)) (\<lambda>first.
     rassert (4 * int (length first) \<le> S2L_BYTES \<and> 4 * int (length second) \<le> S2L_BYTES \<and>
              4 * int (length target) \<le> S2L_BYTES)
       (rom_program (s2l_rom_code first)))))"

section \<open>sd_clkdiv and hash_program\<close>

definition sd_xfer :: "int \<Rightarrow> nat \<Rightarrow> asm_code" where
  "sd_xfer byte n = concat (replicate n (concat [
     rv_li ''a0'' byte,
     rv_call ''xfer'']))"

definition sd_div :: "int \<Rightarrow> asm_code" where
  "sd_div v = concat [
     rv_li ''t4'' v,
     rv_sw ''t4'' 0xC ''s1'',
     rv_lw ''t2'' 0xC ''s1'']"

definition sd_clkdiv_code :: asm_code where
  "sd_clkdiv_code = concat [
     rv_li ''s1'' 0x40002000,
     rv_li ''s2'' 23,
     rv_lw ''t2'' 0xC ''s1'',
     rv_sw ''zero'' 4 ''s1'',
     sd_xfer 0x40 1,
     sd_xfer 0x00 4,
     sd_xfer 0x95 1,
     sd_xfer 0xFF 2,
     sd_div 0,
     concat (map (\<lambda>b. sd_xfer b 1) [0x48, 0, 0, 1, 0xAA, 0x87]),
     sd_xfer 0xFF 3,
     sd_div 5,
     sd_xfer 0xFF 1,
     sd_div 255,
     sd_xfer 0xFF 1,
     sd_div 2,
     sd_xfer 0xFF 1,
     rv_sw ''s2'' 4 ''s1'',
     sd_xfer 0xFF 1,
     rv_label ''done'',
     rv_j ''done'',
     rv_label ''xfer'',
     rv_sw ''a0'' 0 ''s1'',
     rv_lw ''t0'' 0 ''s1'',
     rv_sw ''s2'' 0xC ''s1'',
     rv_lw ''t2'' 0xC ''s1'',
     rv_label ''poll'',
     rv_lw ''t1'' 8 ''s1'',
     rv_lw ''t0'' 0 ''s1'',
     rv_bnez ''t1'' ''poll'',
     rv_lw ''a0'' 0 ''s1'',
     rv_ret]"

definition sd_clkdiv :: "int list result" where
  "sd_clkdiv = build 0 sd_clkdiv_code"

definition hash_code :: "bool \<Rightarrow> asm_code" where
  "hash_code soft_reset = concat [
     rv_lui ''a1'' 0x40000,
     rv_label ''wait'',
     rv_lw ''t0'' 4 ''a1'',
     rv_bne ''t0'' ''zero'' ''wait'',
     rv_addi ''a0'' ''zero'' 0x23,
     rv_sb ''a0'' 0 ''a1'',
     if soft_reset then concat [
         rv_lui ''a2'' 0x40003,
         rv_lui ''a3'' 0xA,
         rv_addi ''a3'' ''a3'' 0x55A,
         rv_sw ''a3'' 0xC ''a2'']
     else [],
     rv_label ''stop'',
     rv_jal ''zero'' ''stop'']"

definition hash_program :: "int \<Rightarrow> bool \<Rightarrow> byte list result" where
  "hash_program org soft_reset = rbind (build org (hash_code soft_reset)) pack_words"

section \<open>They assemble\<close>

lemma sd_clkdiv_ok: "rom_ok sd_clkdiv"
  unfolding sd_clkdiv_def
  by (rule build_rom_ok; simp add: sd_clkdiv_code_def code_ok_def rom_simps sd_xfer_def sd_div_def numeral_eq_Suc)

lemma boot_hack_words: "hack_build boot_hack_code = Inr [0xEC100000, 0xE0900048, 0xE3086000, 0xEA870006]"
  by (simp add: boot_hack_code_def hack_eval)

lemma boot_mode_hack_ok: "rom_ok boot_mode_hack"
  unfolding boot_mode_hack_def boot_hack_words rbind_simps
  by (rule build_rom_ok; simp add: boot_mode_hack_code_def code_ok_def rom_simps)

text \<open>The launcher's three parts: the program it starts, the second part, the first part.\<close>

lemma s2l_target_words:
  "s2l_target True = Inr [0xEC10004B, 0xE3086000, 0xEA870004]"
  "s2l_target False = Inr [0x400004B7, 0x0044A283, 0xFE029EE3, 0x04C00293, 0x00548023, 0x0000006F]"
  by (simp_all add: s2l_target_def s2l_hack_code_def s2l_app_code_def put_char_def hack_eval asm_eval lockstep_consts)

lemma s2l_second_words:
  "build S2L_COPY (s2l_second_code True [0xEC10004B, 0xE3086000, 0xEA870004]) = Inr
     [0x0044A283, 0xFE029EE3, 0x05000293, 0x00548023, 0x80002537, 0x85C50513, 0x800005B7, 0x00300613,
      0x00052283, 0x0055A023, 0x00450513, 0x00458593, 0xFFF60613, 0xFE0616E3, 0x0000100F, 0x40003937,
      0x10000293, 0x00592423, 0x00892983, 0x0000A2B7, 0x55A28293, 0x00592623, 0x0000006F, 0xEC10004B,
      0xE3086000, 0xEA870004]"
  "build S2L_COPY (s2l_second_code False [0x400004B7, 0x0044A283, 0xFE029EE3, 0x04C00293, 0x00548023, 0x0000006F]) = Inr
     [0x0044A283, 0xFE029EE3, 0x05000293, 0x00548023, 0x80002537, 0x85850513, 0x800025B7, 0x00600613,
      0x00052283, 0x0055A023, 0x00450513, 0x00458593, 0xFFF60613, 0xFE0616E3, 0x00100513, 0x000015B7,
      0x80058593, 0x00100613, 0x0000100F, 0x800022B7, 0x00028067, 0x0000006F, 0x400004B7, 0x0044A283,
      0xFE029EE3, 0x04C00293, 0x00548023, 0x0000006F]"
  by (simp_all add: s2l_second_code_def put_char_def soft_reset_key_def asm_eval lockstep_consts)

lemma s2l_first_words:
  "build S2L_CODE (s2l_first_code [0x0044A283, 0xFE029EE3, 0x05000293, 0x00548023, 0x80002537, 0x85C50513, 0x800005B7, 0x00300613,
      0x00052283, 0x0055A023, 0x00450513, 0x00458593, 0xFFF60613, 0xFE0616E3, 0x0000100F, 0x40003937,
      0x10000293, 0x00592423, 0x00892983, 0x0000A2B7, 0x55A28293, 0x00592623, 0x0000006F, 0xEC10004B,
      0xE3086000, 0xEA870004]) = Inr
     [0x80001537, 0x03C50513, 0x800025B7, 0x80058593, 0x01A00613, 0x00052283, 0x0055A023, 0x00450513,
      0x00458593, 0xFFF60613, 0xFE0616E3, 0x0000100F, 0x800022B7, 0x80028293, 0x00028067, 0x0044A283,
      0xFE029EE3, 0x05000293, 0x00548023, 0x80002537, 0x85C50513, 0x800005B7, 0x00300613, 0x00052283,
      0x0055A023, 0x00450513, 0x00458593, 0xFFF60613, 0xFE0616E3, 0x0000100F, 0x40003937, 0x10000293,
      0x00592423, 0x00892983, 0x0000A2B7, 0x55A28293, 0x00592623, 0x0000006F, 0xEC10004B, 0xE3086000,
      0xEA870004]"
  "build S2L_CODE (s2l_first_code [0x0044A283, 0xFE029EE3, 0x05000293, 0x00548023, 0x80002537, 0x85850513, 0x800025B7, 0x00600613,
      0x00052283, 0x0055A023, 0x00450513, 0x00458593, 0xFFF60613, 0xFE0616E3, 0x00100513, 0x000015B7,
      0x80058593, 0x00100613, 0x0000100F, 0x800022B7, 0x00028067, 0x0000006F, 0x400004B7, 0x0044A283,
      0xFE029EE3, 0x04C00293, 0x00548023, 0x0000006F]) = Inr
     [0x80001537, 0x03C50513, 0x800025B7, 0x80058593, 0x01C00613, 0x00052283, 0x0055A023, 0x00450513,
      0x00458593, 0xFFF60613, 0xFE0616E3, 0x0000100F, 0x800022B7, 0x80028293, 0x00028067, 0x0044A283,
      0xFE029EE3, 0x05000293, 0x00548023, 0x80002537, 0x85850513, 0x800025B7, 0x00600613, 0x00052283,
      0x0055A023, 0x00450513, 0x00458593, 0xFFF60613, 0xFE0616E3, 0x00100513, 0x000015B7, 0x80058593,
      0x00100613, 0x0000100F, 0x800022B7, 0x00028067, 0x0000006F, 0x400004B7, 0x0044A283, 0xFE029EE3,
      0x04C00293, 0x00548023, 0x0000006F]"
  by (simp_all add: s2l_first_code_def asm_eval lockstep_consts)

lemma s2_launch_ok: "rom_ok (s2_launch hack)"
proof (cases hack)
  case True
  then have h: "hack = True" by simp
  show ?thesis
    unfolding s2_launch_def h s2l_target_words rbind_simps s2l_second_words s2l_first_words
    by (simp add: S2L_BYTES_def) (rule build_rom_ok; simp add: s2l_rom_code_def code_ok_def rom_simps)
next
  case False
  then have h: "hack = False" by simp
  show ?thesis
    unfolding s2_launch_def h s2l_target_words rbind_simps s2l_second_words s2l_first_words
    by (simp add: S2L_BYTES_def) (rule build_rom_ok; simp add: s2l_rom_code_def code_ok_def rom_simps)
qed

end
