(* ===== verification/Lockstep_Mmio.thy ===== *)
theory Lockstep_Mmio
  imports Lockstep_Boot
begin

text \<open>
  RV32M, ignored stores and the peripherals, of \<^verbatim>\<open>src/sim/integration/lockstep_programs.py\<close>:
  \<open>muldiv\<close>, \<open>rom_stores\<close>, \<open>uart_drop\<close>, \<open>clint\<close> and \<open>liteuart\<close>.
\<close>

section \<open>muldiv\<close>

definition MULDIV_PAIRS :: "(int \<times> int) list" where
  "MULDIV_PAIRS =
     [(7, 2), (- 7, 2), (7, - 2), (- 7, - 2), (- push_bit 31 1, - 1), (- push_bit 31 1, 1), (- 7, 0), (5, 0),
      (- 1, - 1), (push_bit 31 1 - 1, push_bit 31 1 - 1), (- push_bit 31 1, - push_bit 31 1)]"

definition muldiv_rom_code :: asm_code where
  "muldiv_rom_code = concat [
     rv_li ''s1'' 0x40000000,
     concat (map (\<lambda>(x, y). concat [
         rv_li ''a0'' x,
         rv_li ''a1'' y,
         concat (map (\<lambda>op. concat [
             rv_muldiv op ''a2'' ''a0'' ''a1'']) MUL_OPS)]) MULDIV_PAIRS),
     rv_li ''a0'' (- 12345),
     rv_li ''a1'' 77,
     rv_muldiv ''mul'' ''a0'' ''a0'' ''a1'',
     rv_muldiv ''rem'' ''a1'' ''a0'' ''a1'',
     rv_muldiv ''divu'' ''a3'' ''a0'' ''a1'',
     rv_csrrs ''t0'' ''minstret'' ''zero'',
     rv_csrrs ''t1'' ''mcycle'' ''zero'',
     rv_muldiv ''mulhu'' ''zero'' ''a0'' ''a1'',
     rv_li ''t2'' MULDIV_CODE,
     rv_jalr ''ra'' ''t2'' 0,
     put_char 0x4d ''wait'',
     rv_label ''halt'',
     rv_j ''halt'']"

definition muldiv_window_code :: asm_code where
  "muldiv_window_code = concat [
     rv_li ''a0'' 0x12345678,
     rv_li ''a1'' (- 3),
     concat (map (\<lambda>op. concat [
         rv_muldiv op ''a2'' ''a0'' ''a1'']) MUL_OPS),
     rv_jalr ''zero'' ''ra'' 0]"

definition muldiv :: "(int list \<times> byte list) result" where
  "muldiv =
     rbind (build MULDIV_CODE muldiv_window_code) (\<lambda>code.
     rassert (int (length code) * 4 \<le> 0x100)
     (rbind (build 0 muldiv_rom_code) (\<lambda>words. rmap (\<lambda>bs. (words, bs)) (pack_words code))))"

section \<open>rom_stores and uart_drop\<close>

definition rom_stores_code :: asm_code where
  "rom_stores_code = concat [
     rv_li ''s1'' 0x40000000,
     rv_li ''t1'' 0x12345678,
     rv_lw ''t2'' 0x100 ''zero'',
     rv_li ''s2'' 0x00004100,
     rv_lw ''t3'' 0 ''s2'',
     rv_li ''s3'' 0x0FFFC100,
     rv_lw ''t4'' 0 ''s3'',
     rv_sw ''t1'' 0x100 ''zero'',
     rv_lw ''t5'' 0x100 ''zero'',
     rv_sh ''t1'' 0x102 ''zero'',
     rv_word_of (i_type 0x102 ''zero'' 5 ''t5'' 0x03),
     rv_sb ''t1'' 1 ''s2'',
     rv_lbu ''t5'' 0x101 ''zero'',
     rv_sw ''t1'' 0x200 ''s3'',
     rv_lw ''t6'' 0x300 ''zero'',
     rv_la ''t0'' ''next'',
     rv_sw ''zero'' 0 ''t0'',
     rv_label ''next'',
     rv_addi ''s4'' ''zero'' 0x5A,
     rv_lw ''s5'' 0 ''t0'',
     concat (map (\<lambda>base. concat [
         rv_li ''s6'' base,
         rv_lw ''t2'' 0 ''s6'',
         rv_sw ''t1'' 0 ''s6'',
         rv_lw ''t3'' 0 ''s6'',
         rv_sb ''t1'' 1 ''s6'',
         rv_lbu ''t4'' 1 ''s6'',
         rv_sh ''t1'' 2 ''s6'',
         rv_lh ''t5'' 2 ''s6'']) [0x30000000, 0x30001FFC, 0x10000000, 0xF0000000]),
     put_char 0x4b ''wait'',
     rv_label ''done'',
     rv_j ''done'']"

definition rom_stores :: "int list result" where
  "rom_stores = build 0 rom_stores_code"

definition UART_DROP_RX_CYCLE :: int where "UART_DROP_RX_CYCLE = 100"
definition UART_DROP_READ :: int where "UART_DROP_READ = UART_DROP_RX_CYCLE + 33 * UART_FRAME"
definition UART_DROP_CYCLES :: int where "UART_DROP_CYCLES = UART_DROP_READ + 3000"

definition uart_drop_code :: asm_code where
  "uart_drop_code = concat [
     rv_li ''s1'' 0x40000000,
     rv_li ''t2'' UART_DROP_READ,
     rv_label ''wait'',
     rv_csrr ''t1'' ''mcycle'',
     rv_bltu ''t1'' ''t2'' ''wait'',
     concat (map (\<lambda>off. concat [
         rv_lw ''s2'' off ''s1'',
         rv_lw ''s3'' off ''s1'']) [4, 8, 12, 16, 20, 24, 28]),
     rv_li ''t3'' 33,
     rv_label ''drain'',
     rv_lw ''t1'' 0 ''s1'',
     rv_lw ''s4'' 8 ''s1'',
     rv_lw ''s5'' 0x1C ''s1'',
     rv_addi ''t3'' ''t3'' (- 1),
     rv_bnez ''t3'' ''drain'',
     rv_li ''t1'' 0x44,
     rv_sw ''t1'' 0 ''s1'',
     rv_label ''done'',
     rv_j ''done'']"

definition uart_drop :: "int list result" where
  "uart_drop = build 0 uart_drop_code"

section \<open>clint\<close>

definition clint_code1 :: asm_code where
  "clint_code1 = concat [
     rv_la ''t0'' ''handler'',
     rv_csrw ''mtvec'' ''t0'',
     rv_li ''s1'' 0x40000000,
     rv_li ''s2'' CLINT,
     rv_li ''s3'' CLINT_MTIMECMP,
     rv_li ''s4'' CLINT_MTIME,
     rv_li ''s5'' 0x40001000,
     rv_lw ''t2'' 0 ''s2'',
     rv_li ''t1'' (- 1),
     rv_sw ''t1'' 0 ''s2'',
     rv_lw ''t2'' 0 ''s2'',
     rv_lbu ''t3'' 0 ''s2'',
     rv_lbu ''t4'' 1 ''s2'',
     rv_csrr ''t5'' ''mip'',
     rv_li ''t1'' 2,
     rv_sw ''t1'' 0 ''s2'',
     rv_lw ''t2'' 0 ''s2'',
     rv_csrr ''t5'' ''mip'',
     rv_li ''t1'' 1,
     rv_sb ''t1'' 2 ''s2'',
     rv_lw ''t2'' 0 ''s2'',
     rv_sh ''zero'' 2 ''s2'',
     rv_lw ''t2'' 0 ''s2'',
     rv_li ''t6'' 0x20010000,
     rv_sw ''t1'' 0 ''t6'',
     rv_lw ''t2'' 0 ''s2'',
     rv_li ''t6'' 0x2ABC0000,
     rv_sw ''zero'' 0 ''t6'',
     rv_lw ''t2'' 0 ''s2'',
     concat (map (\<lambda>addr. concat [
         rv_li ''t6'' addr,
         rv_lw ''t2'' 0 ''t6'',
         rv_li ''t1'' (- 1),
         rv_sw ''t1'' 0 ''t6'',
         rv_lw ''t3'' 0 ''t6'']) [(CLINT + 0x4), (CLINT + 0x4008), (CLINT + 0x8000), (CLINT + 0xBFF4), (CLINT + 0xFFFC), (CLINT + 0x1000)]),
     rv_lw ''t2'' 0 ''s2'',
     rv_lw ''t3'' 0 ''s3'',
     rv_lw ''t4'' 4 ''s3'',
     rv_lw ''t2'' 0 ''s4'',
     rv_lw ''t3'' 4 ''s4'',
     rv_lw ''t4'' 0 ''s5'',
     rv_li ''t6'' (CLINT_MTIME + 0x10000),
     rv_lw ''t5'' 0 ''t6'',
     rv_li ''t1'' 0x12345678,
     rv_sw ''t1'' 0 ''s3'',
     rv_li ''t1'' 0x9ABCDEF0,
     rv_sw ''t1'' 4 ''s3'',
     rv_sw ''t1'' 8 ''s5'',
     rv_lw ''t2'' 8 ''s5'',
     rv_lw ''t3'' 0xC ''s5'',
     rv_lw ''t4'' 0 ''s3'',
     rv_li ''t1'' (- 1),
     rv_sw ''t1'' 4 ''s3'']"

definition clint_code2 :: asm_code where
  "clint_code2 = concat [
     rv_li ''t1'' 8,
     rv_csrw ''mie'' ''t1'',
     rv_csrs ''mstatus'' ''t1'',
     rv_li ''t1'' 1,
     rv_sw ''t1'' 0 ''s2'',
     rv_addi ''s8'' ''zero'' 1,
     rv_li ''t1'' 1,
     rv_label ''wait_msi'',
     rv_bltu ''s6'' ''t1'' ''wait_msi'',
     rv_li ''t1'' 0x80,
     rv_csrw ''mie'' ''t1'',
     rv_lw ''t1'' 0 ''s4'',
     rv_addi ''t1'' ''t1'' 150,
     rv_sw ''t1'' 0 ''s3'',
     rv_sw ''zero'' 4 ''s3'',
     rv_li ''t1'' 2,
     rv_label ''wait_mti'',
     rv_bltu ''s6'' ''t1'' ''wait_mti'',
     rv_lw ''t2'' 4 ''s3'',
     rv_li ''t1'' 8,
     rv_csrc ''mstatus'' ''t1'',
     rv_label ''rx_wait'',
     rv_lw ''t1'' 8 ''s1'',
     rv_bnez ''t1'' ''rx_wait'',
     rv_li ''t1'' 2,
     rv_sw ''t1'' 0x14 ''s1'',
     rv_li ''t1'' 1,
     rv_sw ''t1'' 0 ''s2'',
     rv_sw ''zero'' 0 ''s3'',
     rv_sw ''zero'' 4 ''s3'',
     rv_li ''t1'' 0x888,
     rv_csrw ''mie'' ''t1'',
     rv_csrr ''t5'' ''mip'',
     rv_li ''t1'' 8,
     rv_csrs ''mstatus'' ''t1'',
     rv_li ''t1'' 5,
     rv_label ''wait_all'',
     rv_bltu ''s6'' ''t1'' ''wait_all'',
     rv_li ''t1'' 8,
     rv_csrc ''mstatus'' ''t1'',
     rv_li ''t1'' 3,
     rv_sw ''t1'' 4 ''s4'',
     rv_li ''t1'' (- 20),
     rv_sw ''t1'' 0 ''s4'',
     rv_lw ''t2'' 0 ''s4'',
     rv_lw ''t3'' 4 ''s4'',
     concat (map (\<lambda>_. rv_nop) [0, 1, 2, 3, 4, 5 :: nat]),
     rv_lw ''t4'' 0 ''s4'',
     rv_lw ''t5'' 4 ''s4'',
     put_char 0x4b ''wait'',
     rv_label ''done'',
     rv_j ''done'',
     rv_label ''handler'',
     rv_csrr ''s0'' ''mcause'',
     rv_addi ''s6'' ''s6'' 1,
     rv_slli ''s7'' ''s7'' 8,
     rv_andi ''t0'' ''s0'' 0xFF,
     rv_add ''s7'' ''s7'' ''t0'',
     rv_li ''t0'' 0x8000000B,
     rv_beq ''s0'' ''t0'' ''h_ext'',
     rv_li ''t0'' 0x80000003,
     rv_beq ''s0'' ''t0'' ''h_sw'',
     rv_li ''t0'' (- 1),
     rv_sw ''t0'' 4 ''s3'',
     rv_mret,
     rv_label ''h_sw'',
     rv_sw ''zero'' 0 ''s2'',
     rv_mret,
     rv_label ''h_ext'',
     rv_lw ''t0'' 0 ''s1'',
     rv_mret]"

definition clint_code :: asm_code where
  "clint_code = clint_code1 @ clint_code2"

definition clint :: "int list result" where
  "clint = build 0 clint_code"

section \<open>liteuart\<close>

definition liteuart_code1 :: asm_code where
  "liteuart_code1 = concat [
     rv_bnez ''x5'' ''second'',
     rv_la ''t0'' ''handler'',
     rv_csrw ''mtvec'' ''t0'',
     rv_li ''s1'' UART,
     rv_li ''s2'' CLINT,
     concat (map (\<lambda>off. concat [
         rv_lw ''t1'' off ''s1'']) [0, 4, 8, 0xC, 0x10, 0x14, 0x18, 0x1C, 0x20, 0x24, 0x80, 0xFC, 0x104, 0x114, 0x11C, 0x708, 0x718]),
     rv_lbu ''t2'' 0x0C ''s1'',
     rv_lbu ''t2'' 0x0D ''s1'',
     rv_lbu ''t2'' 0x18 ''s1'',
     rv_word_of (i_type 0x1A ''s1'' 5 ''t2'' 0x03),
     rv_li ''t1'' (- 1),
     concat (map (\<lambda>off. concat [
         rv_sw ''t1'' off ''s1'']) [0x04, 0x08, 0x0C, 0x10, 0x18, 0x1C, 0x20, 0xFC, 0x110]),
     concat (map (\<lambda>off. concat [
         rv_lw ''t2'' off ''s1'']) [0x04, 0x0C, 0x14, 0x18, 0x20, 0xFC]),
     rv_sw ''t1'' 0x14 ''s1'',
     rv_lw ''t2'' 0x14 ''s1'',
     rv_sb ''zero'' 0x15 ''s1'',
     rv_lw ''t2'' 0x14 ''s1'',
     rv_li ''t1'' 0x0102,
     rv_sh ''t1'' 0x16 ''s1'',
     rv_lw ''t2'' 0x14 ''s1'',
     rv_li ''t1'' 0x01010101,
     rv_sw ''t1'' 0x114 ''s1'',
     rv_lw ''t2'' 0x14 ''s1'',
     rv_sw ''zero'' 0x14 ''s1'',
     concat (map (\<lambda>k. concat [
         rv_li ''t1'' (0x61 + k),
         rv_sb ''t1'' (k AND 3) ''s1'']) [0, 1, 2, 3, 4, 5, 6, 7, 8, 9, 10, 11, 12, 13, 14, 15, 16, 17, 18, 19, 20, 21, 22, 23, 24, 25, 26, 27, 28, 29, 30, 31, 32, 33]),
     concat (map (\<lambda>off. concat [
         rv_lw ''t2'' off ''s1'']) [0x04, 0x0C, 0x10, 0x18])]"

definition liteuart_code2 :: asm_code where
  "liteuart_code2 = concat [
     rv_li ''t1'' 0x800,
     rv_csrw ''mie'' ''t1'',
     rv_li ''t1'' 8,
     rv_csrs ''mstatus'' ''t1'',
     rv_li ''t1'' 1,
     rv_sw ''t1'' 0x14 ''s1'',
     rv_lw ''t2'' 0x10 ''s1'',
     rv_label ''wait_tx'',
     rv_addi ''s6'' ''s6'' 1,
     rv_beqz ''s3'' ''wait_tx'',
     rv_li ''t1'' 2,
     rv_sw ''t1'' 0x14 ''s1'',
     rv_li ''t1'' 2,
     rv_label ''wait_rx'',
     rv_addi ''s6'' ''s6'' 1,
     rv_bltu ''s3'' ''t1'' ''wait_rx'',
     rv_li ''t1'' 8,
     rv_csrc ''mstatus'' ''t1'',
     rv_li ''t1'' 1,
     rv_sw ''t1'' 0x14 ''s1'',
     rv_lw ''t2'' 0x10 ''s1'',
     rv_sw ''t1'' 0 ''s2'',
     rv_li ''t1'' 0x808,
     rv_csrw ''mie'' ''t1'',
     rv_csrr ''t5'' ''mip'',
     rv_li ''t1'' 8,
     rv_csrs ''mstatus'' ''t1'',
     rv_li ''t1'' 4,
     rv_label ''wait_both'',
     rv_bltu ''s3'' ''t1'' ''wait_both'',
     rv_li ''t1'' 8,
     rv_csrc ''mstatus'' ''t1'',
     rv_label ''wait_txempty'',
     rv_lw ''t1'' 0x18 ''s1'',
     rv_beqz ''t1'' ''wait_txempty'',
     rv_lw ''t2'' 0x04 ''s1'',
     rv_label ''wait_rx2'',
     rv_lw ''t1'' 0x08 ''s1'',
     rv_bnez ''t1'' ''wait_rx2'',
     rv_lw ''t2'' 0x10 ''s1'',
     rv_li ''t1'' 1,
     rv_sw ''t1'' 0x14 ''s1'',
     rv_lw ''t2'' 0x10 ''s1'',
     rv_csrr ''t5'' ''mip'',
     rv_li ''t1'' 3,
     rv_sw ''t1'' 0x14 ''s1'',
     rv_lw ''t2'' 0x14 ''s1'',
     rv_lw ''t2'' 0x10 ''s1'',
     rv_li ''x5'' 1,
     rv_li ''t1'' 0x40003000,
     soft_reset_key ''t1'',
     rv_label ''spin_reset'',
     rv_j ''spin_reset'',
     rv_label ''second'',
     concat (map (\<lambda>off. concat [
         rv_lw ''t2'' off ''s1'']) [0x14, 0x08, 0x0C, 0x00, 0x08]),
     put_char 0x4c ''wait_l'',
     rv_label ''done'',
     rv_j ''done'',
     rv_label ''handler'',
     rv_csrr ''s0'' ''mcause'',
     rv_addi ''s3'' ''s3'' 1,
     rv_slli ''s7'' ''s7'' 8,
     rv_andi ''t0'' ''s0'' 0xFF,
     rv_add ''s7'' ''s7'' ''t0'',
     rv_li ''t0'' 0x8000000B,
     rv_beq ''s0'' ''t0'' ''h_ext'',
     rv_sw ''zero'' 0 ''s2'',
     rv_mret,
     rv_label ''h_ext'',
     rv_lw ''t0'' 0x10 ''s1'',
     rv_lw ''t6'' 0x14 ''s1'',
     rv_word_of (r_type 0 ''t6'' ''t0'' 7 ''t0'' 0x33),
     rv_andi ''t6'' ''t0'' 2,
     rv_beqz ''t6'' ''h_tx'',
     rv_lbu ''s5'' 0 ''s1'',
     rv_mret,
     rv_label ''h_tx'',
     rv_sw ''zero'' 0x14 ''s1'',
     rv_mret]"

definition liteuart_code :: asm_code where
  "liteuart_code = liteuart_code1 @ liteuart_code2"

definition liteuart :: "int list result" where
  "liteuart = build 0 liteuart_code"

section \<open>They assemble\<close>

lemma rom_stores_ok: "rom_ok rom_stores"
  unfolding rom_stores_def
  by (rule build_rom_ok; simp add: rom_stores_code_def code_ok_def rom_simps)

lemma uart_drop_ok: "rom_ok uart_drop"
  unfolding uart_drop_def
  by (rule build_rom_ok; simp add: uart_drop_code_def code_ok_def rom_simps UART_DROP_RX_CYCLE_def UART_DROP_READ_def)

lemma clint_ok: "rom_ok clint"
  unfolding clint_def
  by (rule build_rom_ok; simp add: clint_code_def code_ok_def rom_simps clint_code1_def clint_code2_def)

lemma liteuart_ok: "rom_ok liteuart"
  unfolding liteuart_def
  by (rule build_rom_ok; simp add: liteuart_code_def code_ok_def rom_simps liteuart_code1_def liteuart_code2_def)

end
