(* ===== verification/Lockstep_Run.thy ===== *)
theory Lockstep_Run
  imports Lockstep_Mmio
begin

text \<open>
  What the generated boot code does when it runs on the reference machine: straight pieces of code
  as functions on the registers and the stores (\<open>does\<close>), the sequence that stores a list of words
  (\<open>copy_words\<close>), and from them the whole run of \<open>boot_mode_hack\<close> and of \<open>hack_stub\<close>.
\<close>

section \<open>Straight code as a function\<close>

type_synonym reg_out = "(int \<Rightarrow> int) \<times> stores"

definition rset :: "int \<Rightarrow> int \<Rightarrow> (int \<Rightarrow> int) \<Rightarrow> int \<Rightarrow> int" where
  "rset d v r = (if d = 0 then r else r(d := v))"

definition rget :: "int \<Rightarrow> (int \<Rightarrow> int) \<Rightarrow> int" where
  "rget d r = (if d = 0 then 0 else r d)"

definition at_pc :: "int \<Rightarrow> reg_out \<Rightarrow> rv_state" where
  "at_pc p s = \<lparr>rv_pc = p, rv_regs = fst s, rv_out = snd s\<rparr>"

definition does :: "asm_code \<Rightarrow> ((stores \<Rightarrow> int \<Rightarrow> int \<Rightarrow> int) \<Rightarrow> reg_out \<Rightarrow> reg_out) \<Rightarrow> bool" where
  "does code f \<longleftrightarrow> (\<exists>vs. code = words_code vs \<and>
     (\<forall>ld p s. fits 32 p \<longrightarrow>
       rv_line ld vs (at_pc p s) = Some (at_pc (take_bit 32 (p + 4 * int (length vs))) (f ld s))))"

lemma take_fits: "fits n p \<Longrightarrow> take_bit n p = p"
  by (simp add: fits_def take_bit_int_eq_self)

lemma take_add_left: "take_bit 32 (take_bit 32 x + y) = take_bit 32 (x + y :: int)"
  by (simp add: take_bit_eq_mod mod_add_left_eq)

lemma does_cong: "does code f \<Longrightarrow> (\<And>ld s. f ld s = g ld s) \<Longrightarrow> does code g"
  by (simp add: does_def)

lemma does_Nil: "does [] (\<lambda>ld s. s)"
  unfolding does_def by (rule exI [of _ "[]"]) (simp add: words_code_def take_fits)

lemma does_append:
  assumes "does c1 f1" "does c2 f2"
  shows "does (c1 @ c2) (\<lambda>ld s. f2 ld (f1 ld s))"
proof -
  obtain us where us: "c1 = words_code us"
    "\<And>ld p s. fits 32 p \<Longrightarrow> rv_line ld us (at_pc p s) = Some (at_pc (take_bit 32 (p + 4 * int (length us))) (f1 ld s))"
    using assms(1) by (auto simp: does_def)
  obtain vs where vs: "c2 = words_code vs"
    "\<And>ld p s. fits 32 p \<Longrightarrow> rv_line ld vs (at_pc p s) = Some (at_pc (take_bit 32 (p + 4 * int (length vs))) (f2 ld s))"
    using assms(2) by (auto simp: does_def)
  have "take_bit 32 (take_bit 32 (p + 4 * int (length us)) + 4 * int (length vs)) =
      take_bit 32 (p + 4 * int (length (us @ vs)))" for p
    unfolding take_add_left by (simp add: algebra_simps)
  then show ?thesis unfolding does_def
    by (intro exI [of _ "us @ vs"]) (simp add: us vs rv_line_append fits_take)
qed

lemma state_simps:
  "set_reg d v (at_pc p s) = at_pc p (rset d v (fst s), snd s)" "get_reg d (at_pc p s) = rget d (fst s)"
  "advance n (at_pc p s) = at_pc (take_bit 32 (p + 4 * int n)) s" "rv_out (at_pc p s) = snd s"
  "(at_pc p s)\<lparr>rv_out := out\<rparr> = at_pc p (fst s, out)" "rv_pc (at_pc p s) = p"
  by (simp_all add: at_pc_def set_reg_def get_reg_def advance_def rset_def rget_def)

lemma does_words:
  assumes "\<exists>ws. code = words_code ws \<and>
    (\<forall>ld p s. rv_line ld ws (at_pc p s) = Some (advance (length ws) (at_pc p (f ld s))))"
  shows "does code f"
  using assms unfolding does_def state_simps by blast

lemma does_li: "reg_r rd = Inr d \<Longrightarrow> does (rv_li rd v) (\<lambda>ld s. (rset d (take_bit 32 v) (fst s), snd s))"
  by (rule does_words) (use rv_li_line [of rd d v] in \<open>auto simp: state_simps\<close>)

lemma does_one:
  assumes "\<exists>w. code = words_code [w] \<and> (\<forall>ld p s. rv_line ld [w] (at_pc p s) = Some (advance 1 (at_pc p (f ld s))))"
  shows "does code f"
proof (rule does_words)
  show "\<exists>ws. code = words_code ws \<and>
    (\<forall>ld p s. rv_line ld ws (at_pc p s) = Some (advance (length ws) (at_pc p (f ld s))))"
    using assms by (metis One_nat_def length_Cons list.size(3))
qed

lemma does_lui: "reg_r rd = Inr d \<Longrightarrow>
  does (rv_lui rd imm20) (\<lambda>ld s. (rset d (push_bit 12 (take_bit 20 imm20)) (fst s), snd s))"
  by (rule does_one) (use rv_lui_line [of rd d imm20] in \<open>auto simp: state_simps simp del: rv_line.simps\<close>)

lemma does_addi: "reg_r rd = Inr d \<Longrightarrow> reg_r rs1 = Inr a \<Longrightarrow> signed_fits imm 12 \<Longrightarrow>
  does (rv_addi rd rs1 imm) (\<lambda>ld s. (rset d (take_bit 32 (rget a (fst s) + take_bit 32 imm)) (fst s), snd s))"
  by (rule does_one) (use rv_addi_line [of rd d rs1 a imm] in \<open>auto simp: state_simps simp del: rv_line.simps\<close>)

lemma does_sw: "reg_r rs2 = Inr b \<Longrightarrow> reg_r rs1 = Inr a \<Longrightarrow> signed_fits imm 12 \<Longrightarrow>
  does (rv_sw rs2 imm rs1) (\<lambda>ld s. (fst s, snd s @
    [(2, take_bit 32 (rget a (fst s) + take_bit 32 imm), take_bit 32 (rget b (fst s)))]))"
  by (rule does_one) (use rv_sw_line [of rs2 b rs1 a imm] in \<open>auto simp: state_simps simp del: rv_line.simps\<close>)

lemma does_lw:
  assumes "reg_r rd = Inr d" "reg_r rs1 = Inr a" "signed_fits imm 12"
  shows "does (rv_lw rd imm rs1) (\<lambda>ld s.
    (rset d (ld (snd s) 2 (take_bit 32 (rget a (fst s) + take_bit 32 imm))) (fst s), snd s))"
proof (rule does_one)
  obtain w where w: "i_type imm rs1 2 rd 0x03 = Inr w" using assms by (simp add: i_type_def)
  then show "\<exists>w. rv_lw rd imm rs1 = words_code [w] \<and> (\<forall>ld p s. rv_line ld [w] (at_pc p s) =
      Some (advance 1 (at_pc p (rset d (ld (snd s) 2 (take_bit 32 (rget a (fst s) + take_bit 32 imm))) (fst s), snd s))))"
    using exec_load [OF w assms(1,2)]
    by (intro exI [of _ w]) (simp add: rv_lw_def emit_words next_pc_advance state_simps)
qed

section \<open>Storing a list of words\<close>

definition word_stores :: "int \<Rightarrow> int list \<Rightarrow> stores" where
  "word_stores base ws = map (\<lambda>(k, w). (2, take_bit 32 (base + 4 * int k), take_bit 32 w)) (enumerate 0 ws)"

lemma word_stores_snoc: "word_stores base (ws @ [w]) =
    word_stores base ws @ [(2, take_bit 32 (base + 4 * int (length ws)), take_bit 32 w)]"
  by (simp add: word_stores_def enumerate_append_eq)

lemma copy_words_snoc: "copy_words off base (ws @ [w]) =
    copy_words off base ws @ rv_li ''t0'' w @ rv_sw ''t0'' (off + 4 * int (length ws)) base"
  by (simp add: copy_words_def enumerate_append_eq)

lemma does_copy_words:
  assumes "reg_r base = Inr b" "b \<noteq> 5" "0 \<le> off" "off + 4 * int (length ws) \<le> 0x800"
  shows "\<exists>t. does (copy_words off base ws) (\<lambda>ld s.
    (if ws = [] then fst s else (fst s)(5 := t), snd s @ word_stores (rget b (fst s) + off) ws))"
  using assms(4)
proof (induction ws rule: rev_induct)
  case Nil
  show ?case using does_Nil by (auto simp: copy_words_def word_stores_def)
next
  case (snoc w ws)
  then obtain t where t: "does (copy_words off base ws) (\<lambda>ld s.
      (if ws = [] then fst s else (fst s)(5 := t), snd s @ word_stores (rget b (fst s) + off) ws))" by auto
  let ?imm = "off + 4 * int (length ws)"
  have imm: "signed_fits ?imm 12" "take_bit 32 ?imm = ?imm"
    using snoc.prems assms(3) by (simp_all add: signed_fits_def take_bit_int_eq_self)
  have l: "does (rv_li ''t0'' w) (\<lambda>ld s. ((fst s)(5 := take_bit 32 w), snd s))"
    using does_li [of "''t0''" 5 w] by (simp add: rset_def)
  have st: "does (rv_sw ''t0'' ?imm base) (\<lambda>ld s.
      (fst s, snd s @ [(2, take_bit 32 (rget b (fst s) + ?imm), take_bit 32 (fst s 5))]))"
    using does_sw [of "''t0''" 5 base b ?imm] assms(1) imm by (simp add: rget_def [of 5])
  have "does (copy_words off base (ws @ [w])) (\<lambda>ld s. ((fst s)(5 := take_bit 32 w),
      snd s @ word_stores (rget b (fst s) + off) (ws @ [w])))"
    unfolding copy_words_snoc
    by (rule does_cong [OF does_append [OF t does_append [OF l st]]])
      (use assms(2) in \<open>simp add: word_stores_snoc rget_def add.assoc\<close>)
  then show ?case by (intro exI [of _ "take_bit 32 w"]) (simp del: fun_upd_apply)
qed

section \<open>Runs from memory\<close>

lemma steps_line:
  assumes "rv_line ld ws s = Some s'" "rv_pc s = org + 4 * int (length us)" "0 \<le> org"
    and "org + 4 * int (length (us @ ws)) < 2 ^ 32"
  shows "rv_steps (fetch_at org (us @ ws @ vs)) ld (length ws) s = Some s'"
  using assms
proof (induction ws arbitrary: s us)
  case Nil
  then show ?case by simp
next
  case (Cons w ws)
  obtain t where t: "rv_exec ld w s = Some t" "rv_pc t = take_bit 32 (rv_pc s + 4)" "rv_line ld ws t = Some s'"
    using Cons.prems(1) by (auto split: option.splits if_splits)
  have "rv_pc t = org + 4 * int (length (us @ [w]))"
    using Cons.prems t(2) by (simp add: take_bit_int_eq_self)
  with Cons.IH [OF t(3), of "us @ [w]"] Cons.prems
  have "rv_steps (fetch_at org (us @ w # ws @ vs)) ld (length ws) t = Some s'" by simp
  moreover have "fetch_at org (us @ w # ws @ vs) (rv_pc s) = Some w"
    using Cons.prems(2) by (simp add: fetch_at_def)
  ultimately show ?case using t(1) by simp
qed

lemma jump_to_self: "rv_exec ld 0x6F s = Some (s\<lparr>rv_pc := take_bit 32 (rv_pc s)\<rparr>)"
  using exec_jal [of 0 "''zero''" "0x6F" 0 ld s] by (simp add: j_type_def signed_fits_def set_reg_def)

lemma exec_append: "exec (c1 @ c2) a = rbind (exec c1 a) (exec c2)"
proof (induction c1 arbitrary: a)
  case (Cons op c1)
  then show ?case by (cases "exec_op op a") simp_all
qed simp

lemma rmapM_append: "rmapM f (xs @ ys) = rbind (rmapM f xs) (\<lambda>us. rmap ((@) us) (rmapM f ys))"
proof (induction xs)
  case Nil
  then show ?case by (cases "rmapM f ys") simp_all
next
  case (Cons x xs)
  then show ?case by (cases "f x"; cases "rmapM f xs"; cases "rmapM f ys") simp_all
qed

lemma build_spin: "build org (words_code vs @ rv_label n @ rv_j n) = Inr (vs @ [0x6F])"
  by (simp add: build_def exec_append exec_words asm_new_def rv_defs assemble_def enumerate_append_eq rmapM_append
      rmapM_words pc_def rlookup_def j_type_def signed_fits_def)

lemma steps_add:
  "rv_steps F ld (k + m) s = (case rv_steps F ld k s of None \<Rightarrow> None | Some t \<Rightarrow> rv_steps F ld m t)"
  by (induction k arbitrary: s) (auto split: option.splits)

lemma steps_stay:
  assumes "F p = Some 0x6F" "fits 32 p"
  shows "rv_steps F ld m (at_pc p s) = Some (at_pc p s)"
proof (induction m)
  case (Suc m)
  have "rv_exec ld 0x6F (at_pc p s) = Some (at_pc p s)"
    using assms(2) by (simp add: jump_to_self at_pc_def take_fits)
  with assms(1) Suc show ?case by (simp add: state_simps)
qed simp

lemma spin_run:
  assumes "does code f" "code = words_code vs" "4 * int (length vs) < 2 ^ 32 - 4"
  shows "rv_steps (fetch_at 0 (vs @ [0x6F])) ld (length vs + m) (at_pc 0 s) =
    Some (at_pc (4 * int (length vs)) (f ld s))"
proof -
  let ?F = "fetch_at 0 (vs @ [0x6F])" and ?t = "at_pc (4 * int (length vs)) (f ld s)"
  have inj: "vs = us" if "words_code vs = words_code us" for us
    using that unfolding words_code_def by (rule map_injective) (simp add: inj_def)
  obtain us where us: "code = words_code us" "\<forall>ld p s. fits 32 p \<longrightarrow>
      rv_line ld us (at_pc p s) = Some (at_pc (take_bit 32 (p + 4 * int (length us))) (f ld s))"
    using assms(1) unfolding does_def by blast
  then have "us = vs" using assms(2) inj by simp
  with us(2) [rule_format, of 0 ld s] have "rv_line ld vs (at_pc 0 s) = Some ?t"
    using assms(3) by (simp add: take_bit_int_eq_self)
  then have vs: "rv_steps ?F ld (length vs) (at_pc 0 s) = Some ?t"
    using steps_line [of ld vs "at_pc 0 s" ?t 0 "[]" "[0x6F]"] assms(3) by (simp add: state_simps)
  have "?F (4 * int (length vs)) = Some 0x6F" by (simp add: fetch_at_def)
  then have "rv_steps ?F ld m ?t = Some ?t" using assms(3) by (intro steps_stay) (simp_all add: fits_def)
  with vs show ?thesis by (simp add: steps_add)
qed

section \<open>boot_mode_hack\<close>

definition boot_tail :: asm_code where
  "boot_tail = concat [
     rv_lui ''s1'' 0x40003,
     rv_addi ''t0'' ''zero'' 0x100,
     rv_sw ''t0'' 8 ''s1'',
     rv_lw ''s2'' 8 ''s1'',
     soft_reset_key ''s1'']"

lemma boot_mode_hack_split:
  "boot_mode_hack_code hw = (rv_li ''s0'' HACK_I_BASE @ copy_words 0 ''s0'' hw @ boot_tail) @ rv_label ''spin'' @ rv_j ''spin''"
  by (simp add: boot_mode_hack_code_def boot_tail_def)

lemma does_boot_tail:
  "\<exists>f. does boot_tail f \<and> (\<forall>ld s. snd (f ld s) = snd s @ [(2, 0x40003008, 0x100), (2, 0x4000300C, 0xA55A)])"
proof -
  have r: "reg_r ''s1'' = Inr 9" "reg_r ''t0'' = Inr 5" "reg_r ''zero'' = Inr 0" "reg_r ''s2'' = Inr 18" by simp_all
  have i: "signed_fits 0x100 12" "signed_fits 8 12" "signed_fits 0x55A 12" "signed_fits 0xC 12"
    by (simp_all add: signed_fits_def)
  note d = does_append [OF does_lui [OF r(1), of "0x40003"] does_append [OF does_addi [OF r(2,3) i(1)]
    does_append [OF does_sw [OF r(2,1) i(2)] does_append [OF does_lw [OF r(4,1) i(2)]
    does_append [OF does_lui [OF r(2), of "0xA"] does_append [OF does_addi [OF r(2,2) i(3)] does_sw [OF r(2,1) i(4)]]]]]]]
  show ?thesis
    by (rule exI, rule conjI, unfold boot_tail_def soft_reset_key_def concat.simps append_Nil2 append_assoc, rule d)
      (simp add: rset_def rget_def take_bit_eq_mod)
qed

lemma length_li: "length (rv_li rd v) \<le> 2"
  by (simp add: rv_li_def Let_def rv_addi_def rv_lui_def emit_def)

lemma length_copy_words: "length (copy_words off base ws) \<le> 3 * length ws"
proof (induction ws rule: rev_induct)
  case (snoc w ws)
  then show ?case using length_li [of "''t0''" w] by (simp add: copy_words_snoc rv_sw_def emit_def)
qed (simp add: copy_words_def)

lemma length_boot_tail: "length boot_tail = 7"
  by (simp add: boot_tail_def soft_reset_key_def rv_defs)

lemma boot_mode_hack_code_runs:
  assumes "length hw \<le> 512"
  shows "\<exists>ws n. build 0 (boot_mode_hack_code hw) = Inr ws \<and>
    (\<forall>ld r m. \<exists>r'. rv_steps (fetch_at 0 ws) ld (n + m) (at_pc 0 (r, [])) =
      Some (at_pc (4 * int n) (r', word_stores HACK_I_BASE hw @ [(2, 0x40003008, 0x100), (2, 0x4000300C, 0xA55A)])))"
proof -
  obtain t where c: "does (copy_words 0 ''s0'' hw) (\<lambda>ld s.
      (if hw = [] then fst s else (fst s)(5 := t), snd s @ word_stores (rget 8 (fst s) + 0) hw))"
    using does_copy_words [of "''s0''" 8 0 hw] assms by auto
  obtain g where g: "does boot_tail g"
    "\<And>ld s. snd (g ld s) = snd s @ [(2, 0x40003008, 0x100), (2, 0x4000300C, 0xA55A)]"
    using does_boot_tail by blast
  let ?code = "rv_li ''s0'' HACK_I_BASE @ copy_words 0 ''s0'' hw @ boot_tail"
  obtain f where f: "does ?code f" "\<And>ld r. snd (f ld (r, [])) =
      word_stores HACK_I_BASE hw @ [(2, 0x40003008, 0x100), (2, 0x4000300C, 0xA55A)]"
    using does_append [OF does_li [of "''s0''" 8 HACK_I_BASE] does_append [OF c g(1)]] g(2)
    by (auto simp: rset_def rget_def HACK_I_BASE_def take_bit_eq_mod)
  obtain vs where vs: "?code = words_code vs" using f(1) by (auto simp: does_def)
  have "length vs = length ?code" unfolding vs by (simp add: words_code_def)
  then have small: "length vs \<le> 3 * length hw + 9"
    using length_li [of "''s0''" HACK_I_BASE] length_copy_words [of 0 "''s0''" hw] by (simp add: length_boot_tail)
  have b: "build 0 (boot_mode_hack_code hw) = Inr (vs @ [0x6F])"
    unfolding boot_mode_hack_split vs by (rule build_spin)
  have "rv_steps (fetch_at 0 (vs @ [0x6F])) ld (length vs + m) (at_pc 0 (r, [])) =
      Some (at_pc (4 * int (length vs)) (f ld (r, [])))" for ld r m
    by (rule spin_run [OF f(1) vs]) (use small assms in simp)
  then have "\<exists>r'. rv_steps (fetch_at 0 (vs @ [0x6F])) ld (length vs + m) (at_pc 0 (r, [])) =
      Some (at_pc (4 * int (length vs))
        (r', word_stores HACK_I_BASE hw @ [(2, 0x40003008, 0x100), (2, 0x4000300C, 0xA55A)]))" for ld r m
    by (metis f(2) prod.collapse)
  with b show ?thesis by blast
qed

text \<open>
  C9: \<open>boot_mode_hack\<close> boots a Hack program. Its ROM words, run from address 0 whatever the registers and
  the bus hold, store the words of the assembled Hack program to Hack's instruction segment in order,
  then give the Hack boot mode (\<open>0x100\<close> to GPIO 8) and the soft-reset key (\<open>0xA55A\<close> to GPIO \<open>0xC\<close>), store
  nothing else, and spin at the last word for ever.
\<close>

theorem boot_mode_hack_runs:
  "\<exists>hw ws n. hack_build boot_hack_code = Inr hw \<and> boot_mode_hack = Inr ws \<and>
    (\<forall>ld r m. \<exists>r'. rv_steps (fetch_at 0 ws) ld (n + m) (at_pc 0 (r, [])) =
      Some (at_pc (4 * int n) (r', word_stores HACK_I_BASE hw @ [(2, 0x40003008, 0x100), (2, 0x4000300C, 0xA55A)])))"
proof -
  obtain hw where hw: "hack_build boot_hack_code = Inr hw" "length hw \<le> 512"
    using boot_hack_words by auto
  then have "boot_mode_hack = build 0 (boot_mode_hack_code hw)" by (simp add: boot_mode_hack_def)
  with hw(1) boot_mode_hack_code_runs [OF hw(2)] show ?thesis by auto
qed

section \<open>hack_stub\<close>

definition stub_words :: "int list" where
  "stub_words =
    [0x80400437, 0x400034B7, 0x00042283, 0x02029263, 0x00100293, 0x00542023, 0x10000293, 0x0054A423, 0x0000A2B7,
     0x55A28293, 0x0054A623, 0x0000006F, 0x400004B7, 0x0044A283, 0xFE029EE3, 0x05300293, 0x00548023, 0x0000006F]"

lemma hack_stub_words: "hack_stub = Inr stub_words"
  by (simp add: hack_stub_def hack_stub_code_def soft_reset_key_def put_char_def asm_eval lockstep_consts stub_words_def)

lemmas run_simps = rv_exec_def Let_def bits_def imm_model_def sext_def imm_alu_op_def alu_model_def alu_op_defs
  fetch_at_def at_pc_def get_reg_def set_reg_def next_pc_def branch_taken_def take_bit_eq_mod stub_words_def

lemma stub_start:
  "rv_steps (fetch_at 0 stub_words) ld 3 (at_pc 0 (r, [])) =
    Some (at_pc 12 (r(8 := 0x80400000, 9 := 0x40003000, 5 := ld [] 2 0x80400000), []))"
  by (simp add: numeral_eq_Suc run_simps)

lemma stub_first:
  assumes "r 8 = 0x80400000" "r 9 = 0x40003000" "r 5 = 0"
  shows "\<exists>r'. rv_steps (fetch_at 0 stub_words) ld 8 (at_pc 12 (r, [])) =
    Some (at_pc 44 (r', [(2, 0x80400000, 1), (2, 0x40003008, 0x100), (2, 0x4000300C, 0xA55A)]))"
  using assms by (simp add: numeral_eq_Suc run_simps)

lemma stub_first_pass:
  assumes "ld [] 2 HACK_STUB_FLAG = 0"
  shows "\<exists>r'. rv_steps (fetch_at 0 stub_words) ld (11 + m) (at_pc 0 (r, [])) =
    Some (at_pc 44 (r', [(2, HACK_STUB_FLAG, 1), (2, 0x40003008, 0x100), (2, 0x4000300C, 0xA55A)]))"
proof -
  let ?F = "fetch_at 0 stub_words" and ?r = "r(8 := 0x80400000, 9 := 0x40003000, 5 := ld [] 2 0x80400000)"
  have F: "?F 44 = Some 0x6F" by (simp add: fetch_at_def stub_words_def)
  have flag: "HACK_STUB_FLAG = 0x80400000" by (simp add: lockstep_consts)
  have n: "11 + m = 3 + (8 + m)" by simp
  obtain r' where "rv_steps ?F ld 8 (at_pc 12 (?r, [])) =
      Some (at_pc 44 (r', [(2, 0x80400000, 1), (2, 0x40003008, 0x100), (2, 0x4000300C, 0xA55A)]))"
    using stub_first [of ?r ld] assms by (auto simp: flag)
  then show ?thesis unfolding n steps_add by (auto simp: stub_start flag steps_stay F)
qed

lemma stub_back:
  assumes "r 5 \<noteq> 0"
  shows "\<exists>r'. rv_steps (fetch_at 0 stub_words) ld 2 (at_pc 12 (r, [])) = Some (at_pc 52 (r', [])) \<and> r' 9 = 0x40000000"
  using assms by (simp add: numeral_eq_Suc run_simps)

lemma stub_poll:
  assumes "r 9 = 0x40000000" "ld [] 2 0x40000004 \<noteq> 0"
  shows "\<exists>r'. rv_steps (fetch_at 0 stub_words) ld (2 * k) (at_pc 52 (r, [])) = Some (at_pc 52 (r', [])) \<and> r' 9 = 0x40000000"
  using assms(1)
proof (induction k arbitrary: r)
  case (Suc k)
  have "\<exists>r'. rv_steps (fetch_at 0 stub_words) ld 2 (at_pc 52 (r, [])) = Some (at_pc 52 (r', [])) \<and> r' 9 = 0x40000000"
    using Suc.prems assms(2) by (simp add: numeral_eq_Suc run_simps)
  then obtain r' where "rv_steps (fetch_at 0 stub_words) ld 2 (at_pc 52 (r, [])) = Some (at_pc 52 (r', []))" "r' 9 = 0x40000000"
    by blast
  with Suc.IH [of r'] show ?case using steps_add [of _ ld 2 "2 * k"] by simp
qed auto

lemma stub_send:
  assumes "r 9 = 0x40000000" "ld [] 2 0x40000004 = 0"
  shows "\<exists>r'. rv_steps (fetch_at 0 stub_words) ld 4 (at_pc 52 (r, [])) = Some (at_pc 68 (r', [(0, 0x40000000, 0x53)]))"
  using assms by (simp add: numeral_eq_Suc run_simps)

text \<open>
  C10: \<open>hack_stub\<close> starts Hack once and reports the return. From address 0, if the flag word reads 0, it
  stores exactly the flag, the Hack boot mode and the soft-reset key, in that order, and spins; if the
  flag reads non-zero, it stores nothing as long as the UART's TXFULL reads non-zero, and otherwise sends
  the one byte \<open>HACK_BACK\<close> and spins.
\<close>

theorem hack_stub_runs:
  "\<exists>ws. hack_stub = Inr ws \<and> (\<forall>ld r m.
    (ld [] 2 HACK_STUB_FLAG = 0 \<longrightarrow> (\<exists>r'. rv_steps (fetch_at 0 ws) ld (11 + m) (at_pc 0 (r, [])) =
       Some (at_pc 44 (r', [(2, HACK_STUB_FLAG, 1), (2, 0x40003008, 0x100), (2, 0x4000300C, 0xA55A)])))) \<and>
    (ld [] 2 HACK_STUB_FLAG \<noteq> 0 \<and> ld [] 2 (UART + 4) \<noteq> 0 \<longrightarrow>
       (\<exists>r'. rv_steps (fetch_at 0 ws) ld (5 + 2 * m) (at_pc 0 (r, [])) = Some (at_pc 52 (r', [])))) \<and>
    (ld [] 2 HACK_STUB_FLAG \<noteq> 0 \<and> ld [] 2 (UART + 4) = 0 \<longrightarrow>
       (\<exists>r'. rv_steps (fetch_at 0 ws) ld (9 + m) (at_pc 0 (r, [])) = Some (at_pc 68 (r', [(0, UART, HACK_BACK)])))))"
proof (intro exI [of _ stub_words] conjI allI impI hack_stub_words)
  fix ld :: "stores \<Rightarrow> int \<Rightarrow> int \<Rightarrow> int" and r :: "int \<Rightarrow> int" and m :: nat
  let ?F = "fetch_at 0 stub_words" and ?r = "r(8 := 0x80400000, 9 := 0x40003000, 5 := ld [] 2 0x80400000)"
  have F: "?F 68 = Some 0x6F" by (simp add: fetch_at_def stub_words_def)
  have flag: "HACK_STUB_FLAG = 0x80400000" "UART = 0x40000000" "HACK_BACK = 0x53" by (simp_all add: lockstep_consts)
  have n: "5 + 2 * m = 3 + (2 + 2 * m)" "9 + m = 3 + (2 + (4 + m))" by simp_all
  {
    assume "ld [] 2 HACK_STUB_FLAG = 0"
    then show "\<exists>r'. rv_steps ?F ld (11 + m) (at_pc 0 (r, [])) =
        Some (at_pc 44 (r', [(2, HACK_STUB_FLAG, 1), (2, 0x40003008, 0x100), (2, 0x4000300C, 0xA55A)]))"
      by (rule stub_first_pass)
  next
    assume a: "ld [] 2 HACK_STUB_FLAG \<noteq> 0 \<and> ld [] 2 (UART + 4) \<noteq> 0"
    then obtain r' where "rv_steps ?F ld 2 (at_pc 12 (?r, [])) = Some (at_pc 52 (r', []))" "r' 9 = 0x40000000"
      using stub_back [of ?r ld] by (auto simp: flag)
    with stub_poll [of r' ld m] a show "\<exists>r'. rv_steps ?F ld (5 + 2 * m) (at_pc 0 (r, [])) = Some (at_pc 52 (r', []))"
      unfolding n steps_add by (auto simp: stub_start flag)
  next
    assume a: "ld [] 2 HACK_STUB_FLAG \<noteq> 0 \<and> ld [] 2 (UART + 4) = 0"
    then obtain r' where "rv_steps ?F ld 2 (at_pc 12 (?r, [])) = Some (at_pc 52 (r', []))" "r' 9 = 0x40000000"
      using stub_back [of ?r ld] by (auto simp: flag)
    with stub_send [of r' ld] a
    show "\<exists>r'. rv_steps ?F ld (9 + m) (at_pc 0 (r, [])) = Some (at_pc 68 (r', [(0, UART, HACK_BACK)]))"
      unfolding n steps_add by (auto simp: stub_start flag steps_stay F)
  }
qed

theorem hack_stub_runs_witness:
  "\<exists>ws r'. hack_stub = Inr ws \<and>
     rv_steps (fetch_at 0 ws) (\<lambda>_ _ a. if a = HACK_STUB_FLAG then 1 else 0) 1009 (at_pc 0 (\<lambda>_. 0, [])) =
       Some (at_pc 68 (r', [(0, UART, HACK_BACK)]))"
proof -
  obtain ws where ws: "hack_stub = Inr ws" "\<And>ld r m. ld [] 2 HACK_STUB_FLAG \<noteq> 0 \<and> ld [] 2 (UART + 4) = 0 \<Longrightarrow>
       (\<exists>r'. rv_steps (fetch_at 0 ws) ld (9 + m) (at_pc 0 (r, [])) = Some (at_pc 68 (r', [(0, UART, HACK_BACK)])))"
    using hack_stub_runs by blast
  from ws(2) [of "\<lambda>_ _ a. if a = HACK_STUB_FLAG then 1 else 0" 1000 "\<lambda>_. 0"] ws(1) show ?thesis
    by (auto simp: HACK_STUB_FLAG_def UART_def XMEM_def)
qed

end
