(* ===== verification/Lockstep_Random.thy ===== *)
theory Lockstep_Random
  imports Lockstep_Run
begin

text \<open>
  The constrained-random program \<open>random_rv\<close> of \<^verbatim>\<open>src/sim/integration/lockstep_programs.py\<close>.

  The generator \<open>random.Random(seed)\<close> is a parameter: a stream of natural numbers, of which each call
  of a method takes the next and reduces it to the range the method promises (\<open>randrange\<close>, \<open>getrandbits\<close>,
  \<open>choice\<close>; the comparison of \<open>random()\<close> with a probability is either outcome). Every sequence of results a
  generator can give is that of some stream, so what holds for all streams holds for all seeds.
\<close>

section \<open>Draws\<close>

type_synonym draws = "nat \<Rightarrow> nat"

definition draw :: "(draws, nat) state" where
  "draw = State (\<lambda>d. (d 0, \<lambda>i. d (Suc i)))"

definition randrange :: "int \<Rightarrow> int \<Rightarrow> (draws, int) state" where
  "randrange lo hi = do { n \<leftarrow> draw; State_Monad.return (lo + int n mod (hi - lo)) }"

definition getrandbits :: "nat \<Rightarrow> (draws, int) state" where
  "getrandbits k = do { n \<leftarrow> draw; State_Monad.return (int n mod 2 ^ k) }"

definition choice :: "'a list \<Rightarrow> (draws, 'a) state" where
  "choice xs = do { n \<leftarrow> draw; State_Monad.return (xs ! (n mod length xs)) }"

definition chance :: "(draws, bool) state" where
  "chance = do { n \<leftarrow> draw; State_Monad.return (even n) }"

text \<open>A loop that collects the code of its passes.\<close>

fun each :: "('b \<Rightarrow> (draws, asm_code) state) \<Rightarrow> 'b list \<Rightarrow> (draws, asm_code) state" where
  "each f [] = State_Monad.return []"
| "each f (x # xs) = do { c \<leftarrow> f x; cs \<leftarrow> each f xs; State_Monad.return (c @ cs) }"

text \<open>The decimal digits of an f-string.\<close>

fun nat_str :: "nat \<Rightarrow> string" where
  "nat_str n = (if n < 10 then [char_of (48 + n)] else nat_str (n div 10) @ [char_of (48 + n mod 10)])"

declare nat_str.simps [simp del]

section \<open>The program\<close>

definition R_OPS :: "(int \<times> int) list" where
  "R_OPS = [(0, 0), (0x20, 0), (0, 1), (0, 2), (0, 3), (0, 4), (0, 5), (0x20, 5), (0, 6), (0, 7)]"

definition M_OPS :: "(int \<times> int) list" where
  "M_OPS = map (\<lambda>f3. (1, f3)) [0, 1, 2, 3, 4, 5, 6, 7]"

definition I_OPS :: "int list" where
  "I_OPS = [0, 2, 3, 4, 6, 7]"

definition DEST :: "(string \<times> int) list" where
  "DEST = map (\<lambda>i. (''x'' @ nat_str i, int i)) (filter (\<lambda>i. i \<noteq> 2) [1..<30])"

definition reg :: "(draws, string) state" where
  "reg = choice (map fst DEST)"

definition reg_number :: "(draws, int) state" where
  "reg_number = choice (map snd DEST)"

definition alu :: "(draws, asm_code) state" where
  "alu = do {
     k \<leftarrow> randrange 0 5;
     if k = 0 then do {
       m \<leftarrow> chance;
       op \<leftarrow> choice (if m then M_OPS else R_OPS);
       rs2 \<leftarrow> reg; rs1 \<leftarrow> reg; rd \<leftarrow> reg;
       State_Monad.return (rv_word_of (r_type (fst op) rs2 rs1 (snd op) rd 0x33)) }
     else if k = 1 then do {
       imm \<leftarrow> randrange (- 2048) 2048;
       rs1 \<leftarrow> reg; f3 \<leftarrow> choice I_OPS; rd \<leftarrow> reg;
       State_Monad.return (rv_word_of (i_type imm rs1 f3 rd 0x13)) }
     else if k = 2 then do {
       op \<leftarrow> choice [(1, 0), (5, 0), (5, 0x20)];
       sh \<leftarrow> randrange 0 32;
       rs1 \<leftarrow> reg; rd \<leftarrow> reg;
       State_Monad.return (rv_word_of (rmap (\<lambda>w. push_bit 25 (snd op) OR push_bit 20 sh OR w) (i_type 0 rs1 (fst op) rd 0x13))) }
     else if k = 3 then do {
       rd \<leftarrow> reg; imm \<leftarrow> getrandbits 20;
       State_Monad.return (rv_lui rd imm) }
     else do {
       rd \<leftarrow> reg; imm \<leftarrow> getrandbits 20;
       State_Monad.return (rv_auipc rd imm) } }"

definition some_alus :: "(draws, asm_code) state" where
  "some_alus = do { n \<leftarrow> randrange 1 4; each (\<lambda>_. alu) [1..n] }"

definition block_code :: "nat \<Rightarrow> (draws, asm_code) state" where
  "block_code b = do {
     k \<leftarrow> randrange 0 10;
     if k < 4 then alu
     else if k < 6 then do {
       size \<leftarrow> choice [1, 2, 4];
       o' \<leftarrow> randrange (- 512) 512;
       let off = o' AND NOT (size - 1) in do {
       load \<leftarrow> chance;
       if load then do {
         f1 \<leftarrow> choice [0, 4]; f2 \<leftarrow> choice [1, 5]; rd \<leftarrow> reg;
         State_Monad.return (rv_word_of (i_type off ''sp'' (if size = 1 then f1 else if size = 2 then f2 else 2) rd 0x03)) }
       else do {
         rs2 \<leftarrow> reg;
         State_Monad.return (if size = 1 then rv_sb rs2 off ''sp'' else if size = 2 then rv_sh rs2 off ''sp''
           else rv_sw rs2 off ''sp'') } } }
     else if k = 6 then do {
       f3 \<leftarrow> choice [0, 1, 4, 5, 6, 7];
       rs1 \<leftarrow> reg; rs2 \<leftarrow> reg;
       body \<leftarrow> some_alus;
       let lbl = ''f'' @ nat_str b in
       State_Monad.return ([Emit (Inr (BranchTo f3 rs1 rs2 lbl))] @ body @ rv_label lbl) }
     else if k = 7 then do {
       v \<leftarrow> randrange 1 6;
       body \<leftarrow> some_alus;
       let lbl = ''l'' @ nat_str b in
       State_Monad.return (rv_li ''x31'' v @ rv_label lbl @ body @ rv_addi ''x31'' ''x31'' (- 1) @ rv_bnez ''x31'' lbl) }
     else if k = 8 then do {
       let lbl = ''j'' @ nat_str b in do {
       direct \<leftarrow> chance;
       jump \<leftarrow> (if direct then do { rd \<leftarrow> reg; State_Monad.return (rv_jal rd lbl) }
         else do { t \<leftarrow> reg; rd \<leftarrow> reg; State_Monad.return (rv_la t lbl @ rv_jalr rd t 0) });
       skipped \<leftarrow> alu;
       State_Monad.return (jump @ skipped @ rv_label lbl) } }
     else do {
       csr \<leftarrow> chance;
       if csr then do {
         rd \<leftarrow> reg_number; n \<leftarrow> choice [0xB00, 0xB02, 0xC00, 0xC01, 0xC02, 0xB80, 0xC81];
         State_Monad.return (rv_word (csr_read rd n)) }
       else do {
         rd \<leftarrow> reg; off \<leftarrow> choice [0, 4, 8];
         State_Monad.return (rv_lw rd off ''x30'') } } }"

definition random_rv_code :: "nat \<Rightarrow> int \<Rightarrow> (draws, asm_code) state" where
  "random_rv_code blocks base = do {
     inits \<leftarrow> each (\<lambda>r. do { v \<leftarrow> getrandbits 32; State_Monad.return (rv_li r v) }) (map fst DEST);
     body \<leftarrow> each block_code [0..<blocks];
     State_Monad.return (rv_li ''sp'' (if base = 0 then RV_DATA else base) @ rv_li ''x30'' CLINT_MTIME @ inits @ body @
       rv_label ''end'' @ rv_j ''end'') }"

definition random_rv :: "draws \<Rightarrow> nat \<Rightarrow> int \<Rightarrow> int list result" where
  "random_rv d blocks base = rom_program (fst (run_state (random_rv_code blocks base) d))"

section \<open>Every outcome\<close>

lemma pred_bind:
  assumes "pred_state P m" "\<And>x. P x \<Longrightarrow> pred_state Q (f x)"
  shows "pred_state Q (m \<bind> f)"
proof (rule pred_stateI)
  fix a s s'
  assume "run_state (m \<bind> f) s = (a, s')"
  then obtain x t where "run_state m s = (x, t)" "run_state (f x) t = (a, s')"
    by (auto simp: split: prod.splits)
  with assms show "Q a" by blast
qed

lemma pred_return: "P x \<Longrightarrow> pred_state P (State_Monad.return x)"
  by (rule pred_stateI) simp

lemma pred_mono: "pred_state P m \<Longrightarrow> (\<And>x. P x \<Longrightarrow> Q x) \<Longrightarrow> pred_state Q m"
  by (auto intro!: pred_stateI)

lemma pred_true: "pred_state (\<lambda>_. True) m"
  by (rule pred_stateI) simp

lemma pred_randrange: "lo < hi \<Longrightarrow> pred_state (\<lambda>x. lo \<le> x \<and> x < hi) (randrange lo hi)"
  unfolding randrange_def
  by (rule pred_bind [OF pred_true], rule pred_return) (use pos_mod_bound [of "hi - lo"] in \<open>auto simp: algebra_simps\<close>)

lemma pred_getrandbits: "pred_state (\<lambda>x. 0 \<le> x \<and> x < 2 ^ k) (getrandbits k)"
  unfolding getrandbits_def by (rule pred_bind [OF pred_true], rule pred_return) simp

lemma pred_choice: "xs \<noteq> [] \<Longrightarrow> pred_state (\<lambda>x. x \<in> set xs) (choice xs)"
  unfolding choice_def by (rule pred_bind [OF pred_true], rule pred_return) simp

lemma pred_each:
  assumes "\<And>x. x \<in> set xs \<Longrightarrow> pred_state (P x) (f x)" "Q [] []"
    and "\<And>x ys c cs. x \<in> set xs \<Longrightarrow> P x c \<Longrightarrow> Q ys cs \<Longrightarrow> Q (x # ys) (c @ cs)"
  shows "pred_state (Q xs) (each f xs)"
  using assms(1,3)
proof (induction xs)
  case Nil
  then show ?case using assms(2) by (simp add: pred_return)
next
  case (Cons x xs)
  then have "pred_state (Q xs) (each f xs)" by simp
  moreover have "pred_state (P x) (f x)" using Cons.prems by simp
  ultimately show ?case unfolding each.simps
    by (intro pred_bind [where P = "P x" and m = "f x"] pred_bind [where P = "Q xs" and m = "each f xs"] pred_return
        Cons.prems(2)) simp_all
qed

lemma nat_str_value: "foldl (\<lambda>a c. 10 * a + (of_char c - 48)) 0 (nat_str n) = n"
proof (induction n rule: nat_str.induct)
  case (1 n)
  have "of_char (char_of (48 + k) :: char) = 48 + k" if "k < 10" for k :: nat using that by simp
  with 1 show ?case by (subst nat_str.simps) auto
qed

lemma nat_str_inj: "nat_str m = nat_str n \<longleftrightarrow> m = n"
  by (metis nat_str_value)

section \<open>Closed pieces of code\<close>

fun code_names :: "asm_code \<Rightarrow> string list" where
  "code_names [] = []"
| "code_names (Emit r # ops) = code_names ops"
| "code_names (Label n # ops) = n # code_names ops"

lemma names_labels: "map fst (code_labels at code) = code_names code"
  by (induction at code rule: code_labels.induct) simp_all

lemma append_layout:
  "code_names (a @ b) = code_names a @ code_names b" "code_size (a @ b) = code_size a + code_size b"
  "code_labels at (a @ b) = code_labels at a @ code_labels (at + 4 * int (code_size a)) b"
  "refs_ok ls at (a @ b) \<longleftrightarrow> refs_ok ls at a \<and> refs_ok ls (at + 4 * int (code_size a)) b"
  by (induction a arbitrary: at rule: code_names.induct) (auto simp: algebra_simps)

lemma words_layout:
  "code_names (words_code ws) = []" "code_size (words_code ws) = length ws" "code_labels at (words_code ws) = []"
  "refs_ok ls at (words_code ws)" "list_all op_ok (words_code ws) \<longleftrightarrow> list_all (fits 32) ws"
  by (induction ws arbitrary: at) (simp_all add: words_code_def op_ok_def)

definition closed :: "asm_code \<Rightarrow> bool" where
  "closed c \<longleftrightarrow> list_all op_ok c \<and> distinct (code_names c) \<and> (\<forall>at. refs_ok (code_labels at c) at c)"

lemma closed_code_ok: "closed c \<Longrightarrow> code_ok org c"
  by (simp add: closed_def code_ok_def names_labels)

lemma reach_ok_mono: "map_of ls \<subseteq>\<^sub>m map_of ls' \<Longrightarrow> reach_ok ls at it \<Longrightarrow> reach_ok ls' at it"
  by (cases it) (auto simp: map_le_def dom_def split: option.splits; metis option.distinct(1) option.inject)+

lemma refs_ok_mono: "map_of ls \<subseteq>\<^sub>m map_of ls' \<Longrightarrow> refs_ok ls at c \<Longrightarrow> refs_ok ls' at c"
  by (induction at c rule: code_labels.induct) (auto split: sum.splits intro: reach_ok_mono)

lemma closed_append:
  assumes "closed a" "closed b" "set (code_names a) \<inter> set (code_names b) = {}"
  shows "closed (a @ b)"
proof -
  have "refs_ok (code_labels at (a @ b)) at (a @ b)" for at
  proof -
    let ?A = "code_labels at a" and ?B = "code_labels (at + 4 * int (code_size a)) b"
    have keys: "fst ` set ?A = set (code_names a)" "fst ` set ?B = set (code_names b)"
      using names_labels [of at a] names_labels [of "at + 4 * int (code_size a)" b] by (metis list.set_map)+
    have "dom (map_of ?A) \<inter> dom (map_of ?B) = {}" using assms(3) by (simp add: dom_map_of_conv_image_fst keys)
    then have le: "map_of ?A \<subseteq>\<^sub>m map_of (?A @ ?B)" "map_of ?B \<subseteq>\<^sub>m map_of (?A @ ?B)"
      using map_add_comm [of "map_of ?A" "map_of ?B"] by (simp_all add: map_of_append map_le_map_add [of "map_of ?A"])
        (metis map_le_map_add)
    show ?thesis
      using refs_ok_mono [OF le(1)] refs_ok_mono [OF le(2)] assms(1,2) by (simp add: append_layout closed_def)
  qed
  with assms show ?thesis by (simp add: closed_def append_layout)
qed

definition plain :: "asm_code \<Rightarrow> bool" where
  "plain c \<longleftrightarrow> (\<exists>ws. c = words_code ws \<and> list_all (fits 32) ws)"

lemma plain_append: "plain a \<Longrightarrow> plain b \<Longrightarrow> plain (a @ b)"
  unfolding plain_def by (metis list_all_append words_code_append)

lemma plain_closed: "plain c \<Longrightarrow> closed c \<and> code_names c = [] \<and> code_size c = length c"
  by (auto simp: plain_def closed_def words_layout) (auto simp: words_code_def)

lemma plain_emit: "enc_ok r \<Longrightarrow> plain (emit r) \<and> length (emit r) = 1"
  by (auto simp: enc_ok_def emit_words plain_def) (auto simp: words_code_def)

lemma plain_word_of: "\<not> isl r \<Longrightarrow> plain (rv_word_of r) \<and> length (rv_word_of r) = 1"
  by (cases r) (auto simp: rv_word_of_def plain_def words_code_def and_mask32 fits_take
      intro!: exI [of _ "[take_bit 32 (projr r)]"])

lemma plain_li: "is_reg rd \<Longrightarrow> plain (rv_li rd v) \<and> length (rv_li rd v) \<le> 2"
proof -
  assume "is_reg rd"
  then obtain d where "reg_r rd = Inr d" by (auto simp: is_reg_def)
  moreover have "list_all op_ok (rv_li rd v)"
    using \<open>is_reg rd\<close> lo12_fits [of "v AND 0xFFFFFFFF"]
    unfolding rv_li_def Let_def lo12_li
    by (auto simp: rv_addi_def rv_lui_def emit_def op_ok_simps is_reg_def intro!: i_type_ok u_type_ok)
  ultimately show ?thesis
    using rv_li_line [of rd d v] by (auto simp: plain_def words_layout) (auto simp: words_code_def)
qed

lemma DEST_regs: "list_all (\<lambda>(n, k). is_reg n \<and> 0 \<le> k \<and> k < 32) DEST" "length DEST = 28"
  by (simp_all add: DEST_def upt_rec nat_str.simps is_reg_def char_of_def bit_0)

lemma pred_reg: "pred_state is_reg reg"
  unfolding reg_def
  by (rule pred_mono [OF pred_choice]) (use DEST_regs in \<open>auto simp: list_all_iff\<close>)

lemma pred_reg_number: "pred_state (\<lambda>k. 0 \<le> k \<and> k < 32) reg_number"
  unfolding reg_number_def
  by (rule pred_mono [OF pred_choice]) (use DEST_regs in \<open>auto simp: list_all_iff\<close>)

lemma pred_if: "(b \<Longrightarrow> pred_state P m) \<Longrightarrow> (\<not> b \<Longrightarrow> pred_state P n) \<Longrightarrow> pred_state P (if b then m else n)"
  by simp

definition one_word :: "asm_code \<Rightarrow> bool" where
  "one_word c \<longleftrightarrow> plain c \<and> length c = 1"

lemma one_word_lui: "is_reg rd \<Longrightarrow> one_word (rv_lui rd imm)" "is_reg rd \<Longrightarrow> one_word (rv_auipc rd imm)"
  by (simp_all add: one_word_def rv_lui_def rv_auipc_def plain_emit u_type_ok)

lemma one_word_of: "\<not> isl r \<Longrightarrow> one_word (rv_word_of r)"
  by (simp add: one_word_def plain_word_of)

lemma not_isl_rmap: "isl (rmap f r) = isl r"
  by (cases r) simp_all

lemmas pred_intros = pred_if pred_return pred_bind [OF pred_reg] pred_bind [OF pred_reg_number]
  pred_bind [OF pred_randrange] pred_bind [OF pred_choice] pred_bind [OF pred_getrandbits]
  pred_bind [where m = chance, OF pred_true]

lemma pred_alu: "pred_state one_word alu"
  unfolding alu_def
  by (intro pred_intros)
    (auto simp: one_word_of one_word_lui not_isl_types not_isl_rmap signed_fits_def M_OPS_def R_OPS_def I_OPS_def)

definition some_words :: "asm_code \<Rightarrow> bool" where
  "some_words c \<longleftrightarrow> plain c \<and> length c \<le> 3"

lemma pred_some_alus: "pred_state some_words some_alus"
  unfolding some_alus_def
proof (intro pred_bind [OF pred_randrange])
  fix n :: int
  assume n: "1 \<le> n \<and> n < 4"
  have "pred_state (\<lambda>c. plain c \<and> length c = length [1..n]) (each (\<lambda>_. alu) [1..n])"
    by (rule pred_each [where P = "\<lambda>_. one_word"])
      (auto simp: pred_alu one_word_def plain_append, simp add: plain_def words_code_def)
  then show "pred_state some_words (each (\<lambda>_. alu) [1..n])"
    by (rule pred_mono) (use n in \<open>auto simp: some_words_def\<close>)
qed simp

section \<open>Blocks\<close>

definition block_names :: "nat \<Rightarrow> string set" where
  "block_names b = {''f'' @ nat_str b, ''l'' @ nat_str b, ''j'' @ nat_str b}"

definition block_ok :: "nat \<Rightarrow> asm_code \<Rightarrow> bool" where
  "block_ok b c \<longleftrightarrow> closed c \<and> set (code_names c) \<subseteq> block_names b \<and> code_size c \<le> 6"

lemma one_word_block: "one_word c \<Longrightarrow> block_ok b c"
  using plain_closed [of c] by (simp add: one_word_def block_ok_def)

lemma forward_branch_ok:
  assumes "some_words body" "is_reg rs1" "is_reg rs2" "fits 3 f3" "lbl \<in> block_names b"
  shows "block_ok b ([Emit (Inr (BranchTo f3 rs1 rs2 lbl))] @ body @ rv_label lbl)"
proof -
  obtain ws where "body = words_code ws" "length ws \<le> 3" "list_all (fits 32) ws"
    using assms(1) by (auto simp: some_words_def plain_def words_code_def)
  then show ?thesis using assms(2-)
    by (auto simp: block_ok_def closed_def append_layout words_layout rv_label_def op_ok_def signed_fits_def)
qed

lemma counted_loop_ok:
  assumes "some_words body" "lbl \<in> block_names b" "1 \<le> v" "v < 6"
  shows "block_ok b (rv_li ''x31'' v @ rv_label lbl @ body @ rv_addi ''x31'' ''x31'' (- 1) @ rv_bnez ''x31'' lbl)"
proof -
  obtain ws where ws: "body = words_code ws" "length ws \<le> 3" "list_all (fits 32) ws"
    using assms(1) by (auto simp: some_words_def plain_def words_code_def)
  have "v AND 0xFFFFFFFF = v" "v AND 0x80000000 = 0"
    using assms(3,4) and_sign32_iff [of v] by (auto simp: and_mask32 take_bit_int_eq_self bit_iff_odd)
  then have li: "rv_li ''x31'' v = rv_addi ''x31'' ''zero'' v"
    using assms(3,4) by (simp add: rv_li_def Let_def signed_fits_def)
  have addi: "\<exists>w. rv_addi ''x31'' rs imm = words_code [w] \<and> fits 32 w"
    if "is_reg rs" "signed_fits imm 12" for rs imm
  proof -
    have "enc_ok (i_type imm rs 0 ''x31'' 0x13)"
      using that by (intro i_type_ok) (simp_all add: is_reg_def)
    then show ?thesis by (auto simp: enc_ok_def rv_addi_def emit_words)
  qed
  have "is_reg ''zero''" "is_reg ''x31''" "signed_fits v 12" "signed_fits (- 1) 12"
    using assms(3,4) by (simp_all add: is_reg_def signed_fits_def)
  with addi obtain u w where "rv_addi ''x31'' ''zero'' v = words_code [u]" "fits 32 u"
    and "rv_addi ''x31'' ''x31'' (- 1) = words_code [w]" "fits 32 w" by metis
  then show ?thesis using assms(2) ws
    by (simp add: li block_ok_def closed_def append_layout words_layout rv_label_def rv_bnez_def rv_bne_def rv_branch_def
        op_ok_def signed_fits_def is_reg_def)
qed

lemma forward_jump_ok:
  assumes "one_word skipped" "is_reg rd" "is_reg t" "lbl \<in> block_names b"
  shows "block_ok b (rv_jal rd lbl @ skipped @ rv_label lbl)"
    and "block_ok b ((rv_la t lbl @ rv_jalr rd t 0) @ skipped @ rv_label lbl)"
proof -
  obtain ws where ws: "skipped = words_code ws" "length ws = 1" "list_all (fits 32) ws"
    using assms(1) by (auto simp: one_word_def plain_def words_code_def)
  have "enc_ok (i_type 0 t 0 rd 0x67)"
    using assms(2,3) by (intro i_type_ok) (simp_all add: signed_fits_def)
  then obtain w where "rv_jalr rd t 0 = words_code [w]" "fits 32 w"
    by (auto simp: enc_ok_def rv_jalr_def emit_words)
  with ws assms(2-) show "block_ok b (rv_jal rd lbl @ skipped @ rv_label lbl)"
    "block_ok b ((rv_la t lbl @ rv_jalr rd t 0) @ skipped @ rv_label lbl)"
    by (simp_all add: block_ok_def closed_def append_layout words_layout rv_label_def rv_jal_def rv_la_def
        op_ok_def signed_fits_def)
qed

lemma store_ok: "is_reg rs2 \<Longrightarrow> is_reg rs1 \<Longrightarrow> signed_fits off 12 \<Longrightarrow>
    one_word (rv_sb rs2 off rs1) \<and> one_word (rv_sh rs2 off rs1) \<and> one_word (rv_sw rs2 off rs1)"
  by (simp add: one_word_def rv_sb_def rv_sh_def rv_sw_def plain_emit s_type_ok)

lemma aligned_fits:
  assumes "- 512 \<le> o'" "o' < 512" "n \<in> {1, 2, 4 :: int}"
  shows "signed_fits (o' AND NOT (n - 1)) 12"
proof -
  have m: "o' AND NOT (mask k) = o' div 2 ^ k * 2 ^ k" for k
  proof -
    have "o' AND NOT (mask k) = push_bit k (drop_bit k o')"
      by (rule bit_eqI) (auto simp: bit_simps)
    then show ?thesis by (simp add: push_bit_eq_mult drop_bit_eq_div)
  qed
  have "n - 1 = mask 0 \<or> n - 1 = mask 1 \<or> n - 1 = mask 2" using assms(3) by (auto simp: mask_eq_exp_minus_1)
  then obtain k where k: "n - 1 = mask k" "k \<le> 2" by fastforce
  have "(2 :: int) ^ k \<le> 4" using power_increasing [OF k(2), of "2 :: int"] by simp
  moreover have "o' div 2 ^ k * 2 ^ k = o' - o' mod 2 ^ k" by (simp add: minus_mod_eq_div_mult)
  moreover have "0 \<le> o' mod 2 ^ k" "o' mod 2 ^ k < 2 ^ k" by simp_all
  ultimately have "- 2048 \<le> o' div 2 ^ k * 2 ^ k" "o' div 2 ^ k * 2 ^ k < 2048"
    using assms(1,2) by linarith+
  then show ?thesis unfolding k(1) m by (simp add: signed_fits_def)
qed

lemma pred_let: "(\<And>x. x = t \<Longrightarrow> pred_state P (f x)) \<Longrightarrow> pred_state P (let x = t in f x)"
  by (simp add: Let_def)

lemma reg_consts: "is_reg ''sp''" "is_reg ''x30''" "is_reg ''x31''" "is_reg ''zero''"
  by (simp_all add: is_reg_def)

lemma one_word_lw: "is_reg rd \<Longrightarrow> is_reg rs1 \<Longrightarrow> signed_fits off 12 \<Longrightarrow> one_word (rv_lw rd off rs1)"
  by (simp add: one_word_def rv_lw_def plain_emit i_type_ok)

lemma one_word_word: "one_word (rv_word v)"
  using one_word_of [of "Inr v"] by (simp add: rv_word_def rv_word_of_def)

lemma names_in: "''f'' @ nat_str b \<in> block_names b" "''l'' @ nat_str b \<in> block_names b" "''j'' @ nat_str b \<in> block_names b"
  by (simp_all add: block_names_def)

lemma pred_load_store:
  "pred_state (block_ok b) (do {
       n \<leftarrow> choice [1, 2, 4];
       o' \<leftarrow> randrange (- 512) 512;
       let off = o' AND NOT (n - 1) in do {
       load \<leftarrow> chance;
       if load then do {
         f1 \<leftarrow> choice [0, 4]; f2 \<leftarrow> choice [1, 5]; rd \<leftarrow> reg;
         State_Monad.return (rv_word_of (i_type off ''sp'' (if n = 1 then f1 else if n = 2 then f2 else 2) rd 0x03)) }
       else do {
         rs2 \<leftarrow> reg;
         State_Monad.return (if n = 1 then rv_sb rs2 off ''sp'' else if n = 2 then rv_sh rs2 off ''sp''
           else rv_sw rs2 off ''sp'') } } })"
proof (intro pred_intros pred_let)
  fix n o' off :: int and load f1 f2 rd
  assume "n \<in> set [1, 2, 4]" "- 512 \<le> o' \<and> o' < 512" "off = o' AND NOT (n - 1)"
  then have off: "signed_fits off 12" using aligned_fits [of o' n] by simp
  show "block_ok b (rv_word_of (i_type off ''sp'' (if n = 1 then f1 else if n = 2 then f2 else 2) rd 0x03))" if "is_reg rd"
    by (rule one_word_block, rule one_word_of, rule not_isl_types) (use off that reg_consts in simp_all)
  show "block_ok b (if n = 1 then rv_sb rd off ''sp'' else if n = 2 then rv_sh rd off ''sp'' else rv_sw rd off ''sp'')"
    if "is_reg rd"
    using store_ok [OF that reg_consts(1) off] by (simp add: one_word_block)
qed simp_all

lemma pred_jump:
  "lbl \<in> block_names b \<Longrightarrow> pred_state (block_ok b) (do {
       direct \<leftarrow> chance;
       jump \<leftarrow> (if direct then do { rd \<leftarrow> reg; State_Monad.return (rv_jal rd lbl) }
         else do { t \<leftarrow> reg; rd \<leftarrow> reg; State_Monad.return (rv_la t lbl @ rv_jalr rd t 0) });
       skipped \<leftarrow> alu;
       State_Monad.return (jump @ skipped @ rv_label lbl) })"
proof (rule pred_bind [where m = chance, OF pred_true], rule pred_bind)
  fix direct :: bool
  show "pred_state (\<lambda>c. \<exists>rd t. is_reg rd \<and> is_reg t \<and> (c = rv_jal rd lbl \<or> c = rv_la t lbl @ rv_jalr rd t 0))
      (if direct then do { rd \<leftarrow> reg; State_Monad.return (rv_jal rd lbl) }
         else do { t \<leftarrow> reg; rd \<leftarrow> reg; State_Monad.return (rv_la t lbl @ rv_jalr rd t 0) })"
    by (intro pred_if pred_bind [OF pred_reg] pred_return) auto
next
  fix jump
  assume "lbl \<in> block_names b" "\<exists>rd t. is_reg rd \<and> is_reg t \<and> (jump = rv_jal rd lbl \<or> jump = rv_la t lbl @ rv_jalr rd t 0)"
  then show "pred_state (block_ok b) (do { skipped \<leftarrow> alu; State_Monad.return (jump @ skipped @ rv_label lbl) })"
    by (intro pred_bind [OF pred_alu] pred_return) (use forward_jump_ok in blast)
qed

lemma pred_block: "pred_state (block_ok b) (block_code b)"
  unfolding block_code_def
  apply (rule pred_bind [OF pred_true], intro pred_if)
  subgoal by (rule pred_mono [OF pred_alu one_word_block])
  subgoal by (rule pred_load_store)
  subgoal
    by (intro pred_bind [OF pred_choice] pred_bind [OF pred_reg] pred_bind [OF pred_some_alus] pred_let pred_return)
      (auto intro!: forward_branch_ok [simplified] simp: names_in [simplified] fits_def)
  subgoal
    by (intro pred_bind [OF pred_randrange] pred_bind [OF pred_some_alus] pred_let pred_return)
      (auto intro!: counted_loop_ok simp: names_in [simplified])
  subgoal by (intro pred_let pred_jump) (simp add: names_in [simplified])
  subgoal
    by (intro pred_bind [where m = chance, OF pred_true] pred_if pred_bind [OF pred_reg_number] pred_bind [OF pred_reg]
        pred_bind [OF pred_choice] pred_return one_word_block one_word_word one_word_lw)
      (auto simp: reg_consts signed_fits_def)
  done

section \<open>The whole program\<close>

definition blocks_ok :: "nat list \<Rightarrow> asm_code \<Rightarrow> bool" where
  "blocks_ok bs c \<longleftrightarrow> closed c \<and> set (code_names c) \<subseteq> (\<Union>b \<in> set bs. block_names b) \<and> code_size c \<le> 6 * length bs"

lemma block_names_disjoint: "b \<notin> set bs \<Longrightarrow> block_names b \<inter> (\<Union>x \<in> set bs. block_names x) = {}"
  by (auto simp: block_names_def nat_str_inj)

lemma pred_blocks: "distinct bs \<Longrightarrow> pred_state (blocks_ok bs) (each block_code bs)"
proof (induction bs)
  case Nil
  show ?case by (simp add: pred_return blocks_ok_def closed_def)
next
  case (Cons b bs)
  have "blocks_ok (b # bs) (c @ cs)" if "block_ok b c" "blocks_ok bs cs" for c cs
  proof -
    have "set (code_names c) \<inter> set (code_names cs) = {}"
      using that block_names_disjoint [of b bs] Cons.prems by (auto simp: block_ok_def blocks_ok_def)
    with that show ?thesis by (auto simp: block_ok_def blocks_ok_def append_layout intro: closed_append)
  qed
  then show ?case unfolding each.simps
    using pred_block Cons by (intro pred_bind [OF pred_block] pred_bind [where P = "blocks_ok bs" and m = "each block_code bs"] pred_return) auto
qed

lemma pred_inits:
  "list_all is_reg rs \<Longrightarrow> pred_state (\<lambda>c. plain c \<and> length c \<le> 2 * length rs)
     (each (\<lambda>r. do { v \<leftarrow> getrandbits 32; State_Monad.return (rv_li r v) }) rs)"
proof (induction rs)
  case Nil
  show ?case by (simp add: pred_return plain_def words_code_def)
next
  case (Cons r rs)
  have "plain (rv_li r v @ cs) \<and> length (rv_li r v @ cs) \<le> 2 * length (r # rs)"
    if "plain cs \<and> length cs \<le> 2 * length rs" for v cs
    using plain_li [of r v] Cons.prems that by (auto intro: plain_append)
  with Cons show ?case unfolding each.simps
    by (intro pred_bind [where m = "each (\<lambda>r. do { v \<leftarrow> getrandbits 32; State_Monad.return (rv_li r v) }) rs"] pred_return
        pred_bind [where P = "\<lambda>c. \<exists>v. c = rv_li r v"] pred_bind [OF pred_true]) auto
qed

lemma random_rv_code_ok:
  "pred_state (\<lambda>c. closed c \<and> code_size c \<le> 6 * blocks + 61) (random_rv_code blocks base)"
proof -
  let ?b = "if base = 0 then RV_DATA else base"
  have regs: "list_all is_reg (map fst DEST)" "length (map fst DEST) = 28"
    using DEST_regs by (auto simp: list_all_iff)
  have "closed (rv_li ''sp'' ?b @ rv_li ''x30'' CLINT_MTIME @ inits @ body @ rv_label ''end'' @ rv_j ''end'') \<and>
      code_size (rv_li ''sp'' ?b @ rv_li ''x30'' CLINT_MTIME @ inits @ body @ rv_label ''end'' @ rv_j ''end'') \<le> 6 * blocks + 61"
    if i: "plain inits \<and> length inits \<le> 2 * length (map fst DEST)" and b: "blocks_ok [0..<blocks] body" for inits body
  proof -
    have p: "plain (rv_li ''sp'' ?b @ rv_li ''x30'' CLINT_MTIME @ inits)"
      using i plain_li reg_consts by (simp add: plain_append)
    have e: "closed (rv_label ''end'' @ rv_j ''end'')"
      by (simp add: closed_def rv_defs op_ok_def is_reg_def signed_fits_def)
    have "''end'' \<notin> set (code_names body)"
      using b by (auto simp: blocks_ok_def block_names_def)
    then have "closed (body @ rv_label ''end'' @ rv_j ''end'')"
      using closed_append [OF _ e, of body] b by (auto simp: blocks_ok_def rv_defs)
    then have "closed ((rv_li ''sp'' ?b @ rv_li ''x30'' CLINT_MTIME @ inits) @ body @ rv_label ''end'' @ rv_j ''end'')"
      using plain_closed [OF p] by (metis closed_append disjoint_iff empty_iff list.set(1))
    moreover have "code_size (rv_li ''sp'' ?b @ rv_li ''x30'' CLINT_MTIME @ inits) \<le> 60"
      using plain_closed [OF p] i regs(2) plain_li [OF reg_consts(1), of ?b] plain_li [OF reg_consts(2), of CLINT_MTIME] by simp
    ultimately show ?thesis using b by (simp add: append_layout blocks_ok_def rv_defs)
  qed
  then show ?thesis unfolding random_rv_code_def
    by (intro pred_bind [OF pred_inits [OF regs(1)]] pred_bind [OF pred_blocks] pred_return) auto
qed

lemma random_rv_rom:
  assumes "blocks \<le> 587"
  shows "rom_ok (random_rv d blocks base)"
proof -
  have "closed (fst (run_state (random_rv_code blocks base) d)) \<and>
      code_size (fst (run_state (random_rv_code blocks base) d)) \<le> 6 * blocks + 61"
    by (rule pred_state_run_state [OF random_rv_code_ok])
  then show ?thesis unfolding random_rv_def
    using assms by (intro build_rom_ok closed_code_ok) auto
qed

text \<open>
  C8: random programs are valid. For every outcome of the generator and every number of blocks the code assembles
  without an exception, to at most \<open>6 * blocks + 61\<close> words of 32 bits: no label is defined twice, and every register,
  immediate and branch is in range. So \<open>random_rv\<close> gives these words, and the only exception it can raise is its own
  check of the size, when they are more than \<open>0x3800 / 4\<close>; up to 587 blocks it raises none. The programs of the fast run
  have 300 blocks; those of \<open>LOCKSTEP_SEEDS\<close> have 1500, whose size depends on what is drawn.
\<close>

theorem random_rv_valid:
  "(\<exists>ws. build 0 (fst (run_state (random_rv_code blocks base) d)) = Inr ws \<and> list_all (fits 32) ws \<and> length ws \<le> 6 * blocks + 61 \<and>
      random_rv d blocks base = (if length ws \<le> 0x3800 div 4 then Inr ws else Inl AssertionError)) \<and>
   (blocks \<le> 587 \<longrightarrow> rom_ok (random_rv d blocks base))"
proof -
  let ?c = "fst (run_state (random_rv_code blocks base) d)"
  have c: "closed ?c \<and> code_size ?c \<le> 6 * blocks + 61" by (rule pred_state_run_state [OF random_rv_code_ok])
  then obtain ws where "build 0 ?c = Inr ws" "length ws = code_size ?c" "list_all (fits 32) ws"
    using build_ok [OF closed_code_ok] by blast
  then show ?thesis using c random_rv_rom [of blocks d base] by (simp add: random_rv_def rom_program_def rassert_def)
qed

theorem random_rv_valid_witness: "(300 :: nat) \<le> 587 \<and> rom_ok (random_rv (\<lambda>i. i * i) 300 0)"
  using random_rv_valid [of 300 0 "\<lambda>i. i * i"] by simp

end
