(* ===== verification/Image_Tool.thy ===== *)
theory Image_Tool
  imports VPrelude
begin

text \<open>
  VUX9 v4 files as \<^verbatim>\<open>src/tools/vux_tool.py\<close> makes them: the 64-byte header (\<open>ImageHeader\<close>), the
  packing of Hack binaries, the CRC-32 of the payload and \<open>build_vux9_v4_image\<close>. Names and paths are
  \<open>string\<close>s, code points up to 255; a file system is a partial function from paths to contents.
\<close>

section \<open>Constants and the header\<close>

definition VUX_MAGIC :: int where "VUX_MAGIC = 0x56555839"
definition HEADER_LEN :: nat where "HEADER_LEN = 64"
definition VUX_SECTOR :: nat where "VUX_SECTOR = 512"
definition MODE_HACK :: int where "MODE_HACK = 0"
definition MODE_RISCV :: int where "MODE_RISCV = 1"
definition HEADER_VERSION_V4 :: int where "HEADER_VERSION_V4 = 4"
definition XMEM_BASE :: int where "XMEM_BASE = 0x80000000"

lemmas image_consts = VUX_MAGIC_def HEADER_LEN_def VUX_SECTOR_def MODE_HACK_def MODE_RISCV_def
  HEADER_VERSION_V4_def XMEM_BASE_def

record image_header =
  hd_mode :: int
  hd_size :: int
  hd_crc32 :: int
  hd_name :: "byte list"
  hd_version :: int
  hd_load_addr :: int
  hd_entry_point :: int

text \<open>\<open>struct.pack\<close> of a format of unsigned integers: the widths and the values.\<close>

definition pack_fields :: "(nat \<times> int) list \<Rightarrow> byte list result" where
  "pack_fields fs = rmap concat (rmapM (\<lambda>(n, v). pack_u n v) fs)"

text \<open>\<open>32s\<close>: a byte string cut or padded with zeros to its width.\<close>

definition pack_s :: "nat \<Rightarrow> byte list \<Rightarrow> byte list" where
  "pack_s n bs = ljust n 0 (take n bs)"

definition header_pack :: "int \<Rightarrow> int \<Rightarrow> int \<Rightarrow> image_header \<Rightarrow> byte list result" where
  "header_pack magic header_version reserved h =
     rmap (\<lambda>bs. bs @ pack_s 32 (ljust 32 0 (take 32 (hd_name h))))
       (pack_fields [(4, magic), (2, header_version), (2, reserved), (4, hd_mode h), (4, hd_size h),
          (4, hd_load_addr h), (4, hd_entry_point h), (4, hd_crc32 h), (4, hd_version h)])"

text \<open>\<open>struct.unpack_from\<close>: the integer of \<open>n\<close> bytes at an offset.\<close>

definition unpack_u :: "nat \<Rightarrow> nat \<Rightarrow> byte list \<Rightarrow> int" where
  "unpack_u n at bs = int_of_le (slice at (at + n) bs)"

definition header_parse :: "byte list \<Rightarrow> image_header option" where
  "header_parse data =
     (if length data < HEADER_LEN then None
      else if unpack_u 4 0 data \<noteq> VUX_MAGIC \<or> unpack_u 2 4 data \<noteq> HEADER_VERSION_V4 \<or> unpack_u 2 6 data \<noteq> 0 then None
      else Some \<lparr>hd_mode = unpack_u 4 8 data, hd_size = unpack_u 4 12 data, hd_crc32 = unpack_u 4 24 data,
             hd_name = slice 32 64 data, hd_version = unpack_u 4 28 data,
             hd_load_addr = unpack_u 4 16 data, hd_entry_point = unpack_u 4 20 data\<rparr>)"

section \<open>CRC-32\<close>

text \<open>\<open>binascii.crc32\<close>: reflected polynomial, all ones at the start, complemented at the end.\<close>

definition crc_bit :: "32 word \<Rightarrow> 32 word" where
  "crc_bit c = (if odd c then drop_bit 1 c XOR 0xEDB88320 else drop_bit 1 c)"

definition crc_byte :: "32 word \<Rightarrow> byte \<Rightarrow> 32 word" where
  "crc_byte c b = (crc_bit ^^ 8) (c XOR ucast b)"

definition crc_update :: "32 word \<Rightarrow> byte list \<Rightarrow> 32 word" where
  "crc_update c bs = foldl crc_byte c bs"

definition crc32 :: "byte list \<Rightarrow> int" where
  "crc32 bs = uint (NOT (crc_update 0xFFFFFFFF bs))"

section \<open>Payloads and files\<close>

definition word_of_halves :: "byte list \<Rightarrow> int" where
  "word_of_halves chunk =
     (let instr0 = push_bit 8 (uint (chunk ! 0)) OR uint (chunk ! 1);
          instr1 = push_bit 8 (uint (chunk ! 2)) OR uint (chunk ! 3)
      in push_bit 16 instr1 OR instr0)"

definition pack_hack :: "byte list \<Rightarrow> byte list" where
  "pack_hack payload = concat (map (\<lambda>chunk. le_bytes 4 (word_of_halves (ljust 4 0 chunk))) (pieces 4 payload))"

datatype file_or_bytes = Bytes "byte list" | Path string

text \<open>\<open>os.path.basename\<close> and the root of \<open>os.path.splitext\<close> (leading dots start no extension).\<close>

definition basename :: "string \<Rightarrow> string" where
  "basename path = rev (takeWhile (\<lambda>c. c \<noteq> CHR ''/'') (rev path))"

definition splitext_root :: "string \<Rightarrow> string" where
  "splitext_root name =
     (let (dots, rest) = (takeWhile (\<lambda>c. c = CHR ''.'') name, dropWhile (\<lambda>c. c = CHR ''.'') name)
      in if CHR ''.'' \<in> set rest
         then dots @ rev (tl (dropWhile (\<lambda>c. c \<noteq> CHR ''.'') (rev rest)))
         else name)"

type_synonym file_system = "string \<Rightarrow> byte list option"

definition read_payload :: "file_system \<Rightarrow> file_or_bytes \<Rightarrow> (byte list \<times> string option) result" where
  "read_payload fs src = (case src of
       Bytes bs \<Rightarrow> Inr (bs, None)
     | Path p \<Rightarrow> (case fs p of None \<Rightarrow> Inl FileNotFoundError | Some bs \<Rightarrow> Inr (bs, Some (splitext_root (basename p)))))"

text \<open>\<open>str.encode("ascii", errors="replace")\<close>.\<close>

definition encode_ascii :: "string \<Rightarrow> byte list" where
  "encode_ascii s = map (\<lambda>c. if of_char c < (128 :: nat) then of_char c else 0x3F) s"

definition or_else :: "string \<Rightarrow> string option \<Rightarrow> string" where
  "or_else name d = (if name \<noteq> [] then name else case d of None \<Rightarrow> [] | Some s \<Rightarrow> s)"

definition build_vux9_v4_image ::
  "file_system \<Rightarrow> file_or_bytes \<Rightarrow> string \<Rightarrow> string \<Rightarrow> int \<Rightarrow> int option \<Rightarrow> int option \<Rightarrow> int option \<Rightarrow> int option \<Rightarrow>
   (byte list \<times> image_header) result" where
  "build_vux9_v4_image fs src name mode version load_addr entry_point crc_override magic_override =
     rbind (read_payload fs src) (\<lambda>(payload, default_name).
       let mode_val = (if mode = ''hack'' then MODE_HACK else MODE_RISCV);
           payload = (if mode_val = MODE_HACK then pack_hack payload else payload);
           load_addr = (case load_addr of None \<Rightarrow> (if mode_val = MODE_RISCV then XMEM_BASE else 0) | Some a \<Rightarrow> a);
           header = \<lparr>hd_mode = mode_val, hd_size = int (length payload),
             hd_crc32 = (case crc_override of Some c \<Rightarrow> c | None \<Rightarrow> crc32 payload AND 0xFFFFFFFF),
             hd_name = encode_ascii (or_else name default_name), hd_version = version,
             hd_load_addr = load_addr,
             hd_entry_point = (case entry_point of None \<Rightarrow> load_addr | Some e \<Rightarrow> e)\<rparr>;
           magic = (case magic_override of Some m \<Rightarrow> m | None \<Rightarrow> VUX_MAGIC)
       in rmap (\<lambda>bs. (bs @ payload, header)) (header_pack magic HEADER_VERSION_V4 0 header))"

section \<open>The header's round trip\<close>

definition header_ok :: "image_header \<Rightarrow> bool" where
  "header_ok h \<longleftrightarrow> (\<forall>f \<in> {hd_mode, hd_size, hd_crc32, hd_version, hd_load_addr, hd_entry_point}. fits 32 (f h))"

definition padded_name :: "byte list \<Rightarrow> byte list" where
  "padded_name n = ljust 32 0 (take 32 n)"

lemma length_padded_name [simp]: "length (padded_name n) = 32"
  by (simp add: padded_name_def)

lemma padded_name_id: "length n = 32 \<Longrightarrow> padded_name n = n"
  by (simp add: padded_name_def ljust_def)

lemma pack_s_padded: "pack_s 32 (ljust 32 0 (take 32 n)) = padded_name n"
  by (simp add: pack_s_def padded_name_def ljust_def)

lemma slice_at:
  "length pre = i \<Longrightarrow> length mid = j - i \<Longrightarrow> slice i j (pre @ mid @ post) = mid"
  by (simp add: slice_def)

lemma unpack_at:
  assumes "length pre = i" "fits (8 * n) v"
  shows "unpack_u n i (pre @ le_bytes n v @ post) = v"
proof -
  have "(256 :: int) ^ n = 2 ^ (8 * n)" by (simp add: power_mult)
  with assms show ?thesis
    by (simp add: unpack_u_def slice_at fits_def int_of_le_bytes)
qed

definition header_bytes :: "image_header \<Rightarrow> byte list" where
  "header_bytes h = le_bytes 4 VUX_MAGIC @ le_bytes 2 HEADER_VERSION_V4 @ le_bytes 2 0 @ le_bytes 4 (hd_mode h) @
     le_bytes 4 (hd_size h) @ le_bytes 4 (hd_load_addr h) @ le_bytes 4 (hd_entry_point h) @ le_bytes 4 (hd_crc32 h) @
     le_bytes 4 (hd_version h) @ padded_name (hd_name h)"

lemma length_header_bytes [simp]: "length (header_bytes h) = 64"
  by (simp add: header_bytes_def)

lemma header_pack_eq:
  "header_pack VUX_MAGIC HEADER_VERSION_V4 0 h = (if header_ok h then Inr (header_bytes h) else Inl StructError)"
  by (auto simp: header_pack_def pack_fields_def pack_u_def header_ok_def fits_def header_bytes_def image_consts
      pack_s_padded)

lemma unpack_skip: "length xs \<le> i \<Longrightarrow> unpack_u n i (xs @ ys) = unpack_u n (i - length xs) ys"
  by (simp add: unpack_u_def slice_def)

lemma unpack_here: "fits (8 * n) v \<Longrightarrow> unpack_u n 0 (le_bytes n v @ ys) = v"
  using unpack_at [of "[]" 0 n v ys] by simp

lemma slice_skip: "length xs \<le> i \<Longrightarrow> slice i j (xs @ ys) = slice (i - length xs) (j - length xs) ys"
  by (simp add: slice_def)

lemma slice_here: "length xs = j \<Longrightarrow> slice 0 j (xs @ ys) = xs"
  by (simp add: slice_def)

lemmas unpack_rules = unpack_skip unpack_here slice_skip slice_here

lemma parse_header_bytes:
  assumes "header_ok h"
  shows "header_parse (header_bytes h @ rest) = Some (h\<lparr>hd_name := padded_name (hd_name h)\<rparr>)"
proof -
  have "fits 32 (hd_mode h)" "fits 32 (hd_size h)" "fits 32 (hd_crc32 h)" "fits 32 (hd_version h)"
    "fits 32 (hd_load_addr h)" "fits 32 (hd_entry_point h)"
    using assms by (simp_all add: header_ok_def)
  moreover have "\<not> length (header_bytes h @ rest) < HEADER_LEN" by (simp add: HEADER_LEN_def)
  ultimately show ?thesis
    by (simp add: header_parse_def header_bytes_def unpack_rules VUX_MAGIC_def HEADER_VERSION_V4_def del: le_bytes.simps)
qed

lemma le_unpack: "i + n \<le> length data \<Longrightarrow> le_bytes n (unpack_u n i data) = slice i (i + n) data"
  using le_bytes_of_le [of "slice i (i + n) data"] by (simp add: unpack_u_def del: le_bytes_of_le)

lemma slice_join: "i \<le> j \<Longrightarrow> j \<le> k \<Longrightarrow> slice i j d @ slice j k d = slice i k d"
proof -
  assume "i \<le> j" "j \<le> k"
  then have "k - i = (j - i) + (k - j)" "j = (j - i) + i" by simp_all
  then show ?thesis unfolding slice_def by (metis drop_drop take_add)
qed

lemma slice_join_more: "i \<le> j \<Longrightarrow> j \<le> k \<Longrightarrow> slice i j d @ slice j k d @ r = slice i k d @ r"
  by (simp add: slice_join flip: append_assoc)

lemma unpack_range: "fits (8 * n) (unpack_u n i data)"
proof -
  let ?b = "slice i (i + n) data"
  have "int_of_le ?b < 256 ^ length ?b" using int_of_le_range [of ?b] by simp
  also have "\<dots> \<le> (256 :: int) ^ n" by (rule power_increasing) simp_all
  also have "\<dots> = 2 ^ (8 * n)" by (simp add: power_mult)
  finally show ?thesis using int_of_le_range [of ?b] by (simp add: fits_def unpack_u_def)
qed

lemma parse_inv:
  assumes "header_parse data = Some h"
  shows "header_ok h \<and> length (hd_name h) = 32 \<and> header_bytes h = take 64 data"
proof -
  have len: "64 \<le> length data" and m: "VUX_MAGIC = unpack_u 4 0 data" "HEADER_VERSION_V4 = unpack_u 2 4 data" "0 = unpack_u 2 6 data"
    using assms by (auto simp: header_parse_def HEADER_LEN_def split: if_splits)
  have h: "h = \<lparr>hd_mode = unpack_u 4 8 data, hd_size = unpack_u 4 12 data, hd_crc32 = unpack_u 4 24 data,
             hd_name = slice 32 64 data, hd_version = unpack_u 4 28 data,
             hd_load_addr = unpack_u 4 16 data, hd_entry_point = unpack_u 4 20 data\<rparr>"
    using assms by (simp add: header_parse_def split: if_splits)
  have "header_bytes h = slice 0 4 data @ slice 4 6 data @ slice 6 8 data @ slice 8 12 data @ slice 12 16 data @
      slice 16 20 data @ slice 20 24 data @ slice 24 28 data @ slice 28 32 data @ slice 32 64 data"
    unfolding header_bytes_def m h using len by (simp add: le_unpack padded_name_id del: le_bytes.simps)
  then have "header_bytes h = take 64 data"
    by (simp add: slice_join slice_join_more) (simp add: slice_def)
  moreover have "header_ok h"
    unfolding h header_ok_def using unpack_range [of 4] by simp
  moreover have "length (hd_name h) = 32"
    using len by (simp add: h)
  ultimately show ?thesis by simp
qed

text \<open>
  C17: header round trip. A header whose fields are 32-bit values packs into 64 bytes that parse back to it, with the
  name cut or padded to 32 bytes, whatever follows it in the file; any other header raises \<open>struct.error\<close>. In the
  other direction, data that the parser accepts starts with exactly the bytes that packing the parsed header gives.
\<close>

theorem header_roundtrip:
  "(if header_ok h
    then \<exists>bs. header_pack VUX_MAGIC HEADER_VERSION_V4 0 h = Inr bs \<and> length bs = HEADER_LEN \<and>
           header_parse (bs @ rest) = Some (h\<lparr>hd_name := padded_name (hd_name h)\<rparr>)
    else header_pack VUX_MAGIC HEADER_VERSION_V4 0 h = Inl StructError) \<and>
   (case header_parse data of
      None \<Rightarrow> True
    | Some g \<Rightarrow> header_pack VUX_MAGIC HEADER_VERSION_V4 0 g = Inr (take HEADER_LEN data))"
  by (auto simp: header_pack_eq parse_header_bytes HEADER_LEN_def parse_inv split: option.split)

section \<open>CRC-32 and corrupted bytes\<close>

lemma drop_bit_top: "\<not> bit (drop_bit (Suc 0) c) 31" for c :: "32 word"
  using bit_imp_le_length [of c 32] by (auto simp: bit_drop_bit_eq)

lemma crc_bit_top: "bit (crc_bit c) 31 \<longleftrightarrow> odd c"
proof -
  have "bit (0xEDB88320 :: 32 word) 31" by simp
  then show ?thesis using drop_bit_top [of c] by (simp add: crc_bit_def bit_xor_iff)
qed

lemma halves_eq: "odd a = odd b \<Longrightarrow> drop_bit (Suc 0) a = drop_bit (Suc 0) b \<Longrightarrow> a = b" for a b :: "32 word"
proof -
  assume o: "odd a = odd b" and d: "drop_bit (Suc 0) a = drop_bit (Suc 0) b"
  have step: "bit c (Suc m) = bit (drop_bit (Suc 0) c) m" for c :: "32 word" and m
    by (simp add: bit_drop_bit_eq)
  have "bit a n = bit b n" for n
    using o by (cases n) (simp_all add: bit_0 step d)
  then show "a = b" by (auto intro: bit_eqI)
qed

lemma xor_cancel: "a XOR c = b XOR c \<longleftrightarrow> a = b" for a b c :: "32 word"
proof
  assume "a XOR c = b XOR c"
  then have "(a XOR c) XOR c = (b XOR c) XOR c" by simp
  then show "a = b" by (simp only: xor.assoc xor_self_eq xor.right_neutral)
qed simp

lemma crc_bit_inj: "inj crc_bit"
proof (rule injI)
  fix a b assume e: "crc_bit a = crc_bit b"
  then have o: "odd a = odd b" using crc_bit_top by metis
  with e have "drop_bit (Suc 0) a = drop_bit (Suc 0) b" by (auto simp: crc_bit_def xor_cancel split: if_splits)
  with o show "a = b" by (rule halves_eq)
qed

lemma crc_bits_inj: "(crc_bit ^^ 8) a = (crc_bit ^^ 8) b \<longleftrightarrow> a = b"
  by (rule inj_eq) (rule inj_fn [OF crc_bit_inj])

lemma crc_byte_state: "crc_byte c b = crc_byte d b \<longleftrightarrow> c = d"
  by (simp add: crc_byte_def crc_bits_inj xor_cancel del: funpow.simps)

lemma crc_byte_data: "crc_byte c a = crc_byte c b \<longleftrightarrow> a = b"
proof
  assume "crc_byte c a = crc_byte c b"
  then have "c XOR ucast a = c XOR ucast b"
    by (simp only: crc_byte_def crc_bits_inj)
  then have "ucast a = (ucast b :: 32 word)" by (metis xor.commute xor_cancel)
  then have "uint (ucast a :: 32 word) = uint (ucast b :: 32 word)" by simp
  moreover have "take_bit 32 (uint x) = uint x" for x :: byte
    using uint_byte_range [of x] by (intro take_bit_int_eq_self) auto
  ultimately show "a = b" by (simp add: unsigned_ucast_eq word_uint_eq_iff)
qed simp

lemma crc_update_append: "crc_update c (xs @ ys) = crc_update (crc_update c xs) ys"
  by (simp add: crc_update_def)

lemma crc_update_inj: "crc_update c bs = crc_update d bs \<longleftrightarrow> c = d"
  by (induction bs arbitrary: c d) (simp_all add: crc_update_def crc_byte_state)

lemma crc32_eq_iff: "crc32 xs = crc32 ys \<longleftrightarrow> crc_update 0xFFFFFFFF xs = crc_update 0xFFFFFFFF ys"
  unfolding crc32_def by (metis bit.double_compl word_uint_eq_iff)

lemma crc32_one_byte: "crc32 (xs @ a # ys) = crc32 (xs @ b # ys) \<longleftrightarrow> a = b"
  by (simp add: crc32_eq_iff crc_update_append crc_update_inj)
     (simp add: crc_update_def crc_byte_data crc_update_inj [unfolded crc_update_def])

section \<open>Hack binaries\<close>

lemma push_or: "0 \<le> x \<Longrightarrow> x < 2 ^ k \<Longrightarrow> push_bit k y OR x = x + 2 ^ k * y" for x y :: int
  using concat_bit_eq [of k x y] by (simp add: concat_bit_def take_bit_int_eq_self push_bit_eq_mult or.commute mult.commute)

lemma le_bytes_halves: "le_bytes 4 (word_of_halves [a, b, c, d]) = [b, a, d, c]"
proof -
  have u: "0 \<le> uint x" "uint x < 2 ^ 8" for x :: byte
    using uint_byte_range [of x] by simp_all
  have h: "push_bit 8 (uint x) OR uint y = uint y + 2 ^ 8 * uint x" for x y :: byte
    by (rule push_or) (rule u)+
  have "uint b + 2 ^ 8 * uint a < 2 ^ 16" using u [of a] u [of b] by simp
  then have "push_bit 16 (uint d + 2 ^ 8 * uint c) OR (uint b + 2 ^ 8 * uint a)
      = (uint b + 2 ^ 8 * uint a) + 2 ^ 16 * (uint d + 2 ^ 8 * uint c)"
    by (intro push_or) (simp_all add: u)
  then have "word_of_halves [a, b, c, d] = int_of_le [b, a, d, c]"
    unfolding word_of_halves_def Let_def by (simp add: h)
  then show ?thesis using le_bytes_of_le [of "[b, a, d, c]"] by (simp add: eval_nat_numeral)
qed

fun swap_pairs :: "'a list \<Rightarrow> 'a list" where
  "swap_pairs (a # b # r) = b # a # swap_pairs r"
| "swap_pairs r = r"

definition pad4 :: "byte list \<Rightarrow> byte list" where
  "pad4 p = ljust (4 * ((length p + 3) div 4)) 0 p"

lemma length4: "length xs = 4 \<Longrightarrow> \<exists>a b c d. xs = [a, b, c, d]"
  by (auto simp: eval_nat_numeral length_Suc_conv)

lemma pad4_step: "p \<noteq> [] \<Longrightarrow> pad4 p = ljust 4 0 (take 4 p) @ pad4 (drop 4 p)"
proof (cases "length p \<le> 4")
  case True
  moreover assume "p \<noteq> []"
  then have "0 < length p" by simp
  ultimately have "(length p + 3) div 4 = 1" by (intro div_nat_eqI) (auto simp: Suc_le_eq)
  then show ?thesis using True by (simp add: pad4_def ljust_def)
next
  case False
  then obtain k where k: "length p = k + 4" by (metis add.commute le_Suc_ex linorder_le_cases)
  have "(length p + 3) div 4 = (k + 3) div 4 + 1" unfolding k by (simp add: add.assoc)
  then show ?thesis using False k by (simp add: pad4_def ljust_def)
qed

lemma pack_hack_swap: "pack_hack p = swap_pairs (pad4 p)"
proof (induction p rule: length_induct)
  case (1 p)
  show ?case
  proof (cases "p = []")
    case True
    then show ?thesis by (simp add: pack_hack_def pad4_def ljust_def)
  next
    case False
    obtain a b c d where q: "ljust 4 0 (take 4 p) = [a, b, c, d]"
      using length4 [of "ljust 4 0 (take 4 p)"] by auto
    have "pack_hack p = [b, a, d, c] @ pack_hack (drop 4 p)"
      using False by (simp add: pack_hack_def pieces_step q le_bytes_halves del: le_bytes.simps)
    with 1 False show ?thesis by (simp add: pad4_step q)
  qed
qed

lemma length_pad4: "length (pad4 p) = 4 * ((length p + 3) div 4)"
  unfolding pad4_def by simp

lemma pad4_id: "length p mod 4 = 0 \<Longrightarrow> pad4 p = p"
proof -
  assume "length p mod 4 = 0"
  then obtain k where "length p = 4 * k" by auto
  then show ?thesis by (simp add: pad4_def ljust_def)
qed

lemma nth_pad4: "i < length p \<Longrightarrow> pad4 p ! i = p ! i"
  by (simp add: pad4_def ljust_def nth_append)

lemma length_swap_pairs [simp]: "length (swap_pairs xs) = length xs"
  by (induction xs rule: swap_pairs.induct) simp_all

lemma swap_pairs_twice [simp]: "swap_pairs (swap_pairs xs) = xs"
  by (induction xs rule: swap_pairs.induct) simp_all

lemma nth_swap_pairs:
  "2 * k + 1 < length xs \<Longrightarrow> swap_pairs xs ! (2 * k) = xs ! (2 * k + 1) \<and> swap_pairs xs ! (2 * k + 1) = xs ! (2 * k)"
proof (induction xs arbitrary: k rule: swap_pairs.induct)
  case (1 a b r)
  then show ?case by (cases k) simp_all
qed simp_all

text \<open>
  Packing a Hack binary. The result is a whole number of 32-bit words, it holds each big-endian 16-bit
  instruction of the binary as a little-endian half-word at the same place, and packing it again gives the
  binary back, padded with zeros to whole words.
\<close>

theorem pack_hack_halves:
  "length (pack_hack p) = 4 * ((length p + 3) div 4) \<and>
   list_all (\<lambda>k. pack_hack p ! (2 * k) = p ! (2 * k + 1) \<and> pack_hack p ! (2 * k + 1) = p ! (2 * k)) [0..<length p div 2] \<and>
   pack_hack (pack_hack p) = pad4 p"
proof -
  have "pack_hack p ! (2 * k) = p ! (2 * k + 1) \<and> pack_hack p ! (2 * k + 1) = p ! (2 * k)" if "k < length p div 2" for k
  proof -
    have "2 * k + 1 < length p" using that by simp
    moreover have "length p \<le> length (pad4 p)" by (simp add: pad4_def)
    ultimately show ?thesis
      using nth_swap_pairs [of k "pad4 p"] by (simp add: pack_hack_swap nth_pad4)
  qed
  moreover have "pad4 (swap_pairs (pad4 p)) = swap_pairs (pad4 p)"
    by (rule pad4_id) (simp add: length_pad4)
  ultimately show ?thesis
    by (simp add: pack_hack_swap length_pad4 list_all_iff)
qed

section \<open>Whole files\<close>

text \<open>What the firmware checks of a file: a v4 header, the size and the CRC-32 of what follows.\<close>

definition image_valid :: "byte list \<Rightarrow> bool" where
  "image_valid data = (case header_parse data of
      None \<Rightarrow> False
    | Some h \<Rightarrow> length data = HEADER_LEN + nat (hd_size h) \<and> crc32 (drop HEADER_LEN data) = hd_crc32 h)"

definition stored_payload :: "string \<Rightarrow> byte list \<Rightarrow> byte list" where
  "stored_payload mode p = (if mode = ''hack'' then pack_hack p else p)"

definition v4_header :: "byte list \<Rightarrow> string \<Rightarrow> string \<Rightarrow> int \<Rightarrow> int option \<Rightarrow> int option \<Rightarrow> image_header" where
  "v4_header p name mode version load entry =
     (let la = (case load of None \<Rightarrow> (if mode = ''hack'' then 0 else 0x80000000) | Some a \<Rightarrow> a)
      in \<lparr>hd_mode = (if mode = ''hack'' then 0 else 1), hd_size = int (length (stored_payload mode p)),
          hd_crc32 = crc32 (stored_payload mode p), hd_name = encode_ascii name, hd_version = version,
          hd_load_addr = la, hd_entry_point = (case entry of None \<Rightarrow> la | Some e \<Rightarrow> e)\<rparr>)"

lemma crc32_fits: "fits 32 (crc32 bs)"
  using uint_lt2p [of "NOT (crc_update 0xFFFFFFFF bs)"] by (simp add: crc32_def fits_def)

lemma crc32_masked: "crc32 bs AND 0xFFFFFFFF = crc32 bs"
proof -
  have "crc32 bs AND 0xFFFFFFFF = take_bit 32 (crc32 bs)"
    by (simp add: take_bit_eq_mask mask_eq_exp_minus_1)
  also have "\<dots> = crc32 bs" using crc32_fits [of bs] by (simp add: fits_def take_bit_int_eq_self)
  finally show ?thesis .
qed

lemma build_eq:
  assumes "read_payload fs src = Inr (p, d)"
  shows "build_vux9_v4_image fs src name mode version load entry None None =
    (let h = v4_header p (or_else name d) mode version load entry
     in if header_ok h then Inr (header_bytes h @ stored_payload mode p, h) else Inl StructError)"
  using assms
  by (simp add: build_vux9_v4_image_def v4_header_def stored_payload_def header_pack_eq crc32_masked Let_def
      MODE_HACK_def MODE_RISCV_def XMEM_BASE_def split: option.splits)

lemma header_valid:
  assumes "header_ok h" "hd_size h = int (length q)" "hd_crc32 h = crc32 q"
  shows "image_valid (header_bytes h @ q)"
  using assms by (simp add: image_valid_def parse_header_bytes HEADER_LEN_def)

text \<open>A file that the firmware accepts, with one byte changed.\<close>

lemma image_valid_fields:
  "image_valid data \<longleftrightarrow> 64 \<le> length data \<and> unpack_u 4 0 data = VUX_MAGIC \<and> unpack_u 2 4 data = HEADER_VERSION_V4 \<and> unpack_u 2 6 data = 0 \<and>
     length data = 64 + nat (unpack_u 4 12 data) \<and> crc32 (drop 64 data) = unpack_u 4 24 data"
  by (auto simp: image_valid_def header_parse_def HEADER_LEN_def)

lemma unpack_same: "i < at \<or> at + n \<le> i \<Longrightarrow> unpack_u n at (data[i := b]) = unpack_u n at data"
  by (auto simp: unpack_u_def slice_def drop_update_swap)

lemma unpack_changed:
  assumes "at \<le> i" "i < at + n" "at + n \<le> length data" "b \<noteq> data ! i"
  shows "unpack_u n at (data[i := b]) \<noteq> unpack_u n at data"
proof
  assume "unpack_u n at (data[i := b]) = unpack_u n at data"
  then have "slice at (at + n) (data[i := b]) = slice at (at + n) data"
    using le_unpack [of at n data] le_unpack [of at n "data[i := b]"] assms(3) by simp
  then have "slice at (at + n) (data[i := b]) ! (i - at) = slice at (at + n) data ! (i - at)" by simp
  then show False using assms by (simp add: slice_def)
qed

lemma crc_changed: "i < length q \<Longrightarrow> b \<noteq> q ! i \<Longrightarrow> crc32 (q[i := b]) \<noteq> crc32 q"
  using crc32_one_byte [of "take i q" b "drop (Suc i) q" "q ! i"] by (simp add: upd_conv_take_nth_drop id_take_nth_drop [symmetric])

lemma changed_byte:
  assumes v: "image_valid data" and i: "i < length data" "b \<noteq> data ! i"
  shows "image_valid (data[i := b]) \<longleftrightarrow> 8 \<le> i \<and> i < 12 \<or> 16 \<le> i \<and> i < 24 \<or> 28 \<le> i \<and> i < 64"
proof -
  note f = v [unfolded image_valid_fields]
  have n: "0 \<le> unpack_u 4 12 xs" for xs using int_of_le_range by (simp add: unpack_u_def)
  consider "i < 4" | "4 \<le> i" "i < 6" | "6 \<le> i" "i < 8" | "12 \<le> i" "i < 16" | "24 \<le> i" "i < 28" | "64 \<le> i"
    | "8 \<le> i \<and> i < 12 \<or> 16 \<le> i \<and> i < 24 \<or> 28 \<le> i \<and> i < 64" by linarith
  then show ?thesis
  proof cases
    case 1
    then show ?thesis using unpack_changed [of 0 i 4 data b] f i(2) by (simp add: image_valid_fields)
  next
    case 2
    then show ?thesis using unpack_changed [of 4 i 2 data b] f i(2) by (simp add: image_valid_fields)
  next
    case 3
    then show ?thesis using unpack_changed [of 6 i 2 data b] f i(2) by (simp add: image_valid_fields)
  next
    case 4
    then have "unpack_u 4 12 (data[i := b]) \<noteq> unpack_u 4 12 data" using unpack_changed [of 12 i 4 data b] f i(2) by simp
    then have "nat (unpack_u 4 12 (data[i := b])) \<noteq> nat (unpack_u 4 12 data)" using n by (simp add: eq_nat_nat_iff)
    then show ?thesis using 4 f by (simp add: image_valid_fields)
  next
    case 5
    then show ?thesis using unpack_changed [of 24 i 4 data b] f i(2) by (simp add: image_valid_fields)
  next
    case 6
    have "crc32 (drop 64 (data[i := b])) \<noteq> crc32 (drop 64 data)"
      using crc_changed [of "i - 64" "drop 64 data" b] 6 i by (simp add: drop_update_swap)
    then show ?thesis using 6 f by (simp add: image_valid_fields unpack_same)
  next
    case 7
    then show ?thesis using f by (auto simp: image_valid_fields unpack_same)
  qed
qed



end
