(* ===== verification/Fat_Image.thy ===== *)
theory Fat_Image
  imports Image_Tool
begin

text \<open>
  FAT32 card images as \<open>build_fat32_image\<close> of \<^verbatim>\<open>src/tools/vux_tool.py\<close> builds them: 8.3 names, directory
  entries, the size of the FATs, the allocation of clusters, the directory tree and the sectors of the image.
  Python's dictionaries, which keep the order of insertion, are association lists; the label is ASCII text.
\<close>

section \<open>8.3 names and directory entries\<close>

definition FAT_PART_LBA :: nat where "FAT_PART_LBA = 2048"
definition FAT_RESERVED :: nat where "FAT_RESERVED = 32"
definition FAT_DATE_1980 :: int where "FAT_DATE_1980 = (push_bit 5 1) OR 1"
definition FAT_EOC :: nat where "FAT_EOC = 0x0FFFFFFF"

definition upper :: "string \<Rightarrow> string" where
  "upper s = map (\<lambda>c. if (97 :: nat) \<le> of_char c \<and> of_char c \<le> (122 :: nat) then char_of (of_char c - (32 :: nat)) else c) s"

definition encode :: "string \<Rightarrow> byte list" where
  "encode s = map of_char s"

text \<open>\<open>s.rpartition(".")\<close>: what is before the last dot, whether there is one, what is after it.\<close>

definition rpartition_dot :: "string \<Rightarrow> string \<times> bool \<times> string" where
  "rpartition_dot s =
     (if CHR ''.'' \<in> set s
      then (rev (tl (dropWhile (\<lambda>c. c \<noteq> CHR ''.'') (rev s))), True, rev (takeWhile (\<lambda>c. c \<noteq> CHR ''.'') (rev s)))
      else ([], False, s))"

definition allowed :: string where
  "allowed = ''ABCDEFGHIJKLMNOPQRSTUVWXYZ0123456789!#$%&'' @ [char_of (39 :: nat)] @ ''()-@^_'' @ [char_of (96 :: nat)] @ ''{}~''"

definition fat_short_name :: "string \<Rightarrow> byte list result" where
  "fat_short_name name =
     (if \<not> list_all (\<lambda>c. of_char c < (128 :: nat)) name then Inl ValueError
      else let (base, dot, ext) = rpartition_dot (upper name);
               (base, ext) = (if \<not> dot then (ext, []) else (base, ext))
           in if \<not> (1 \<le> length base \<and> length base \<le> 8 \<and> length ext \<le> 3 \<and> (ext \<noteq> [] \<or> \<not> dot)) \<or>
                 \<not> list_all (\<lambda>c. c \<in> set allowed) (base @ ext)
              then Inl ValueError
              else Inr (encode (ljust 8 CHR '' '' base) @ encode (ljust 3 CHR '' '' ext)))"

definition fat_entry :: "byte list \<Rightarrow> int \<Rightarrow> nat \<Rightarrow> nat \<Rightarrow> byte list result" where
  "fat_entry name11 attr cluster fsize =
     rmap (\<lambda>bs. pack_s 11 name11 @ bs)
       (pack_fields [(1, attr), (1, 0), (1, 0), (2, 0), (2, FAT_DATE_1980), (2, FAT_DATE_1980),
          (2, int (drop_bit 16 cluster)), (2, 0), (2, FAT_DATE_1980), (2, int cluster AND 0xFFFF), (4, int fsize)])"

section \<open>The size of the FATs\<close>

definition fat_clusters :: "int \<Rightarrow> int \<Rightarrow> int \<Rightarrow> int" where
  "fat_clusters part_sectors cluster_sectors fat_sectors =
     (part_sectors - int FAT_RESERVED - 2 * fat_sectors) div cluster_sectors"

definition fat_enough :: "int \<Rightarrow> int \<Rightarrow> int \<Rightarrow> bool" where
  "fat_enough part_sectors cluster_sectors fat_sectors \<longleftrightarrow>
     (fat_clusters part_sectors cluster_sectors fat_sectors + 2) * 4 \<le> fat_sectors * int VUX_SECTOR"

lemma div_le_abs: "x div c \<le> \<bar>x\<bar>" for x c :: int
proof -
  have pos: "y div d \<le> \<bar>y\<bar>" if "0 < d" for y d :: int
  proof -
    have "y div d \<le> \<bar>y\<bar> div d" using that by (intro zdiv_mono1) simp_all
    also have "\<dots> \<le> \<bar>y\<bar> div 1" using that by (intro zdiv_mono2) simp_all
    finally show ?thesis by simp
  qed
  show ?thesis
    using pos [of c x] pos [of "- c" "- x"] by (cases c "0 :: int" rule: linorder_cases) simp_all
qed

lemma fat_enough_bound: "\<not> fat_enough part_sectors cluster_sectors fat_sectors \<Longrightarrow> fat_sectors < \<bar>part_sectors\<bar> + 2"
  using div_le_abs [of "part_sectors - int FAT_RESERVED - 2 * fat_sectors" cluster_sectors]
  by (simp add: fat_enough_def fat_clusters_def FAT_RESERVED_def VUX_SECTOR_def)

text \<open>The \<open>while True\<close> loop that looks for the number of sectors of a FAT; it starts at 1.\<close>

function fat_size :: "int \<Rightarrow> int \<Rightarrow> int \<Rightarrow> int" where
  "fat_size part_sectors cluster_sectors fat_sectors =
     (if fat_enough part_sectors cluster_sectors fat_sectors then fat_sectors
      else fat_size part_sectors cluster_sectors (fat_sectors + 1))"
  by pat_completeness auto
termination
  by (relation "measure (\<lambda>(ps, cs, f). nat (\<bar>ps\<bar> + 2 - f))") (auto dest: fat_enough_bound)

declare fat_size.simps [simp del]

section \<open>Clusters\<close>

text \<open>\<open>d[k] = v\<close> of a dictionary.\<close>

fun dict_set :: "'k \<Rightarrow> 'v \<Rightarrow> ('k \<times> 'v) list \<Rightarrow> ('k \<times> 'v) list" where
  "dict_set k v [] = [(k, v)]"
| "dict_set k v (e # d) = (if fst e = k then (k, v) # d else e # dict_set k v d)"

text \<open>The lists that \<open>build_fat32_image\<close>'s inner functions share: the FAT and the contents of clusters.\<close>

record fat_state =
  fs_fat :: "nat list"
  fs_data :: "(nat \<times> byte list) list"

definition ceil_div :: "nat \<Rightarrow> nat \<Rightarrow> nat" where
  "ceil_div a b = nat (- ((- int a) div int b))"

definition alloc :: "nat \<Rightarrow> int \<Rightarrow> byte list \<Rightarrow> fat_state \<Rightarrow> (nat \<times> fat_state) result" where
  "alloc cluster_bytes clusters content s =
     (let n = max 1 (ceil_div (length content) cluster_bytes); first = length (fs_fat s)
      in if int (first + n) > clusters + 2 then Inl ValueError
         else Inr (first, fold (\<lambda>i s. s\<lparr>fs_fat := fs_fat s @ [if i < n - 1 then first + i + 1 else FAT_EOC],
                fs_data := dict_set (first + i) (slice (i * cluster_bytes) ((i + 1) * cluster_bytes) content) (fs_data s)\<rparr>)
              [0..<n] s))"

section \<open>The directory tree\<close>

datatype node = File "byte list" | Dir "(byte list \<times> node) list"

type_synonym tree = "(byte list \<times> node) list"

fun split_at :: "char \<Rightarrow> string \<Rightarrow> string list" where
  "split_at sep [] = [[]]"
| "split_at sep (c # s) = (case split_at sep s of
      [] \<Rightarrow> [[c]]
    | p # ps \<Rightarrow> if c = sep then [] # p # ps else (c # p) # ps)"

definition path_parts :: "string \<Rightarrow> byte list list result" where
  "path_parts path =
     rmapM fat_short_name
       (filter (\<lambda>p. p \<noteq> []) (split_at CHR ''/'' (map (\<lambda>c. if c = char_of (92 :: nat) then CHR ''/'' else c) path)))"

fun add_path :: "byte list list \<Rightarrow> byte list \<Rightarrow> tree \<Rightarrow> tree result" where
  "add_path [] content t = Inl IndexError"
| "add_path [p] content t =
     (case map_of t p of Some _ \<Rightarrow> Inl ValueError | None \<Rightarrow> Inr (dict_set p (File content) t))"
| "add_path (p # q # ps) content t =
     (case map_of t p of
        None \<Rightarrow> rmap (\<lambda>sub. dict_set p (Dir sub) t) (add_path (q # ps) content [])
      | Some (Dir sub) \<Rightarrow> rmap (\<lambda>sub. dict_set p (Dir sub) t) (add_path (q # ps) content sub)
      | Some (File _) \<Rightarrow> Inl ValueError)"

fun build_tree :: "(string \<times> byte list) list \<Rightarrow> tree \<Rightarrow> tree result" where
  "build_tree [] t = Inr t"
| "build_tree ((path, content) # files) t =
     rbind (path_parts path) (\<lambda>parts. rbind (add_path parts content t) (build_tree files))"

section \<open>Directories in clusters\<close>

fun allocs :: "nat \<Rightarrow> int \<Rightarrow> nat \<Rightarrow> fat_state \<Rightarrow> (nat list \<times> fat_state) result" where
  "allocs cb cl 0 s = Inr ([], s)"
| "allocs cb cl (Suc n) s =
     rbind (alloc cb cl [] s) (\<lambda>(c, s). rmap (\<lambda>(cs, s). (c # cs, s)) (allocs cb cl n s))"

definition link_chain :: "nat list \<Rightarrow> fat_state \<Rightarrow> fat_state" where
  "link_chain cs s = fold (\<lambda>(a, b) s. s\<lparr>fs_fat := (fs_fat s)[a := b]\<rparr>) (zip cs (tl cs)) s"

definition put_parts :: "(nat \<Rightarrow> byte list) \<Rightarrow> nat \<Rightarrow> nat list \<Rightarrow> fat_state \<Rightarrow> fat_state" where
  "put_parts part k cs s = fold (\<lambda>(i, c) s. s\<lparr>fs_data := dict_set c (part i) (fs_data s)\<rparr>) (enumerate k cs) s"

text \<open>The end of \<open>write_dir\<close>: the entries into the directory's clusters, chained on from its first one.\<close>

definition write_raw :: "nat \<Rightarrow> int \<Rightarrow> nat \<Rightarrow> byte list \<Rightarrow> fat_state \<Rightarrow> fat_state result" where
  "write_raw cb cl own raw s =
     (let n = max 1 (ceil_div (length raw) cb)
      in rmap (\<lambda>(more, s).
           let chain = own # more
           in put_parts (\<lambda>i. slice (i * cb) ((i + 1) * cb) raw) 0 chain (link_chain chain s))
         (allocs cb cl (n - 1) s))"

definition label11 :: "string \<Rightarrow> byte list" where
  "label11 label = encode (take 11 (ljust 11 CHR '' '' (upper label)))"

definition head_entries :: "string \<Rightarrow> nat \<Rightarrow> nat \<Rightarrow> bool \<Rightarrow> byte list list result" where
  "head_entries label own parent root =
     (if root then rmap (\<lambda>e. [e]) (fat_entry (label11 label) 0x08 0 0)
      else rbind (fat_entry (encode ''.          '') 0x10 own 0) (\<lambda>e.
           rmap (\<lambda>e'. [e, e']) (fat_entry (encode ''..         '') 0x10 parent 0)))"

function (sequential)
  write_dir :: "nat \<Rightarrow> int \<Rightarrow> string \<Rightarrow> tree \<Rightarrow> nat \<Rightarrow> nat \<Rightarrow> bool \<Rightarrow> fat_state \<Rightarrow> fat_state result" and
  write_entries :: "nat \<Rightarrow> int \<Rightarrow> string \<Rightarrow> tree \<Rightarrow> nat \<Rightarrow> bool \<Rightarrow> fat_state \<Rightarrow> (byte list list \<times> fat_state) result" where
  "write_dir cb cl label node own parent root s =
     rbind (head_entries label own parent root) (\<lambda>hs.
     rbind (write_entries cb cl label node own root s) (\<lambda>(es, s).
     write_raw cb cl own (concat (hs @ es)) s))"
| "write_entries cb cl label [] own root s = Inr ([], s)"
| "write_entries cb cl label ((name, Dir sub) # rest) own root s =
     rbind (alloc cb cl [] s) (\<lambda>(first, s).
     rbind (fat_entry name 0x10 first 0) (\<lambda>e.
     rbind (write_dir cb cl label sub first (if root then 0 else own) False s) (\<lambda>s.
     rmap (\<lambda>(es, s). (e # es, s)) (write_entries cb cl label rest own root s))))"
| "write_entries cb cl label ((name, File content) # rest) own root s =
     rbind (if content \<noteq> [] then alloc cb cl content s else Inr (0, s)) (\<lambda>(first, s).
     rbind (fat_entry name 0x20 first (length content)) (\<lambda>e.
     rmap (\<lambda>(es, s). (e # es, s)) (write_entries cb cl label rest own root s)))"
  by pat_completeness auto
termination
  by (relation "measure (case_sum (\<lambda>(_, _, _, t, _). 2 * size (Dir t) + 1) (\<lambda>(_, _, _, t, _). 2 * size (Dir t)))") auto

section \<open>The image\<close>

text \<open>\<open>xs[i:i+len(bs)] = bs\<close> and \<open>struct.pack_into\<close> at an offset.\<close>

definition put_at :: "nat \<Rightarrow> 'a list \<Rightarrow> 'a list \<Rightarrow> 'a list" where
  "put_at i bs xs = take i xs @ bs @ drop (i + length bs) xs"

definition boot_sector :: "int \<Rightarrow> int \<Rightarrow> int \<Rightarrow> nat \<Rightarrow> string \<Rightarrow> byte list result" where
  "boot_sector part_sectors cluster_sectors fat_sectors root_cluster label =
     rbind (pack_fields [(2, int VUX_SECTOR), (1, cluster_sectors), (2, int FAT_RESERVED), (1, 2), (2, 0), (2, 0), (1, 0xF8),
              (2, 0), (2, 63), (2, 255), (4, int FAT_PART_LBA), (4, part_sectors)]) (\<lambda>bpb.
     rbind (pack_fields [(4, fat_sectors), (2, 0), (2, 0), (4, int root_cluster), (2, 1), (2, 6)]) (\<lambda>bpb32.
     rmap (\<lambda>ext.
         put_at 510 [0x55, 0xAA]
           (put_at 64 (ext @ pack_s 11 (label11 label) @ pack_s 8 (encode ''FAT32   ''))
             (put_at 36 bpb32 (put_at 11 bpb
               (put_at 3 (encode ''VUX9K   '') (put_at 0 [0xEB, 0x58, 0x90] (replicate VUX_SECTOR 0)))))))
       (pack_fields [(1, 0x80), (1, 0), (1, 0x29), (4, VUX_MAGIC)])))"

definition fsinfo_sector :: "int \<Rightarrow> int \<Rightarrow> byte list result" where
  "fsinfo_sector free next =
     rbind (pack_fields [(4, 0x41615252)]) (\<lambda>lead.
     rbind (pack_fields [(4, 0x61417272), (4, free), (4, next), (4, 0)]) (\<lambda>info.
     rmap (\<lambda>trail. put_at 508 trail (put_at 484 info (put_at 0 lead (replicate VUX_SECTOR 0))))
       (pack_fields [(4, 0xAA550000)])))"

definition mbr_sector :: "int \<Rightarrow> byte list result" where
  "mbr_sector part_sectors =
     rbind (pack_fields [(4, int FAT_PART_LBA), (4, part_sectors)]) (\<lambda>lba.
     Inr (put_at 510 [0x55, 0xAA]
       (put_at 446 ([0] @ pack_s 3 [0xFE, 0xFF, 0xFF] @ [0x0C] @ pack_s 3 [0xFE, 0xFF, 0xFF] @ lba) (replicate VUX_SECTOR 0))))"

definition sector_puts :: "(nat \<times> byte list) list \<Rightarrow> byte list \<Rightarrow> byte list" where
  "sector_puts ps part = fold (\<lambda>(at, bs) part. put_at at bs part) ps part"

text \<open>The tree in clusters: the state after \<open>write_dir\<close> and the first cluster of the root directory.\<close>

definition fill_clusters :: "nat \<Rightarrow> int \<Rightarrow> string \<Rightarrow> tree \<Rightarrow> (nat \<times> fat_state) result" where
  "fill_clusters cb cl label t =
     rbind (alloc cb cl [] \<lparr>fs_fat = [0x0FFFFFF8, FAT_EOC], fs_data = []\<rparr>) (\<lambda>(root_cluster, s).
     rmap (\<lambda>s. (root_cluster, s)) (write_dir cb cl label t root_cluster 0 True s))"

definition build_fat32_image :: "(string \<times> byte list) list \<Rightarrow> int \<Rightarrow> int \<Rightarrow> string \<Rightarrow> byte list result" where
  "build_fat32_image files part_sectors cluster_sectors label =
     (if cluster_sectors \<notin> {1, 2, 4, 8, 16, 32, 64, 128} then Inl ValueError
      else
        let fat_sectors = fat_size part_sectors cluster_sectors 1;
            clusters = fat_clusters part_sectors cluster_sectors fat_sectors;
            cb = nat cluster_sectors * VUX_SECTOR
        in rbind (build_tree files []) (\<lambda>t.
           rbind (fill_clusters cb clusters label t) (\<lambda>(root_cluster, s).
           let used = length (fs_fat s) - 2
           in rbind (boot_sector part_sectors cluster_sectors fat_sectors root_cluster label) (\<lambda>boot.
              rbind (fsinfo_sector (clusters - int used) (int (length (fs_fat s)))) (\<lambda>fsinfo.
              if part_sectors < 0 then Inl ValueError
              else rbind (pack_fields (map (\<lambda>v. (4, int v)) (fs_fat s))) (\<lambda>fat_raw.
                let part0 = replicate (nat part_sectors * VUX_SECTOR) 0;
                    part1 = sector_puts [(0 * VUX_SECTOR, boot), (1 * VUX_SECTOR, fsinfo), (6 * VUX_SECTOR, boot),
                              (7 * VUX_SECTOR, fsinfo)] part0;
                    part2 = sector_puts (map (\<lambda>copy. ((FAT_RESERVED + copy * nat fat_sectors) * VUX_SECTOR, fat_raw)) [0, 1]) part1;
                    data_at = (FAT_RESERVED + 2 * nat fat_sectors) * VUX_SECTOR;
                    part3 = sector_puts (map (\<lambda>(c, content). (data_at + (c - 2) * cb, content)) (fs_data s)) part2
                in rmap (\<lambda>mbr. mbr @ replicate ((FAT_PART_LBA - 1) * VUX_SECTOR) 0 @ part3) (mbr_sector part_sectors)))))))"

section \<open>The mkfat command\<close>

text \<open>\<open>spec.partition("=")\<close>: what is before the first sign, whether there is one, what is after it.\<close>

definition partition_eq :: "string \<Rightarrow> string \<times> bool \<times> string" where
  "partition_eq s =
     (if CHR ''='' \<in> set s
      then (takeWhile (\<lambda>c. c \<noteq> CHR ''='') s, True, tl (dropWhile (\<lambda>c. c \<noteq> CHR ''='') s))
      else (s, False, []))"

fun mkfat_files :: "file_system \<Rightarrow> string list \<Rightarrow> (string \<times> byte list) list \<Rightarrow> (string \<times> byte list) list result" where
  "mkfat_files fs [] files = Inr files"
| "mkfat_files fs (spec # specs) files =
     (case partition_eq spec of (dest, sep, src) \<Rightarrow>
        if \<not> sep then Inl SystemExit
        else case fs src of
            None \<Rightarrow> Inl FileNotFoundError
          | Some content \<Rightarrow> mkfat_files fs specs (dict_set dest content files))"

text \<open>The image that \<open>cmd_mkfat\<close> writes to its output file.\<close>

definition cmd_mkfat :: "file_system \<Rightarrow> string list \<Rightarrow> int \<Rightarrow> int \<Rightarrow> byte list result" where
  "cmd_mkfat fs specs size_mb cluster_sectors =
     rbind (mkfat_files fs specs []) (\<lambda>files.
       case build_fat32_image files (size_mb * 2048) cluster_sectors ''VUX9K'' of
         Inl ValueError \<Rightarrow> Inl SystemExit
       | r \<Rightarrow> r)"

end
