(* ===== verification/Fat_Clusters.thy ===== *)
theory Fat_Clusters
  imports Fat_Image
begin

text \<open>
  What the cluster allocation of \<open>build_fat32_image\<close> stores: chains of clusters in the FAT, the contents of a
  file or directory cut into clusters, and the whole directory tree.
\<close>

section \<open>The size of the FATs\<close>

lemma fat_size_enough: "fat_enough ps cs (fat_size ps cs f)"
  by (induction ps cs f rule: fat_size.induct) (subst fat_size.simps, simp)

lemma fat_size_ge: "f \<le> fat_size ps cs f"
proof (induction ps cs f rule: fat_size.induct)
  case (1 ps cs f)
  then show ?case by (subst fat_size.simps) force
qed

lemma fat_size_least: "f \<le> g \<Longrightarrow> g < fat_size ps cs f \<Longrightarrow> \<not> fat_enough ps cs g"
proof (induction ps cs f rule: fat_size.induct)
  case (1 ps cs f)
  show ?case
  proof (cases "fat_enough ps cs f")
    case True
    then show ?thesis using 1(2,3) by (simp add: fat_size.simps [of ps cs f])
  next
    case False
    then show ?thesis
      using 1 by (cases "g = f") (simp_all add: fat_size.simps [of ps cs f])
  qed
qed

section \<open>Chains\<close>

definition chain :: "nat list \<Rightarrow> nat list \<Rightarrow> bool" where
  "chain f cs \<longleftrightarrow> cs \<noteq> [] \<and> (\<forall>i. Suc i < length cs \<longrightarrow> f ! (cs ! i) = cs ! Suc i) \<and> f ! last cs = FAT_EOC"

definition agree :: "nat set \<Rightarrow> fat_state \<Rightarrow> fat_state \<Rightarrow> bool" where
  "agree S s s' \<longleftrightarrow> (\<forall>c \<in> S. fs_fat s' ! c = fs_fat s ! c \<and> map_of (fs_data s') c = map_of (fs_data s) c)"

definition n_clusters :: "nat \<Rightarrow> byte list \<Rightarrow> nat" where
  "n_clusters cb raw = max 1 (ceil_div (length raw) cb)"

definition part_of :: "nat \<Rightarrow> byte list \<Rightarrow> nat \<Rightarrow> byte list" where
  "part_of cb raw i = slice (i * cb) ((i + 1) * cb) raw"

definition holds :: "nat \<Rightarrow> fat_state \<Rightarrow> nat set \<Rightarrow> nat \<Rightarrow> byte list \<Rightarrow> bool" where
  "holds cb s S c raw \<longleftrightarrow> (\<exists>cs. hd cs = c \<and> distinct cs \<and> set cs \<subseteq> S \<and> chain (fs_fat s) cs \<and> length cs = n_clusters cb raw \<and>
     (\<forall>i < length cs. map_of (fs_data s) (cs ! i) = Some (part_of cb raw i)))"

lemma agree_refl [simp]: "agree S s s"
  by (simp add: agree_def)

lemma agree_trans: "agree S s s' \<Longrightarrow> agree S s' s'' \<Longrightarrow> agree S s s''"
  by (simp add: agree_def)

lemma agree_mono: "agree S s s' \<Longrightarrow> T \<subseteq> S \<Longrightarrow> agree T s s'"
  by (auto simp: agree_def)

lemma holds_mono: "holds cb s S c raw \<Longrightarrow> S \<subseteq> T \<Longrightarrow> holds cb s T c raw"
  unfolding holds_def by blast

lemma holds_agree:
  assumes "holds cb s S c raw" "agree S s s'"
  shows "holds cb s' S c raw"
proof -
  obtain cs where d: "distinct cs" and cs: "hd cs = c" "set cs \<subseteq> S" "chain (fs_fat s) cs" "length cs = n_clusters cb raw"
    "\<forall>i < length cs. map_of (fs_data s) (cs ! i) = Some (part_of cb raw i)"
    using assms(1) by (auto simp: holds_def)
  have same: "fs_fat s' ! (cs ! i) = fs_fat s ! (cs ! i)" "map_of (fs_data s') (cs ! i) = map_of (fs_data s) (cs ! i)"
    if i: "i < length cs" for i
  proof -
    have "cs ! i \<in> S" using cs(2) nth_mem [OF i] by blast
    then show "fs_fat s' ! (cs ! i) = fs_fat s ! (cs ! i)" "map_of (fs_data s') (cs ! i) = map_of (fs_data s) (cs ! i)"
      using assms(2) by (simp_all add: agree_def)
  qed
  have "chain (fs_fat s') cs"
    using cs(3) same(1) by (auto simp: chain_def last_conv_nth)
  then show ?thesis using cs d same(2) by (auto simp: holds_def)
qed

section \<open>Allocation\<close>

lemma map_of_dict_set [simp]: "map_of (dict_set k v d) = (map_of d)(k \<mapsto> v)"
  by (induction d) (auto simp: fun_eq_iff)

lemma dict_set_keys: "set (map fst (dict_set k v d)) = insert k (set (map fst d))"
  by (induction d) auto

lemma dict_set_distinct: "distinct (map fst d) \<Longrightarrow> distinct (map fst (dict_set k v d))"
  using dict_set_keys [of k v] by (induction d) (auto simp: image_iff)

text \<open>The state after the first \<open>m\<close> rounds of the loop in \<open>alloc\<close>.\<close>

lemma alloc_loop:
  assumes "m \<le> n"
  shows "fs_fat (fold (\<lambda>i s. s\<lparr>fs_fat := fs_fat s @ [if i < n - 1 then first + i + 1 else FAT_EOC],
             fs_data := dict_set (first + i) (g i) (fs_data s)\<rparr>) [0..<m] s)
           = fs_fat s @ map (\<lambda>i. if i < n - 1 then first + i + 1 else FAT_EOC) [0..<m]"
    and "map_of (fs_data (fold (\<lambda>i s. s\<lparr>fs_fat := fs_fat s @ [if i < n - 1 then first + i + 1 else FAT_EOC],
             fs_data := dict_set (first + i) (g i) (fs_data s)\<rparr>) [0..<m] s)) c
           = (if first \<le> c \<and> c < first + m then Some (g (c - first)) else map_of (fs_data s) c)"
  using assms by (induction m) (auto simp: less_Suc_eq)

lemma alloc_Inr:
  assumes "alloc cb cl content s = Inr (first, s')"
  defines "n \<equiv> n_clusters cb content"
  shows "first = length (fs_fat s)" "int (first + n) \<le> cl + 2"
    "fs_fat s' = fs_fat s @ map (\<lambda>i. if i < n - 1 then first + i + 1 else FAT_EOC) [0..<n]"
    "map_of (fs_data s') c = (if first \<le> c \<and> c < first + n then Some (part_of cb content (c - first)) else map_of (fs_data s) c)"
  using assms(1) alloc_loop [of n n, OF order_refl, where first = "length (fs_fat s)" and g = "part_of cb content" and s = s]
  by (auto simp: alloc_def Let_def part_of_def n_clusters_def n_def split: if_splits)

lemma n_clusters_pos [simp]: "0 < n_clusters cb raw"
  by (simp add: n_clusters_def)

lemma alloc_holds:
  assumes "alloc cb cl content s = Inr (first, s')"
  shows "holds cb s' {length (fs_fat s)..<length (fs_fat s')} first content"
    and "agree {..<length (fs_fat s)} s s'"
    and "length (fs_fat s') = length (fs_fat s) + n_clusters cb content"
    and "first = length (fs_fat s)"
proof -
  note a = alloc_Inr [OF assms]
  show len: "length (fs_fat s') = length (fs_fat s) + n_clusters cb content" and f: "first = length (fs_fat s)"
    using a by simp_all
  show "agree {..<length (fs_fat s)} s s'"
    using a by (simp add: agree_def nth_append)
  have nth: "fs_fat s' ! (first + i) = (if i < n_clusters cb content - 1 then first + i + 1 else FAT_EOC)"
    if "i < n_clusters cb content" for i
    using that a by (simp add: nth_append)
  let ?cs = "[first..<first + n_clusters cb content]"
  have "chain (fs_fat s') ?cs"
    using nth [of "n_clusters cb content - 1"] by (auto simp: chain_def nth last_conv_nth)
  moreover have "hd ?cs = first" by simp
  ultimately show "holds cb s' {length (fs_fat s)..<length (fs_fat s')} first content"
    unfolding holds_def using a len by (intro exI [of _ ?cs]) simp
qed

lemma allocs_Inr:
  assumes "allocs cb cl n s = Inr (cs, s')"
  shows "cs = [length (fs_fat s)..<length (fs_fat s) + n] \<and> fs_fat s' = fs_fat s @ replicate n FAT_EOC \<and>
    agree {..<length (fs_fat s)} s s' \<and> (\<forall>c < length (fs_fat s) + n. c \<notin> {..<length (fs_fat s)} \<longrightarrow> map_of (fs_data s') c = Some []) \<and>
    (\<forall>c \<ge> length (fs_fat s) + n. map_of (fs_data s') c = map_of (fs_data s) c)"
  using assms
proof (induction n arbitrary: s cs s')
  case 0
  then show ?case by simp
next
  case (Suc n)
  obtain c t ds where 1: "alloc cb cl [] s = Inr (c, t)" and 2: "allocs cb cl n t = Inr (ds, s')" and cs: "cs = c # ds"
    using Suc.prems by auto
  have one: "n_clusters cb [] = 1" by (simp add: n_clusters_def ceil_div_def)
  note a = alloc_Inr [OF 1, unfolded one]
  have p: "part_of cb [] i = []" for i by (simp add: part_of_def slice_def)
  show ?case
    using Suc.IH [OF 2] a cs alloc_holds(2) [OF 1]
    by (auto simp: p agree_def upt_conv_Cons nth_append)
qed

section \<open>Directories\<close>

lemma link_chain_Cons: "link_chain (a # b # r) s = link_chain (b # r) (s\<lparr>fs_fat := (fs_fat s)[a := b]\<rparr>)"
  by (simp add: link_chain_def)

lemma links:
  assumes "distinct cs" "set cs \<subseteq> {..<length (fs_fat s)}"
  shows "fs_data (link_chain cs s) = fs_data s \<and> length (fs_fat (link_chain cs s)) = length (fs_fat s) \<and>
    (\<forall>i. Suc i < length cs \<longrightarrow> fs_fat (link_chain cs s) ! (cs ! i) = cs ! Suc i) \<and>
    (\<forall>c. c \<notin> set (butlast cs) \<longrightarrow> fs_fat (link_chain cs s) ! c = fs_fat s ! c)"
  using assms
proof (induction cs arbitrary: s rule: induct_list012)
  case (3 a b r)
  let ?t = "s\<lparr>fs_fat := (fs_fat s)[a := b]\<rparr>"
  have IH: "fs_data (link_chain (b # r) ?t) = fs_data ?t \<and> length (fs_fat (link_chain (b # r) ?t)) = length (fs_fat ?t) \<and>
    (\<forall>i. Suc i < length (b # r) \<longrightarrow> fs_fat (link_chain (b # r) ?t) ! ((b # r) ! i) = (b # r) ! Suc i) \<and>
    (\<forall>c. c \<notin> set (butlast (b # r)) \<longrightarrow> fs_fat (link_chain (b # r) ?t) ! c = fs_fat ?t ! c)"
    using 3 by (intro 3(2)) simp_all
  have a: "a \<notin> set (butlast (b # r))" using 3(3) by (meson distinct.simps(2) in_set_butlastD)
  have "fs_fat (link_chain (a # b # r) s) ! ((a # b # r) ! i) = (a # b # r) ! Suc i" if "Suc i < length (a # b # r)" for i
    using that IH a 3(4) by (cases i) (simp_all add: link_chain_Cons)
  moreover have "fs_fat (link_chain (a # b # r) s) ! c = fs_fat s ! c" if "c \<notin> set (butlast (a # b # r))" for c
    using that IH by (simp add: link_chain_Cons split: if_splits)
  ultimately show ?case using IH by (simp add: link_chain_Cons)
qed (simp_all add: link_chain_def)

lemma contents:
  assumes "distinct cs"
  shows "fs_fat (put_parts g k cs s) = fs_fat s \<and>
    (\<forall>i < length cs. map_of (fs_data (put_parts g k cs s)) (cs ! i) = Some (g (k + i))) \<and>
    (\<forall>c. c \<notin> set cs \<longrightarrow> map_of (fs_data (put_parts g k cs s)) c = map_of (fs_data s) c)"
  using assms
proof (induction cs arbitrary: s k)
  case Nil
  then show ?case by (simp add: put_parts_def)
next
  case (Cons a cs)
  let ?t = "s\<lparr>fs_data := dict_set a (g k) (fs_data s)\<rparr>"
  have step: "put_parts g k (a # cs) s = put_parts g (Suc k) cs ?t" by (simp add: put_parts_def)
  have IH: "fs_fat (put_parts g (Suc k) cs ?t) = fs_fat ?t \<and>
    (\<forall>i < length cs. map_of (fs_data (put_parts g (Suc k) cs ?t)) (cs ! i) = Some (g (Suc k + i))) \<and>
    (\<forall>c. c \<notin> set cs \<longrightarrow> map_of (fs_data (put_parts g (Suc k) cs ?t)) c = map_of (fs_data ?t) c)"
    using Cons by simp
  have "map_of (fs_data (put_parts g k (a # cs) s)) ((a # cs) ! i) = Some (g (k + i))" if "i < length (a # cs)" for i
    using that IH Cons.prems by (cases i) (simp_all add: step)
  then show ?case using IH by (simp add: step)
qed

lemma write_raw_holds:
  assumes "write_raw cb cl own raw s = Inr s'" "own < length (fs_fat s)" "fs_fat s ! own = FAT_EOC"
  shows "holds cb s' ({own} \<union> {length (fs_fat s)..<length (fs_fat s')}) own raw"
    and "agree ({..<length (fs_fat s)} - {own}) s s'"
    and "length (fs_fat s) \<le> length (fs_fat s')"
proof -
  let ?n = "n_clusters cb raw" and ?l = "length (fs_fat s)"
  obtain more t where al: "allocs cb cl (?n - 1) s = Inr (more, t)"
    and s': "s' = put_parts (part_of cb raw) 0 (own # more) (link_chain (own # more) t)"
    using assms(1) unfolding write_raw_def Let_def n_clusters_def part_of_def by (auto simp: split_def)
  note A = allocs_Inr [OF al]
  let ?cs = "own # more"
  let ?u = "link_chain ?cs t"
  have d: "distinct ?cs" and sub: "set ?cs \<subseteq> {..<length (fs_fat t)}" and lcs: "length ?cs = ?n"
    using A assms(2) by auto
  note L = links [OF d sub] and C = contents [OF d, of "part_of cb raw" 0 ?u, folded s']
  have fu: "fs_fat s' = fs_fat ?u" using C by blast
  have eoc: "fs_fat t ! last ?cs = FAT_EOC"
    using A assms(2,3) by (cases "more = []") (auto simp: agree_def nth_append)
  have "last ?cs \<notin> set (butlast ?cs)" using d by (metis append_butlast_last_id distinct_append list.distinct(1) disjoint_insert(2) list.simps(15) empty_set)
  then have "fs_fat s' ! last ?cs = FAT_EOC" using L fu eoc by simp
  then have "chain (fs_fat s') ?cs" using L fu by (simp add: chain_def)
  moreover have len: "length (fs_fat s') = ?l + (?n - 1)" using L fu A by simp
  moreover have "set ?cs \<subseteq> {own} \<union> {?l..<length (fs_fat s')}" using A len by auto
  ultimately show "holds cb s' ({own} \<union> {?l..<length (fs_fat s')}) own raw"
    unfolding holds_def using C lcs d by (intro exI [of _ ?cs]) simp
  show "?l \<le> length (fs_fat s')" using len by simp
  have out: "c \<notin> set ?cs" if "c \<in> {..<?l} - {own}" for c using that A by auto
  show "agree ({..<?l} - {own}) s s'"
    unfolding agree_def
  proof
    fix c assume c: "c \<in> {..<?l} - {own}"
    have "c \<notin> set (butlast ?cs)" using out [OF c] by (meson in_set_butlastD)
    then show "fs_fat s' ! c = fs_fat s ! c \<and> map_of (fs_data s') c = map_of (fs_data s) c"
      using L C fu out [OF c] A c by (auto simp: agree_def nth_append)
  qed
qed

end
