(* ===== verification/Fat_Tree.thy ===== *)
theory Fat_Tree
  imports Fat_Clusters
begin

text \<open>The directory tree in clusters: what \<open>write_dir\<close> stores, and that it keeps the tables well formed.\<close>

section \<open>A stored tree\<close>

inductive dir_stored :: "nat \<Rightarrow> string \<Rightarrow> fat_state \<Rightarrow> nat set \<Rightarrow> tree \<Rightarrow> nat \<Rightarrow> nat \<Rightarrow> bool \<Rightarrow> bool"
  and entries_stored :: "nat \<Rightarrow> string \<Rightarrow> fat_state \<Rightarrow> nat set \<Rightarrow> tree \<Rightarrow> nat \<Rightarrow> bool \<Rightarrow> byte list list \<Rightarrow> bool"
  for cb label where
  dir: "head_entries label c parent root = Inr hs \<Longrightarrow> entries_stored cb label s S t c root es \<Longrightarrow>
    holds cb s S c (concat (hs @ es)) \<Longrightarrow> dir_stored cb label s S t c parent root"
| none: "entries_stored cb label s S [] own root []"
| subdir: "fat_entry n 0x10 first 0 = Inr e \<Longrightarrow> dir_stored cb label s S sub first (if root then 0 else own) False \<Longrightarrow>
    entries_stored cb label s S r own root es \<Longrightarrow> entries_stored cb label s S ((n, Dir sub) # r) own root (e # es)"
| plain_file: "fat_entry n 0x20 first (length x) = Inr e \<Longrightarrow> (if x = [] then first = 0 else holds cb s S first x) \<Longrightarrow>
    entries_stored cb label s S r own root es \<Longrightarrow> entries_stored cb label s S ((n, File x) # r) own root (e # es)"

inductive_cases dir_storedE: "dir_stored cb label s S t c parent root"
inductive_cases entries_NilE: "entries_stored cb label s S [] own root es"
inductive_cases entries_DirE: "entries_stored cb label s S ((n, Dir sub) # r) own root es"
inductive_cases entries_FileE: "entries_stored cb label s S ((n, File x) # r) own root es"

lemma stored_frame:
  "dir_stored cb label s S t c parent root \<Longrightarrow> agree S s s' \<Longrightarrow> S \<subseteq> T \<Longrightarrow> dir_stored cb label s' T t c parent root"
  "entries_stored cb label s S t own root es \<Longrightarrow> agree S s s' \<Longrightarrow> S \<subseteq> T \<Longrightarrow> entries_stored cb label s' T t own root es"
proof (induction rule: dir_stored_entries_stored.inducts)
  case (dir c parent root hs s S t es)
  then show ?case using holds_mono [OF holds_agree] by (blast intro: dir_stored_entries_stored.dir)
next
  case (none s S own root)
  show ?case by (rule dir_stored_entries_stored.none)
next
  case (subdir n first e s S sub root own r es)
  then show ?case by (blast intro: dir_stored_entries_stored.subdir)
next
  case (plain_file n first x e s S r own root es)
  moreover have "if x = [] then first = 0 else holds cb s' T first x"
    using plain_file holds_mono [OF holds_agree] by (metis (full_types))
  ultimately show ?case by (blast intro: dir_stored_entries_stored.plain_file)
qed

lemma one_cluster [simp]: "n_clusters cb [] = Suc 0"
  by (simp add: n_clusters_def ceil_div_def)

lemma dir_write_stores:
  assumes h: "head_entries label own parent root = Inr hs" and own: "own < length (fs_fat s)" "fs_fat s ! own = FAT_EOC"
    and w: "write_raw cb cl own (concat (hs @ es)) u = Inr s'"
    and E: "entries_stored cb label u {length (fs_fat s)..<length (fs_fat u)} node own root es"
      "agree {..<length (fs_fat s)} s u" "length (fs_fat s) \<le> length (fs_fat u)"
  shows "dir_stored cb label s' ({own} \<union> {length (fs_fat s)..<length (fs_fat s')}) node own parent root \<and>
     agree ({..<length (fs_fat s)} - {own}) s s' \<and> length (fs_fat s) \<le> length (fs_fat s')"
proof -
  have "own < length (fs_fat u)" "fs_fat u ! own = FAT_EOC" using E own by (auto simp: agree_def)
  note W = write_raw_holds [OF w this]
  have a: "agree {length (fs_fat s)..<length (fs_fat u)} u s'" using W(2) own by (auto intro: agree_mono)
  have "entries_stored cb label s' ({own} \<union> {length (fs_fat s)..<length (fs_fat s')}) node own root es"
    by (rule stored_frame(2) [OF E(1) a]) (use W(3) in auto)
  moreover have "holds cb s' ({own} \<union> {length (fs_fat s)..<length (fs_fat s')}) own (concat (hs @ es))"
    using W(1) by (rule holds_mono) (use E(3) in auto)
  ultimately have "dir_stored cb label s' ({own} \<union> {length (fs_fat s)..<length (fs_fat s')}) node own parent root"
    using h by (blast intro: dir)
  moreover have "agree ({..<length (fs_fat s)} - {own}) s s'"
    by (rule agree_trans [OF agree_mono [OF E(2)] agree_mono [OF W(2)]]) (use E(3) in auto)
  ultimately show ?thesis using E(3) W(3) by simp
qed

lemma subdir_write_stores:
  assumes al: "alloc cb cl [] s = Inr (first, t)" and e: "fat_entry name 0x10 first 0 = Inr e"
    and D: "dir_stored cb label u ({first} \<union> {length (fs_fat t)..<length (fs_fat u)}) sub first (if root then 0 else own) False"
      "agree ({..<length (fs_fat t)} - {first}) t u" "length (fs_fat t) \<le> length (fs_fat u)"
    and R: "entries_stored cb label s' {length (fs_fat u)..<length (fs_fat s')} rest own root fs"
      "agree {..<length (fs_fat u)} u s'" "length (fs_fat u) \<le> length (fs_fat s')"
  shows "entries_stored cb label s' {length (fs_fat s)..<length (fs_fat s')} ((name, Dir sub) # rest) own root (e # fs) \<and>
     agree {..<length (fs_fat s)} s s' \<and> length (fs_fat s) \<le> length (fs_fat s')"
proof -
  note A = alloc_Inr [OF al] alloc_holds [OF al]
  let ?S = "{length (fs_fat s)..<length (fs_fat s')}"
  have "dir_stored cb label s' ?S sub first (if root then 0 else own) False"
    by (rule stored_frame(1) [OF D(1) agree_mono [OF R(2)]]) (use A D(3) R(3) in auto)
  moreover have "entries_stored cb label s' ?S rest own root fs"
    by (rule stored_frame(2) [OF R(1)]) (use A D(3) in auto)
  ultimately have "entries_stored cb label s' ?S ((name, Dir sub) # rest) own root (e # fs)"
    using e by (blast intro: subdir)
  moreover have "agree {..<length (fs_fat s)} s s'"
    by (rule agree_trans [OF alloc_holds(2) [OF al] agree_trans [OF agree_mono [OF D(2)] agree_mono [OF R(2)]]])
       (use A D(3) in auto)
  ultimately show ?thesis using A D(3) R(3) by simp
qed

lemma file_write_stores:
  assumes al: "(if content \<noteq> [] then alloc cb cl content s else Inr (0, s)) = Inr (first, t)"
    and e: "fat_entry name 0x20 first (length content) = Inr e"
    and R: "entries_stored cb label s' {length (fs_fat t)..<length (fs_fat s')} rest own root fs"
      "agree {..<length (fs_fat t)} t s'" "length (fs_fat t) \<le> length (fs_fat s')"
  shows "entries_stored cb label s' {length (fs_fat s)..<length (fs_fat s')} ((name, File content) # rest) own root (e # fs) \<and>
     agree {..<length (fs_fat s)} s s' \<and> length (fs_fat s) \<le> length (fs_fat s')"
proof -
  have F: "if content = [] then first = 0 else holds cb t {length (fs_fat s)..<length (fs_fat t)} first content"
    "agree {..<length (fs_fat s)} s t" "length (fs_fat s) \<le> length (fs_fat t)"
    using al alloc_holds [of cb cl content s first t] by (auto split: if_splits)
  let ?S = "{length (fs_fat s)..<length (fs_fat s')}"
  have "holds cb s' ?S first content" if "content \<noteq> []"
  proof (rule holds_mono [OF holds_agree])
    show "holds cb t {length (fs_fat s)..<length (fs_fat t)} first content" using F that by simp
    show "agree {length (fs_fat s)..<length (fs_fat t)} t s'" by (rule agree_mono [OF R(2)]) auto
  qed (use R(3) in auto)
  then have "if content = [] then first = 0 else holds cb s' ?S first content" using F(1) by simp
  moreover have "entries_stored cb label s' ?S rest own root fs"
    by (rule stored_frame(2) [OF R(1)]) (use F(3) in auto)
  ultimately have "entries_stored cb label s' ?S ((name, File content) # rest) own root (e # fs)"
    using e by (blast intro: plain_file)
  moreover have "agree {..<length (fs_fat s)} s s'"
    by (rule agree_trans [OF F(2) agree_mono [OF R(2)]]) (use F(3) in auto)
  ultimately show ?thesis using F(3) R(3) by simp
qed

lemma write_stores:
  "write_dir cb cl label node own parent root s = Inr s' \<Longrightarrow> own < length (fs_fat s) \<Longrightarrow> fs_fat s ! own = FAT_EOC \<Longrightarrow>
     dir_stored cb label s' ({own} \<union> {length (fs_fat s)..<length (fs_fat s')}) node own parent root \<and>
     agree ({..<length (fs_fat s)} - {own}) s s' \<and> length (fs_fat s) \<le> length (fs_fat s')"
  "write_entries cb cl label t own root s = Inr (es, s') \<Longrightarrow>
     entries_stored cb label s' {length (fs_fat s)..<length (fs_fat s')} t own root es \<and>
     agree {..<length (fs_fat s)} s s' \<and> length (fs_fat s) \<le> length (fs_fat s')"
proof (induction cb cl label node own parent root s and cb cl label t own root s arbitrary: s' and es s'
    rule: write_dir_write_entries.induct)
  case (1 cb cl label node own parent root s)
  obtain hs es u where h: "head_entries label own parent root = Inr hs"
    and e: "write_entries cb cl label node own root s = Inr (es, u)"
    and w: "write_raw cb cl own (concat (hs @ es)) u = Inr s'"
    using 1(2) by auto
  show ?case by (rule dir_write_stores [OF h 1(3,4) w]) (use 1(1) [OF e] in simp_all)
next
  case (2 cb cl label own root s)
  then show ?case by (auto intro: none)
next
  case (3 cb cl label name sub rest own root s)
  obtain first t e u fs where al: "alloc cb cl [] s = Inr (first, t)" and e: "fat_entry name 0x10 first 0 = Inr e"
    and w: "write_dir cb cl label sub first (if root then 0 else own) False t = Inr u"
    and r: "write_entries cb cl label rest own root u = Inr (fs, s')" and es: "es = e # fs"
    using 3(3) by auto
  have "first < length (fs_fat t)" "fs_fat t ! first = FAT_EOC" using alloc_Inr [OF al] by (simp_all add: nth_append)
  then show ?case unfolding es
    by (intro subdir_write_stores [OF al e, of label u sub root own]) (use 3(1) [OF w] 3(2) [OF r] in simp_all)
next
  case (4 cb cl label name content rest own root s)
  obtain first t e fs where al: "(if content \<noteq> [] then alloc cb cl content s else Inr (0, s)) = Inr (first, t)"
    and e: "fat_entry name 0x20 first (length content) = Inr e"
    and r: "write_entries cb cl label rest own root t = Inr (fs, s')" and es: "es = e # fs"
    using 4(2) by auto
  show ?case unfolding es by (intro file_write_stores [OF al e]) (use 4(1) [OF r] in simp_all)
qed

section \<open>Well-formed tables\<close>

definition data_ok :: "nat \<Rightarrow> nat \<Rightarrow> (nat \<times> byte list) list \<Rightarrow> bool" where
  "data_ok cb n d \<longleftrightarrow> distinct (map fst d) \<and> list_all (\<lambda>(c, x). 2 \<le> c \<and> c < n \<and> length x \<le> cb) d"

definition fat_wf :: "nat \<Rightarrow> int \<Rightarrow> fat_state \<Rightarrow> bool" where
  "fat_wf cb cl s \<longleftrightarrow> 2 \<le> length (fs_fat s) \<and> data_ok cb (length (fs_fat s)) (fs_data s)"

lemma set_dict_set: "set (dict_set k v d) \<subseteq> insert (k, v) (set d)"
  by (induction d) auto

lemma data_ok_set: "data_ok cb n d \<Longrightarrow> 2 \<le> c \<Longrightarrow> c < n \<Longrightarrow> length x \<le> cb \<Longrightarrow> data_ok cb n (dict_set c x d)"
  unfolding data_ok_def list_all_iff using dict_set_distinct [of d c x] set_dict_set [of c x d] by auto

lemma data_ok_mono: "data_ok cb n d \<Longrightarrow> n \<le> m \<Longrightarrow> data_ok cb m d"
  by (auto simp: data_ok_def list_all_iff)

lemma length_part [simp]: "length (part_of cb raw i) \<le> cb"
  by (simp add: part_of_def)

lemma alloc_loop_ok:
  assumes "m \<le> n" "first = length (fs_fat s)" "fat_wf cb cl s" "\<And>i. length (g i) \<le> cb"
  shows "fat_wf cb cl (fold (\<lambda>i s. s\<lparr>fs_fat := fs_fat s @ [if i < n - 1 then first + i + 1 else FAT_EOC],
             fs_data := dict_set (first + i) (g i) (fs_data s)\<rparr>) [0..<m] s)"
  using assms
proof (induction m)
  case (Suc m)
  let ?t = "fold (\<lambda>i s. s\<lparr>fs_fat := fs_fat s @ [if i < n - 1 then first + i + 1 else FAT_EOC],
             fs_data := dict_set (first + i) (g i) (fs_data s)\<rparr>) [0..<m] s"
  have len: "length (fs_fat ?t) = first + m" using alloc_loop(1) [of m n first g s] Suc.prems by simp
  have "fat_wf cb cl ?t" using Suc by simp
  then have "data_ok cb (Suc (first + m)) (dict_set (first + m) (g m) (fs_data ?t))"
    using len Suc.prems by (intro data_ok_set) (auto simp: fat_wf_def intro: data_ok_mono)
  then show ?case using len Suc.prems by (simp add: fat_wf_def)
qed simp

lemma alloc_wf: "alloc cb cl content s = Inr (first, s') \<Longrightarrow> fat_wf cb cl s \<Longrightarrow> fat_wf cb cl s'"
  using alloc_loop_ok [of "n_clusters cb content" "n_clusters cb content" "length (fs_fat s)" s cb cl "part_of cb content"]
  by (auto simp: alloc_def Let_def n_clusters_def part_of_def split: if_splits)

lemma alloc_limit: "alloc cb cl content s = Inr (first, s') \<Longrightarrow> int (length (fs_fat s')) \<le> cl + 2"
  using alloc_Inr(1,2) [of cb cl content s first s'] alloc_holds(3) [of cb cl content s first s'] by simp

lemma allocs_wf: "allocs cb cl n s = Inr (cs, s') \<Longrightarrow> fat_wf cb cl s \<Longrightarrow> fat_wf cb cl s'"
  by (induction n arbitrary: s cs) (auto dest: alloc_wf)

lemma allocs_limit:
  "allocs cb cl n s = Inr (cs, s') \<Longrightarrow> int (length (fs_fat s)) \<le> cl + 2 \<Longrightarrow> int (length (fs_fat s')) \<le> cl + 2"
  by (induction n arbitrary: s cs) (auto dest: alloc_limit)

lemma put_parts_ok:
  assumes "data_ok cb n (fs_data s)" "list_all (\<lambda>c. 2 \<le> c \<and> c < n) cs" "\<And>i. length (g i) \<le> cb"
  shows "data_ok cb n (fs_data (put_parts g k cs s))"
  using assms by (induction cs arbitrary: s k) (simp_all add: put_parts_def data_ok_set)

lemma write_raw_wf:
  assumes w: "write_raw cb cl own raw s = Inr s'" and wf: "fat_wf cb cl s" and own: "2 \<le> own" "own < length (fs_fat s)"
  shows "fat_wf cb cl s'"
    and "int (length (fs_fat s)) \<le> cl + 2 \<Longrightarrow> int (length (fs_fat s')) \<le> cl + 2"
proof -
  let ?g = "part_of cb raw"
  obtain more t where al: "allocs cb cl (n_clusters cb raw - 1) s = Inr (more, t)"
    and s': "s' = put_parts ?g 0 (own # more) (link_chain (own # more) t)"
    using w unfolding write_raw_def Let_def n_clusters_def part_of_def by (auto simp: split_def)
  note A = allocs_Inr [OF al]
  let ?cs = "own # more"
  have d: "distinct ?cs" and sub: "set ?cs \<subseteq> {..<length (fs_fat t)}"
    using A own by auto
  note L = links [OF d sub]
  have len: "length (fs_fat s') = length (fs_fat t)" using L contents [OF d, of ?g 0 "link_chain ?cs t", folded s'] by simp
  have two: "2 \<le> length (fs_fat s)" using wf by (simp add: fat_wf_def)
  have t: "fat_wf cb cl t" using al wf by (rule allocs_wf)
  have "list_all (\<lambda>c. 2 \<le> c \<and> c < length (fs_fat t)) ?cs"
    using A own two by (auto simp: list_all_iff)
  then have "data_ok cb (length (fs_fat t)) (fs_data (put_parts ?g 0 ?cs (link_chain ?cs t)))"
    using t L by (intro put_parts_ok) (simp_all add: fat_wf_def)
  then show "fat_wf cb cl s'" using len t by (simp add: fat_wf_def s')
  show "int (length (fs_fat s')) \<le> cl + 2" if "int (length (fs_fat s)) \<le> cl + 2"
    using allocs_limit [OF al that] len by simp
qed

lemma write_wf:
  "write_dir cb cl label node own parent root s = Inr s' \<Longrightarrow> fat_wf cb cl s \<Longrightarrow> 2 \<le> own \<Longrightarrow> own < length (fs_fat s) \<Longrightarrow>
     int (length (fs_fat s)) \<le> cl + 2 \<Longrightarrow> fat_wf cb cl s' \<and> int (length (fs_fat s')) \<le> cl + 2"
  "write_entries cb cl label t own root s = Inr (es, s') \<Longrightarrow> fat_wf cb cl s \<Longrightarrow> int (length (fs_fat s)) \<le> cl + 2 \<Longrightarrow>
     fat_wf cb cl s' \<and> int (length (fs_fat s')) \<le> cl + 2"
proof (induction cb cl label node own parent root s and cb cl label t own root s arbitrary: s' and es s'
    rule: write_dir_write_entries.induct)
  case (1 cb cl label node own parent root s)
  obtain hs es u where e: "write_entries cb cl label node own root s = Inr (es, u)"
    and w: "write_raw cb cl own (concat (hs @ es)) u = Inr s'"
    using 1(2) by auto
  have u: "fat_wf cb cl u" "int (length (fs_fat u)) \<le> cl + 2" using 1(1) [OF e] 1(3,6) by simp_all
  have "length (fs_fat s) \<le> length (fs_fat u)" using write_stores(2) [OF e] by simp
  then show ?case using write_raw_wf [OF w u(1)] u(2) 1(4,5) by simp
next
  case (2 cb cl label own root s)
  then show ?case by simp
next
  case (3 cb cl label name sub rest own root s)
  obtain first t e u fs where al: "alloc cb cl [] s = Inr (first, t)"
    and w: "write_dir cb cl label sub first (if root then 0 else own) False t = Inr u"
    and r: "write_entries cb cl label rest own root u = Inr (fs, s')"
    using 3(3) by auto
  have t: "fat_wf cb cl t" "int (length (fs_fat t)) \<le> cl + 2"
    using alloc_wf [OF al 3(4)] alloc_limit [OF al] by simp_all
  have "2 \<le> first" "first < length (fs_fat t)"
    using alloc_holds(3,4) [OF al] 3(4) by (simp_all add: fat_wf_def)
  then show ?case using 3(2) [OF r] 3(1) [OF w] t by blast
next
  case (4 cb cl label name content rest own root s)
  obtain first t e fs where al: "(if content \<noteq> [] then alloc cb cl content s else Inr (0, s)) = Inr (first, t)"
    and r: "write_entries cb cl label rest own root t = Inr (fs, s')"
    using 4(2) by auto
  have "fat_wf cb cl t" "int (length (fs_fat t)) \<le> cl + 2"
    using al 4(3,4) alloc_wf [of cb cl content s first t] alloc_limit [of cb cl content s first t] by (auto split: if_splits)
  then show ?case by (rule 4(1) [OF r])
qed

section \<open>The filled tables\<close>

lemma fill_clusters_stored:
  assumes "fill_clusters cb cl label t = Inr (root_cluster, s)"
  shows "root_cluster = 2 \<and> dir_stored cb label s {2..<length (fs_fat s)} t 2 0 True \<and> fat_wf cb cl s \<and>
    3 \<le> length (fs_fat s) \<and> int (length (fs_fat s)) \<le> cl + 2"
proof -
  let ?s0 = "\<lparr>fs_fat = [0x0FFFFFF8, FAT_EOC], fs_data = []\<rparr>"
  obtain u where al: "alloc cb cl [] ?s0 = Inr (root_cluster, u)"
    and w: "write_dir cb cl label t root_cluster 0 True u = Inr s"
    using assms by (auto simp: fill_clusters_def)
  note A = alloc_Inr [OF al] alloc_holds [OF al]
  have r: "root_cluster = 2" using A by simp
  have len: "length (fs_fat u) = 3" and eoc: "fs_fat u ! 2 = FAT_EOC" using A by (simp_all add: nth_append)
  have "fat_wf cb cl ?s0" by (simp add: fat_wf_def data_ok_def)
  then have wf: "fat_wf cb cl u" using alloc_wf [OF al] by simp
  have S: "dir_stored cb label s ({2} \<union> {3..<length (fs_fat s)}) t 2 0 True" "3 \<le> length (fs_fat s)"
    using write_stores(1) [OF w] len eoc r by simp_all
  have "{2} \<union> {3..<length (fs_fat s)} \<subseteq> {2..<length (fs_fat s)}" using S(2) by auto
  then have "dir_stored cb label s {2..<length (fs_fat s)} t 2 0 True" by (rule stored_frame(1) [OF S(1) agree_refl])
  then show ?thesis
    using write_wf(1) [OF w wf] alloc_limit [OF al] len r S(2) by simp
qed

end
