(* ===== verification/Fat_Read.thy ===== *)
theory Fat_Read
  imports Fat_Tree
begin

text \<open>
  Reading a FAT32 volume: following the chain of a file or directory, finding a name in a directory, walking a
  path. The reader is the specification of what an image means; it is stated over an interface (the next
  cluster in the FAT, the bytes of a cluster) that the tables in memory and the bytes of an image provide.
\<close>

section \<open>A reader\<close>

fun read_chain :: "(nat \<Rightarrow> nat) \<Rightarrow> (nat \<Rightarrow> byte list) \<Rightarrow> nat \<Rightarrow> nat \<Rightarrow> byte list option" where
  "read_chain nxt clus 0 c = None"
| "read_chain nxt clus (Suc n) c =
     (if 0x0FFFFFF8 \<le> nxt c then Some (clus c) else map_option ((@) (clus c)) (read_chain nxt clus n (nxt c)))"

definition dir_find :: "byte list \<Rightarrow> byte list \<Rightarrow> byte list option" where
  "dir_find name raw = List.find (\<lambda>e. take 11 e = name \<and> e ! 11 \<noteq> 0x08) (pieces 32 raw)"

definition entry_cluster :: "byte list \<Rightarrow> nat" where
  "entry_cluster e = nat (unpack_u 2 20 e * 65536 + unpack_u 2 26 e)"

definition entry_size :: "byte list \<Rightarrow> nat" where
  "entry_size e = nat (unpack_u 4 28 e)"

fun read_path :: "(nat \<Rightarrow> nat) \<Rightarrow> (nat \<Rightarrow> byte list) \<Rightarrow> nat \<Rightarrow> byte list list \<Rightarrow> nat \<Rightarrow> byte list option" where
  "read_path nxt clus n [] c = None"
| "read_path nxt clus n (p # ps) c =
     (case read_chain nxt clus n c of
        None \<Rightarrow> None
      | Some raw \<Rightarrow> (case dir_find p raw of
          None \<Rightarrow> None
        | Some e \<Rightarrow>
            if ps \<noteq> [] then (if e ! 11 = 0x10 then read_path nxt clus n ps (entry_cluster e) else None)
            else if e ! 11 \<noteq> 0x20 then None
            else if entry_cluster e = 0 then Some []
            else map_option (take (entry_size e)) (read_chain nxt clus n (entry_cluster e))))"

section \<open>Directory entries\<close>

lemma pack_fields_Nil [simp]: "pack_fields [] = Inr []"
  by (simp add: pack_fields_def)

lemma pack_fields_Cons [simp]:
  "pack_fields ((n, v) # fs) = (if fits (8 * n) v then rmap (\<lambda>r. le_bytes n v @ r) (pack_fields fs) else Inl StructError)"
proof -
  have "(256 :: int) ^ n = 2 ^ (8 * n)" by (simp add: power_mult)
  then show ?thesis
    by (cases "rmapM (\<lambda>(n, v). pack_u n v) fs") (simp_all add: pack_fields_def pack_u_def fits_def)
qed

lemma fat_entry_fields:
  assumes "fat_entry name attr c sz = Inr e"
  shows "length e = 32 \<and> take 11 e = pack_s 11 name \<and> e ! 11 = word_of_int attr \<and> entry_cluster e = c \<and> entry_size e = sz"
proof -
  have n: "length (pack_s 11 name) = 11" by (simp add: pack_s_def)
  let ?r = "le_bytes 1 0 @ le_bytes 1 0 @ le_bytes 2 0 @ le_bytes 2 FAT_DATE_1980 @ le_bytes 2 FAT_DATE_1980 @
    le_bytes 2 (int (drop_bit 16 c)) @ le_bytes 2 0 @ le_bytes 2 FAT_DATE_1980 @ le_bytes 2 (int c AND 0xFFFF) @ le_bytes 4 (int sz)"
  have hi: "fits 16 (int (drop_bit 16 c))" and lo: "fits 16 (int c AND 0xFFFF)" and s: "fits 32 (int sz)"
    and e: "e = pack_s 11 name @ le_bytes 1 attr @ ?r"
    using assms by (auto simp: fat_entry_def simp del: le_bytes.simps split: if_splits)
  have m: "int c AND 0xFFFF = int c mod 65536"
    using take_bit_eq_mask [of 16 "int c"] by (simp add: take_bit_eq_mod mask_eq_exp_minus_1)
  have "int (drop_bit 16 c) * 65536 + (int c AND 0xFFFF) = int c"
    unfolding m by (simp add: drop_bit_eq_div zdiv_int)
  then have "entry_cluster e = c"
    unfolding entry_cluster_def e using hi lo by (simp add: unpack_rules n del: le_bytes.simps)
  moreover have "entry_size e = sz"
    unfolding entry_size_def e using s unpack_here [of 4 "int sz" "[]"] by (simp add: unpack_rules n del: le_bytes.simps)
  moreover have "e ! 11 = word_of_int attr" unfolding e using n by (simp add: nth_append)
  moreover have "length e = 32" "take 11 e = pack_s 11 name" unfolding e using n by simp_all
  ultimately show ?thesis by simp
qed

section \<open>Following chains\<close>

lemma concat_parts:
  "concat (map (\<lambda>i. ljust cb 0 (part_of cb raw i)) [0..<m]) = ljust (m * cb) 0 (take (m * cb) raw)"
proof (induction m)
  case (Suc m)
  have p: "part_of cb raw m = take cb (drop (m * cb) raw)" by (simp add: part_of_def slice_def)
  show ?case
  proof (cases "m * cb \<le> length raw")
    case True
    have "take (cb + m * cb) raw = take (m * cb) raw @ take cb (drop (m * cb) raw)"
      by (metis add.commute take_add)
    with True Suc show ?thesis by (simp add: p ljust_def min_def) 
  next
    case False
    with Suc show ?thesis by (simp add: p ljust_def replicate_add [symmetric])
  qed
qed (simp add: ljust_def)

lemma ceil_div_ge: "0 < b \<Longrightarrow> a \<le> ceil_div a b * b"
proof -
  assume b: "0 < b"
  have "(- int a) div int b * int b \<le> - int a"
    by (metis add.commute div_mult_mod_eq le_add_same_cancel1 of_nat_0_less_iff b pos_mod_sign)
  then have "int a \<le> - ((- int a) div int b) * int b" by simp
  also have "\<dots> \<le> int (ceil_div a b) * int b" by (rule mult_right_mono) (simp_all add: ceil_div_def)
  finally show ?thesis by (metis of_nat_le_iff of_nat_mult)
qed

lemma n_clusters_ge: "0 < cb \<Longrightarrow> length raw \<le> n_clusters cb raw * cb"
  using ceil_div_ge [of cb "length raw"] by (simp add: n_clusters_def) (metis le_trans max.cobounded2 mult_le_mono1 Suc_leI)

section \<open>Finding a name\<close>

fun node_ok :: "node \<Rightarrow> bool" where
  "node_ok (File x) = True"
| "node_ok (Dir t) = list_all (\<lambda>(n, nd). length n = 11 \<and> node_ok nd) t"

fun tree_get :: "byte list list \<Rightarrow> tree \<Rightarrow> byte list option" where
  "tree_get [] t = None"
| "tree_get (p # ps) t = (case map_of t p of
      None \<Rightarrow> None
    | Some (File x) \<Rightarrow> if ps = [] then Some x else None
    | Some (Dir sub) \<Rightarrow> tree_get ps sub)"

definition name_ok :: "byte list \<Rightarrow> bool" where
  "name_ok p \<longleftrightarrow> length p = 11 \<and> hd p \<noteq> 0x2E"

text \<open>What the entry of a node says.\<close>

definition entry_for :: "nat \<Rightarrow> string \<Rightarrow> fat_state \<Rightarrow> nat set \<Rightarrow> nat \<Rightarrow> node \<Rightarrow> byte list \<Rightarrow> bool" where
  "entry_for cb label s S parent nd e = (case nd of
      Dir sub \<Rightarrow> e ! 11 = 0x10 \<and> dir_stored cb label s S sub (entry_cluster e) parent False
    | File x \<Rightarrow> e ! 11 = 0x20 \<and> entry_size e = length x \<and>
        (if x = [] then entry_cluster e = 0 else holds cb s S (entry_cluster e) x))"

lemma pack_s_id: "length n = 11 \<Longrightarrow> pack_s 11 n = n"
  by (simp add: pack_s_def ljust_def)

lemma entries_split:
  assumes "entries_stored cb label s S ((n, nd) # t) own root es"
  obtains e fs where "es = e # fs" "entries_stored cb label s S t own root fs" "length e = 32" "take 11 e = pack_s 11 n"
    "entry_for cb label s S (if root then 0 else own) nd e"
proof (cases nd)
  case (File x)
  with assms obtain e fs first where "es = e # fs" "entries_stored cb label s S t own root fs"
    and f: "fat_entry n 0x20 first (length x) = Inr e" "if x = [] then first = 0 else holds cb s S first x"
    by (auto elim: entries_FileE)
  with fat_entry_fields [OF f(1)] File show thesis by (intro that [of e fs]) (simp_all add: entry_for_def)
next
  case (Dir sub)
  with assms obtain e fs first where "es = e # fs" "entries_stored cb label s S t own root fs"
    and f: "fat_entry n 0x10 first 0 = Inr e" "dir_stored cb label s S sub first (if root then 0 else own) False"
    by (auto elim: entries_DirE)
  with fat_entry_fields [OF f(1)] Dir show thesis by (intro that [of e fs]) (simp_all add: entry_for_def)
qed

lemma entry_attr: "entry_for cb label s S parent nd e \<Longrightarrow> e ! 11 \<noteq> 0x08"
  by (auto simp: entry_for_def split: node.splits)

lemma find_entry:
  assumes "entries_stored cb label s S t own root es" "node_ok (Dir t)" "map_of t p = Some nd"
  shows "\<exists>e. List.find (\<lambda>e. take 11 e = p \<and> e ! 11 \<noteq> 0x08) (es @ tail) = Some e \<and>
    entry_for cb label s S (if root then 0 else own) nd e \<and> node_ok nd"
  using assms
proof (induction t arbitrary: es)
  case (Cons a t)
  obtain n nd' where a: "a = (n, nd')" by (cases a)
  obtain e fs where E: "es = e # fs" "entries_stored cb label s S t own root fs" "take 11 e = pack_s 11 n"
    "entry_for cb label s S (if root then 0 else own) nd' e"
    using Cons.prems(1) unfolding a by (rule entries_split)
  have n: "pack_s 11 n = n" "node_ok nd'" "node_ok (Dir t)" using Cons.prems(2) a by (simp_all add: pack_s_id)
  show ?case
  proof (cases "n = p")
    case True
    then have "nd' = nd" using Cons.prems(3) a by simp
    then show ?thesis using E n True entry_attr [OF E(4)] by simp
  next
    case False
    then show ?thesis using Cons.IH [OF E(2) n(3)] Cons.prems(3) E n a by simp
  qed
qed simp

lemma entries_lengths: "entries_stored cb label s S t own root es \<Longrightarrow> e \<in> set es \<Longrightarrow> length e = 32"
proof (induction t arbitrary: es)
  case Nil
  then show ?case by (auto elim: entries_NilE)
next
  case (Cons a t)
  obtain n nd where a: "a = (n, nd)" by (cases a)
  show ?case using Cons.prems(1) unfolding a
    by (rule entries_split) (use Cons in auto)
qed

lemma head_entries_skip:
  assumes "head_entries label own parent root = Inr hs" "name_ok p"
  shows "(\<forall>e \<in> set hs. length e = 32) \<and> List.find (\<lambda>e. take 11 e = p \<and> e ! 11 \<noteq> 0x08) (hs @ es)
      = List.find (\<lambda>e. take 11 e = p \<and> e ! 11 \<noteq> 0x08) es"
proof (cases root)
  case True
  with assms obtain e where "hs = [e]" "fat_entry (label11 label) 0x08 0 0 = Inr e"
    by (auto simp: head_entries_def)
  with fat_entry_fields [of "label11 label" 8 0 0 e] show ?thesis by simp
next
  case False
  with assms obtain e e' where h: "hs = [e, e']" and e: "fat_entry (encode ''.          '') 0x10 own 0 = Inr e"
    and e': "fat_entry (encode ''..         '') 0x10 parent 0 = Inr e'"
    by (auto simp: head_entries_def)
  have "p \<noteq> pack_s 11 (encode ''.          '')" "p \<noteq> pack_s 11 (encode ''..         '')"
    using assms(2) by (auto simp: name_ok_def pack_s_def encode_def ljust_def)
  then show ?thesis using h fat_entry_fields [OF e] fat_entry_fields [OF e'] by auto
qed

lemma pieces_append_concat:
  "0 < n \<Longrightarrow> (\<And>x. x \<in> set xs \<Longrightarrow> length x = n) \<Longrightarrow> pieces n (concat xs @ ys) = xs @ pieces n ys"
  by (induction xs) (simp_all add: pieces_append_exact)

lemma dir_find_stored:
  assumes h: "head_entries label own parent root = Inr hs" and e: "entries_stored cb label s S t own root es"
    and p: "name_ok p" and ok: "node_ok (Dir t)" and m: "map_of t p = Some nd"
  shows "\<exists>e. dir_find p (concat (hs @ es) @ replicate z 0) = Some e \<and>
    entry_for cb label s S (if root then 0 else own) nd e \<and> node_ok nd"
proof -
  have "pieces 32 (concat (hs @ es) @ replicate z 0) = (hs @ es) @ pieces 32 (replicate z 0)"
    by (rule pieces_append_concat) (use head_entries_skip [OF h p] entries_lengths [OF e] in auto)
  then show ?thesis
    using head_entries_skip [OF h p] find_entry [OF e ok m, of "pieces 32 (replicate z 0)"]
    by (simp add: dir_find_def)
qed

section \<open>A volume that holds the tables\<close>

text \<open>
  What the reader needs of a volume: the FAT's entries are those of the tables, and the clusters' bytes are their
  contents padded with zeros. The lemmas' bound keeps cluster numbers apart from the end-of-chain marks.
\<close>

locale fat_volume =
  fixes nxt :: "nat \<Rightarrow> nat" and clus :: "nat \<Rightarrow> byte list" and cb :: nat and s :: fat_state
  assumes nxt: "c < length (fs_fat s) \<Longrightarrow> nxt c = fs_fat s ! c"
    and clus: "map_of (fs_data s) c = Some x \<Longrightarrow> clus c = ljust cb 0 x"
begin

lemma follow:
  "length (fs_fat s) \<le> 0x0FFFFFF8 \<Longrightarrow> chain (fs_fat s) cs \<Longrightarrow> set cs \<subseteq> {..<length (fs_fat s)} \<Longrightarrow> length cs \<le> n \<Longrightarrow>
   read_chain nxt clus n (hd cs) = Some (concat (map clus cs))"
proof (induction cs arbitrary: n rule: induct_list012)
  case 1
  then show ?case by (simp add: chain_def)
next
  case (2 c)
  then show ?case using nxt [of c] by (cases n) (simp_all add: chain_def FAT_EOC_def)
next
  case (3 c d r)
  obtain m where n: "n = Suc m" using 3(6) by (cases n) simp_all
  have "fs_fat s ! c = d" using 3(4) by (auto simp: chain_def)
  then have nc: "nxt c = d" using 3(5) nxt [of c] by simp
  have "d < length (fs_fat s)" using 3(5) by simp
  then have "\<not> 0x0FFFFFF8 \<le> d" using 3(3) by simp
  moreover have "chain (fs_fat s) (d # r)" using 3(4) by (auto simp: chain_def)
  then have "read_chain nxt clus m (hd (d # r)) = Some (concat (map clus (d # r)))"
    using 3(3,5,6) n by (intro 3(2)) simp_all
  ultimately show ?case by (simp add: n nc)
qed

lemma read_holds:
  assumes "holds cb s S c raw" "S \<subseteq> {..<length (fs_fat s)}" "length (fs_fat s) \<le> n"
    and cb: "0 < cb" and small: "length (fs_fat s) \<le> 0x0FFFFFF8"
  shows "\<exists>z. read_chain nxt clus n c = Some (raw @ replicate z 0)"
proof -
  obtain cs where d: "distinct cs" and cs: "hd cs = c" "set cs \<subseteq> S" "chain (fs_fat s) cs" "length cs = n_clusters cb raw"
    "\<forall>i < length cs. map_of (fs_data s) (cs ! i) = Some (part_of cb raw i)"
    using assms(1) by (auto simp: holds_def)
  have sub: "set cs \<subseteq> {..<length (fs_fat s)}" using cs(2) assms(2) by blast
  have "length cs \<le> length (fs_fat s)"
    using card_mono [OF _ sub] d by (simp add: distinct_card)
  then have "read_chain nxt clus n c = Some (concat (map clus cs))"
    using follow [OF small cs(3) sub, of n] assms(3) cs(1) by simp
  also have "map clus cs = map (\<lambda>i. ljust cb 0 (part_of cb raw i)) [0..<n_clusters cb raw]"
    using cs(4,5) clus by (intro nth_equalityI) simp_all
  also have "concat \<dots> = ljust (n_clusters cb raw * cb) 0 (take (n_clusters cb raw * cb) raw)"
    by (rule concat_parts)
  also have "\<dots> = raw @ replicate (n_clusters cb raw * cb - length raw) 0"
    using n_clusters_ge [OF cb, of raw] by (simp add: ljust_def)
  finally show ?thesis by blast
qed

lemma read_stored:
  assumes "dir_stored cb label s S t c parent root" "S \<subseteq> {2..<length (fs_fat s)}" "length (fs_fat s) \<le> n"
    "node_ok (Dir t)" "list_all name_ok ps" "tree_get ps t = Some x"
    and cb: "0 < cb" and small: "length (fs_fat s) \<le> 0x0FFFFFF8"
  shows "read_path nxt clus n ps c = Some x"
  using assms(1-6)
proof (induction ps arbitrary: t c parent root)
  case (Cons p ps)
  obtain hs es where h: "head_entries label c parent root = Inr hs" and e: "entries_stored cb label s S t c root es"
    and r: "holds cb s S c (concat (hs @ es))"
    using Cons.prems(1) by (fastforce elim: dir_storedE)
  have S: "S \<subseteq> {..<length (fs_fat s)}" using Cons.prems(2) by auto
  obtain z where z: "read_chain nxt clus n c = Some (concat (hs @ es) @ replicate z 0)"
    using read_holds [OF r S Cons.prems(3) cb small] by blast
  obtain nd where m: "map_of t p = Some nd" using Cons.prems(6) by (auto split: option.splits)
  have p: "name_ok p" and ps: "list_all name_ok ps" using Cons.prems(5) by simp_all
  obtain e where f: "dir_find p (concat (hs @ es) @ replicate z 0) = Some e"
    and en: "entry_for cb label s S (if root then 0 else c) nd e" and nd: "node_ok nd"
    using dir_find_stored [OF h e p Cons.prems(4) m] by blast
  show ?case
  proof (cases nd)
    case (Dir sub)
    then have g: "tree_get ps sub = Some x" and ne: "ps \<noteq> []" using Cons.prems(6) m by auto
    have "dir_stored cb label s S sub (entry_cluster e) (if root then 0 else c) False" "e ! 11 = 0x10"
      using en Dir by (simp_all add: entry_for_def)
    with Cons.IH [OF _ Cons.prems(2,3) _ ps g] nd Dir show ?thesis by (simp add: z f ne del: concat_append)
  next
    case (File y)
    then have ps: "ps = []" "x = y" using Cons.prems(6) m by (auto split: if_splits)
    have a: "e ! 11 = 0x20" "entry_size e = length y" "if y = [] then entry_cluster e = 0 else holds cb s S (entry_cluster e) y"
      using en File by (simp_all add: entry_for_def)
    show ?thesis
    proof (cases "y = []")
      case True
      then show ?thesis using a ps by (simp add: z f del: concat_append)
    next
      case False
      then have hy: "holds cb s S (entry_cluster e) y" using a by simp
      then obtain cs where "hd cs = entry_cluster e" "set cs \<subseteq> S" "cs \<noteq> []" by (auto simp: holds_def chain_def)
      then have "entry_cluster e \<in> S" by (metis hd_in_set subsetD)
      then have "entry_cluster e \<noteq> 0" using Cons.prems(2) by auto
      moreover obtain w where "read_chain nxt clus n (entry_cluster e) = Some (y @ replicate w 0)"
        using read_holds [OF hy S Cons.prems(3) cb small] by blast
      ultimately show ?thesis using a ps by (simp add: z f del: concat_append)
    qed
  qed
qed simp

end

section \<open>The tables as a volume\<close>

definition table_cluster :: "nat \<Rightarrow> fat_state \<Rightarrow> nat \<Rightarrow> byte list" where
  "table_cluster cb s c = ljust cb 0 (the (map_of (fs_data s) c))"

interpretation tables: fat_volume "(!) (fs_fat s)" "table_cluster cb s" cb s for cb s
  by unfold_locales (simp_all add: table_cluster_def)

end
