(* ===== verification/Fat_Space.thy ===== *)
theory Fat_Space
  imports Fat_Read "HOL-Library.Sublist"
begin

text \<open>
  When \<open>build_fat32_image\<close> gives an image: which paths can be put into one tree, and how many clusters a tree takes.
\<close>

section \<open>Paths that clash\<close>

text \<open>Every directory of the tree holds something.\<close>

fun inhabited :: "node \<Rightarrow> bool" where
  "inhabited (File x) \<longleftrightarrow> True"
| "inhabited (Dir t) \<longleftrightarrow> t \<noteq> [] \<and> list_all (\<lambda>e. inhabited (snd e)) t"

definition full_tree :: "tree \<Rightarrow> bool" where
  "full_tree t \<longleftrightarrow> list_all (\<lambda>e. inhabited (snd e)) t"

lemma inhabited_Dir: "inhabited (Dir t) \<longleftrightarrow> t \<noteq> [] \<and> full_tree t"
  by (simp add: full_tree_def)

declare inhabited.simps(2) [simp del]

lemma full_sub: "full_tree t \<Longrightarrow> map_of t p = Some nd \<Longrightarrow> inhabited nd"
  using map_of_SomeD [of t p nd] by (auto simp: full_tree_def list_all_iff)

lemma full_set: "full_tree t \<Longrightarrow> inhabited nd \<Longrightarrow> full_tree (dict_set p nd t)"
  using set_dict_set [of p nd t] by (auto simp: full_tree_def list_all_iff)

lemma dict_set_some [simp]: "dict_set p nd t \<noteq> []"
  by (cases t) simp_all

lemma inhabited_file: "inhabited nd \<Longrightarrow> nd = Dir sub \<Longrightarrow> \<exists>qs. tree_get qs sub \<noteq> None"
proof (induction nd arbitrary: sub rule: inhabited.induct)
  case (2 t)
  then obtain n nd r where t: "t = (n, nd) # r" by (cases t) (auto simp: inhabited_Dir)
  have i: "inhabited nd" using 2(2) t by (simp add: inhabited_Dir full_tree_def)
  show ?case
  proof (cases nd)
    case (File x)
    then show ?thesis using 2(3) t by (auto intro: exI [of _ "[n]"])
  next
    case (Dir sub')
    then obtain qs where "tree_get qs sub' \<noteq> None" using 2(1) [of "(n, nd)" sub'] t i by auto
    then show ?thesis using 2(3) t Dir by (auto intro: exI [of _ "n # qs"])
  qed
qed simp

lemma tree_get_not_Nil: "tree_get qs t \<noteq> None \<Longrightarrow> qs \<noteq> []"
  by (cases qs) simp_all

definition clashes :: "byte list list \<Rightarrow> tree \<Rightarrow> bool" where
  "clashes ps t \<longleftrightarrow> (\<exists>qs. tree_get qs t \<noteq> None \<and> (prefix qs ps \<or> prefix ps qs))"

lemma clash_one:
  assumes "full_tree t"
  shows "clashes [p] t \<longleftrightarrow> map_of t p \<noteq> None"
proof
  assume "clashes [p] t"
  then obtain qs where q: "tree_get qs t \<noteq> None" "prefix qs [p] \<or> prefix [p] qs" by (auto simp: clashes_def)
  then obtain r where "qs = p # r" using tree_get_not_Nil [OF q(1)] by (cases qs) auto
  then show "map_of t p \<noteq> None" using q(1) by (auto split: option.splits)
next
  assume "map_of t p \<noteq> None"
  then obtain nd where nd: "map_of t p = Some nd" by auto
  show "clashes [p] t"
  proof (cases nd)
    case (File x)
    then have "tree_get [p] t \<noteq> None" using nd by simp
    then show ?thesis unfolding clashes_def by blast
  next
    case (Dir sub)
    then obtain qs where "tree_get qs sub \<noteq> None" using inhabited_file full_sub [OF assms nd] by blast
    then have "tree_get (p # qs) t \<noteq> None" "prefix [p] (p # qs)" using nd Dir by simp_all
    then show ?thesis unfolding clashes_def by blast
  qed
qed

lemma clash_Cons:
  "clashes (p # q # ps) t \<longleftrightarrow> (case map_of t p of None \<Rightarrow> False | Some (File x) \<Rightarrow> True | Some (Dir sub) \<Rightarrow> clashes (q # ps) sub)"
proof -
  have "clashes (p # q # ps) t \<longleftrightarrow> (\<exists>qs. tree_get (p # qs) t \<noteq> None \<and> (prefix qs (q # ps) \<or> prefix (q # ps) qs))"
  proof
    assume "clashes (p # q # ps) t"
    then obtain qs where q: "tree_get qs t \<noteq> None" "prefix qs (p # q # ps) \<or> prefix (p # q # ps) qs" by (auto simp: clashes_def)
    then obtain r where "qs = p # r" using tree_get_not_Nil [OF q(1)] by (cases qs) auto
    then show "\<exists>qs. tree_get (p # qs) t \<noteq> None \<and> (prefix qs (q # ps) \<or> prefix (q # ps) qs)" using q by auto
  next
    assume "\<exists>qs. tree_get (p # qs) t \<noteq> None \<and> (prefix qs (q # ps) \<or> prefix (q # ps) qs)"
    then show "clashes (p # q # ps) t" unfolding clashes_def by (metis Cons_prefix_Cons)
  qed
  also have "\<dots> \<longleftrightarrow> (case map_of t p of None \<Rightarrow> False | Some (File x) \<Rightarrow> True | Some (Dir sub) \<Rightarrow> clashes (q # ps) sub)"
    by (auto simp: clashes_def split: option.split node.split)
  finally show ?thesis .
qed

lemma add_path_clash:
  "ps \<noteq> [] \<Longrightarrow> full_tree t \<Longrightarrow>
    (case add_path ps x t of
       Inl e \<Rightarrow> e = ValueError \<and> clashes ps t
     | Inr t' \<Rightarrow> \<not> clashes ps t \<and> full_tree t' \<and> t' \<noteq> [] \<and> (\<forall>qs. tree_get qs t' = (if qs = ps then Some x else tree_get qs t)))"
proof (induction ps x t rule: add_path.induct)
  case (2 p x t)
  have "tree_get qs (dict_set p (File x) t) = (if qs = [p] then Some x else tree_get qs t)" if "map_of t p = None" for qs
    using that by (cases qs) (auto split: option.split)
  then show ?case using clash_one [OF 2(2), of p] full_set [OF 2(2), of "File x" p] by (auto split: option.split)
next
  case (3 p q ps x t)
  show ?case
  proof (cases "map_of t p")
    case None
    have f: "full_tree []" by (simp add: full_tree_def)
    have c: "\<not> clashes (q # ps) []"
    proof -
      have "tree_get qs [] = None" for qs by (cases qs) simp_all
      then show ?thesis by (simp add: clashes_def)
    qed
    obtain sub where s: "add_path (q # ps) x [] = Inr sub" "full_tree sub" "sub \<noteq> []"
      "\<forall>qs. tree_get qs sub = (if qs = q # ps then Some x else tree_get qs [])"
      using 3(1) [OF None _ f] c by (auto split: sum.splits)
    have "tree_get qs [] = None" for qs by (cases qs) simp_all
    then have "tree_get qs (dict_set p (Dir sub) t) = (if qs = p # q # ps then Some x else tree_get qs t)" for qs
      using s(4) None by (cases qs) (auto split: option.split)
    then show ?thesis using None s(1-3) 3(4) by (simp add: clash_Cons full_set inhabited_Dir)
  next
    case (Some nd)
    show ?thesis
    proof (cases nd)
      case (File y)
      then show ?thesis using Some by (simp add: clash_Cons)
    next
      case (Dir sub)
      have f: "full_tree sub" using full_sub [OF 3(4) Some] Dir by (simp add: inhabited_Dir)
      note IH = 3(2) [OF Some Dir _ f]
      show ?thesis
      proof (cases "add_path (q # ps) x sub")
        case (Inl e)
        then show ?thesis using IH Some Dir by (simp add: clash_Cons)
      next
        case (Inr sub')
        then have s: "\<not> clashes (q # ps) sub" "full_tree sub'" "sub' \<noteq> []"
          "\<forall>qs. tree_get qs sub' = (if qs = q # ps then Some x else tree_get qs sub)" using IH by simp_all
        have "tree_get qs (dict_set p (Dir sub') t) = (if qs = p # q # ps then Some x else tree_get qs t)" for qs
          using s(4) Some Dir by (cases qs) (auto split: option.split)
        then show ?thesis using Inr Some Dir s(1-3) 3(4) by (simp add: clash_Cons full_set inhabited_Dir)
      qed
    qed
  qed
qed simp

text \<open>The first path that fails: no 8.3 names, no name at all, or a clash with an earlier path.\<close>

fun path_error :: "byte list list list \<Rightarrow> (string \<times> byte list) list \<Rightarrow> py_error option" where
  "path_error seen [] = None"
| "path_error seen ((path, x) # files) =
     (case path_parts path of
        Inl e \<Rightarrow> Some e
      | Inr parts \<Rightarrow>
          if parts = [] then Some IndexError
          else if list_ex (\<lambda>q. prefix q parts \<or> prefix parts q) seen then Some ValueError
          else path_error (parts # seen) files)"

lemma build_tree_error:
  "full_tree t \<Longrightarrow> (\<And>qs. qs \<in> set seen \<longleftrightarrow> tree_get qs t \<noteq> None) \<Longrightarrow>
    (case build_tree files t of Inl e \<Rightarrow> path_error seen files = Some e | Inr t' \<Rightarrow> path_error seen files = None)"
proof (induction files t arbitrary: seen rule: build_tree.induct)
  case (2 path x files t)
  have c: "clashes parts t \<longleftrightarrow> list_ex (\<lambda>q. prefix q parts \<or> prefix parts q) seen" for parts
    using 2(3) by (auto simp: clashes_def list_ex_iff)
  show ?case
  proof (cases "path_parts path")
    case (Inr parts)
    show ?thesis
    proof (cases "parts = []")
      case False
      note A = add_path_clash [OF False 2(2), of x]
      show ?thesis
      proof (cases "add_path parts x t")
        case (Inl e)
        then show ?thesis using A Inr False c by simp
      next
        case (Inr u)
        then have u: "\<not> clashes parts t" "full_tree u" "\<forall>qs. tree_get qs u = (if qs = parts then Some x else tree_get qs t)"
          using A by simp_all
        have "qs \<in> set (parts # seen) \<longleftrightarrow> tree_get qs u \<noteq> None" for qs using 2(3) [of qs] u(3) by auto
        from 2(1) [OF u(2) this]
        show ?thesis using \<open>path_parts path = Inr parts\<close> Inr u(1) c False by (simp split: sum.splits)
      qed
    qed (simp add: Inr)
  qed simp
qed simp

section \<open>Clusters that a tree takes\<close>

definition clusters_of :: "nat \<Rightarrow> nat \<Rightarrow> nat" where
  "clusters_of cb n = max 1 (ceil_div n cb)"

lemma n_clusters_of: "n_clusters cb raw = clusters_of cb (length raw)"
  by (simp add: n_clusters_def clusters_of_def)

text \<open>A file takes none when it is empty; a directory has an entry per name, and two more, the root's one.\<close>

fun node_need :: "nat \<Rightarrow> node \<Rightarrow> nat" where
  "node_need cb (File x) = (if x = [] then 0 else clusters_of cb (length x))"
| "node_need cb (Dir t) = clusters_of cb (32 * (length t + 2)) + sum_list (map (\<lambda>e. node_need cb (snd e)) t)"

definition entries_need :: "nat \<Rightarrow> tree \<Rightarrow> nat" where
  "entries_need cb t = sum_list (map (\<lambda>e. node_need cb (snd e)) t)"

definition tree_need :: "nat \<Rightarrow> tree \<Rightarrow> nat" where
  "tree_need cb t = clusters_of cb (32 * (length t + 1)) + entries_need cb t"

lemma entries_need_simps [simp]:
  "entries_need cb [] = 0" "entries_need cb ((n, nd) # t) = node_need cb nd + entries_need cb t"
  by (simp_all add: entries_need_def)

lemma node_need_Dir: "node_need cb (Dir t) = clusters_of cb (32 * (length t + 2)) + entries_need cb t"
  by (simp add: entries_need_def)

declare node_need.simps(2) [simp del]

text \<open>Every file's size fits the field of its entry.\<close>

fun small_node :: "node \<Rightarrow> bool" where
  "small_node (File x) \<longleftrightarrow> length x < 2 ^ 32"
| "small_node (Dir t) \<longleftrightarrow> list_all (\<lambda>e. small_node (snd e)) t"

definition small_tree :: "tree \<Rightarrow> bool" where
  "small_tree t \<longleftrightarrow> list_all (\<lambda>e. small_node (snd e)) t"

lemma small_tree_simps [simp]:
  "small_tree []" "small_tree ((n, nd) # t) \<longleftrightarrow> small_node nd \<and> small_tree t" "small_node (Dir t) \<longleftrightarrow> small_tree t"
  by (simp_all add: small_tree_def)

declare small_node.simps(2) [simp del]

lemma small_new: "map_of t p = None \<Longrightarrow> small_tree (dict_set p nd t) \<longleftrightarrow> small_node nd \<and> small_tree t"
  by (induction t) auto

lemma small_again: "map_of t p = Some nd' \<Longrightarrow> small_node nd \<longleftrightarrow> small_node nd' \<and> b \<Longrightarrow> small_tree (dict_set p nd t) \<longleftrightarrow> small_tree t \<and> b"
  by (induction t) (auto split: if_splits)

lemma add_path_small: "add_path ps x t = Inr t' \<Longrightarrow> small_tree t' \<longleftrightarrow> small_tree t \<and> length x < 2 ^ 32"
proof (induction ps x t arbitrary: t' rule: add_path.induct)
  case (2 p x t)
  then show ?case by (auto simp: small_new split: option.splits)
next
  case (3 p q ps x t)
  show ?case
  proof (cases "map_of t p")
    case None
    then obtain sub where s: "add_path (q # ps) x [] = Inr sub" "t' = dict_set p (Dir sub) t" using 3(3) by auto
    then show ?thesis using 3(1) [OF None s(1)] None by (auto simp: small_new)
  next
    case (Some nd)
    then obtain sub0 sub where nd: "nd = Dir sub0" and s: "add_path (q # ps) x sub0 = Inr sub" "t' = dict_set p (Dir sub) t"
      using 3(3) by (auto split: node.splits)
    then show ?thesis using 3(2) [OF Some nd s(1)] small_again [OF Some, of "Dir sub" "length x < 2 ^ 32"] by simp
  qed
qed simp

lemma build_tree_small: "build_tree files t = Inr t' \<Longrightarrow> small_tree t' \<longleftrightarrow> small_tree t \<and> list_all (\<lambda>f. length (snd f) < 2 ^ 32) files"
proof (induction files t rule: build_tree.induct)
  case (2 path x files t)
  then obtain parts u where "add_path parts x t = Inr u" "build_tree files u = Inr t'" by auto
  then show ?case using 2(1) add_path_small by auto
qed simp

section \<open>What can go wrong while the clusters are filled\<close>

definition fat_small :: "fat_state \<Rightarrow> bool" where
  "fat_small s \<longleftrightarrow> list_all (\<lambda>v. v < 2 ^ 32) (fs_fat s)"

lemma alloc_result:
  "case alloc cb cl x s of
     Inl e \<Rightarrow> e = ValueError \<and> cl + 2 < int (length (fs_fat s) + n_clusters cb x)
   | Inr (first, s') \<Rightarrow> first = length (fs_fat s) \<and> length (fs_fat s') = length (fs_fat s) + n_clusters cb x \<and>
       int (length (fs_fat s')) \<le> cl + 2 \<and> (fat_small s \<and> cl + 2 \<le> 2 ^ 32 \<longrightarrow> fat_small s')"
proof (cases "alloc cb cl x s")
  case (Inl e)
  then show ?thesis by (auto simp: alloc_def Let_def n_clusters_def split: if_splits)
next
  case (Inr r)
  obtain first s' where r: "r = (first, s')" by (cases r)
  note A = alloc_Inr [OF Inr [unfolded r]]
  let ?n = "n_clusters cb x"
  have "list_all (\<lambda>v. v < 2 ^ 32) (map (\<lambda>i. if i < ?n - 1 then first + i + 1 else FAT_EOC) [0..<?n])" if "cl + 2 \<le> 2 ^ 32"
    using A(2) that by (auto simp: list_all_iff FAT_EOC_def)
  then show ?thesis using Inr r A by (simp add: fat_small_def)
qed

lemma allocs_result:
  "int (length (fs_fat s)) \<le> cl + 2 \<Longrightarrow>
   case allocs cb cl n s of
     Inl e \<Rightarrow> e = ValueError \<and> cl + 2 < int (length (fs_fat s) + n)
   | Inr (cs, s') \<Rightarrow> length (fs_fat s') = length (fs_fat s) + n \<and> int (length (fs_fat s')) \<le> cl + 2"
proof (induction n arbitrary: s)
  case (Suc n)
  have one: "n_clusters cb [] = 1" by (simp add: n_clusters_def ceil_div_def)
  show ?case
  proof (cases "alloc cb cl [] s")
    case (Inl e)
    then show ?thesis using alloc_result [where cb = cb and cl = cl and x = "[]" and s = s] by (simp add: one)
  next
    case (Inr r)
    obtain c t where r: "r = (c, t)" by (cases r)
    have t: "length (fs_fat t) = length (fs_fat s) + 1" "int (length (fs_fat t)) \<le> cl + 2"
      using alloc_result [where cb = cb and cl = cl and x = "[]" and s = s] Inr r by (simp_all add: one)
    show ?thesis using Suc.IH [OF t(2)] Inr r t(1) by (auto simp: split_def split: sum.splits)
  qed
qed simp

lemma write_raw_result:
  assumes "own < length (fs_fat s)" "int (length (fs_fat s)) \<le> cl + 2"
  shows "case write_raw cb cl own raw s of
     Inl e \<Rightarrow> e = ValueError \<and> cl + 2 < int (length (fs_fat s) + (n_clusters cb raw - 1))
   | Inr s' \<Rightarrow> length (fs_fat s') = length (fs_fat s) + (n_clusters cb raw - 1) \<and> int (length (fs_fat s')) \<le> cl + 2 \<and>
       (fat_small s \<and> cl + 2 \<le> 2 ^ 32 \<longrightarrow> fat_small s')"
proof (cases "allocs cb cl (n_clusters cb raw - 1) s")
  case (Inl e)
  then show ?thesis using allocs_result [OF assms(2), where cb = cb and n = "n_clusters cb raw - 1"] by (simp add: write_raw_def Let_def n_clusters_def)
next
  case (Inr r)
  obtain more t where r: "r = (more, t)" by (cases r)
  let ?cs = "own # more" and ?u = "link_chain (own # more) t"
  let ?s' = "put_parts (part_of cb raw) 0 ?cs ?u"
  have w: "write_raw cb cl own raw s = Inr ?s'"
    using Inr r unfolding write_raw_def Let_def n_clusters_def part_of_def by simp
  have n: "length (fs_fat t) = length (fs_fat s) + (n_clusters cb raw - 1)" "int (length (fs_fat t)) \<le> cl + 2"
    using allocs_result [OF assms(2), where cb = cb and n = "n_clusters cb raw - 1"] Inr r by simp_all
  note A = allocs_Inr [OF Inr [unfolded r]]
  have d: "distinct ?cs" and sub: "set ?cs \<subseteq> {..<length (fs_fat t)}" using A assms(1) by auto
  note L = links [OF d sub]
  have fat: "fs_fat ?s' = fs_fat ?u" using contents [OF d, of "part_of cb raw" 0 ?u] by blast
  have "fat_small ?s'" if "fat_small s" "cl + 2 \<le> 2 ^ 32"
  proof -
    have "fs_fat ?u ! i < 2 ^ 32" if i: "i < length (fs_fat ?u)" for i
    proof (cases "i \<in> set (butlast ?cs)")
      case False
      then have "fs_fat ?u ! i = fs_fat t ! i" using L by blast
      moreover have "fs_fat t ! i \<in> set (fs_fat t)" using i L by simp
      ultimately have "fs_fat ?u ! i \<in> set (fs_fat s) \<union> {FAT_EOC}" using A by auto
      then show ?thesis using \<open>fat_small s\<close> by (auto simp: fat_small_def list_all_iff FAT_EOC_def)
    next
      case True
      then obtain k where k: "k < length (butlast ?cs)" "butlast ?cs ! k = i" by (auto simp: in_set_conv_nth)
      have "k < length ?cs - 1" using k(1) by (simp only: length_butlast)
      then have "Suc k < length ?cs" "?cs ! k = i" using k(2) nth_butlast [OF k(1)] by (simp, metis)
      then have "fs_fat ?u ! i = ?cs ! Suc k" "?cs ! Suc k \<in> set ?cs" using L nth_mem by blast+
      then have "fs_fat ?u ! i < length (fs_fat t)" using sub by auto
      then show ?thesis using n(2) \<open>cl + 2 \<le> 2 ^ 32\<close> by simp
    qed
    then show ?thesis unfolding fat_small_def fat by (simp add: list_all_length)
  qed
  then show ?thesis using w n L fat by simp
qed

lemma fat_entry_result:
  assumes "fits 8 attr"
  shows "case fat_entry nm attr c n of Inl e \<Rightarrow> e = StructError \<and> \<not> (c < 2 ^ 32 \<and> n < 2 ^ 32) | Inr e \<Rightarrow> length e = 32 \<and> n < 2 ^ 32"
proof -
  have hi: "fits 16 (int (drop_bit 16 c)) \<longleftrightarrow> c < 2 ^ 32"
  proof -
    have "drop_bit 16 c < 2 ^ 16 \<longleftrightarrow> c < 2 ^ 32" by (simp add: drop_bit_eq_div div_less_iff_less_mult)
    then show ?thesis by (simp add: fits_def flip: of_nat_less_iff)
  qed
  have lo: "fits 16 (int c AND 0xFFFF)"
    using take_bit_eq_mask [of 16 "int c"] by (simp add: fits_def take_bit_eq_mod mask_eq_exp_minus_1)
  have sz: "fits 32 (int n) \<longleftrightarrow> n < 2 ^ 32" by (simp add: fits_def)
  show ?thesis
  proof (cases "fat_entry nm attr c n")
    case (Inl e)
    then show ?thesis using assms lo hi sz
      by (auto simp: fat_entry_def fits_def [of 16 "int 0"] FAT_DATE_1980_def simp del: le_bytes.simps split: if_splits)
  next
    case (Inr e)
    then have "fits 32 (int n)" by (auto simp: fat_entry_def simp del: le_bytes.simps split: if_splits)
    then show ?thesis using Inr fat_entry_fields [OF Inr] sz by simp
  qed
qed

lemma head_result:
  "case head_entries label own parent root of
     Inl e \<Rightarrow> e = StructError \<and> \<not> (own < 2 ^ 32 \<and> parent < 2 ^ 32)
   | Inr hs \<Rightarrow> length (concat hs) = 32 * (if root then 1 else 2)"
proof -
  have b: "fits 8 8" "fits 8 0x10" by (simp_all add: fits_def)
  show ?thesis
    using fat_entry_result [OF b(1), where nm = "label11 label" and c = 0 and n = 0]
      fat_entry_result [OF b(2), where nm = "encode ''.          ''" and c = own and n = 0]
      fat_entry_result [OF b(2), where nm = "encode ''..         ''" and c = parent and n = 0]
    by (auto simp: head_entries_def rbind_def rmap_def split: sum.splits)
qed

text \<open>
  The result of filling clusters from a state: an exception says what was missing - clusters, or bits in a field -, and
  without one the clusters that were needed were there and have been taken.
\<close>

definition filled :: "int \<Rightarrow> fat_state \<Rightarrow> nat \<Rightarrow> bool \<Rightarrow> fat_state result \<Rightarrow> bool" where
  "filled cl s need small r \<longleftrightarrow> (case r of
       Inl e \<Rightarrow> e = ValueError \<and> cl + 2 < int (length (fs_fat s) + need) \<or> e = StructError \<and> \<not> (small \<and> cl + 2 \<le> 2 ^ 32)
     | Inr s' \<Rightarrow> length (fs_fat s') = length (fs_fat s) + need \<and> int (length (fs_fat s')) \<le> cl + 2 \<and> small \<and>
         (fat_small s \<and> cl + 2 \<le> 2 ^ 32 \<longrightarrow> fat_small s'))"

lemma filled_then:
  assumes "filled cl s n a (Inr t)" "filled cl t m b r"
  shows "filled cl s (n + m) (a \<and> b) r"
  using assms by (auto simp: filled_def split: sum.splits)

lemma filled_stop: "filled cl s n a (Inl e) \<Longrightarrow> filled cl s (n + m) (a \<and> b) (Inl e)"
  by (auto simp: filled_def)

lemma filled_more: "filled cl s n a (Inl e) \<Longrightarrow> n \<le> k \<Longrightarrow> (b \<Longrightarrow> a) \<Longrightarrow> filled cl s k b (Inl e)"
  by (auto simp: filled_def)

lemma filled_struct: "\<not> (small \<and> cl + 2 \<le> 2 ^ 32) \<Longrightarrow> filled cl s n small (Inl StructError)"
  by (simp add: filled_def)

lemma filled_Inr: "filled cl s n a (Inr t) \<Longrightarrow> length (fs_fat t) = length (fs_fat s) + n \<and> int (length (fs_fat t)) \<le> cl + 2"
  by (simp add: filled_def)

lemma alloc_filled: "filled cl s (n_clusters cb x) True (rmap snd (alloc cb cl x s))"
  using alloc_result [where cb = cb and cl = cl and x = x and s = s] by (auto simp: filled_def rmap_def split: sum.splits)

lemma write_raw_filled:
  "own < length (fs_fat s) \<Longrightarrow> int (length (fs_fat s)) \<le> cl + 2 \<Longrightarrow>
    filled cl s (n_clusters cb raw - 1) True (write_raw cb cl own raw s)"
  using write_raw_result [where own = own and s = s and cl = cl and cb = cb and raw = raw] by (auto simp: filled_def split: sum.splits)

text \<open>The steps of the two functions.\<close>

lemma dir_filled:
  assumes E: "filled cl s (entries_need cb t) (small_tree t) (rmap snd (write_entries cb cl label t own root s))"
      "\<And>es u. write_entries cb cl label t own root s = Inr (es, u) \<Longrightarrow> length (concat es) = 32 * length t"
    and own: "own < length (fs_fat s)" "int (length (fs_fat s)) \<le> cl + 2" "cl + 2 \<le> 2 ^ 32 \<Longrightarrow> parent < 2 ^ 32"
  shows "filled cl s (entries_need cb t + (clusters_of cb (32 * (length t + (if root then 1 else 2))) - 1)) (small_tree t \<and> True)
    (write_dir cb cl label t own parent root s)"
proof (cases "head_entries label own parent root")
  case (Inl e)
  then have "e = StructError" "\<not> cl + 2 \<le> 2 ^ 32"
    using head_result [where label = label and own = own and parent = parent and root = root] own by auto
  then show ?thesis using Inl by (simp add: filled_struct)
next
  case (Inr hs)
  then have hs: "length (concat hs) = 32 * (if root then 1 else 2)"
    using head_result [where label = label and own = own and parent = parent and root = root] by simp
  show ?thesis
  proof (cases "write_entries cb cl label t own root s")
    case (Inl e)
    then have "filled cl s (entries_need cb t) (small_tree t) (Inl e)" using E(1) by simp
    from filled_stop [OF this, where b = True] show ?thesis using \<open>head_entries label own parent root = Inr hs\<close> Inl by simp
  next
    case (Inr r)
    obtain es u where r: "r = (es, u)" by (cases r)
    then have f: "filled cl s (entries_need cb t) (small_tree t) (Inr u)" using E(1) Inr by simp
    have "length (concat (hs @ es)) = 32 * (length t + (if root then 1 else 2))" using E(2) Inr r hs by simp
    moreover have "own < length (fs_fat u)" "int (length (fs_fat u)) \<le> cl + 2" using filled_Inr [OF f] own(1) by simp_all
    note filled_then [OF f write_raw_filled [OF this, of cb "concat (hs @ es)"]]
    ultimately show ?thesis using \<open>head_entries label own parent root = Inr hs\<close> Inr r by (simp add: n_clusters_of)
  qed
qed

lemma fat_entry_stop:
  assumes "fat_entry nm attr c n = Inl e" "fits 8 attr" "cl + 2 \<le> 2 ^ 32 \<Longrightarrow> c < 2 ^ 32"
  shows "filled cl s need (n < 2 ^ 32 \<and> b) (Inl e)"
  using fat_entry_result [OF assms(2), where nm = nm and c = c and n = n] assms(1,3) by (auto simp: filled_def)

lemma rest_filled:
  assumes "filled cl s k a (Inr u)" "filled cl u m b (rmap snd W)"
  shows "filled cl s (k + m) (a \<and> b) (rmap snd (rmap (\<lambda>(es, s). (e # es, s)) W))"
proof -
  have "rmap snd (rmap (\<lambda>(es, s). (e # es, s)) W) = rmap snd W" by (cases W) (simp_all add: rmap_def split_def)
  then show ?thesis using filled_then [OF assms] by simp
qed

lemma below_32: "i < n \<Longrightarrow> int n \<le> cl + 2 \<Longrightarrow> cl + 2 \<le> 2 ^ 32 \<Longrightarrow> i < (2 :: nat) ^ 32"
proof -
  assume "i < n" "int n \<le> cl + 2" "cl + 2 \<le> 2 ^ 32"
  then have "int i < 2 ^ 32" by simp
  then show ?thesis by simp
qed

lemma write_filled:
  "own < length (fs_fat s) \<Longrightarrow> (cl + 2 \<le> 2 ^ 32 \<Longrightarrow> parent < 2 ^ 32) \<Longrightarrow> int (length (fs_fat s)) \<le> cl + 2 \<Longrightarrow>
     filled cl s (entries_need cb t + (clusters_of cb (32 * (length t + (if root then 1 else 2))) - 1)) (small_tree t \<and> True)
       (write_dir cb cl label t own parent root s)"
  "(\<not> root \<Longrightarrow> cl + 2 \<le> 2 ^ 32 \<Longrightarrow> own < 2 ^ 32) \<Longrightarrow> int (length (fs_fat s)) \<le> cl + 2 \<Longrightarrow>
     filled cl s (entries_need cb t) (small_tree t) (rmap snd (write_entries cb cl label t own root s)) \<and>
     (\<forall>es s'. write_entries cb cl label t own root s = Inr (es, s') \<longrightarrow> length (concat es) = 32 * length t)"
proof (induction cb cl label t own parent root s and cb cl label t own root s rule: write_dir_write_entries.induct)
  case (1 cb cl label t own parent root s)
  have "own < 2 ^ 32" if "cl + 2 \<le> 2 ^ 32" by (rule below_32 [OF 1(2,4) that])
  then show ?case using 1(1) [OF _ 1(4)] by (intro dir_filled 1(2-4)) blast+
next
  case (2 cb cl label own root s)
  then show ?case by (simp add: filled_def)
next
  case (3 cb cl label name sub rest own root s)
  note [simp del] = write_dir.simps
  let ?p = "if root then 0 else own"
  have p: "cl + 2 \<le> 2 ^ 32 \<Longrightarrow> ?p < 2 ^ 32" using 3(3) by auto
  have A: "filled cl s 1 True (rmap snd (alloc cb cl [] s))" using alloc_filled [of cl s cb "[]"] by simp
  show ?case
  proof (cases "alloc cb cl [] s")
    case (Inl e)
    then have f: "filled cl s 1 True (Inl e)" using A by simp
    have "1 \<le> entries_need cb ((name, Dir sub) # rest)" by (simp add: node_need_Dir clusters_of_def)
    from filled_more [OF f this] show ?thesis using Inl by simp
  next
    case (Inr r)
    obtain first t where al: "alloc cb cl [] s = Inr (first, t)" using Inr by (cases r) auto
    then have t: "filled cl s 1 True (Inr t)" using A by simp
    have first: "first < length (fs_fat t)" "int (length (fs_fat t)) \<le> cl + 2"
      using alloc_holds(3,4) [OF al] filled_Inr [OF t] by simp_all
    then have f32: "cl + 2 \<le> 2 ^ 32 \<Longrightarrow> first < 2 ^ 32" by (rule below_32)
    show ?thesis
    proof (cases "fat_entry name 0x10 first 0")
      case (Inl e)
      have "filled cl s k ((0 :: nat) < 2 ^ 32 \<and> b) (Inl e)" for k b
        by (rule fat_entry_stop [OF Inl]) (use f32 in \<open>simp_all add: fits_def\<close>)
      then show ?thesis using al Inl by simp
    next
      case (Inr e)
      let ?n = "entries_need cb sub + (clusters_of cb (32 * (length sub + 2)) - 1)"
      have D: "filled cl s (1 + ?n) (small_tree sub) (write_dir cb cl label sub first ?p False t)"
        using filled_then [OF t 3(1) [OF first(1) p first(2)]] by simp
      have n: "1 + ?n = node_need cb (Dir sub)" by (simp add: node_need_Dir clusters_of_def)
      show ?thesis
      proof (cases "write_dir cb cl label sub first ?p False t")
        case (Inl e')
        then show ?thesis using filled_stop [OF D [unfolded Inl n]] al Inr by simp
      next
        case D2: (Inr u)
        have u: "filled cl s (node_need cb (Dir sub)) (small_tree sub) (Inr u)" using D unfolding D2 n .
        have IH: "filled cl u (entries_need cb rest) (small_tree rest) (rmap snd (write_entries cb cl label rest own root u))"
          "\<And>es s'. write_entries cb cl label rest own root u = Inr (es, s') \<Longrightarrow> length (concat es) = 32 * length rest"
          using 3(2) [OF 3(3) filled_Inr [OF u, THEN conjunct2]] by blast+
        have len: "length e = 32" using fat_entry_fields [OF Inr] by simp
        show ?thesis using rest_filled [OF u IH(1), of e] IH(2) al Inr D2 len by (auto simp: rmap_def split: sum.splits)
      qed
    qed
  qed
next
  case (4 cb cl label name content rest own root s)
  let ?a = "if content \<noteq> [] then alloc cb cl content s else Inr (0, s)"
  have A: "filled cl s (node_need cb (File content)) True (rmap snd ?a)"
    using alloc_filled [of cl s cb content] 4(3) by (auto simp: n_clusters_of filled_def)
  show ?case
  proof (cases ?a)
    case (Inl e)
    then show ?thesis using filled_stop [OF A [unfolded Inl, simplified]] by (simp split: if_splits)
  next
    case (Inr r)
    obtain first t where al: "?a = Inr (first, t)" using Inr by (cases r) auto
    then have t: "filled cl s (node_need cb (File content)) True (Inr t)" using A by simp
    have "first < length (fs_fat t) \<or> first = 0"
      using al alloc_holds(3,4) [of cb cl content s first t] by (auto split: if_splits)
    then have f32: "cl + 2 \<le> 2 ^ 32 \<Longrightarrow> first < 2 ^ 32" using filled_Inr [OF t] below_32 [of first "length (fs_fat t)" cl] by auto
    show ?thesis
    proof (cases "fat_entry name 0x20 first (length content)")
      case (Inl e)
      have "filled cl s k (length content < 2 ^ 32 \<and> b) (Inl e)" for k b
        by (rule fat_entry_stop [OF Inl]) (use f32 in \<open>simp_all add: fits_def\<close>)
      then show ?thesis using al Inl by simp
    next
      case (Inr e)
      have len: "length e = 32" "length content < 2 ^ 32"
        using fat_entry_result [of "0x20", where nm = name and c = first and n = "length content"] Inr by (simp_all add: fits_def)
      have IH: "filled cl t (entries_need cb rest) (small_tree rest) (rmap snd (write_entries cb cl label rest own root t))"
        "\<And>es s'. write_entries cb cl label rest own root t = Inr (es, s') \<Longrightarrow> length (concat es) = 32 * length rest"
        using 4(1) [OF 4(2) filled_Inr [OF t, THEN conjunct2]] by blast+
      show ?thesis using rest_filled [OF t IH(1), of e] IH(2) al Inr len by (auto simp: rmap_def split: sum.splits)
    qed
  qed
qed

end
