(* ===== verification/Fat_Card.thy ===== *)
theory Fat_Card
  imports Fat_Space
begin

text \<open>
  The whole of \<open>build_fat32_image\<close>: the tree of the given files, the bytes of the image, and the theorem that
  every file is read back from the image under its path.
\<close>

section \<open>Names and the tree\<close>

lemma allowed_not_dot: "c \<in> set allowed \<Longrightarrow> of_char c \<noteq> (0x2E :: byte)"
proof -
  have "list_all (\<lambda>c. of_char c \<noteq> (0x2E :: byte)) allowed" by code_simp
  then show "c \<in> set allowed \<Longrightarrow> of_char c \<noteq> (0x2E :: byte)" by (simp add: list_all_iff)
qed

lemma short_name_ok: "fat_short_name nm = Inr p \<Longrightarrow> name_ok p"
proof -
  have key: "name_ok (encode (ljust 8 CHR '' '' base) @ encode (ljust 3 CHR '' '' ext))"
    if "1 \<le> length base" "length base \<le> 8" "length ext \<le> 3" "list_all (\<lambda>c. c \<in> set allowed) (base @ ext)" for base ext
    using that allowed_not_dot [of "hd base"]
    by (cases base) (simp_all add: name_ok_def encode_def ljust_def)
  show "fat_short_name nm = Inr p \<Longrightarrow> name_ok p"
    unfolding fat_short_name_def Let_def split_def using key by (auto split: if_splits simp del: list_all_append)
qed

lemma path_parts_ok: "path_parts path = Inr parts \<Longrightarrow> list_all name_ok parts"
  unfolding path_parts_def rmapM_Inr_iff
  by (auto simp: list_all_length list_all2_conv_all_nth intro: short_name_ok)

lemma node_ok_Dir: "node_ok (Dir t) \<longleftrightarrow> (\<forall>(n, nd) \<in> set t. length n = 11 \<and> node_ok nd)"
  by (simp add: list_all_iff)

lemma node_ok_set: "node_ok (Dir t) \<Longrightarrow> length p = 11 \<Longrightarrow> node_ok nd \<Longrightarrow> node_ok (Dir (dict_set p nd t))"
  unfolding node_ok_Dir using set_dict_set [of p nd t] by blast

lemma add_path_ok:
  "add_path ps x t = Inr t' \<Longrightarrow> node_ok (Dir t) \<Longrightarrow> list_all name_ok ps \<Longrightarrow> node_ok (Dir t')"
proof (induction ps x t arbitrary: t' rule: add_path.induct)
  case (2 p content t)
  then show ?case by (auto simp: name_ok_def simp del: node_ok.simps(2) intro!: node_ok_set split: option.splits)
next
  case (3 p q ps content t)
  have p: "length p = 11" using 3(5) by (simp add: name_ok_def)
  have r: "list_all name_ok (q # ps)" using 3(5) by simp
  show ?case
  proof (cases "map_of t p")
    case None
    then obtain sub where a: "add_path (q # ps) content [] = Inr sub" and t': "t' = dict_set p (Dir sub) t" using 3(3) by auto
    have "node_ok (Dir sub)" using 3(1) [OF None a _ r] by simp
    then show ?thesis unfolding t' by (rule node_ok_set [OF 3(4) p])
  next
    case (Some nd)
    then obtain sub0 sub where nd: "nd = Dir sub0" and a: "add_path (q # ps) content sub0 = Inr sub"
      and t': "t' = dict_set p (Dir sub) t"
      using 3(3) by (auto split: node.splits)
    have "node_ok nd" using map_of_SomeD [OF Some] 3(4) unfolding node_ok_Dir by blast
    then have "node_ok (Dir sub0)" by (simp only: nd)
    then have "node_ok (Dir sub)" by (rule 3(2) [OF Some nd a _ r])
    then show ?thesis unfolding t' by (rule node_ok_set [OF 3(4) p])
  qed
qed simp

lemma add_path_get:
  "add_path ps x t = Inr t' \<Longrightarrow> tree_get ps t' = Some x \<and> (\<forall>qs y. tree_get qs t = Some y \<longrightarrow> tree_get qs t' = Some y)"
proof (induction ps x t arbitrary: t' rule: add_path.induct)
  case (2 p content t)
  then have t': "map_of t p = None" "t' = dict_set p (File content) t" by (auto split: option.splits)
  have "tree_get qs t' = Some y" if "tree_get qs t = Some y" for qs y
    using that t' by (cases qs) (auto split: option.splits)
  then show ?case using t' by simp
next
  case (3 p q ps content t)
  show ?case
  proof (cases "map_of t p")
    case None
    then obtain sub where s: "add_path (q # ps) content [] = Inr sub" "t' = dict_set p (Dir sub) t" using 3(3) by auto
    have "tree_get qs t' = Some y" if "tree_get qs t = Some y" for qs y
      using that s None by (cases qs) (auto split: option.splits)
    then show ?thesis using 3(1) [OF None s(1)] s by simp
  next
    case (Some nd)
    then obtain sub0 sub where nd: "nd = Dir sub0" and s: "add_path (q # ps) content sub0 = Inr sub" "t' = dict_set p (Dir sub) t"
      using 3(3) by (auto split: node.splits)
    note IH = 3(2) [OF Some nd s(1)]
    have "tree_get qs t' = Some y" if "tree_get qs t = Some y" for qs y
      using that s Some nd IH by (cases qs) (auto split: option.splits)
    then show ?thesis using IH s by simp
  qed
qed simp

lemma build_tree_get:
  assumes "build_tree files t = Inr t'" "node_ok (Dir t)"
  shows "node_ok (Dir t') \<and> (\<forall>qs y. tree_get qs t = Some y \<longrightarrow> tree_get qs t' = Some y) \<and>
    (\<forall>(path, x) \<in> set files. \<exists>parts. path_parts path = Inr parts \<and> tree_get parts t' = Some x)"
  using assms
proof (induction files t rule: build_tree.induct)
  case (2 path content files t)
  obtain parts u where p: "path_parts path = Inr parts" and a: "add_path parts content t = Inr u" and b: "build_tree files u = Inr t'"
    using 2(2) by auto
  have ok: "node_ok (Dir u)" using add_path_ok [OF a 2(3) path_parts_ok [OF p]] .
  note IH = 2(1) [OF b ok]
  show ?case using IH add_path_get [OF a] p by auto
qed simp

section \<open>Overwriting parts of a sector or an image\<close>

lemma length_put_at [simp]: "i + length bs \<le> length xs \<Longrightarrow> length (put_at i bs xs) = length xs"
  by (simp add: put_at_def)

lemma slice_put_below: "j \<le> i \<Longrightarrow> i \<le> length xs \<Longrightarrow> slice k j (put_at i bs xs) = slice k j xs"
  by (simp add: slice_def put_at_def take_drop min_def)

lemma slice_put_above: "i + length bs \<le> k \<Longrightarrow> i + length bs \<le> length xs \<Longrightarrow> slice k j (put_at i bs xs) = slice k j xs"
  by (simp add: slice_def put_at_def)

lemma slice_put_here: "i + length bs \<le> j \<Longrightarrow> i \<le> length xs \<Longrightarrow>
    slice i j (put_at i bs xs) = bs @ drop (length bs) (slice i j xs)"
  by (simp add: slice_def put_at_def drop_take add.commute)

lemma slice_put_inside:
  "i \<le> k \<Longrightarrow> k \<le> j \<Longrightarrow> j \<le> i + length bs \<Longrightarrow> i \<le> length xs \<Longrightarrow> slice k j (put_at i bs xs) = slice (k - i) (j - i) bs"
  by (simp add: slice_def put_at_def)

lemmas slice_put = slice_put_below slice_put_above slice_put_inside

lemma sector_puts_simps [simp]:
  "sector_puts [] part = part" "sector_puts ((at, bs) # ps) part = sector_puts ps (put_at at bs part)"
  by (simp_all add: sector_puts_def)

lemma cluster_room:
  fixes c n cb :: nat
  assumes "2 \<le> c" "c < n"
  shows "(c - 2) * cb + cb \<le> (n - 2) * cb"
proof -
  have "(Suc (c - 2)) * cb \<le> (n - 2) * cb" using assms by (intro mult_le_mono1) simp
  then show ?thesis by simp
qed

text \<open>A cluster's bytes after one cluster was put.\<close>

lemma put_cluster:
  assumes "2 \<le> b" "b < n" "length x \<le> cb" "at + (n - 2) * cb \<le> length part"
  defines "p \<equiv> put_at (at + (b - 2) * cb) x part"
  shows "length p = length part"
    and "j \<le> at \<Longrightarrow> slice i j p = slice i j part"
    and "2 \<le> c \<Longrightarrow> c < n \<Longrightarrow> slice (at + (c - 2) * cb) (at + (c - 2) * cb + cb) p =
      (if c = b then x @ drop (length x) (slice (at + (c - 2) * cb) (at + (c - 2) * cb + cb) part)
       else slice (at + (c - 2) * cb) (at + (c - 2) * cb + cb) part)"
proof -
  note room = cluster_room [OF assms(1,2), of cb]
  show "length p = length part" using room assms(3,4) by (simp add: p_def)
  show "slice i j p = slice i j part" if "j \<le> at"
    unfolding p_def using that room assms(4) by (intro slice_put_below) simp_all
  assume c: "2 \<le> c" "c < n"
  consider "c = b" | "c < b" | "b < c" by linarith
  then show "slice (at + (c - 2) * cb) (at + (c - 2) * cb + cb) p =
      (if c = b then x @ drop (length x) (slice (at + (c - 2) * cb) (at + (c - 2) * cb + cb) part)
       else slice (at + (c - 2) * cb) (at + (c - 2) * cb + cb) part)"
  proof cases
    case 1
    then show ?thesis unfolding p_def using room assms(3,4) by (simp add: slice_put_here)
  next
    case 2
    then have "Suc (c - 2) * cb \<le> (b - 2) * cb" using c by (intro mult_le_mono1) simp
    then show ?thesis unfolding p_def using 2 room assms(4) by (simp add: slice_put_below)
  next
    case 3
    then have "Suc (b - 2) * cb \<le> (c - 2) * cb" using assms(1) by (intro mult_le_mono1) simp
    then show ?thesis unfolding p_def using 3 room assms(3,4) by (simp add: slice_put_above)
  qed
qed

lemma puts_clusters_all:
  assumes "data_ok cb n d" "at + (n - 2) * cb \<le> length part"
  shows "length (sector_puts (map (\<lambda>(c, x). (at + (c - 2) * cb, x)) d) part) = length part \<and>
    (\<forall>i j. j \<le> at \<longrightarrow> slice i j (sector_puts (map (\<lambda>(c, x). (at + (c - 2) * cb, x)) d) part) = slice i j part) \<and>
    (\<forall>c. 2 \<le> c \<and> c < n \<longrightarrow>
      slice (at + (c - 2) * cb) (at + (c - 2) * cb + cb) (sector_puts (map (\<lambda>(c, x). (at + (c - 2) * cb, x)) d) part) =
      (case map_of d c of None \<Rightarrow> slice (at + (c - 2) * cb) (at + (c - 2) * cb + cb) part
       | Some x \<Rightarrow> x @ drop (length x) (slice (at + (c - 2) * cb) (at + (c - 2) * cb + cb) part)))"
  using assms
proof (induction d arbitrary: part)
  case (Cons a d)
  obtain b x where a: "a = (b, x)" by (cases a)
  have b: "2 \<le> b" "b < n" "length x \<le> cb" "map_of d b = None" and d: "data_ok cb n d"
    using Cons.prems(1) a by (auto simp: data_ok_def map_of_eq_None_iff)
  note P = put_cluster [OF b(1-3) Cons.prems(2)]
  note IH = Cons.IH [OF d, of "put_at (at + (b - 2) * cb) x part", unfolded P(1), OF Cons.prems(2)]
  show ?case using IH P(2,3) b(4) by (auto simp: a P(1) split: option.split)
qed simp

text \<open>Writing clusters: each is written once, inside its own area.\<close>

lemma puts_clusters:
  assumes "data_ok cb n d" "at + (n - 2) * cb \<le> length part"
  defines "res \<equiv> sector_puts (map (\<lambda>(c, x). (at + (c - 2) * cb, x)) d) part"
  shows "length res = length part"
    and "j \<le> at \<Longrightarrow> slice i j res = slice i j part"
    and "2 \<le> c \<Longrightarrow> c < n \<Longrightarrow> slice (at + (c - 2) * cb) (at + (c - 2) * cb + cb) res =
      (case map_of d c of None \<Rightarrow> slice (at + (c - 2) * cb) (at + (c - 2) * cb + cb) part
       | Some x \<Rightarrow> x @ drop (length x) (slice (at + (c - 2) * cb) (at + (c - 2) * cb + cb) part))"
  using puts_clusters_all [OF assms(1,2)] unfolding res_def by simp_all

section \<open>The geometry of an image\<close>

text \<open>A reader's view of a card image: all sizes come from its master boot record and its boot sector.\<close>

definition img_part :: "byte list \<Rightarrow> nat" where
  "img_part img = nat (unpack_u 4 454 img) * 512"

definition img_field :: "byte list \<Rightarrow> nat \<Rightarrow> nat \<Rightarrow> nat" where
  "img_field img n at = nat (unpack_u n (img_part img + at) img)"

definition img_fat :: "byte list \<Rightarrow> nat \<Rightarrow> nat" where
  "img_fat img c = nat (unpack_u 4 (img_part img + img_field img 2 14 * 512 + 4 * c) img)"

definition img_cluster_bytes :: "byte list \<Rightarrow> nat" where
  "img_cluster_bytes img = img_field img 1 13 * 512"

definition img_data :: "byte list \<Rightarrow> nat" where
  "img_data img = img_part img + (img_field img 2 14 + img_field img 1 16 * img_field img 4 36) * 512"

definition img_cluster :: "byte list \<Rightarrow> nat \<Rightarrow> byte list" where
  "img_cluster img c =
     (let at = img_data img + (c - 2) * img_cluster_bytes img in slice at (at + img_cluster_bytes img) img)"

text \<open>Reading the file at a path of 8.3 names from a card image.\<close>

definition img_read :: "byte list \<Rightarrow> byte list list \<Rightarrow> byte list option" where
  "img_read img parts = read_path (img_fat img) (img_cluster img) (length img) parts (img_field img 4 44)"

lemma unpack_eq_slice: "unpack_u n i xs = int_of_le (slice i (i + n) xs)"
  by (simp add: unpack_u_def)

lemma mbr_lba:
  assumes "mbr_sector ps = Inr mbr"
  shows "length mbr = 512 \<and> unpack_u 4 454 mbr = 2048"
proof -
  let ?l = "le_bytes 4 (int FAT_PART_LBA) @ le_bytes 4 ps"
  let ?z = "replicate 512 (0 :: byte)"
  let ?e = "[0] @ pack_s 3 [0xFE, 0xFF, 0xFF] @ [0x0C] @ pack_s 3 [0xFE, 0xFF, 0xFF] @ ?l"
  have m: "mbr = put_at 510 [0x55, 0xAA] (put_at 446 ?e ?z)"
    using assms by (auto simp: mbr_sector_def VUX_SECTOR_def simp del: le_bytes.simps split: if_splits)
  have e: "length ?e = 16" by (simp add: pack_s_def)
  have "slice 454 458 mbr = slice 8 12 ?e" unfolding m using e by (simp add: slice_put del: append_Cons)
  also have "\<dots> = le_bytes 4 (int FAT_PART_LBA)" by (simp add: slice_def pack_s_def ljust_def numeral_eq_Suc FAT_PART_LBA_def)
  finally have "unpack_u 4 454 mbr = 2048" by (simp add: unpack_eq_slice int_of_le_bytes FAT_PART_LBA_def del: le_bytes.simps)
  moreover have "length mbr = 512" unfolding m using e by simp
  ultimately show ?thesis by simp
qed

lemma unpack_put_below: "k + n \<le> i \<Longrightarrow> i \<le> length xs \<Longrightarrow> unpack_u n k (put_at i bs xs) = unpack_u n k xs"
  by (simp add: unpack_u_def slice_put_below)

lemma unpack_put_above: "i + length bs \<le> k \<Longrightarrow> i + length bs \<le> length xs \<Longrightarrow> unpack_u n k (put_at i bs xs) = unpack_u n k xs"
  by (simp add: unpack_u_def slice_put_above)

lemma unpack_put_inside:
  "i \<le> k \<Longrightarrow> k + n \<le> i + length bs \<Longrightarrow> i \<le> length xs \<Longrightarrow> unpack_u n k (put_at i bs xs) = unpack_u n (k - i) bs"
  by (simp add: unpack_u_def slice_put_inside)

lemmas unpack_put = unpack_put_below unpack_put_above unpack_put_inside

lemma boot_fields:
  assumes "boot_sector ps cs f r label = Inr boot"
  shows "length boot = 512 \<and> unpack_u 1 13 boot = cs \<and> unpack_u 2 14 boot = 32 \<and> unpack_u 1 16 boot = 2 \<and>
    unpack_u 4 36 boot = f \<and> unpack_u 4 44 boot = int r"
proof -
  let ?bpb = "le_bytes 2 512 @ le_bytes 1 cs @ le_bytes 2 32 @ le_bytes 1 2 @ le_bytes 2 0 @ le_bytes 2 0 @ le_bytes 1 0xF8 @
    le_bytes 2 0 @ le_bytes 2 63 @ le_bytes 2 255 @ le_bytes 4 2048 @ le_bytes 4 ps"
  let ?b32 = "le_bytes 4 f @ le_bytes 2 0 @ le_bytes 2 0 @ le_bytes 4 (int r) @ le_bytes 2 1 @ le_bytes 2 6"
  let ?ext = "(le_bytes 1 0x80 @ le_bytes 1 0 @ le_bytes 1 0x29 @ le_bytes 4 VUX_MAGIC) @ pack_s 11 (label11 label) @ pack_s 8 (encode ''FAT32   '')"
  have v: "fits 8 cs" "fits 32 ps" "fits 32 f" "fits 32 (int r)"
    and b: "boot = put_at 510 [0x55, 0xAA] (put_at 64 ?ext (put_at 36 ?b32 (put_at 11 ?bpb
        (put_at 3 (encode ''VUX9K   '') (put_at 0 [0xEB, 0x58, 0x90] (replicate 512 0))))))"
    using assms
    by (auto simp: boot_sector_def VUX_SECTOR_def FAT_RESERVED_def FAT_PART_LBA_def VUX_MAGIC_def simp del: le_bytes.simps split: if_splits)
  have len: "length ?bpb = 25" "length ?b32 = 16" "length ?ext = 26" "length (encode ''VUX9K   '') = 8"
    by (simp_all add: pack_s_def encode_def)
  have "unpack_u 1 2 ?bpb = cs" "unpack_u 2 3 ?bpb = 32" "unpack_u 1 5 ?bpb = 2"
    using v by (simp_all add: unpack_rules del: le_bytes.simps)
  moreover have "unpack_u 4 0 ?b32 = f" "unpack_u 4 8 ?b32 = int r"
    using v by (simp_all add: unpack_rules del: le_bytes.simps)
  ultimately show ?thesis
    unfolding b using len by (simp add: unpack_put del: le_bytes.simps append_assoc)
qed

lemma pack_words_at:
  "pack_fields (map (\<lambda>v. (4, int v)) vs) = Inr raw \<Longrightarrow>
   length raw = 4 * length vs \<and> (\<forall>c < length vs. unpack_u 4 (4 * c) raw = int (vs ! c))"
proof (induction vs arbitrary: raw)
  case (Cons v vs)
  obtain r where r: "pack_fields (map (\<lambda>v. (4, int v)) vs) = Inr r" and raw: "raw = le_bytes 4 (int v) @ r" and v: "fits 32 (int v)"
    using Cons.prems by (auto simp del: le_bytes.simps split: if_splits)
  have "unpack_u 4 (4 * c) raw = int ((v # vs) ! c)" if "c < length (v # vs)" for c
    using that Cons.IH [OF r] v unfolding raw by (cases c) (simp_all add: unpack_rules del: le_bytes.simps)
  then show ?case using Cons.IH [OF r] unfolding raw by (simp del: le_bytes.simps)
qed simp

section \<open>The image's parts\<close>

text \<open>The partition that \<open>build_fat32_image\<close> lays out, from its boot sectors, its FAT and its clusters.\<close>

definition part_bytes :: "nat \<Rightarrow> nat \<Rightarrow> nat \<Rightarrow> byte list \<Rightarrow> byte list \<Rightarrow> byte list \<Rightarrow> (nat \<times> byte list) list \<Rightarrow> byte list" where
  "part_bytes ps f cb boot fsinfo fat_raw d =
     sector_puts (map (\<lambda>(c, x). ((32 + 2 * f) * 512 + (c - 2) * cb, x)) d)
       (sector_puts [(32 * 512, fat_raw), ((32 + f) * 512, fat_raw)]
         (sector_puts [(0, boot), (512, fsinfo), (6 * 512, boot), (7 * 512, fsinfo)] (replicate (ps * 512) 0)))"

lemma slice_all: "length xs = n \<Longrightarrow> slice 0 n xs = xs"
  by (simp add: slice_def)

lemma slice_zeros: "j \<le> n \<Longrightarrow> slice i j (replicate n x) = replicate (j - i) x"
  by (simp add: slice_def)

lemma part_layout:
  assumes boot: "length boot = 512" and fs: "length fsinfo = 512" and fat: "length fat_raw = 4 * n" "4 * n \<le> f * 512"
    and d: "data_ok cb n d" and room: "(32 + 2 * f) * 512 + (n - 2) * cb \<le> ps * 512" and cb: "0 < cb"
  defines "part \<equiv> part_bytes ps f cb boot fsinfo fat_raw d"
  shows "length part = ps * 512"
    and "slice 0 512 part = boot"
    and "slice (32 * 512) (32 * 512 + 4 * n) part = fat_raw"
    and "2 \<le> c \<Longrightarrow> c < n \<Longrightarrow> map_of d c = Some x \<Longrightarrow>
      slice ((32 + 2 * f) * 512 + (c - 2) * cb) ((32 + 2 * f) * 512 + (c - 2) * cb + cb) part = ljust cb 0 x"
proof -
  let ?p1 = "sector_puts [(0, boot), (512, fsinfo), (6 * 512, boot), (7 * 512, fsinfo)] (replicate (ps * 512) 0)"
  let ?p2 = "sector_puts [(32 * 512, fat_raw), ((32 + f) * 512, fat_raw)] ?p1"
  let ?at = "(32 + 2 * f) * 512"
  have big: "32 * 512 + 2 * (f * 512) \<le> ps * 512" using room by simp
  have l1: "length ?p1 = ps * 512" using big boot fs by simp
  have l2: "length ?p2 = ps * 512" using big l1 fat by simp
  note C = puts_clusters [OF d, of ?at ?p2, unfolded l2, OF room]
  show "length part = ps * 512" using C(1) by (simp add: part_def part_bytes_def)
  have low: "slice i j part = slice i j ?p2" if "j \<le> ?at" for i j
    using C(2) [OF that] by (simp add: part_def part_bytes_def)
  have "slice 0 512 ?p2 = slice 0 512 ?p1"
    using big l1 fat by (simp add: slice_put del: sector_puts_simps(2)) (simp add: slice_put)
  also have "\<dots> = slice 0 512 boot" using big boot fs by (simp add: slice_put)
  also have "\<dots> = boot" using boot by (rule slice_all)
  finally show "slice 0 512 part = boot" using low by simp
  show "slice (32 * 512) (32 * 512 + 4 * n) part = fat_raw"
    using low [of "32 * 512 + 4 * n" "32 * 512"] big l1 fat by (simp add: slice_put slice_all)
  assume c: "2 \<le> c" "c < n" and m: "map_of d c = Some x"
  have x: "length x \<le> cb" using d map_of_SomeD [OF m] by (auto simp: data_ok_def list_all_iff)
  have "Suc (c - 2) * cb \<le> (n - 2) * cb" using c by (intro mult_le_mono1) simp
  then have in_part: "?at + (c - 2) * cb + cb \<le> ps * 512" using room by simp
  have "slice (?at + (c - 2) * cb) (?at + (c - 2) * cb + cb) ?p2 = replicate cb 0"
    using in_part big l1 boot fs fat by (simp add: slice_put slice_zeros)
  then show "slice (?at + (c - 2) * cb) (?at + (c - 2) * cb + cb) part = ljust cb 0 x"
    using C(3) [OF c] m x by (simp add: part_def part_bytes_def ljust_def)
qed

lemma fat_geometry:
  assumes cs: "0 < cs" and n: "int n \<le> fat_clusters ps cs (fat_size ps cs 1) + 2"
  shows "1 \<le> fat_size ps cs 1" and "4 * n \<le> nat (fat_size ps cs 1) * 512"
    and "2 \<le> n \<Longrightarrow> (32 + 2 * nat (fat_size ps cs 1)) * 512 + (n - 2) * (nat cs * 512) \<le> nat ps * 512"
proof -
  let ?f = "fat_size ps cs 1"
  show f: "1 \<le> ?f" by (rule fat_size_ge)
  have "int (4 * n) \<le> ?f * 512"
    using n fat_size_enough [of ps cs 1] by (simp add: fat_enough_def VUX_SECTOR_def)
  then show "4 * n \<le> nat ?f * 512" using f by simp
  assume "2 \<le> n"
  then have k: "int (n - 2) \<le> fat_clusters ps cs ?f" using n by simp
  have "int (n - 2) * cs \<le> fat_clusters ps cs ?f * cs" using k cs by (simp add: mult_right_mono)
  also have "\<dots> \<le> ps - 32 - 2 * ?f"
    unfolding fat_clusters_def FAT_RESERVED_def using cs by (simp add: minus_mod_eq_div_mult [symmetric])
  finally have "32 + 2 * ?f + int (n - 2) * cs \<le> ps" by simp
  moreover have "0 \<le> int (n - 2) * cs" using cs by simp
  ultimately have "nat (32 + 2 * ?f + int (n - 2) * cs) \<le> nat ps" by (simp only: nat_le_eq_zle nat_mono)
  moreover have "nat (32 + 2 * ?f + int (n - 2) * cs) = 32 + 2 * nat ?f + (n - 2) * nat cs"
    using f cs by (simp add: nat_add_distrib nat_mult_distrib)
  ultimately have "(32 + 2 * nat ?f + (n - 2) * nat cs) * 512 \<le> nat ps * 512" by (intro mult_le_mono1) simp
  then show "(32 + 2 * nat ?f) * 512 + (n - 2) * (nat cs * 512) \<le> nat ps * 512" by (simp add: algebra_simps)
qed

lemma build_parts:
  assumes "build_fat32_image files ps cs label = Inr img"
  obtains t s boot fsinfo fat_raw mbr where "0 < cs" "build_tree files [] = Inr t"
    "fill_clusters (nat cs * 512) (fat_clusters ps cs (fat_size ps cs 1)) label t = Inr (2, s)"
    "boot_sector ps cs (fat_size ps cs 1) 2 label = Inr boot" "length fsinfo = 512"
    "pack_fields (map (\<lambda>v. (4, int v)) (fs_fat s)) = Inr fat_raw" "mbr_sector ps = Inr mbr"
    "img = mbr @ replicate 1048064 0 @ part_bytes (nat ps) (nat (fat_size ps cs 1)) (nat cs * 512) boot fsinfo fat_raw (fs_data s)"
proof -
  have cs: "cs \<in> {1, 2, 4, 8, 16, 32, 64, 128}"
    using assms unfolding build_fat32_image_def by (cases "cs \<in> {1, 2, 4, 8, 16, 32, 64, 128}") simp_all
  obtain t r s boot fsinfo fat_raw mbr where t: "build_tree files [] = Inr t"
    and fc: "fill_clusters (nat cs * VUX_SECTOR) (fat_clusters ps cs (fat_size ps cs 1)) label t = Inr (r, s)"
    and b: "boot_sector ps cs (fat_size ps cs 1) r label = Inr boot"
    and fi: "fsinfo_sector (fat_clusters ps cs (fat_size ps cs 1) - int (length (fs_fat s) - 2)) (int (length (fs_fat s))) = Inr fsinfo"
    and fr: "pack_fields (map (\<lambda>v. (4, int v)) (fs_fat s)) = Inr fat_raw"
    and m: "mbr_sector ps = Inr mbr"
    and img: "img = mbr @ replicate ((FAT_PART_LBA - 1) * VUX_SECTOR) 0 @
      sector_puts (map (\<lambda>(c, content). ((FAT_RESERVED + 2 * nat (fat_size ps cs 1)) * VUX_SECTOR + (c - 2) * (nat cs * VUX_SECTOR), content)) (fs_data s))
        (sector_puts (map (\<lambda>copy. ((FAT_RESERVED + copy * nat (fat_size ps cs 1)) * VUX_SECTOR, fat_raw)) [0, 1])
          (sector_puts [(0 * VUX_SECTOR, boot), (1 * VUX_SECTOR, fsinfo), (6 * VUX_SECTOR, boot), (7 * VUX_SECTOR, fsinfo)]
            (replicate (nat ps * VUX_SECTOR) 0)))"
    using assms cs unfolding build_fat32_image_def Let_def split_def
    by (simp split: if_splits del: sector_puts_simps) blast
  have r: "r = 2" using fill_clusters_stored [OF fc] by simp
  have "length fsinfo = 512"
    using fi by (auto simp: fsinfo_sector_def VUX_SECTOR_def simp del: le_bytes.simps split: if_splits)
  then show thesis
    using that [of t s boot fsinfo fat_raw mbr] cs t fc b fr m img r
    by (auto simp: VUX_SECTOR_def FAT_RESERVED_def FAT_PART_LBA_def part_bytes_def split_def)
qed

lemma unpack_of_slice: "i \<le> k \<Longrightarrow> k + n \<le> j \<Longrightarrow> unpack_u n k xs = unpack_u n (k - i) (slice i j xs)"
  by (simp add: unpack_u_def slice_def drop_take min_def)

lemma img_shift:
  assumes m: "mbr_sector ps = Inr mbr" and img: "img = mbr @ replicate 1048064 0 @ part"
  shows "img_part img = 1048576" "length img = 1048576 + length part"
    "unpack_u k (1048576 + i) img = unpack_u k i part" "slice (1048576 + i) (1048576 + j) img = slice i j part"
proof -
  have pre: "length (mbr @ replicate 1048064 0) = 1048576" using mbr_lba [OF m] by simp
  show "img_part img = 1048576"
    using mbr_lba [OF m] unpack_of_slice [of 0 454 4 512 img] unfolding img_part_def img by (simp add: slice_here)
  show "length img = 1048576 + length part" using mbr_lba [OF m] by (simp add: img)
  show "unpack_u k (1048576 + i) img = unpack_u k i part"
    using pre unpack_skip [of "mbr @ replicate 1048064 0" "1048576 + i" k part] by (simp add: img)
  show "slice (1048576 + i) (1048576 + j) img = slice i j part"
    using pre slice_skip [of "mbr @ replicate 1048064 0" "1048576 + i" "1048576 + j" part] by (simp add: img)
qed

lemma img_cluster_at:
  assumes "img_part img = 1048576" "img_field img 1 13 = spc" "img_field img 2 14 = 32" "img_field img 1 16 = 2" "img_field img 4 36 = f"
  shows "img_cluster img c = slice (1048576 + ((32 + 2 * f) * 512 + (c - 2) * (spc * 512)))
    (1048576 + ((32 + 2 * f) * 512 + (c - 2) * (spc * 512) + spc * 512)) img"
proof -
  have "img_data img = 1048576 + (32 + 2 * f) * 512" unfolding img_data_def assms by simp
  then show ?thesis unfolding img_cluster_def img_cluster_bytes_def assms Let_def by (simp only: add.assoc)
qed

lemma img_volume:
  assumes b: "build_fat32_image files ps cs label = Inr img" and small: "ps < 0x0FFFFFF8"
  obtains t s where "build_tree files [] = Inr t"
    "dir_stored (nat cs * 512) label s {2..<length (fs_fat s)} t 2 0 True" "length (fs_fat s) \<le> length img"
    "length img = (2048 + nat ps) * 512" "img_field img 4 44 = 2"
    "fat_volume (img_fat img) (img_cluster img) (nat cs * 512) s" "0 < nat cs * 512" "length (fs_fat s) \<le> 0x0FFFFFF8"
proof (rule build_parts [OF b])
  fix t and s :: fat_state and boot fsinfo fat_raw mbr
  let ?f = "nat (fat_size ps cs 1)" and ?cb = "nat cs * 512"
  let ?part = "part_bytes (nat ps) ?f ?cb boot fsinfo fat_raw (fs_data s)" and ?n = "length (fs_fat s)"
  assume cs: "0 < cs" and t: "build_tree files [] = Inr t"
    and fc: "fill_clusters ?cb (fat_clusters ps cs (fat_size ps cs 1)) label t = Inr (2, s)"
    and bt: "boot_sector ps cs (fat_size ps cs 1) 2 label = Inr boot" and fi: "length fsinfo = 512"
    and fr: "pack_fields (map (\<lambda>v. (4, int v)) (fs_fat s)) = Inr fat_raw" and m: "mbr_sector ps = Inr mbr"
    and img: "img = mbr @ replicate 1048064 0 @ ?part"
  have st: "dir_stored ?cb label s {2..<?n} t 2 0 True" and wf: "data_ok ?cb ?n (fs_data s)"
    and n: "3 \<le> ?n" "int ?n \<le> fat_clusters ps cs (fat_size ps cs 1) + 2"
    using fill_clusters_stored [OF fc] by (simp_all add: fat_wf_def)
  note G = fat_geometry [OF cs n(2)] and B = boot_fields [OF bt] and F = pack_words_at [OF fr] and S = img_shift [OF m img]
  have room: "(32 + 2 * ?f) * 512 + (?n - 2) * ?cb \<le> nat ps * 512" and cb: "0 < ?cb" using G(3) n(1) cs by simp_all
  have bl: "length boot = 512" and fl: "length fat_raw = 4 * ?n" using B F by blast+
  note P = part_layout [OF bl fi fl G(2) wf room cb]
  have fld: "img_field img k i = nat (unpack_u k i boot)" if "i + k \<le> 512" for k i
    using unpack_of_slice [of 0 i k 512 ?part] that P(2) by (simp add: img_field_def S)
  have I: "img_field img 1 13 = nat cs" "img_field img 2 14 = 32" "img_field img 1 16 = 2" "img_field img 4 36 = ?f"
    and root: "img_field img 4 44 = 2"
    using B by (simp_all add: fld)
  have len: "length img = (2048 + nat ps) * 512" using S(2) P(1) by simp
  have nxt: "img_fat img c = fs_fat s ! c" if "c < ?n" for c
    using that F P(3) unpack_of_slice [of "32 * 512" "32 * 512 + 4 * c" 4 "32 * 512 + 4 * ?n" ?part]
      S(3) [of 4 "32 * 512 + 4 * c"] by (simp add: img_fat_def S(1) I(2))
  have clus: "img_cluster img c = ljust ?cb 0 x" if c: "map_of (fs_data s) c = Some x" for c x
  proof -
    have "2 \<le> c" "c < ?n" using wf map_of_SomeD [OF c] by (auto simp: data_ok_def list_all_iff)
    then show ?thesis unfolding img_cluster_at [OF S(1) I] S(4) using P(4) c by simp
  qed
  have "(?n - 2) * 512 \<le> (?n - 2) * ?cb" using cs by (intro mult_le_mono2) simp
  then have "(?n - 2) * 512 + 32 * 512 \<le> nat ps * 512" using room by (auto simp only: add_mult_distrib)
  then have sm: "?n \<le> 0x0FFFFFF8" "?n \<le> length img" using small len by simp_all
  show thesis
    using that [OF t st sm(2) len root] nxt clus sm(1) cb by (simp add: fat_volume_def)
qed

section \<open>Reading the files back\<close>

lemma fat_image_reads_aux:
  assumes "build_fat32_image files ps cs label = Inr img" "ps < 0x0FFFFFF8"
  shows "length img = (2048 + nat ps) * 512 \<and>
    (\<forall>(path, x) \<in> set files. \<exists>parts. path_parts path = Inr parts \<and> img_read img parts = Some x)"
proof (rule img_volume [OF assms])
  fix t and s :: fat_state
  assume t: "build_tree files [] = Inr t" and d: "dir_stored (nat cs * 512) label s {2..<length (fs_fat s)} t 2 0 True"
    and n: "length (fs_fat s) \<le> length img" and len: "length img = (2048 + nat ps) * 512" and r: "img_field img 4 44 = 2"
    and v: "fat_volume (img_fat img) (img_cluster img) (nat cs * 512) s"
    and cb: "0 < nat cs * 512" and small: "length (fs_fat s) \<le> 0x0FFFFFF8"
  have T: "node_ok (Dir t)" "\<forall>(path, x) \<in> set files. \<exists>parts. path_parts path = Inr parts \<and> tree_get parts t = Some x"
    using build_tree_get [OF t] by simp_all
  have "\<exists>parts. path_parts path = Inr parts \<and> img_read img parts = Some x" if "(path, x) \<in> set files" for path x
  proof -
    obtain parts where p: "path_parts path = Inr parts" and g: "tree_get parts t = Some x" using T(2) \<open>(path, x) \<in> set files\<close> by blast
    have "img_read img parts = Some x"
      unfolding img_read_def r by (rule fat_volume.read_stored [OF v d subset_refl n T(1) path_parts_ok [OF p] g cb small])
    with p show ?thesis by blast
  qed
  with len show ?thesis by blast
qed

text \<open>
  C19: a card image holds its files. When \<open>build_fat32_image\<close> returns an image for a partition of fewer than
  \<open>0x0FFFFFF8\<close> sectors, the image has the 2048 sectors before the partition and the partition's sectors, and a
  FAT32 reader that takes its geometry from the master boot record and the boot sector finds every given file under
  the 8.3 names of its path, with exactly the given contents.
\<close>

theorem fat_image_reads:
  assumes "build_fat32_image files ps cs label = Inr img" "ps < 0x0FFFFFF8"
  shows "length img = (2048 + nat ps) * 512 \<and>
    (\<forall>(path, x) \<in> set files. \<exists>parts. path_parts path = Inr parts \<and> img_read img parts = Some x)"
  using assms by (rule fat_image_reads_aux)

text \<open>A call with one file in a directory returns.\<close>

lemma alloc_small:
  "length x \<le> 512 \<Longrightarrow> alloc 512 cl x s =
     (if int (length (fs_fat s)) + 1 > cl + 2 then Inl ValueError
      else Inr (length (fs_fat s), s\<lparr>fs_fat := fs_fat s @ [FAT_EOC], fs_data := dict_set (length (fs_fat s)) x (fs_data s)\<rparr>))"
proof -
  assume l: "length x \<le> 512"
  have "max 1 (ceil_div (length x) 512) = 1" using l by (cases x) (auto simp: ceil_div_def)
  then show ?thesis using l by (simp add: alloc_def slice_def Let_def)
qed

lemma one_file_image:
  assumes f: "fat_size ps 1 1 = f" and c: "fat_clusters ps 1 f = cl" and v: "fits 32 ps" "fits 32 f" "3 \<le> cl" "fits 32 cl"
    and b: "build_tree [(path, x)] [] = Inr [(n1, Dir [(n2, File x)])]" and x: "x \<noteq> []" "length x \<le> 512"
  shows "\<exists>img. build_fat32_image [(path, x)] ps 1 ''VUX9K'' = Inr img"
proof -
  let ?t = "[(n1, Dir [(n2, File x)])]"
  have "case fill_clusters 512 cl ''VUX9K'' ?t of Inl e \<Rightarrow> False
      | Inr (r, s) \<Rightarrow> r = 2 \<and> length (fs_fat s) = 5 \<and> list_all (\<lambda>v. v < 0x10000000) (fs_fat s)"
    using v(3) x
    by (simp add: fill_clusters_def alloc_small FAT_EOC_def FAT_DATE_1980_def head_entries_def fat_entry_def fits_def ceil_div_def
        write_raw_def put_parts_def link_chain_def pack_s_def drop_bit_eq_div del: le_bytes.simps)
  then obtain s where s: "fill_clusters 512 cl ''VUX9K'' ?t = Inr (2, s)" "length (fs_fat s) = 5"
    "list_all (\<lambda>v. v < 0x10000000) (fs_fat s)"
    by (auto split: sum.splits)
  have "\<exists>raw. pack_fields (map (\<lambda>v. (4, int v)) vs) = Inr raw" if "list_all (\<lambda>v. v < 0x10000000) vs" for vs
    using that by (induction vs) (auto simp: fits_def)
  then obtain raw where r: "pack_fields (map (\<lambda>v. (4, int v)) (fs_fat s)) = Inr raw" using s(3) by blast
  obtain boot where bo: "boot_sector ps 1 f 2 ''VUX9K'' = Inr boot"
    using v by (simp add: boot_sector_def VUX_SECTOR_def FAT_RESERVED_def FAT_PART_LBA_def VUX_MAGIC_def del: le_bytes.simps)
  have "fits 32 (cl - 3)" using v by (simp add: fits_def)
  then obtain fi where fi: "fsinfo_sector (cl - 3) 5 = Inr fi"
    by (simp add: fsinfo_sector_def del: le_bytes.simps)
  obtain mbr where m: "mbr_sector ps = Inr mbr"
    using v by (simp add: mbr_sector_def FAT_PART_LBA_def del: le_bytes.simps)
  have "\<not> ps < 0" using v by (simp add: fits_def)
  then show ?thesis
    using s(2) by (simp add: build_fat32_image_def f c b s(1) r bo fi m VUX_SECTOR_def del: rbind_eq_Inr rmap_eq_Inr build_tree.simps)
qed

lemma small_image:
  assumes f: "fat_size ps 1 1 = f" and c: "fat_clusters ps 1 f = cl" and v: "fits 32 ps" "fits 32 f" "3 \<le> cl" "fits 32 cl"
  shows "\<exists>img. build_fat32_image [(''D/a.b'', [7, 8])] ps 1 ''VUX9K'' = Inr img"
proof -
  have "build_tree [(''D/a.b'', [7, 8])] [] = Inr [(map of_char ''D          '', Dir [(map of_char ''A       B  '', File [7, 8])])]" by code_simp
  then show ?thesis by (rule one_file_image [OF assms]) simp_all
qed

text \<open>A card of the default size takes any one file in a directory that fills at most a cluster.\<close>

lemma default_card:
  assumes "build_tree [(path, x)] [] = Inr [(n1, Dir [(n2, File x)])]" "x \<noteq> []" "length x \<le> 512"
  shows "\<exists>img. build_fat32_image [(path, x)] 8192 1 ''VUX9K'' = Inr img"
proof -
  let ?f = "fat_size 8192 1 1"
  have "fat_enough 8192 1 64" by (simp add: fat_enough_def fat_clusters_def FAT_RESERVED_def VUX_SECTOR_def)
  then have "?f \<le> 64" using fat_size_least [of 1 64 8192 1] by linarith
  moreover have "1 \<le> ?f" by (rule fat_size_ge)
  ultimately show ?thesis
    by (intro one_file_image [OF refl refl _ _ _ _ assms]) (simp_all add: fits_def fat_clusters_def FAT_RESERVED_def)
qed

theorem fat_image_reads_witness:
  "\<exists>img parts. build_fat32_image [(''D/a.b'', [7, 8])] 64 1 ''VUX9K'' = Inr img \<and> (64 :: int) < 0x0FFFFFF8 \<and>
     path_parts ''D/a.b'' = Inr parts \<and> img_read img parts = Some [7, 8]"
proof -
  have "fat_size 64 1 1 = 1"
    by (subst fat_size.simps) (simp add: fat_enough_def fat_clusters_def FAT_RESERVED_def VUX_SECTOR_def)
  then obtain img where i: "build_fat32_image [(''D/a.b'', [7, 8])] 64 1 ''VUX9K'' = Inr img"
    using small_image [of 64 1] by (auto simp: fat_clusters_def FAT_RESERVED_def)
  show ?thesis using fat_image_reads [OF i] i by auto
qed

section \<open>8.3 names do not collide\<close>

lemma rpartition_join:
  "rpartition_dot s = (b, d, e) \<Longrightarrow> (d \<longrightarrow> s = b @ CHR ''.'' # e) \<and> (\<not> d \<longrightarrow> b = [] \<and> s = e \<and> CHR ''.'' \<notin> set s)"
proof -
  let ?n = "\<lambda>c. c \<noteq> CHR ''.''"
  assume r: "rpartition_dot s = (b, d, e)"
  show ?thesis
  proof (cases "CHR ''.'' \<in> set s")
    case True
    then obtain x y where s: "s = x @ CHR ''.'' # y" and y: "CHR ''.'' \<notin> set y" by (meson split_list_last)
    have n: "\<forall>c \<in> set (rev y). ?n c" using y by auto
    have "dropWhile ?n (rev s) = CHR ''.'' # rev x" "takeWhile ?n (rev s) = rev y"
      unfolding s using dropWhile_append2 [of "rev y" ?n] takeWhile_append2 [of "rev y" ?n] n by simp_all
    then show ?thesis using r True s by (auto simp: rpartition_dot_def)
  next
    case False
    then show ?thesis using r by (auto simp: rpartition_dot_def)
  qed
qed

lemma ljust_inj:
  assumes "ljust n sp a = ljust n sp b" "length a \<le> n" "length b \<le> n" "sp \<notin> set a" "sp \<notin> set b"
  shows "a = b"
proof -
  have k: "takeWhile (\<lambda>c. c \<noteq> sp) (ljust n sp x) = x" if "sp \<notin> set x" for x
  proof -
    have "takeWhile (\<lambda>c. c \<noteq> sp) (x @ replicate (n - length x) sp) = x @ takeWhile (\<lambda>c. c \<noteq> sp) (replicate (n - length x) sp)"
      by (rule takeWhile_append2) (use that in auto)
    then show ?thesis by (simp add: ljust_def takeWhile_replicate)
  qed
  show ?thesis using k [OF assms(4)] k [OF assms(5)] unfolding assms(1) by (rule trans [OF sym])
qed

lemma of_char_byte_inj: "of_char a = (of_char b :: byte) \<longleftrightarrow> a = b"
proof
  assume "of_char a = (of_char b :: byte)"
  then have "unat (of_nat (of_char a) :: byte) = unat (of_nat (of_char b) :: byte)" by (simp only: of_nat_of_char)
  moreover have "of_char c < (256 :: nat)" for c by simp
  ultimately have "of_char a = (of_char b :: nat)" by (simp add: unat_of_nat)
  then show "a = b" by simp
qed simp

lemma encode_inj: "encode a = encode b \<longleftrightarrow> a = b"
  unfolding encode_def by (rule inj_map_eq_map) (simp add: inj_def of_char_byte_inj)

lemma allowed_no_space: "CHR '' '' \<notin> set allowed" "CHR ''.'' \<notin> set allowed"
  by (code_simp, code_simp)

lemma short_name_parts:
  assumes "fat_short_name nm = Inr p"
  obtains base ext where "upper nm = base @ (if ext = [] then [] else CHR ''.'' # ext)"
    "p = encode (ljust 8 CHR '' '' base) @ encode (ljust 3 CHR '' '' ext)"
    "length base \<le> 8" "length ext \<le> 3" "CHR '' '' \<notin> set base" "CHR '' '' \<notin> set ext"
proof -
  obtain b d e where r: "rpartition_dot (upper nm) = (b, d, e)" by (cases "rpartition_dot (upper nm)")
  define base ext where "base = (if d then b else e)" and "ext = (if d then e else [])"
  have "p = encode (ljust 8 CHR '' '' base) @ encode (ljust 3 CHR '' '' ext) \<and> length base \<le> 8 \<and> length ext \<le> 3 \<and>
      (ext \<noteq> [] \<or> \<not> d) \<and> list_all (\<lambda>c. c \<in> set allowed) (base @ ext)"
    using assms r unfolding fat_short_name_def base_def ext_def
    by (cases d) (auto simp: Let_def split: if_splits simp del: list_all_append)
  moreover have "CHR '' '' \<notin> set base" "CHR '' '' \<notin> set ext" if "list_all (\<lambda>c. c \<in> set allowed) (base @ ext)"
    using that allowed_no_space by (auto simp: list_all_iff)
  moreover have "upper nm = base @ (if ext = [] then [] else CHR ''.'' # ext)" if "ext \<noteq> [] \<or> \<not> d"
    using that rpartition_join [OF r] by (auto simp: base_def ext_def)
  ultimately show thesis using that [of base ext] by blast
qed

text \<open>
  C20: 8.3 names. An accepted name gives eleven bytes that do not start with a dot, and two accepted names give the
  same eleven bytes exactly when they differ in nothing but letter case.
\<close>

theorem short_name_exact:
  assumes "fat_short_name a = Inr p" "fat_short_name b = Inr q"
  shows "name_ok p \<and> (p = q \<longleftrightarrow> upper a = upper b)"
proof -
  obtain ba ea where A: "upper a = ba @ (if ea = [] then [] else CHR ''.'' # ea)"
    "p = encode (ljust 8 CHR '' '' ba) @ encode (ljust 3 CHR '' '' ea)" "length ba \<le> 8" "length ea \<le> 3"
    "CHR '' '' \<notin> set ba" "CHR '' '' \<notin> set ea"
    using assms(1) by (rule short_name_parts)
  obtain bb eb where B: "upper b = bb @ (if eb = [] then [] else CHR ''.'' # eb)"
    "q = encode (ljust 8 CHR '' '' bb) @ encode (ljust 3 CHR '' '' eb)" "length bb \<le> 8" "length eb \<le> 3"
    "CHR '' '' \<notin> set bb" "CHR '' '' \<notin> set eb"
    using assms(2) by (rule short_name_parts)
  have l: "length (encode (ljust 8 CHR '' '' ba)) = length (encode (ljust 8 CHR '' '' bb))"
    using A(3) B(3) by (simp add: encode_def)
  have "upper a = upper b" if "p = q"
  proof -
    have b: "ljust 8 CHR '' '' ba = ljust 8 CHR '' '' bb" and e: "ljust 3 CHR '' '' ea = ljust 3 CHR '' '' eb"
      using that l unfolding A(2) B(2) by (simp_all add: encode_inj)
    show ?thesis
      unfolding A(1) B(1) ljust_inj [OF b A(3) B(3) A(5) B(5)] ljust_inj [OF e A(4) B(4) A(6) B(6)] by (rule refl)
  qed
  moreover have "p = q" if "upper a = upper b"
  proof -
    have "fat_short_name a = fat_short_name b"
      using assms that unfolding fat_short_name_def by (metis Inl_Inr_False)
    then show ?thesis using assms by simp
  qed
  ultimately have "p = q \<longleftrightarrow> upper a = upper b" by (rule iffI)
  then show ?thesis by (rule conjI [OF short_name_ok [OF assms(1)]])
qed

theorem short_name_exact_witness:
  "fat_short_name ''a.b'' = Inr (map of_char ''A       B  '') \<and> fat_short_name ''A.B'' = Inr (map of_char ''A       B  '') \<and>
   name_ok (map of_char ''A       B  '') \<and> upper ''a.b'' = upper ''A.B''"
proof -
  have a: "fat_short_name ''a.b'' = Inr (map of_char ''A       B  '')" by code_simp
  have b: "fat_short_name ''A.B'' = Inr (map of_char ''A       B  '')" by code_simp
  show ?thesis using short_name_exact [OF a b] a b by blast
qed

section \<open>Errors and sizes\<close>

lemma fill_result:
  "filled cl \<lparr>fs_fat = [0x0FFFFFF8, FAT_EOC], fs_data = []\<rparr> (tree_need cb t) (small_tree t) (rmap snd (fill_clusters cb cl label t))"
proof -
  let ?s = "\<lparr>fs_fat = [0x0FFFFFF8, FAT_EOC], fs_data = []\<rparr>"
  have A: "filled cl ?s 1 True (rmap snd (alloc cb cl [] ?s))" using alloc_filled [of cl ?s cb "[]"] by simp
  show ?thesis
  proof (cases "alloc cb cl [] ?s")
    case (Inl e)
    then have "filled cl ?s 1 True (Inl e)" using A by simp
    moreover have "1 \<le> tree_need cb t" by (simp add: tree_need_def clusters_of_def)
    ultimately have "filled cl ?s (tree_need cb t) (small_tree t) (Inl e)" by (rule filled_more) simp
    then show ?thesis using Inl by (simp add: fill_clusters_def)
  next
    case (Inr r)
    obtain first u where al: "alloc cb cl [] ?s = Inr (first, u)" using Inr by (cases r) auto
    then have u: "filled cl ?s 1 True (Inr u)" using A by simp
    have "first < length (fs_fat u)" using alloc_holds(3,4) [OF al] by simp
    note W = write_filled(1) [OF this _ filled_Inr [OF u, THEN conjunct2], of 0 cb t True label]
    have "filled cl ?s (1 + (entries_need cb t + (clusters_of cb (32 * (length t + 1)) - 1))) (small_tree t) (write_dir cb cl label t first 0 True u)"
      using filled_then [OF u W] by (simp del: write_dir.simps)
    moreover have "1 + (entries_need cb t + (clusters_of cb (32 * (length t + 1)) - 1)) = tree_need cb t"
      by (simp add: tree_need_def clusters_of_def)
    moreover have "rmap snd (fill_clusters cb cl label t) = write_dir cb cl label t first 0 True u"
      unfolding fill_clusters_def al by (cases "write_dir cb cl label t first 0 True u") (simp_all del: write_dir.simps add: rmap_def)
    ultimately show ?thesis by simp
  qed
qed

lemma VUX_MAGIC_fits: "fits 32 VUX_MAGIC"
  by (simp add: VUX_MAGIC_def fits_def)

lemma boot_result:
  assumes "cs \<in> {1, 2, 4, 8, 16, 32, 64, 128}" "fits 32 f"
  shows "if fits 32 ps then \<exists>b. boot_sector ps cs f 2 label = Inr b else boot_sector ps cs f 2 label = Inl StructError"
proof -
  have c: "fits 8 cs" using assms(1) by (auto simp: fits_def)
  have k: "fits 16 (int VUX_SECTOR)" "fits 16 (int FAT_RESERVED)" "fits 32 (int FAT_PART_LBA)" "fits 8 2" "fits 16 0" "fits 8 0xF8" "fits 16 63"
    "fits 16 255" "fits 32 2" "fits 16 1" "fits 16 6" "fits 8 0x80" "fits 8 0" "fits 8 0x29"
    by (simp_all add: fits_def VUX_SECTOR_def FAT_RESERVED_def FAT_PART_LBA_def)
  show ?thesis by (simp add: boot_sector_def c k assms(2) VUX_MAGIC_fits)
qed

lemma pack_words: "list_all (\<lambda>v. v < 2 ^ 32) vs \<Longrightarrow> \<exists>raw. pack_fields (map (\<lambda>v. (4, int v)) vs) = Inr raw"
proof (induction vs)
  case (Cons v vs)
  then have "fits 32 (int v)" by (simp add: fits_def)
  then show ?case using Cons by auto
qed simp

text \<open>With the clusters filled, only a partition of too many sectors is left to go wrong.\<close>

lemma image_filled:
  assumes cs: "cs \<in> {1, 2, 4, 8, 16, 32, 64, 128}" and t: "build_tree files [] = Inr t"
    and f: "fill_clusters (nat cs * VUX_SECTOR) (fat_clusters ps cs (fat_size ps cs 1)) label t = Inr (r, s)"
    and small: "ps < 2 ^ 32 \<Longrightarrow> fat_small s"
  shows "if ps < 2 ^ 32 then \<exists>img. build_fat32_image files ps cs label = Inr img else build_fat32_image files ps cs label = Inl StructError"
proof -
  let ?f = "fat_size ps cs 1" and ?n = "length (fs_fat s)"
  let ?cl = "fat_clusters ps cs ?f"
  have S: "r = 2" "3 \<le> ?n" "int ?n \<le> ?cl + 2" using fill_clusters_stored [OF f] by simp_all
  have pos: "0 < cs" using cs by auto
  note G = fat_geometry [OF pos S(3)]
  have "(32 + 2 * nat ?f) * 512 \<le> nat ps * 512" using G(3) S(2) by simp
  then have "nat (32 + 2 * ?f) \<le> nat ps" using G(1) by (simp add: nat_add_distrib nat_mult_distrib)
  then have ps: "32 + 2 * ?f \<le> ps" using G(1) by simp
  have cl2: "?cl \<le> ps - 34"
  proof -
    have "?cl \<le> \<bar>ps - int FAT_RESERVED - 2 * ?f\<bar>" unfolding fat_clusters_def by (rule div_le_abs)
    then show ?thesis using ps G(1) by (simp add: FAT_RESERVED_def)
  qed
  show ?thesis
  proof (cases "ps < 2 ^ 32")
    case True
    have "fits 32 ps" "fits 32 ?f" using True ps G(1) by (simp_all add: fits_def)
    then obtain boot where boot: "boot_sector ps cs ?f 2 label = Inr boot" using boot_result [OF cs] by metis
    have fi: "fits 32 (?cl - int (?n - 2))" "fits 32 (int ?n)" using S(2,3) cl2 True by (simp_all add: fits_def of_nat_diff)
    have "\<exists>x. fsinfo_sector (?cl - int (?n - 2)) (int ?n) = Inr x" unfolding fsinfo_sector_def using fi by (simp add: fits_def)
    then obtain fsi where fsi: "fsinfo_sector (?cl - int (?n - 2)) (int ?n) = Inr fsi" by blast
    obtain raw where raw: "pack_fields (map (\<lambda>v. (4, int v)) (fs_fat s)) = Inr raw"
      using pack_words [of "fs_fat s"] small [OF True] by (auto simp: fat_small_def)
    have "\<exists>x. mbr_sector ps = Inr x" using \<open>fits 32 ps\<close> by (simp add: mbr_sector_def fits_def [of 32 2048] FAT_PART_LBA_def)
    then obtain mbr where mbr: "mbr_sector ps = Inr mbr" by blast
    show ?thesis using True cs t f S(1) boot fsi raw mbr ps G(1) unfolding build_fat32_image_def Let_def by simp
  next
    case False
    have "boot_sector ps cs ?f 2 label = Inl StructError"
    proof (cases "fits 32 ?f")
      case True
      then show ?thesis using boot_result [OF cs True, of ps label] False by (simp add: fits_def)
    next
      case big: False
      have "\<not> fits 32 ps" using False by (simp add: fits_def)
      then show ?thesis using cs by (auto simp: boot_sector_def fits_def VUX_SECTOR_def FAT_RESERVED_def FAT_PART_LBA_def)
    qed
    then show ?thesis using False cs t f S(1) unfolding build_fat32_image_def Let_def by simp
  qed
qed

lemma room_below:
  assumes "cs \<in> {1, 2, 4, 8, 16, 32, 64, 128}" "ps < 2 ^ 32"
  shows "fat_clusters ps cs (fat_size ps cs 1) + 2 \<le> 2 ^ 32"
proof -
  let ?f = "fat_size ps cs 1" and ?x = "ps - 32 - 2 * fat_size ps cs 1"
  have f: "1 \<le> ?f" by (rule fat_size_ge)
  have "?x div cs \<le> max 0 ?x"
  proof (cases "0 \<le> ?x")
    case True
    then show ?thesis using div_le_abs [of ?x cs] by simp
  next
    case False
    moreover have "0 < cs" using assms(1) by auto
    ultimately show ?thesis using pos_imp_zdiv_neg_iff [of cs ?x] by simp
  qed
  then show ?thesis using f assms(2) by (simp add: fat_clusters_def FAT_RESERVED_def)
qed

text \<open>
  C21: exactly when \<open>build_fat32_image\<close> gives an image, and what it raises. A cluster size that is not a power of two up
  to 128 raises \<open>ValueError\<close>. Then the paths decide, in their order: the first that is no path of 8.3 names raises
  \<open>ValueError\<close>, the first without a name \<open>IndexError\<close>, the first that equals, extends or is extended by an earlier one
  \<open>ValueError\<close>. Otherwise there is a tree of the files, and \<open>tree_need\<close> counts its clusters. If the partition has room for them
  there is an image, unless the partition has \<open>2 ^ 32\<close> sectors or a file \<open>2 ^ 32\<close> bytes or more, which raises
  \<open>struct.error\<close>; without the room (none at all included) \<open>ValueError\<close> is raised, or, with such a partition or file,
  either of the two.
\<close>

theorem fat_image_errors:
  "(cs \<notin> {1, 2, 4, 8, 16, 32, 64, 128} \<longrightarrow> build_fat32_image files ps cs label = Inl ValueError) \<and>
   (cs \<in> {1, 2, 4, 8, 16, 32, 64, 128} \<longrightarrow>
     (case path_error [] files of
        Some e \<Rightarrow> build_fat32_image files ps cs label = Inl e
      | None \<Rightarrow> \<exists>t. build_tree files [] = Inr t \<and>
          (let room = fat_clusters ps cs (fat_size ps cs 1);
               small = (ps < 2 ^ 32 \<and> list_all (\<lambda>f. length (snd f) < 2 ^ 32) files)
           in if int (tree_need (nat cs * 512) t) \<le> room
              then (if small then \<exists>img. build_fat32_image files ps cs label = Inr img else build_fat32_image files ps cs label = Inl StructError)
              else build_fat32_image files ps cs label = Inl ValueError \<or> \<not> small \<and> build_fat32_image files ps cs label = Inl StructError)))"
proof (cases "cs \<in> {1, 2, 4, 8, 16, 32, 64, 128}")
  case False
  then show ?thesis by (simp add: build_fat32_image_def)
next
  case cs: True
  have E: "case build_tree files [] of Inl e \<Rightarrow> path_error [] files = Some e | Inr t' \<Rightarrow> path_error [] files = None"
  proof (rule build_tree_error)
    have "tree_get qs [] = None" for qs by (cases qs) simp_all
    then show "qs \<in> set [] \<longleftrightarrow> tree_get qs [] \<noteq> None" for qs by simp
  qed (simp add: full_tree_def)
  show ?thesis
  proof (cases "build_tree files []")
    case (Inl e)
    then show ?thesis using E cs by (simp add: build_fat32_image_def)
  next
    case (Inr t)
    let ?cl = "fat_clusters ps cs (fat_size ps cs 1)" and ?cb = "nat cs * VUX_SECTOR"
    let ?small = "ps < 2 ^ 32 \<and> list_all (\<lambda>f. length (snd f) < 2 ^ 32) files"
    have st: "small_tree t \<longleftrightarrow> list_all (\<lambda>f. length (snd f) < 2 ^ 32) files" using build_tree_small [OF Inr] by simp
    note F = fill_result [of ?cl ?cb t label, unfolded filled_def]
    have room: "?cl + 2 \<le> 2 ^ 32" if "ps < 2 ^ 32"
      using room_below [OF cs that] .
    show ?thesis
    proof (cases "fill_clusters ?cb ?cl label t")
      case Fe: (Inl e)
      then have "build_fat32_image files ps cs label = Inl e" using cs Inr by (simp add: build_fat32_image_def)
      then show ?thesis using F Fe Inr E cs st room by (auto simp: Let_def VUX_SECTOR_def)
    next
      case Fs: (Inr x)
      obtain r s where x: "x = (r, s)" by (cases x)
      have s: "int (tree_need ?cb t) \<le> ?cl" "small_tree t" "?cl + 2 \<le> 2 ^ 32 \<Longrightarrow> fat_small s"
        using F Fs x by (simp_all add: fat_small_def FAT_EOC_def)
      show ?thesis using image_filled [OF cs Inr Fs [unfolded x] s(3) [OF room]] s(1,2) Inr E cs st by (auto simp: Let_def VUX_SECTOR_def split: if_splits)
    qed
  qed
qed

theorem fat_image_errors_witness:
  "build_fat32_image [] 64 3 ''V'' = Inl ValueError \<and> build_fat32_image [] 10 1 ''V'' = Inl ValueError \<and>
   build_fat32_image [([], [])] 64 1 ''V'' = Inl IndexError \<and> build_fat32_image [(''.'', [])] 64 1 ''V'' = Inl ValueError \<and>
   build_fat32_image [(''a'', []), (''A/b'', [])] 64 1 ''V'' = Inl ValueError \<and>
   (\<exists>img. build_fat32_image [(''a'', [])] 64 1 ''V'' = Inr img) \<and> build_fat32_image [(''a'', replicate 15000 7)] 64 1 ''V'' = Inl ValueError"
proof -
  have f: "\<not> 1 \<le> fat_clusters 10 1 (fat_size 10 1 1)" "fat_clusters 64 1 (fat_size 64 1 1) = 30"
    by (subst fat_size.simps; simp add: fat_enough_def fat_clusters_def FAT_RESERVED_def VUX_SECTOR_def)+
  have p: "path_parts [] = Inr []" "path_parts ''.'' = Inl ValueError" "path_parts ''a'' = Inr [map of_char ''A          '']"
    "path_parts ''A/b'' = Inr [map of_char ''A          '', map of_char ''B          '']"
    by (code_simp, code_simp, code_simp, code_simp)
  have n: "tree_need 512 [] = 1" "tree_need 512 [(q, File [])] = 1" "tree_need 512 [(q, File (replicate 15000 7))] = 31" for q
    by (simp_all add: tree_need_def clusters_of_def ceil_div_def)
  note E = fat_image_errors [where cs = 3 and files = "[]" and ps = 64 and label = "''V''"]
    fat_image_errors [where cs = 1 and files = "[]" and ps = 10 and label = "''V''"]
    fat_image_errors [where cs = 1 and files = "[([], [])]" and ps = 64 and label = "''V''"]
    fat_image_errors [where cs = 1 and files = "[(''.'', [])]" and ps = 64 and label = "''V''"]
    fat_image_errors [where cs = 1 and files = "[(''a'', []), (''A/b'', [])]" and ps = 64 and label = "''V''"]
    fat_image_errors [where cs = 1 and files = "[(''a'', [])]" and ps = 64 and label = "''V''"]
    fat_image_errors [where cs = 1 and files = "[(''a'', replicate 15000 7)]" and ps = 64 and label = "''V''"]
  show ?thesis using E by (simp add: f p n Let_def del: replicate.simps)
qed

text \<open>
  C22: the number of sectors of a FAT. The search ends for every partition and cluster size with the least number of
  sectors, at least one, whose entries cover the clusters that are left; the two FATs and these clusters then fit
  the partition.
\<close>

theorem fat_size_exact:
  "let f = fat_size ps cs 1; n = fat_clusters ps cs f
   in 1 \<le> f \<and> (n + 2) * 4 \<le> f * 512 \<and> (\<forall>g. 1 \<le> g \<and> g < f \<longrightarrow> g * 512 < (fat_clusters ps cs g + 2) * 4) \<and>
      (0 < cs \<longrightarrow> 32 + 2 * f + n * cs \<le> ps)"
proof -
  let ?f = "fat_size ps cs 1"
  have "1 \<le> ?f" by (rule fat_size_ge)
  moreover have "(fat_clusters ps cs ?f + 2) * 4 \<le> ?f * 512"
    using fat_size_enough [of ps cs 1] by (simp add: fat_enough_def VUX_SECTOR_def)
  moreover have "g * 512 < (fat_clusters ps cs g + 2) * 4" if "1 \<le> g" "g < ?f" for g
    using fat_size_least [OF that] by (simp add: fat_enough_def VUX_SECTOR_def)
  moreover have "fat_clusters ps cs ?f * cs \<le> ps - 32 - 2 * ?f" if "0 < cs"
    using that by (simp add: fat_clusters_def FAT_RESERVED_def minus_mod_eq_div_mult [symmetric])
  ultimately show ?thesis by (auto simp: Let_def)
qed

theorem fat_size_exact_witness: "let f = fat_size 8192 1 1; n = fat_clusters 8192 1 f in (n + 2) * 4 \<le> f * 512 \<and> 32 + 2 * f + n * 1 \<le> (8192 :: int)"
  using fat_size_exact [of 8192 1] by (simp add: Let_def)

section \<open>The mkfat command\<close>

lemma exit_Inr: "(case r of Inl ValueError \<Rightarrow> Inl SystemExit | r \<Rightarrow> r) = Inr x \<longleftrightarrow> r = Inr x"
proof (cases r)
  case (Inl e)
  then show ?thesis by (cases e) simp_all
qed simp

lemma mkfat_keeps:
  "mkfat_files fs ss fl = Inr res \<Longrightarrow> list_all (\<lambda>s. fst (partition_eq s) \<noteq> d) ss \<Longrightarrow> map_of res d = map_of fl d"
  by (induction fs ss fl rule: mkfat_files.induct) (auto split: if_splits option.splits prod.splits)

lemma mkfat_split:
  "mkfat_files fs (ss @ tt) fl = Inr res \<Longrightarrow> \<exists>mid. mkfat_files fs ss fl = Inr mid \<and> mkfat_files fs tt mid = Inr res"
  by (induction fs ss fl rule: mkfat_files.induct) (auto split: if_splits option.splits prod.splits)

lemma partition_at: "CHR ''='' \<notin> set dest \<Longrightarrow> partition_eq (dest @ CHR ''='' # src) = (dest, True, src)"
proof -
  assume d: "CHR ''='' \<notin> set dest"
  have "takeWhile (\<lambda>c. c \<noteq> CHR ''='') (dest @ CHR ''='' # src) = dest @ takeWhile (\<lambda>c. c \<noteq> CHR ''='') (CHR ''='' # src)"
    by (rule takeWhile_append2) (use d in blast)
  moreover have "dropWhile (\<lambda>c. c \<noteq> CHR ''='') (dest @ CHR ''='' # src) = dropWhile (\<lambda>c. c \<noteq> CHR ''='') (CHR ''='' # src)"
    by (rule dropWhile_append2) (use d in blast)
  ultimately show ?thesis by (simp add: partition_eq_def)
qed

text \<open>
  C23: the \<open>mkfat\<close> command. When it writes an image, of a partition of less than 131071 MB, every destination is read
  back from it as the contents of the file that was given last for that destination.
\<close>

theorem mkfat_reads:
  assumes "cmd_mkfat fs specs size_mb cs = Inr img" "size_mb < 131071"
    and "specs = before @ (dest @ CHR ''='' # src) # later" "CHR ''='' \<notin> set dest" "list_all (\<lambda>s. fst (partition_eq s) \<noteq> dest) later"
  shows "\<exists>content parts. fs src = Some content \<and> path_parts dest = Inr parts \<and> img_read img parts = Some content"
proof -
  obtain files where f: "mkfat_files fs specs [] = Inr files" and b: "build_fat32_image files (size_mb * 2048) cs ''VUX9K'' = Inr img"
    using assms(1) by (auto simp: cmd_mkfat_def exit_Inr)
  obtain mid where m: "mkfat_files fs ((dest @ CHR ''='' # src) # later) mid = Inr files"
    using mkfat_split f assms(3) by blast
  then obtain content where c: "fs src = Some content" "mkfat_files fs later (dict_set dest content mid) = Inr files"
    by (auto simp: partition_at [OF assms(4)] split: option.splits)
  have "map_of files dest = Some content" using mkfat_keeps [OF c(2) assms(5)] by simp
  then have d: "(dest, content) \<in> set files" by (rule map_of_SomeD)
  have "size_mb * 2048 < 0x0FFFFFF8" using assms(2) by simp
  then have "\<forall>(path, x) \<in> set files. \<exists>parts. path_parts path = Inr parts \<and> img_read img parts = Some x"
    using fat_image_reads_aux [OF b] by blast
  then show ?thesis using d c(1) by blast
qed

theorem mkfat_reads_witness:
  "\<exists>img parts. cmd_mkfat [''x'' \<mapsto> [7, 8]] [''D/a.b=x''] 1 1 = Inr img \<and> path_parts ''D/a.b'' = Inr parts \<and>
     img_read img parts = Some [7, 8]"
proof -
  have f: "fat_size 2048 1 1 = 16"
    by (simp add: fat_size.simps fat_enough_def fat_clusters_def FAT_RESERVED_def VUX_SECTOR_def)
  obtain img where "build_fat32_image [(''D/a.b'', [7, 8])] 2048 1 ''VUX9K'' = Inr img"
    using small_image [OF f] by (auto simp: fat_clusters_def FAT_RESERVED_def)
  then have i: "cmd_mkfat [''x'' \<mapsto> [7, 8]] [''D/a.b=x''] 1 1 = Inr img"
    by (simp add: cmd_mkfat_def partition_eq_def)
  show ?thesis
    using mkfat_reads [OF i, of "[]" "''D/a.b''" "''x''" "[]"] i by auto
qed

end
