(* ===== verification/Firmware_Hex.thy ===== *)
theory Firmware_Hex
  imports Fat_Card
begin

text \<open>
  The scripts that turn firmware into memory images: \<^verbatim>\<open>src/scripts/bin2hex.py\<close>, \<^verbatim>\<open>src/scripts/merge_firmware_hex.py\<close>
  and \<^verbatim>\<open>src/scripts/elf2bin.py\<close>. Files are given by their contents; a text file is a list of lines without
  their newline characters.
\<close>

section \<open>Hex words\<close>

definition hex_low :: "nat \<Rightarrow> char" where
  "hex_low d = char_of (if d < 10 then 48 + d else 87 + d)"

fun hex_digits :: "nat \<Rightarrow> string" where
  "hex_digits n = (if n < 16 then [hex_low n] else hex_digits (n div 16) @ [hex_low (n mod 16)])"

declare hex_digits.simps [simp del]

text \<open>\<open>f"{w:08x}"\<close> of a number that is not negative.\<close>

definition hex08 :: "nat \<Rightarrow> string" where
  "hex08 w = (let h = hex_digits w in replicate (8 - length h) CHR ''0'' @ h)"

definition pad_chunk :: "byte list \<Rightarrow> byte list" where
  "pad_chunk chunk = (if length chunk < 4 then chunk @ replicate (4 - length chunk) 0 else chunk)"

definition RV_OPCODES :: "byte list" where
  "RV_OPCODES = [0x33, 0x13, 0x03, 0x23, 0x63, 0x6F, 0x67, 0x37, 0x17, 0x73]"

definition detect_hack :: "byte list \<Rightarrow> bool option \<Rightarrow> bool option" where
  "detect_hack data is_hack =
     (if is_hack = None \<and> 4 \<le> length data
      then (let rv_opcode = hd data AND 0x7F; rv_valid = (hd data AND 3 = 3 \<and> rv_opcode \<in> set RV_OPCODES)
            in Some (\<not> rv_valid))
      else is_hack)"

definition bin2hex :: "byte list \<Rightarrow> bool option \<Rightarrow> string list" where
  "bin2hex data is_hack =
     (if detect_hack data is_hack = Some True
      then map (\<lambda>chunk. hex08 (nat (word_of_halves (pad_chunk chunk)))) (pieces 4 data)
      else map (\<lambda>chunk. hex08 (nat (int_of_le (pad_chunk chunk)))) (pieces 4 data))"

definition NOP :: nat where "NOP = 0x00000013"
definition WORDS :: nat where "WORDS = 4096"

definition merge_hex :: "byte list \<Rightarrow> string list result" where
  "merge_hex data =
     (if length data > WORDS * 4 then Inl SystemExit
      else let data = data @ replicate (nat ((- int (length data)) mod 4)) 0;
               words = fold (\<lambda>(i, chunk) ws. ws[i := nat (int_of_le chunk)]) (enumerate 0 (pieces 4 data)) (replicate WORDS NOP)
           in Inr (map hex08 words))"

section \<open>Segments of an ELF file\<close>

text \<open>\<open>struct.unpack\<close> of a slice: \<open>struct.error\<close> where the file ends before it.\<close>

definition get_u :: "nat \<Rightarrow> byte list \<Rightarrow> nat \<Rightarrow> nat result" where
  "get_u n data at = (if length (slice at (at + n) data) = n then Inr (nat (unpack_u n at data)) else Inl StructError)"

record phdr =
  p_type :: nat
  p_offset :: nat
  p_paddr :: nat
  p_filesz :: nat

definition get_phdr :: "byte list \<Rightarrow> nat \<Rightarrow> phdr result" where
  "get_phdr data off =
     (if length (slice off (off + 32) data) \<noteq> 32 then Inl StructError
      else Inr \<lparr>p_type = nat (unpack_u 4 off data), p_offset = nat (unpack_u 4 (off + 4) data),
             p_paddr = nat (unpack_u 4 (off + 12) data), p_filesz = nat (unpack_u 4 (off + 16) data)\<rparr>)"

text \<open>Where a segment goes in the image, if it is part of it.\<close>

definition rel_offset :: "nat option \<Rightarrow> phdr \<Rightarrow> nat option" where
  "rel_offset base h =
     (if p_type h \<noteq> 1 \<or> p_filesz h = 0 then None
      else case base of
        Some b \<Rightarrow> if p_paddr h < b then None else Some (p_paddr h - b)
      | None \<Rightarrow> if p_paddr h < 0x10000000 then Some (p_paddr h) else None)"

text \<open>Extending the image and assigning the slice, as the loop does; the slice may be shorter than the segment.\<close>

definition place :: "nat \<Rightarrow> nat \<Rightarrow> byte list \<Rightarrow> byte list \<Rightarrow> byte list" where
  "place rel filesz bs img =
     (let img = (if length img < rel + filesz then img @ replicate (rel + filesz - length img) 0 else img)
      in take rel img @ bs @ drop (rel + filesz) img)"

fun elf_loop :: "byte list \<Rightarrow> nat option \<Rightarrow> nat list \<Rightarrow> byte list \<Rightarrow> byte list result" where
  "elf_loop data base [] img = Inr img"
| "elf_loop data base (off # offs) img =
     rbind (get_phdr data off) (\<lambda>h.
       case rel_offset base h of
         None \<Rightarrow> elf_loop data base offs img
       | Some rel \<Rightarrow>
           elf_loop data base offs (place rel (p_filesz h) (slice (p_offset h) (p_offset h + p_filesz h) data) img))"

definition elf2bin :: "byte list \<Rightarrow> nat option \<Rightarrow> byte list result" where
  "elf2bin data base =
     (if take 4 data \<noteq> [0x7F, 0x45, 0x4C, 0x46] then Inl SystemExit
      else rbind (get_u 4 data 0x1C) (\<lambda>e_phoff.
           rbind (get_u 2 data 0x2A) (\<lambda>e_phentsize.
           rbind (get_u 2 data 0x2C) (\<lambda>e_phnum.
           elf_loop data base (map (\<lambda>i. e_phoff + i * e_phentsize) [0..<e_phnum]) []))))"

section \<open>Reading hex words back\<close>

definition digit_value :: "char \<Rightarrow> nat option" where
  "digit_value c = (let n = of_char c in
     if 48 \<le> n \<and> n \<le> 57 then Some (n - 48) else if 97 \<le> n \<and> n \<le> 102 then Some (n - 87)
     else if 65 \<le> n \<and> n \<le> 70 then Some (n - 55) else None)"

fun read_hex :: "nat \<Rightarrow> string \<Rightarrow> nat option" where
  "read_hex acc [] = Some acc"
| "read_hex acc (c # s) = (case digit_value c of None \<Rightarrow> None | Some d \<Rightarrow> read_hex (acc * 16 + d) s)"

text \<open>\<open>int(line, 16)\<close>: white space around, a sign, a \<open>0x\<close> prefix and single underscores between digits are allowed.\<close>

fun hex_under :: "bool \<Rightarrow> nat \<Rightarrow> string \<Rightarrow> nat option" where
  "hex_under ok acc [] = (if ok then Some acc else None)"
| "hex_under ok acc (c # s) =
     (if c = CHR ''_'' then (if ok then hex_under False acc s else None)
      else case digit_value c of None \<Rightarrow> None | Some d \<Rightarrow> hex_under True (acc * 16 + d) s)"

definition blank :: "char \<Rightarrow> bool" where
  "blank c \<longleftrightarrow> (let n = of_char c :: nat in 9 \<le> n \<and> n \<le> 13 \<or> 28 \<le> n \<and> n \<le> 32 \<or> n = 0x85 \<or> n = 0xA0)"

definition strip_blank :: "string \<Rightarrow> string" where
  "strip_blank s = rev (dropWhile blank (rev (dropWhile blank s)))"

definition int_base16 :: "string \<Rightarrow> int result" where
  "int_base16 line =
     (let s = strip_blank line;
          neg = (s \<noteq> [] \<and> hd s = CHR ''-'');
          s = (if s \<noteq> [] \<and> (hd s = CHR ''-'' \<or> hd s = CHR ''+'') then tl s else s);
          s = (if take 2 s = ''0x'' \<or> take 2 s = ''0X'' then (if drop 2 s \<noteq> [] \<and> hd (drop 2 s) = CHR ''_'' then drop 3 s else drop 2 s) else s)
      in case hex_under False 0 s of None \<Rightarrow> Inl ValueError | Some v \<Rightarrow> Inr (if neg then - int v else int v))"

definition hex_words :: "string list \<Rightarrow> int list result" where
  "hex_words lines = rmapM int_base16 (filter (\<lambda>l. strip_blank l \<noteq> []) lines)"

lemma digit_hex_low: "d < 16 \<Longrightarrow> digit_value (hex_low d) = Some d"
  by (simp add: digit_value_def hex_low_def Let_def)

lemma read_hex_append: "read_hex acc (s @ t) = Option.bind (read_hex acc s) (\<lambda>v. read_hex v t)"
  by (induction acc s rule: read_hex.induct) (auto split: option.split)

lemma read_hex_digits: "read_hex 0 (hex_digits n) = Some n"
proof (induction n rule: hex_digits.induct)
  case (1 n)
  then show ?case by (subst hex_digits.simps) (auto simp: read_hex_append digit_hex_low)
qed

lemma read_hex_zeros: "read_hex 0 (replicate k CHR ''0'' @ s) = read_hex 0 s"
  by (induction k) (simp_all add: digit_value_def)

lemma read_hex08: "read_hex 0 (hex08 w) = Some w"
  by (simp add: hex08_def Let_def read_hex_zeros read_hex_digits)

lemma length_hex_digits: "n < 16 ^ k \<Longrightarrow> 0 < k \<Longrightarrow> length (hex_digits n) \<le> k"
proof (induction n arbitrary: k rule: hex_digits.induct)
  case (1 n)
  show ?case
  proof (cases "n < 16")
    case True
    then show ?thesis using 1(3) by (subst hex_digits.simps) simp
  next
    case False
    then obtain m where k: "k = Suc m" "0 < m" using 1(2,3) by (cases k; cases "k - 1") auto
    have "n div 16 < 16 ^ m" using 1(2) k by (simp add: less_mult_imp_div_less mult.commute)
    then show ?thesis using 1(1) [OF False, of m] k False by (subst hex_digits.simps) simp
  qed
qed

lemma length_hex08: "w < 2 ^ 32 \<Longrightarrow> length (hex08 w) = 8"
  using length_hex_digits [of w 8] by (simp add: hex08_def Let_def)

lemma int_of_le_word: "length bs = 4 \<Longrightarrow> nat (int_of_le bs) < 2 ^ 32 \<and> le_bytes 4 (int (nat (int_of_le bs))) = bs"
  using int_of_le_range [of bs] le_bytes_of_le [of bs] by (simp add: nat_less_iff del: le_bytes.simps)

lemma halves_word: "length bs = 4 \<Longrightarrow> word_of_halves bs = int_of_le (le_bytes 4 (word_of_halves bs)) \<and> 0 \<le> word_of_halves bs"
proof -
  assume "length bs = 4"
  then obtain a b c d where bs: "bs = [a, b, c, d]" using length4 by blast
  have u: "8 \<le> n \<Longrightarrow> fits n (uint x)" for x :: byte and n
    using fits_mono [of 8 "uint x" n] uint_byte_range [of x] by (simp add: fits_def)
  have "fits 32 (word_of_halves bs)"
    unfolding bs word_of_halves_def Let_def by (intro fits_or fits_push) (simp_all add: u)
  then show ?thesis by (simp add: fits_def int_of_le_bytes del: le_bytes.simps)
qed

lemma length_pad_chunk: "length c \<le> 4 \<Longrightarrow> length (pad_chunk c) = 4 \<and> pad_chunk c = ljust 4 0 c"
  by (simp add: pad_chunk_def ljust_def)

lemma pieces_exact: "length xs = 4 * k \<Longrightarrow> c \<in> set (pieces 4 xs) \<Longrightarrow> length c = 4"
proof (induction k arbitrary: xs)
  case (Suc k)
  then have "xs \<noteq> []" by auto
  then show ?case using Suc.IH [of "drop 4 xs"] Suc.prems by (auto simp: pieces_step)
qed simp

definition words_bytes :: "string list \<Rightarrow> byte list" where
  "words_bytes ls = concat (map (\<lambda>l. le_bytes 4 (int (the (read_hex 0 l)))) ls)"

lemma pad4_pieces: "concat (map pad_chunk (pieces 4 p)) = pad4 p"
proof (induction p rule: length_induct)
  case (1 p)
  show ?case
  proof (cases "p = []")
    case True
    then show ?thesis by (simp add: pad4_def ljust_def)
  next
    case False
    then show ?thesis using 1 pad4_step [OF False] length_pad_chunk [of "take 4 p"] by (simp add: pieces_step)
  qed
qed

text \<open>
  \<open>bin2hex\<close>. Every line is eight hex digits. Read as little-endian words, the lines are the binary, padded with
  zeros to whole words, for RISC-V, and the packed Hack binary for Hack. When the mode is not given, a binary of at
  least four bytes counts as RISC-V exactly when its first byte has a 32-bit opcode of the list, a shorter one always.
\<close>

theorem bin2hex_words:
  "list_all (\<lambda>l. length l = 8 \<and> read_hex 0 l \<noteq> None) (bin2hex d h) \<and>
   words_bytes (bin2hex d (Some False)) = pad4 d \<and> words_bytes (bin2hex d (Some True)) = pack_hack d \<and>
   bin2hex d None = bin2hex d (Some (4 \<le> length d \<and> \<not> (hd d AND 3 = 3 \<and> hd d AND 0x7F \<in> set RV_OPCODES)))"
proof -
  have short: "length c \<le> 4" if "c \<in> set (pieces 4 d)" for c using pieces_short [of 4 c d] that by simp
  have rv: "length (hex08 (nat (int_of_le (pad_chunk c)))) = 8" if "c \<in> set (pieces 4 d)" for c
    by (intro length_hex08 int_of_le_word [THEN conjunct1]) (simp add: length_pad_chunk short that)
  have hk: "nat (word_of_halves (pad_chunk c)) = nat (int_of_le (le_bytes 4 (word_of_halves (pad_chunk c))))"
    if "c \<in> set (pieces 4 d)" for c
    using halves_word [of "pad_chunk c", OF length_pad_chunk [OF short [OF that], THEN conjunct1]] by presburger
  have "length (hex08 (nat (word_of_halves (pad_chunk c)))) = 8" if "c \<in> set (pieces 4 d)" for c
    unfolding hk [OF that] by (intro length_hex08 int_of_le_word [THEN conjunct1]) simp
  with rv have "list_all (\<lambda>l. length l = 8 \<and> read_hex 0 l \<noteq> None) (bin2hex d h)"
    by (auto simp: bin2hex_def list_all_iff read_hex08)
  moreover have "words_bytes (bin2hex d (Some False)) = pad4 d"
  proof -
    have "map (\<lambda>c. le_bytes 4 (int (nat (int_of_le (pad_chunk c))))) (pieces 4 d) = map pad_chunk (pieces 4 d)"
      by (rule map_cong [OF refl]) (rule int_of_le_word [THEN conjunct2], simp add: length_pad_chunk short)
    then have "concat (map (\<lambda>c. le_bytes 4 (int (nat (int_of_le (pad_chunk c))))) (pieces 4 d)) = pad4 d" by (simp only: pad4_pieces)
    then show ?thesis by (simp add: words_bytes_def bin2hex_def detect_hack_def read_hex08 comp_def del: le_bytes.simps int_nat_eq)
  qed
  moreover have "words_bytes (bin2hex d (Some True)) = pack_hack d"
  proof -
    have "le_bytes 4 (int (nat (word_of_halves (pad_chunk c)))) = le_bytes 4 (word_of_halves (ljust 4 0 c))" if "c \<in> set (pieces 4 d)" for c
      using halves_word [of "pad_chunk c", OF length_pad_chunk [OF short [OF that], THEN conjunct1]]
        length_pad_chunk [OF short [OF that], THEN conjunct2] by (simp del: le_bytes.simps)
    then have "map (\<lambda>c. le_bytes 4 (int (nat (word_of_halves (pad_chunk c))))) (pieces 4 d) =
        map (\<lambda>c. le_bytes 4 (word_of_halves (ljust 4 0 c))) (pieces 4 d)" by (rule map_cong [OF refl])
    then have "concat (map (\<lambda>c. le_bytes 4 (int (nat (word_of_halves (pad_chunk c))))) (pieces 4 d)) = pack_hack d"
      by (simp only: pack_hack_def)
    then show ?thesis by (simp add: words_bytes_def bin2hex_def detect_hack_def read_hex08 comp_def del: le_bytes.simps int_nat_eq)
  qed
  moreover have "bin2hex d None = bin2hex d (Some (4 \<le> length d \<and> \<not> (hd d AND 3 = 3 \<and> hd d AND 0x7F \<in> set RV_OPCODES)))"
    by (auto simp: bin2hex_def detect_hack_def Let_def)
  ultimately show ?thesis by blast
qed

section \<open>Hex files are read back\<close>

text \<open>A character that is a digit is neither blank, nor a sign, an underscore or the letter of a prefix.\<close>

definition digits_only :: "string \<Rightarrow> bool" where
  "digits_only s \<longleftrightarrow> list_all (\<lambda>c. digit_value c \<noteq> None) s"

lemma digit_chars: "digit_value c \<noteq> None \<Longrightarrow> \<not> blank c \<and> c \<notin> {CHR ''-'', CHR ''+'', CHR ''_'', CHR ''x'', CHR ''X''}"
  by (auto simp: digit_value_def blank_def Let_def split: if_splits)

lemma hex_under_digits: "digits_only s \<Longrightarrow> ok \<or> s \<noteq> [] \<Longrightarrow> hex_under ok acc s = read_hex acc s"
proof (induction s arbitrary: ok acc)
  case (Cons c s)
  then have "c \<noteq> CHR ''_''" using digit_chars [of c] by (auto simp: digits_only_def)
  then show ?case using Cons by (auto simp: digits_only_def split: option.split)
qed simp

lemma strip_digits: "digits_only s \<Longrightarrow> strip_blank s = s"
proof -
  assume d: "digits_only s"
  have k: "dropWhile blank t = t" if "digits_only t" for t
    using that digit_chars by (cases t) (auto simp: digits_only_def)
  have "digits_only (rev s)" using d by (simp add: digits_only_def)
  then show ?thesis using k d by (simp add: strip_blank_def)
qed

lemma int_base16_digits:
  assumes "digits_only s" "s \<noteq> []"
  shows "int_base16 s = (case read_hex 0 s of None \<Rightarrow> Inl ValueError | Some v \<Rightarrow> Inr (int v))"
proof -
  obtain c t where s: "s = c # t" using assms(2) by (cases s) auto
  have c: "c \<notin> {CHR ''-'', CHR ''+''}" using assms(1) digit_chars [of c] by (auto simp: digits_only_def s)
  have "take 2 s \<noteq> ''0x'' \<and> take 2 s \<noteq> ''0X''"
    using assms(1) digit_chars by (cases t) (auto simp: digits_only_def s numeral_2_eq_2)
  moreover have "s \<noteq> []" "hd s = c" by (simp_all add: s)
  ultimately show ?thesis
    using c assms(1) by (simp add: int_base16_def Let_def strip_digits hex_under_digits split: option.split)
qed

lemma hex_digits_only: "digits_only (hex_digits w) \<and> hex_digits w \<noteq> []"
proof (induction w rule: hex_digits.induct)
  case (1 n)
  then show ?case by (subst (1 2) hex_digits.simps) (auto simp: digits_only_def digit_hex_low)
qed

lemma hex08_only: "digits_only (hex08 w) \<and> hex08 w \<noteq> []"
proof -
  have "digits_only (replicate k CHR ''0'')" for k by (simp add: digits_only_def list_all_iff digit_value_def)
  then show ?thesis using hex_digits_only [of w] by (auto simp: hex08_def Let_def digits_only_def)
qed

text \<open>
  Hex files are read back. The reader of the lockstep programs gets from the lines that the scripts write for a list
  of words exactly these words.
\<close>

theorem hex_words_roundtrip: "hex_words (map hex08 ws) = Inr (map int ws)"
proof (induction ws)
  case (Cons w ws)
  have "strip_blank (hex08 w) \<noteq> []" using hex08_only [of w] by (simp add: strip_digits)
  moreover have "int_base16 (hex08 w) = Inr (int w)"
    using hex08_only [of w] by (simp add: int_base16_digits read_hex08)
  ultimately show ?case using Cons by (simp add: hex_words_def)
qed (simp add: hex_words_def)

section \<open>The ROM file\<close>

lemma fill_words:
  "k + length cs \<le> length ws \<Longrightarrow>
   fold (\<lambda>(i, c) ws. ws[i := f c]) (enumerate k cs) ws = take k ws @ map f cs @ drop (k + length cs) ws"
proof (induction cs arbitrary: k ws)
  case (Cons c cs)
  have "take (Suc k) (ws[k := f c]) = take k ws @ [f c]" using Cons.prems by (simp add: take_Suc_conv_app_nth)
  with Cons show ?case by simp
qed simp

text \<open>
  \<open>merge_hex\<close>. A boot ROM image of at most 16 KB becomes a file of exactly 4096 lines of eight hex digits; read as
  little-endian words, the file starts with the image, padded with zeros to whole words, and the rest are NOPs. A
  larger image ends the program.
\<close>

theorem merge_hex_rom:
  "if 16384 < length d then merge_hex d = Inl SystemExit
   else \<exists>ls. merge_hex d = Inr ls \<and> length ls = 4096 \<and> list_all (\<lambda>l. length l = 8) ls \<and>
     words_bytes ls = pad4 d @ concat (replicate (4096 - (length d + 3) div 4) [0x13, 0, 0, 0])"
proof (cases "16384 < length d")
  case True
  then show ?thesis by (simp add: merge_hex_def WORDS_def)
next
  case False
  let ?p = "d @ replicate (nat ((- int (length d)) mod 4)) 0" and ?n = "(length d + 3) div 4"
  have len: "length ?p = 4 * ?n"
  proof -
    have "int (length ?p) = int (4 * ?n)" by simp presburger
    then show ?thesis by linarith
  qed
  have p: "?p = pad4 d" using len by (simp add: pad4_def ljust_def)
  have pl: "length (pieces 4 ?p) = ?n" using length_pieces [of 4 ?p] len by simp
  have n: "?n \<le> 4096" using False by simp
  have m: "merge_hex d = Inr (map hex08 (map (\<lambda>c. nat (int_of_le c)) (pieces 4 ?p) @ replicate (4096 - ?n) NOP))"
    using False n pl fill_words [of 0 "pieces 4 ?p" "replicate 4096 NOP" "\<lambda>c. nat (int_of_le c)"]
    by (simp add: merge_hex_def WORDS_def Let_def)
  have c: "concat (pieces 4 ?p) = ?p" by (simp add: concat_pieces)
  have four: "length c = 4" if "c \<in> set (pieces 4 ?p)" for c
    using pieces_exact [OF len that] .
  have "words_bytes (map hex08 (map (\<lambda>c. nat (int_of_le c)) (pieces 4 ?p))) = concat (pieces 4 ?p)"
  proof -
    have "map (\<lambda>c. le_bytes 4 (int (nat (int_of_le c)))) (pieces 4 ?p) = pieces 4 ?p"
      by (rule map_idI) (rule int_of_le_word [THEN conjunct2, OF four])
    then show ?thesis by (simp add: words_bytes_def read_hex08 comp_def del: le_bytes.simps)
  qed
  moreover have "words_bytes (replicate k (hex08 NOP)) = concat (replicate k [0x13, 0, 0, 0])" for k
  proof -
    have "le_bytes 4 19 = [0x13, 0, 0, 0]" by (simp add: eval_nat_numeral)
    then show ?thesis by (simp add: words_bytes_def read_hex08 NOP_def del: le_bytes.simps)
  qed
  ultimately have "words_bytes (map hex08 (map (\<lambda>c. nat (int_of_le c)) (pieces 4 ?p) @ replicate (4096 - ?n) NOP)) =
      pad4 d @ concat (replicate (4096 - ?n) [0x13, 0, 0, 0])"
    using c p by (simp add: words_bytes_def)
  moreover have "list_all (\<lambda>l. length l = 8) (map hex08 (map (\<lambda>c. nat (int_of_le c)) (pieces 4 ?p) @ replicate (4096 - ?n) NOP))"
    using int_of_le_word [THEN conjunct1, OF four, THEN length_hex08] length_hex08 [of NOP] by (auto simp: list_all_iff NOP_def)
  ultimately show ?thesis using False m pl n by simp
qed

section \<open>The image of an ELF file\<close>

text \<open>The segments that go into the image, in the order of their headers: where, and which bytes.\<close>

fun segments :: "byte list \<Rightarrow> nat option \<Rightarrow> nat list \<Rightarrow> (nat \<times> nat \<times> byte list) list" where
  "segments data base [] = []"
| "segments data base (off # offs) = (case get_phdr data off of
      Inl e \<Rightarrow> segments data base offs
    | Inr h \<Rightarrow> (case rel_offset base h of
        None \<Rightarrow> segments data base offs
      | Some rel \<Rightarrow> (rel, p_filesz h, slice (p_offset h) (p_offset h + p_filesz h) data) # segments data base offs))"

lemma elf_loop_segments:
  "elf_loop data base offs img = Inr res \<Longrightarrow> res = fold (\<lambda>(rel, n, bs). place rel n bs) (segments data base offs) img"
proof (induction offs arbitrary: img)
  case (Cons off offs)
  obtain h where h: "get_phdr data off = Inr h" using Cons.prems by auto
  show ?case using Cons by (cases "rel_offset base h") (simp_all add: h)
qed simp

definition byte_at :: "nat \<Rightarrow> byte list \<Rightarrow> byte" where
  "byte_at k img = (if k < length img then img ! k else 0)"

lemma place_length: "length bs = n \<Longrightarrow> length (place rel n bs img) = max (length img) (rel + n)"
  by (auto simp: place_def Let_def)

lemma place_byte:
  assumes "length bs = n"
  shows "byte_at k (place rel n bs img) = (if rel \<le> k \<and> k < rel + n then bs ! (k - rel) else byte_at k img)"
proof -
  define im where "im = (if length img < rel + n then img @ replicate (rel + n - length img) 0 else img)"
  have same: "byte_at k im = byte_at k img" by (auto simp: byte_at_def im_def nth_append)
  have len: "rel + n \<le> length im" by (simp add: im_def)
  have "byte_at k (take rel im @ bs @ drop (rel + n) im) = (if rel \<le> k \<and> k < rel + n then bs ! (k - rel) else byte_at k im)"
    using len assms by (auto simp: byte_at_def nth_append)
  then show ?thesis by (simp add: place_def im_def Let_def same [unfolded im_def])
qed

definition covers :: "nat \<Rightarrow> (nat \<times> nat \<times> byte list) \<Rightarrow> bool" where
  "covers k = (\<lambda>(rel, n, bs). rel \<le> k \<and> k < rel + n)"

lemma place_all:
  assumes "list_all (\<lambda>(rel, n, bs). length bs = n) segs"
  shows "length (fold (\<lambda>(rel, n, bs). place rel n bs) segs img) = fold max (map (\<lambda>(rel, n, _). rel + n) segs) (length img) \<and>
    byte_at k (fold (\<lambda>(rel, n, bs). place rel n bs) segs img) =
      (case List.find (covers k) (rev segs) of Some (rel, n, bs) \<Rightarrow> bs ! (k - rel) | None \<Rightarrow> byte_at k img)"
  using assms
proof (induction segs arbitrary: img)
  case (Cons s segs)
  obtain rel n bs where s: "s = (rel, n, bs)" by (cases s)
  have bs: "length bs = n" using Cons.prems s by simp
  have f: "List.find P (xs @ [y]) = (case List.find P xs of Some z \<Rightarrow> Some z | None \<Rightarrow> if P y then Some y else None)"
    for P :: "(nat \<times> nat \<times> byte list) \<Rightarrow> bool" and xs y
    by (induction xs) auto
  show ?case
    using Cons s bs place_length [OF bs, of rel img] place_byte [OF bs, of k rel img]
    by (auto simp: f covers_def max.commute split: option.splits)
qed simp

text \<open>
  C32: \<open>elf2bin\<close>. For an ELF file that holds its segments completely, the image ends with the last byte of the
  segments it takes (those of type 1 with contents, below \<open>0x1000_0000\<close> or from the base on), and each of its bytes is
  the one of the last of these segments that covers its address, or 0 where none does. A file without the ELF mark
  ends the program.
\<close>

theorem elf2bin_image:
  assumes "elf2bin f base = Inr img"
    and "offs = map (\<lambda>i. nat (unpack_u 4 0x1C f) + i * nat (unpack_u 2 0x2A f)) [0..<nat (unpack_u 2 0x2C f)]"
    and "list_all (\<lambda>(rel, n, bs). length bs = n) (segments f base offs)"
  shows "take 4 f = [0x7F, 0x45, 0x4C, 0x46] \<and>
    length img = fold max (map (\<lambda>(rel, n, _). rel + n) (segments f base offs)) 0 \<and>
    (\<forall>k. byte_at k img = (case List.find (covers k) (rev (segments f base offs)) of
        Some (rel, n, bs) \<Rightarrow> bs ! (k - rel) | None \<Rightarrow> 0))"
proof -
  have m: "take 4 f = [0x7F, 0x45, 0x4C, 0x46]" using assms(1) by (auto simp: elf2bin_def split: if_splits)
  have "elf_loop f base offs [] = Inr img"
    using assms(1) m unfolding assms(2) by (auto simp: elf2bin_def get_u_def split: if_splits)
  then have "img = fold (\<lambda>(rel, n, bs). place rel n bs) (segments f base offs) []" by (rule elf_loop_segments)
  moreover have "byte_at k [] = 0" for k by (simp add: byte_at_def)
  ultimately show ?thesis using m place_all [OF assms(3), of "[]"] by (simp cong: option.case_cong)
qed

definition small_elf :: "byte list" where
  "small_elf = [0x7F, 0x45, 0x4C, 0x46] @ replicate 24 0 @ [52, 0, 0, 0] @ replicate 10 0 @ [32, 0, 1, 0] @ replicate 6 0 @
     [1, 0, 0, 0, 84, 0, 0, 0, 0, 0, 0, 0, 2, 0, 0, 0, 3, 0, 0, 0, 3, 0, 0, 0, 0, 0, 0, 0, 0, 0, 0, 0] @ [9, 8, 7]"

theorem elf2bin_image_witness: "elf2bin small_elf (Some 0) = Inr [0, 0, 9, 8, 7] \<and> byte_at 2 [0, 0, 9, 8, 7] = 9"
proof -
  have e: "elf2bin small_elf (Some 0) = Inr [0, 0, 9, 8, 7]" by code_simp
  have s: "segments small_elf (Some 0) (map (\<lambda>i. nat (unpack_u 4 0x1C small_elf) + i * nat (unpack_u 2 0x2A small_elf))
      [0..<nat (unpack_u 2 0x2C small_elf)]) = [(2, 3, [9, 8, 7])]" by code_simp
  show ?thesis using elf2bin_image [OF e refl] e s by (simp add: covers_def)
qed

end
