(* ===== verification/Serial_Text.thy ===== *)
theory Serial_Text
  imports Firmware_Hex
begin

text \<open>
  Text as the serial functions of \<^verbatim>\<open>src/tools/vux_tool.py\<close> handle it: lists of code points, decoding with
  replacement characters, and the string methods of Python that the functions call.
\<close>

section \<open>Encoding and decoding\<close>

definition codes :: "string \<Rightarrow> utext" where
  "codes s = map of_char s"

text \<open>\<open>decode("ascii", errors="replace")\<close>.\<close>

definition decode_ascii :: "byte list \<Rightarrow> utext" where
  "decode_ascii bs = map (\<lambda>b. if unat b < 128 then unat b else 0xFFFD) bs"

text \<open>
  \<open>decode("utf-8", errors="replace")\<close>: a sequence that stops being valid becomes one replacement character and
  decoding goes on with the byte it stopped at.
\<close>

fun utf8_tail :: "nat \<Rightarrow> nat \<Rightarrow> nat \<Rightarrow> nat \<Rightarrow> nat list \<Rightarrow> nat option \<times> nat list" where
  "utf8_tail 0 lo hi acc bs = (Some acc, bs)"
| "utf8_tail (Suc n) lo hi acc [] = (None, [])"
| "utf8_tail (Suc n) lo hi acc (b # bs) =
     (if lo \<le> b \<and> b \<le> hi then utf8_tail n 0x80 0xBF (acc * 64 + b mod 64) bs else (None, b # bs))"

text \<open>How many bytes follow a lead byte, the range of the first of them, and the lead byte's bits.\<close>

definition utf8_lead :: "nat \<Rightarrow> (nat \<times> nat \<times> nat \<times> nat) option" where
  "utf8_lead b =
     (if 0xC2 \<le> b \<and> b \<le> 0xDF then Some (1, 0x80, 0xBF, b mod 32)
      else if b = 0xE0 then Some (2, 0xA0, 0xBF, 0)
      else if b = 0xED then Some (2, 0x80, 0x9F, 13)
      else if 0xE1 \<le> b \<and> b \<le> 0xEF then Some (2, 0x80, 0xBF, b mod 16)
      else if b = 0xF0 then Some (3, 0x90, 0xBF, 0)
      else if 0xF1 \<le> b \<and> b \<le> 0xF3 then Some (3, 0x80, 0xBF, b mod 8)
      else if b = 0xF4 then Some (3, 0x80, 0x8F, 4)
      else None)"

lemma utf8_tail_length: "length (snd (utf8_tail n lo hi acc bs)) \<le> length bs"
  by (induction n lo hi acc bs rule: utf8_tail.induct) auto

function utf8 :: "nat list \<Rightarrow> utext" where
  "utf8 [] = []"
| "utf8 (b # bs) =
     (if b < 0x80 then b # utf8 bs
      else case utf8_lead b of
          None \<Rightarrow> 0xFFFD # utf8 bs
        | Some (n, lo, hi, acc) \<Rightarrow>
            (case fst (utf8_tail n lo hi acc bs) of None \<Rightarrow> 0xFFFD | Some c \<Rightarrow> c) # utf8 (snd (utf8_tail n lo hi acc bs)))"
  by pat_completeness auto
termination
  by (relation "measure length") (auto simp: less_Suc_eq_le utf8_tail_length)

definition decode_utf8 :: "byte list \<Rightarrow> utext" where
  "decode_utf8 bs = utf8 (map unat bs)"

text \<open>A text file's line ends, as reading it translates them.\<close>

fun text_mode :: "utext \<Rightarrow> utext" where
  "text_mode [] = []"
| "text_mode [c] = [if c = 13 then 10 else c]"
| "text_mode (c # d # t) = (if c = 13 then (if d = 10 then 10 # text_mode t else 10 # text_mode (d # t)) else c # text_mode (d # t))"

text \<open>\<open>str.encode()\<close>.\<close>

definition utf8_char :: "nat \<Rightarrow> nat list" where
  "utf8_char c =
     (if c < 0x80 then [c]
      else if c < 0x800 then [0xC0 + c div 64, 0x80 + c mod 64]
      else if c < 0x10000 then [0xE0 + c div 4096, 0x80 + c div 64 mod 64, 0x80 + c mod 64]
      else [0xF0 + c div 262144, 0x80 + c div 4096 mod 64, 0x80 + c div 64 mod 64, 0x80 + c mod 64])"

definition encode_utf8 :: "utext \<Rightarrow> byte list" where
  "encode_utf8 t = map of_nat (concat (map utf8_char t))"

section \<open>String methods\<close>

definition starts :: "'a list \<Rightarrow> 'a list \<Rightarrow> bool" where
  "starts p t \<longleftrightarrow> take (length p) t = p"

definition ends :: "'a list \<Rightarrow> 'a list \<Rightarrow> bool" where
  "ends p t \<longleftrightarrow> starts (rev p) (rev t)"

text \<open>\<open>find\<close>: the index of the first occurrence, \<open>None\<close> where Python returns -1.\<close>

fun find_sub :: "'a list \<Rightarrow> 'a list \<Rightarrow> nat option" where
  "find_sub p [] = (if p = [] then Some 0 else None)"
| "find_sub p (c # t) = (if starts p (c # t) then Some 0 else map_option Suc (find_sub p t))"

definition occurs :: "'a list \<Rightarrow> 'a list \<Rightarrow> bool" where
  "occurs p t \<longleftrightarrow> find_sub p t \<noteq> None"

definition rfind_sub :: "utext \<Rightarrow> utext \<Rightarrow> nat option" where
  "rfind_sub p t = map_option (\<lambda>k. length t - length p - k) (find_sub (rev p) (rev t))"

definition line_break :: "nat \<Rightarrow> bool" where
  "line_break c \<longleftrightarrow> c \<in> {0x0A, 0x0B, 0x0C, 0x0D, 0x1C, 0x1D, 0x1E, 0x85, 0x2028, 0x2029}"

function splitlines :: "utext \<Rightarrow> utext list" where
  "splitlines t =
     (if t = [] then []
      else takeWhile (\<lambda>c. \<not> line_break c) t #
        (case dropWhile (\<lambda>c. \<not> line_break c) t of
           [] \<Rightarrow> []
         | b # r \<Rightarrow> splitlines (if b = 0x0D \<and> starts [0x0A] r then tl r else r)))"
  by pat_completeness auto
termination
proof (relation "measure length")
  fix t b r
  assume "dropWhile (\<lambda>c. \<not> line_break c) t = b # r"
  then have "length r < length t" by (metis length_dropWhile_le length_Cons Suc_le_lessD)
  then show "((if b = 0x0D \<and> starts [0x0A] r then tl r else r), t) \<in> measure length" by (cases r) auto
qed simp

declare splitlines.simps [simp del]

definition white :: "nat \<Rightarrow> bool" where
  "white c \<longleftrightarrow> 9 \<le> c \<and> c \<le> 13 \<or> 28 \<le> c \<and> c \<le> 32 \<or> 0x2000 \<le> c \<and> c \<le> 0x200A \<or>
     c \<in> {0x85, 0xA0, 0x1680, 0x2028, 0x2029, 0x202F, 0x205F, 0x3000}"

definition strip :: "utext \<Rightarrow> utext" where
  "strip t = rev (dropWhile white (rev (dropWhile white t)))"

text \<open>
  Decimal digits of a number: \<open>f"{n}"\<close> in the scripts. The firmware prints numbers by \<open>put_dec\<close> (\<^verbatim>\<open>src/firmware/fw_common/src/fmt.rs\<close>);
  where the model has its text, it takes these digits for it and does not translate its loop.
\<close>

fun dec :: "nat \<Rightarrow> utext" where
  "dec n = (if n < 10 then [48 + n] else dec (n div 10) @ [48 + n mod 10])"

declare dec.simps [simp del]

section \<open>Garbled output\<close>

definition garbled :: "nat list \<Rightarrow> bool" where
  "garbled cs = list_ex (\<lambda>c. 0x80 \<le> c \<or> c < 0x20 \<and> c \<notin> {0x09, 0x0A, 0x0D, 0x1B}) cs"

definition garbled_hint :: "nat list \<Rightarrow> utext" where
  "garbled_hint cs =
     (if \<not> garbled cs then []
      else codes ''the output is garbled: the board's USB bridge received it at another baud rate (ModemManager probing the board? see tools/70-vux9k-board.rules)'')"

end
