(* ===== verification/Serial_Tool.thy ===== *)
theory Serial_Tool
  imports Serial_Text
begin

text \<open>
  The serial side of \<^verbatim>\<open>src/tools/vux_tool.py\<close>: draining the port, transfer v2, the prompts of the two boot
  stages and their commands. The port is a parameter: a record of the operations that the code calls on it, over
  a state that also holds the clock. Times are integers in microseconds. A loop that may wait forever is a
  partial function; a function that may raise returns an exception or a value together with the port's state.
\<close>

section \<open>The port\<close>

record 'p serial =
  ser_read :: "nat \<Rightarrow> 'p \<Rightarrow> byte list \<times> 'p"
  ser_read_until :: "byte list \<Rightarrow> 'p \<Rightarrow> (byte list \<times> 'p) option"
  ser_write :: "byte list \<Rightarrow> 'p \<Rightarrow> 'p"
  ser_in_waiting :: "'p \<Rightarrow> nat"
  ser_reset :: "'p \<Rightarrow> 'p"
  ser_sleep :: "int \<Rightarrow> 'p \<Rightarrow> 'p"
  ser_now :: "'p \<Rightarrow> int"

type_synonym ('p, 'a) outcome = "('a result \<times> 'p) option"

definition io_bind :: "('p, 'a) outcome \<Rightarrow> ('a \<Rightarrow> 'p \<Rightarrow> ('p, 'b) outcome) \<Rightarrow> ('p, 'b) outcome" where
  "io_bind m f = (case m of
      None \<Rightarrow> None
    | Some (Inl e, p) \<Rightarrow> Some (Inl e, p)
    | Some (Inr x, p) \<Rightarrow> f x p)"

definition S1_PROMPT :: utext where "S1_PROMPT = codes ''s1> ''"
definition S2_PROMPT :: utext where "S2_PROMPT = codes ''s2> ''"

partial_function (option) drain_loop :: "'p serial \<Rightarrow> int \<Rightarrow> int \<Rightarrow> 'p \<Rightarrow> 'p option" where
  "drain_loop io timeout t0 p =
     (if ser_now io p - t0 < timeout
      then if 0 < ser_in_waiting io p
           then (let q = snd (ser_read io (ser_in_waiting io p) p) in drain_loop io timeout (ser_now io q) (ser_sleep io 10000 q))
           else drain_loop io timeout t0 (ser_sleep io 10000 p)
      else Some p)"

definition drain_serial :: "'p serial \<Rightarrow> int \<Rightarrow> 'p \<Rightarrow> 'p option" where
  "drain_serial io timeout p = (let p = ser_reset io p in drain_loop io timeout (ser_now io p) p)"

text \<open>A function's first step: drain the port, then send a command.\<close>

definition drain_send :: "'p serial \<Rightarrow> int \<Rightarrow> byte list \<Rightarrow> 'p \<Rightarrow> 'p option" where
  "drain_send io timeout bs p = map_option (ser_write io bs) (drain_serial io timeout p)"

section \<open>One-key commands\<close>

definition hex_digit :: "nat \<Rightarrow> nat" where
  "hex_digit d = (if d < 10 then 48 + d else 55 + d)"

fun hex_upper :: "nat \<Rightarrow> utext" where
  "hex_upper n = (if n < 16 then [hex_digit n] else hex_upper (n div 16) @ [hex_digit (n mod 16)])"

declare hex_upper.simps [simp del]

text \<open>\<open>f"{n:02X}"\<close>.\<close>

definition hex02 :: "nat \<Rightarrow> utext" where
  "hex02 n = (let h = hex_upper n in replicate (2 - length h) 48 @ h)"

partial_function (option) cmd_wait :: "'p serial \<Rightarrow> utext \<Rightarrow> utext \<Rightarrow> int \<Rightarrow> int \<Rightarrow> utext \<Rightarrow> 'p \<Rightarrow> (utext \<times> 'p) option" where
  "cmd_wait io mark prompt start timeout buf p =
     (if ser_now io p - start < timeout
      then (case ser_read io 256 p of (c, p) \<Rightarrow>
        if c \<noteq> []
        then (let buf = buf @ decode_utf8 c
              in case find_sub mark buf of
                   Some k \<Rightarrow> if occurs prompt (drop (k + length mark) buf) then Some (buf, p)
                     else cmd_wait io mark prompt start timeout buf p
                 | None \<Rightarrow> cmd_wait io mark prompt start timeout buf p)
        else cmd_wait io mark prompt start timeout buf p)
      else Some (buf, p))"

definition send_cmd_and_wait :: "'p serial \<Rightarrow> nat \<Rightarrow> int \<Rightarrow> utext \<Rightarrow> 'p \<Rightarrow> (utext \<times> 'p) option" where
  "send_cmd_and_wait io cmd_char timeout prompt p =
     Option.bind (drain_send io 100000 (encode_utf8 [cmd_char]) p) (\<lambda>p.
       let mark = (if prompt = S1_PROMPT
                   then codes ''[CMD:0x'' @ hex02 cmd_char @ codes '']''
                   else [cmd_char])
       in cmd_wait io mark prompt (ser_now io p) timeout [] p)"

section \<open>Transfer v2\<close>

definition UPLOAD_V2_BLOCK :: nat where "UPLOAD_V2_BLOCK = 512"

partial_function (option) upload_line :: "'p serial \<Rightarrow> int \<Rightarrow> byte list \<Rightarrow> 'p \<Rightarrow> (utext result \<times> 'p) option" where
  "upload_line io deadline buf p =
     (if ser_now io p < deadline
      then Option.bind (ser_read_until io [0x0A] p) (\<lambda>(c, p).
        let buf = buf @ c
        in if buf \<noteq> [] \<and> last buf = 0x0A
           then (let line = strip (decode_ascii buf)
                 in if list_ex (\<lambda>w. starts (codes w) line) [''[READY'', ''[LEN:'', ''[OK]'', ''[ERR]'']
                    then Some (Inr line, p)
                    else upload_line io deadline [] p)
           else upload_line io deadline buf p)
      else Some (Inl (UploadError (NoAnswer buf)), p))"

definition upload_expect :: "'p serial \<Rightarrow> utext \<Rightarrow> int \<Rightarrow> 'p \<Rightarrow> ('p, utext) outcome" where
  "upload_expect io want deadline p =
     io_bind (upload_line io deadline [] p) (\<lambda>line p.
       if starts (codes ''[ERR]'') line \<or> \<not> starts want line then Some (Inl (UploadError (Line line)), p)
       else Some (Inr line, p))"

text \<open>\<open>struct.pack("<I", v)\<close>, written to the port.\<close>

definition write_u32 :: "'p serial \<Rightarrow> int \<Rightarrow> 'p \<Rightarrow> ('p, unit) outcome" where
  "write_u32 io v p = (case pack_u 4 v of Inl e \<Rightarrow> Some (Inl e, p) | Inr bs \<Rightarrow> Some (Inr (), ser_write io bs p))"

fun send_blocks :: "'p serial \<Rightarrow> int \<Rightarrow> nat \<Rightarrow> byte list list \<Rightarrow> 'p \<Rightarrow> ('p, unit) outcome" where
  "send_blocks io timeout i [] p = Some (Inr (), p)"
| "send_blocks io timeout i (b # bs) p =
     io_bind (upload_expect io (codes ''[READY-BLK:'' @ dec i @ codes '']'') (ser_now io p + timeout) p) (\<lambda>_ p.
       send_blocks io timeout (Suc i) bs (ser_write io b p))"

definition send_upload_v2 :: "'p serial \<Rightarrow> byte list \<Rightarrow> int \<Rightarrow> int option \<Rightarrow> 'p \<Rightarrow> ('p, utext) outcome" where
  "send_upload_v2 io data timeout crc_override p =
     io_bind (upload_expect io (codes ''[READY-V2]'') (ser_now io p + timeout) p) (\<lambda>_ p.
     io_bind (write_u32 io (int (length data)) p) (\<lambda>_ p.
     io_bind (upload_expect io (codes ''[LEN:'' @ dec (length data) @ codes '']'') (ser_now io p + timeout) p) (\<lambda>_ p.
     io_bind (send_blocks io timeout 0 (pieces UPLOAD_V2_BLOCK data) p) (\<lambda>_ p.
     io_bind (upload_expect io (codes ''[READY-CRC]'') (ser_now io p + timeout) p) (\<lambda>_ p.
     io_bind (write_u32 io (case crc_override of Some c \<Rightarrow> c | None \<Rightarrow> crc32 data AND 0xFFFFFFFF) p) (\<lambda>_ p.
     upload_expect io (codes ''[OK]'') (ser_now io p + timeout) p))))))"

section \<open>Reading until a token\<close>

definition token_in :: "utext list \<Rightarrow> utext \<Rightarrow> utext option" where
  "token_in tokens t = List.find (\<lambda>k. occurs k t) tokens"

partial_function (option) read_loop :: "'p serial \<Rightarrow> utext list \<Rightarrow> int \<Rightarrow> utext \<Rightarrow> 'p \<Rightarrow> ((utext option \<times> utext) \<times> 'p) option" where
  "read_loop io tokens end_t t p =
     (if ser_now io p < end_t
      then (case ser_read io 256 p of (c, p) \<Rightarrow>
        if c \<noteq> []
        then (let t = t @ decode_utf8 c
              in case token_in tokens t of
                   Some k \<Rightarrow> Some ((Some k, t), p)
                 | None \<Rightarrow> read_loop io tokens end_t t p)
        else read_loop io tokens end_t t p)
      else Some ((None, t), p))"

definition read_until :: "'p serial \<Rightarrow> utext list \<Rightarrow> int \<Rightarrow> utext \<Rightarrow> 'p \<Rightarrow> ((utext option \<times> utext) \<times> 'p) option" where
  "read_until io tokens timeout t p =
     (case token_in tokens t of
        Some k \<Rightarrow> Some ((Some k, t), p)
      | None \<Rightarrow> read_loop io tokens (ser_now io p + timeout) t p)"

section \<open>The prompts\<close>

partial_function (option) s1_loop :: "'p serial \<Rightarrow> int \<Rightarrow> utext \<Rightarrow> 'p \<Rightarrow> (utext result \<times> 'p) option" where
  "s1_loop io end_t t p =
     (if ser_now io p < end_t
      then Option.bind (read_until io [S1_PROMPT, S2_PROMPT] 20000 [] (ser_write io [0x0D] p)) (\<lambda>((got, u), p).
        if got = Some S1_PROMPT then Some (Inr (t @ u), p)
        else s1_loop io end_t (t @ u) (if got = Some S2_PROMPT then ser_write io (encode_utf8 (codes ''reset'') @ [0x0D]) p else p))
      else Some (Inl TimeoutError, p))"

definition enter_s1 :: "'p serial \<Rightarrow> int \<Rightarrow> bool \<Rightarrow> 'p \<Rightarrow> ('p, utext) outcome" where
  "enter_s1 io timeout drain p =
     Option.bind (if drain then drain_serial io 50000 p else Some p) (\<lambda>p. s1_loop io (ser_now io p + timeout) [] p)"

partial_function (option) s2_loop :: "'p serial \<Rightarrow> int \<Rightarrow> utext \<Rightarrow> 'p \<Rightarrow> (utext result \<times> 'p) option" where
  "s2_loop io end_t t p =
     (if ser_now io p < end_t
      then Option.bind (read_until io [S1_PROMPT, S2_PROMPT] 50000 [] (ser_write io [0x0D] p)) (\<lambda>((got, u), p).
        if got = Some S2_PROMPT then Some (Inr (t @ u), p)
        else if got = Some S1_PROMPT
        then (let p = ser_write io (encode_utf8 (codes ''b'')) p
              in Option.bind (read_until io [S2_PROMPT] (max 0 (end_t - ser_now io p)) [] p) (\<lambda>((got, v), p).
                   if got \<noteq> None then Some (Inr (t @ u @ v), p) else s2_loop io end_t (t @ u @ v) p))
        else s2_loop io end_t (t @ u) p)
      else Some (Inl TimeoutError, p))"

definition enter_s2 :: "'p serial \<Rightarrow> int \<Rightarrow> 'p \<Rightarrow> ('p, utext) outcome" where
  "enter_s2 io timeout p = Option.bind (drain_serial io 50000 p) (\<lambda>p. s2_loop io (ser_now io p + timeout) [] p)"

section \<open>Commands of the second stage\<close>

definition s2_reply :: "utext \<Rightarrow> utext \<Rightarrow> utext" where
  "s2_reply t line =
     (let echo = line @ [0x0A];
          t = (case find_sub echo t of Some at \<Rightarrow> drop (at + length echo) t | None \<Rightarrow> t)
      in case rfind_sub S2_PROMPT t of Some k \<Rightarrow> take k t | None \<Rightarrow> t)"

definition s2_check :: "utext \<Rightarrow> utext result" where
  "s2_check out = (case List.find (starts (codes ''[ERR]'')) (splitlines out) of
      Some err \<Rightarrow> Inl (S2Error err)
    | None \<Rightarrow> Inr out)"

definition s2_cmd :: "'p serial \<Rightarrow> utext \<Rightarrow> int \<Rightarrow> bool \<Rightarrow> 'p \<Rightarrow> ('p, utext) outcome" where
  "s2_cmd io line timeout check p =
     Option.bind (drain_send io 50000 (encode_utf8 line @ [0x0D]) p) (\<lambda>p.
     Option.bind (read_until io [line @ [0x0A]] timeout [] p) (\<lambda>((got, t), p).
     Option.bind (case got of
         Some g \<Rightarrow> (let at = (case find_sub g t of Some k \<Rightarrow> k + length g | None \<Rightarrow> length g - 1)
           in map_option (\<lambda>((got, rest), p). ((got, take at t @ rest), p)) (read_until io [S2_PROMPT] timeout (drop at t) p))
       | None \<Rightarrow> Some ((None, t), p)) (\<lambda>((got, t), p).
     if got = None then Some (Inl TimeoutError, p)
     else (let out = s2_reply t line in Some (if check then s2_check out else Inr out, p)))))"

definition first_line :: "string list \<Rightarrow> utext \<Rightarrow> utext option" where
  "first_line ws t = List.find (\<lambda>l. list_ex (\<lambda>w. starts (codes w) l) ws) (splitlines t)"

definition put :: "'p serial \<Rightarrow> utext \<Rightarrow> byte list \<Rightarrow> int \<Rightarrow> 'p \<Rightarrow> ('p, utext) outcome" where
  "put io path data timeout p =
     Option.bind (drain_send io 50000 (encode_utf8 (codes ''put '' @ path) @ [0x0D]) p) (\<lambda>p.
     Option.bind (send_upload_v2 io data timeout None p) (\<lambda>(r, p). case r of
       Inl (UploadError m) \<Rightarrow>
         map_option (\<lambda>(_, p). (Inl (UploadError m), p)) (read_until io [S2_PROMPT] timeout [] p)
     | Inl e \<Rightarrow> Some (Inl e, p)
     | Inr _ \<Rightarrow>
         map_option (\<lambda>((got, t), p).
             (if got = None then Inl TimeoutError
              else rmap (\<lambda>_. case first_line [''[PUT]''] t of Some l \<Rightarrow> l | None \<Rightarrow> strip t) (s2_check t), p))
           (read_until io [S2_PROMPT] (timeout + 2000 * int (length data)) [] p)))"

definition after :: "utext \<Rightarrow> nat option \<Rightarrow> utext" where
  "after t k = drop (case k of Some k \<Rightarrow> k + 1 | None \<Rightarrow> 0) t"

definition has_run_line :: "utext \<Rightarrow> bool" where
  "has_run_line t = (case find_sub (codes ''[RUN] '') t of Some at \<Rightarrow> occurs [0x0A] (drop at t) | None \<Rightarrow> False)"

partial_function (option) run_loop :: "'p serial \<Rightarrow> int \<Rightarrow> utext \<Rightarrow> 'p \<Rightarrow> (utext result \<times> 'p) option" where
  "run_loop io end_t t p =
     (if ser_now io p < end_t
      then Option.bind (read_until io [[0x0A]] (max 0 (end_t - ser_now io p)) [] p) (\<lambda>((_, u), p).
        let t = t @ u
        in if has_run_line t then Some (Inr t, p)
           else if occurs S2_PROMPT (after t (find_sub [0x0A] t))
           then Some (case s2_check t of Inl e \<Rightarrow> Inl e | Inr _ \<Rightarrow> Inl (S2Error (strip t)), p)
           else run_loop io end_t t p)
      else Some (Inl TimeoutError, p))"

definition run_app :: "'p serial \<Rightarrow> utext \<Rightarrow> int \<Rightarrow> 'p \<Rightarrow> ('p, utext) outcome" where
  "run_app io path timeout p =
     Option.bind (drain_send io 50000 (encode_utf8 (codes ''run '' @ path @ [0x0D])) p) (\<lambda>p.
       run_loop io (ser_now io p + timeout) [] p)"

definition after_run :: "utext \<Rightarrow> utext" where
  "after_run t = (case find_sub (codes ''[RUN] '') t of
      Some at \<Rightarrow> (if occurs [0x0A] (drop at t) then after (drop at t) (find_sub [0x0A] (drop at t)) else [])
    | None \<Rightarrow> [])"

definition ram_boot :: "'p serial \<Rightarrow> byte list \<Rightarrow> int \<Rightarrow> 'p \<Rightarrow> ('p, utext) outcome" where
  "ram_boot io data timeout p =
     Option.bind (drain_send io 50000 (encode_utf8 (codes ''u'')) p) (\<lambda>p.
     Option.bind (send_upload_v2 io data timeout None p) (\<lambda>(r, p). case r of
       Inl (UploadError m) \<Rightarrow>
         map_option (\<lambda>((_, rest), p). (Inl (UploadError (Refused m (strip rest))), p)) (read_until io [S1_PROMPT] timeout [] p)
     | Inl e \<Rightarrow> Some (Inl e, p)
     | Inr ok \<Rightarrow>
         map_option (\<lambda>((got, t), p).
             (if got \<noteq> Some S2_PROMPT then Inl (UploadError (NotStarted ok t)) else Inr (ok @ [0x0A] @ t), p))
           (read_until io [S2_PROMPT, S1_PROMPT] timeout [] p)))"

definition install_stage2 :: "'p serial \<Rightarrow> byte list \<Rightarrow> bool \<Rightarrow> int \<Rightarrow> 'p \<Rightarrow> ('p, utext) outcome" where
  "install_stage2 io data unchecked timeout p =
     Option.bind (drain_send io 50000 (encode_utf8 (codes (if unchecked then ''install -u'' else ''install'')) @ [0x0D]) p) (\<lambda>p.
     io_bind (send_upload_v2 io data timeout None p) (\<lambda>_ p.
     map_option (\<lambda>((got, t), p).
         let line = (case first_line [''[INSTALL]'', ''[UNCHECKED]''] t of Some l \<Rightarrow> l | None \<Rightarrow> [])
         in (if \<not> ends (codes ''OK'') line then Inl (UploadError (Line (if line \<noteq> [] then line else t))) else Inr line, p))
       (read_until io [S2_PROMPT] timeout [] p)))"

section \<open>Command-line wrappers\<close>

text \<open>What the commands do with an open port, and what they print.\<close>

definition cmd_sd_info :: "'p serial \<Rightarrow> 'p \<Rightarrow> ('p, utext) outcome" where
  "cmd_sd_info io p =
     io_bind (enter_s1 io 10000000 True p) (\<lambda>_ p.
       map_option (\<lambda>(t, p). (Inr t, p)) (send_cmd_and_wait io (of_char CHR ''i'') 30000000 S1_PROMPT p))"

definition cmd_run :: "'p serial \<Rightarrow> byte list \<Rightarrow> 'p \<Rightarrow> ('p, utext) outcome" where
  "cmd_run io data p = io_bind (enter_s1 io 10000000 True p) (\<lambda>_ p. ram_boot io data 10000000 p)"

definition cmd_install_stage2 :: "'p serial \<Rightarrow> byte list \<Rightarrow> 'p \<Rightarrow> ('p, utext list) outcome" where
  "cmd_install_stage2 io data p =
     io_bind (enter_s1 io 10000000 True p) (\<lambda>_ p.
     io_bind (ram_boot io data 10000000 p) (\<lambda>_ p.
     io_bind (install_stage2 io data False 30000000 p) (\<lambda>line p.
     map_option (\<lambda>((_, t), p). (Inr [line, t], p))
       (read_until io [S2_PROMPT, S1_PROMPT] 20000000 [] (ser_write io (encode_utf8 (codes ''reset'') @ [0x0D]) p)))))"

definition cmd_ls :: "'p serial \<Rightarrow> utext \<Rightarrow> 'p \<Rightarrow> ('p, utext) outcome" where
  "cmd_ls io path p =
     io_bind (enter_s2 io 20000000 p) (\<lambda>_ p.
       s2_cmd io (if path \<noteq> [] then codes ''ls '' @ path else codes ''ls'') 30000000 True p)"

definition cmd_mkdir :: "'p serial \<Rightarrow> utext \<Rightarrow> 'p \<Rightarrow> ('p, utext) outcome" where
  "cmd_mkdir io path p =
     io_bind (enter_s2 io 20000000 p) (\<lambda>_ p. s2_cmd io (codes ''mkdir '' @ path) 30000000 True p)"

definition cmd_put :: "'p serial \<Rightarrow> utext \<Rightarrow> byte list \<Rightarrow> 'p \<Rightarrow> ('p, utext) outcome" where
  "cmd_put io path data p = io_bind (enter_s2 io 20000000 p) (\<lambda>_ p. put io path data 10000000 p)"

definition cmd_run_app :: "'p serial \<Rightarrow> utext \<Rightarrow> int \<Rightarrow> 'p \<Rightarrow> ('p, utext) outcome" where
  "cmd_run_app io path timeout p = io_bind (enter_s2 io 20000000 p) (\<lambda>_ p. run_app io path timeout p)"

end
