(* ===== verification/Serial_Calls.thy ===== *)
theory Serial_Calls
  imports Serial_Tool
begin

text \<open>
  What the serial functions promise for any port: they return when reading takes time, a transfer sends nothing but
  the length, the data and the CRC in order, and the replies of the second stage are cut out of what was read.
\<close>

section \<open>Outcomes\<close>

lemma io_bind_simps [simp]:
  "io_bind None f = None" "io_bind (Some (Inl e, p)) f = Some (Inl e, p)" "io_bind (Some (Inr x, p)) f = f x p"
  by (simp_all add: io_bind_def)

lemma io_bind_Some:
  "io_bind m f = Some (r, q) \<longleftrightarrow>
     (\<exists>e. m = Some (Inl e, q) \<and> r = Inl e) \<or> (\<exists>x p. m = Some (Inr x, p) \<and> f x p = Some (r, q))"
  by (auto simp: io_bind_def split: option.splits sum.splits)

lemma io_bind_returns: "\<exists>r. m = Some r \<Longrightarrow> (\<And>x p. \<exists>r. f x p = Some r) \<Longrightarrow> \<exists>r. io_bind m f = Some r"
  by (auto simp: io_bind_def split: sum.splits)

section \<open>Loops end\<close>

text \<open>
  A state is later than another when the fine clock has moved, or stands still and fewer bytes are waiting; it is no
  earlier when the clock has moved, or stands still and no more bytes are waiting.
\<close>

definition passes :: "('p \<Rightarrow> int) \<Rightarrow> ('p \<Rightarrow> nat) \<Rightarrow> 'p \<Rightarrow> 'p \<Rightarrow> bool" where
  "passes tick pending p q \<longleftrightarrow> tick p < tick q \<or> tick p = tick q \<and> pending q < pending p"

definition keeps :: "('p \<Rightarrow> int) \<Rightarrow> ('p \<Rightarrow> nat) \<Rightarrow> 'p \<Rightarrow> 'p \<Rightarrow> bool" where
  "keeps tick pending p q \<longleftrightarrow> tick p < tick q \<or> tick p = tick q \<and> pending q \<le> pending p"

lemma passes_trans:
  "passes tick pending p q \<Longrightarrow> keeps tick pending q r \<Longrightarrow> passes tick pending p r"
  "keeps tick pending p q \<Longrightarrow> passes tick pending q r \<Longrightarrow> passes tick pending p r"
  "keeps tick pending p q \<Longrightarrow> keeps tick pending q r \<Longrightarrow> keeps tick pending p r"
  "passes tick pending p q \<Longrightarrow> keeps tick pending p q" "keeps tick pending p p"
  by (auto simp: passes_def keeps_def)

lemma empty_token: "k \<noteq> [] \<Longrightarrow> \<not> occurs k []"
  by (simp add: occurs_def)

lemma prompts_nonempty [simp]: "S1_PROMPT \<noteq> []" "S2_PROMPT \<noteq> []"
  by (simp_all add: S1_PROMPT_def S2_PROMPT_def codes_def)

lemma no_prompt: "token_in [S1_PROMPT, S2_PROMPT] [] = None" "token_in [[0x0A]] [] = None"
  by (simp_all add: token_in_def empty_token)

lemma write_u32_returns: "\<exists>r. write_u32 io v p = Some r"
  by (simp add: write_u32_def split: sum.split)

text \<open>
  A port on which reading takes time or takes bytes that were waiting. Its clock counts the ticks of a finer one; writing
  does not turn it back.
\<close>

locale timed_port =
  fixes io :: "'p serial" and tick :: "'p \<Rightarrow> int" and fine :: int and pending :: "'p \<Rightarrow> nat"
  assumes fine_pos: "0 < fine"
    and now_tick: "ser_now io p = tick p div fine"
    and read_passes: "0 < n \<Longrightarrow> passes tick pending p (snd (ser_read io n p))"
    and write_keeps: "keeps tick pending p (ser_write io b p)"
begin

lemmas trans = passes_trans [of tick pending]

lemma deadline_induct:
  assumes "\<And>p. (\<And>q. ser_now io p < d \<Longrightarrow> passes tick pending p q \<Longrightarrow> P q) \<Longrightarrow> P p"
  shows "P p"
proof -
  have "wf (inv_image (less_than <*lex*> less_than) (\<lambda>p. (nat (d * fine - tick p), pending p)))" by (intro wf_inv_image wf_lex_prod wf_less_than)
  then show ?thesis
  proof (induction p rule: wf_induct_rule)
    case (less p)
    show ?case
    proof (rule assms)
      fix q
      assume d: "ser_now io p < d" and q: "passes tick pending p q"
      have "tick p < d * fine"
      proof (rule ccontr)
        assume "\<not> tick p < d * fine"
        then have "d * fine div fine \<le> tick p div fine" using fine_pos by (intro zdiv_mono1) simp_all
        then show False using d fine_pos by (simp add: now_tick)
      qed
      then show "P q" using q by (intro less) (auto simp: passes_def)
    qed
  qed
qed

lemma read_loop_returns:
  "\<exists>r q. read_loop io ks d t p = Some (r, q) \<and> keeps tick pending p q \<and> (ser_now io p < d \<longrightarrow> passes tick pending p q)"
proof (induction p arbitrary: t rule: deadline_induct [of d])
  case (1 p)
  obtain c q where r: "ser_read io 256 p = (c, q)" by (cases "ser_read io 256 p")
  have lt: "passes tick pending p q" using read_passes [of 256 p] r by simp
  have IH: "\<exists>r q'. read_loop io ks d u q = Some (r, q') \<and> passes tick pending p q'" if "ser_now io p < d" for u
    using 1 [OF that lt, of u] trans(1) [OF lt] by blast
  show ?case
  proof (cases "ser_now io p < d")
    case True
    then show ?thesis
      using IH [OF True, of t] IH [OF True, of "t @ decode_utf8 c"] lt
      by (subst read_loop.simps) (auto simp: r Let_def trans(4) split: option.split)
  next
    case False
    then show ?thesis by (subst read_loop.simps) (simp add: trans(5))
  qed
qed

lemma read_until_returns:
  "\<exists>r q. read_until io ks d t p = Some (r, q) \<and> keeps tick pending p q \<and> (token_in ks t = None \<and> 0 < d \<longrightarrow> passes tick pending p q)"
proof (cases "token_in ks t")
  case None
  then show ?thesis using read_loop_returns [of ks "ser_now io p + d" t p] by (simp add: read_until_def)
next
  case (Some k)
  then show ?thesis by (simp add: read_until_def trans(5))
qed

lemma read_until_some: "\<exists>r q. read_until io ks d t p = Some (r, q)"
  using read_until_returns by blast

lemma s1_loop_returns: "\<exists>r q. s1_loop io d t p = Some (r, q)"
proof (induction p arbitrary: t rule: deadline_induct [of d])
  case (1 p)
  let ?p = "ser_write io [0x0D] p"
  obtain got u q where r: "read_until io [S1_PROMPT, S2_PROMPT] 20000 [] ?p = Some ((got, u), q)" and lt: "passes tick pending ?p q"
    using read_until_returns [of "[S1_PROMPT, S2_PROMPT]" 20000 "[]" ?p] no_prompt(1) by auto
  have "passes tick pending p q" using trans(2) [OF write_keeps lt] .
  then have "passes tick pending p q \<and> passes tick pending p (ser_write io b q)" for b
    using trans(1) write_keeps by blast
  then have "\<exists>r q'. s1_loop io d v q = Some (r, q')" "\<exists>r q'. s1_loop io d v (ser_write io b q) = Some (r, q')" if "ser_now io p < d" for v b
    using 1 that by blast+
  then show ?case by (subst s1_loop.simps) (auto simp: r)
qed

lemma s2_loop_returns: "\<exists>r q. s2_loop io d t p = Some (r, q)"
proof (induction p arbitrary: t rule: deadline_induct [of d])
  case (1 p)
  let ?p = "ser_write io [0x0D] p" and ?b = "encode_utf8 (codes ''b'')"
  obtain got u q where r: "read_until io [S1_PROMPT, S2_PROMPT] 50000 [] ?p = Some ((got, u), q)" and lt: "passes tick pending ?p q"
    using read_until_returns [of "[S1_PROMPT, S2_PROMPT]" 50000 "[]" ?p] no_prompt(1) by auto
  let ?q = "ser_write io ?b q"
  obtain got' v q' where r': "read_until io [S2_PROMPT] (max 0 (d - ser_now io ?q)) [] ?q = Some ((got', v), q')"
    and le: "keeps tick pending ?q q'"
    using read_until_returns [of "[S2_PROMPT]" _ "[]" ?q] by (metis surj_pair)
  have q: "passes tick pending p q" using trans(2) [OF write_keeps lt] .
  have "passes tick pending p q'" using trans(1) [OF trans(1) [OF q write_keeps] le] .
  then have "\<exists>r q''. s2_loop io d w q = Some (r, q'')" "\<exists>r q''. s2_loop io d w q' = Some (r, q'')" if "ser_now io p < d" for w
    using 1 q that by blast+
  then show ?case by (subst s2_loop.simps) (auto simp: r r' Let_def)
qed

lemma run_loop_returns: "\<exists>r q. run_loop io d t p = Some (r, q)"
proof (induction p arbitrary: t rule: deadline_induct [of d])
  case (1 p)
  obtain got u q where r: "read_until io [[0x0A]] (max 0 (d - ser_now io p)) [] p = Some ((got, u), q)"
    and lt: "ser_now io p < d \<longrightarrow> passes tick pending p q"
    using read_until_returns [of "[[0x0A]]" "max 0 (d - ser_now io p)" "[]" p] no_prompt(2) by (auto simp: less_max_iff_disj)
  have "\<exists>r q'. run_loop io d w q = Some (r, q')" if "ser_now io p < d" for w
    using 1 lt that by blast
  moreover have "read_until io [[0x0A]] (d - ser_now io p) [] p = Some ((got, u), q)" if "ser_now io p < d" using r that by simp
  ultimately show ?case by (subst run_loop.simps) (auto simp: Let_def split: sum.split)
qed

lemma cmd_wait_returns: "\<exists>t q. cmd_wait io mark prompt start d buf p = Some (t, q)"
proof (induction p arbitrary: buf rule: deadline_induct [of "start + d"])
  case (1 p)
  obtain c q where r: "ser_read io 256 p = (c, q)" by (cases "ser_read io 256 p")
  have lt: "passes tick pending p q" using read_passes [of 256 p] r by simp
  have IH: "\<exists>t q'. cmd_wait io mark prompt start d b q = Some (t, q')" if "ser_now io p - start < d" for b
    using 1 [OF _ lt] that by simp
  then show ?case by (subst cmd_wait.simps) (auto simp: r Let_def split: option.split)
qed

lemma enter_s1_returns: "\<exists>r. enter_s1 io d False p = Some r"
  using s1_loop_returns by (auto simp: enter_s1_def)

lemma s2_cmd_returns:
  assumes q: "drain_send io 50000 (encode_utf8 line @ [0x0D]) p = Some q"
  shows "\<exists>r q'. s2_cmd io line d ch p = Some (r, q')"
proof -
  obtain got u q1 where 1: "read_until io [line @ [0x0A]] d [] q = Some ((got, u), q1)"
    using read_until_some [of "[line @ [0x0A]]" d "[]" q] by auto
  show ?thesis
  proof (cases got)
    case None
    then show ?thesis unfolding s2_cmd_def using q 1 by simp
  next
    case (Some a)
    let ?at = "case find_sub a u of Some k \<Rightarrow> k + length a | None \<Rightarrow> length a - 1"
    obtain g v q2 where "read_until io [S2_PROMPT] d (drop ?at u) q1 = Some ((g, v), q2)"
      using read_until_some [of "[S2_PROMPT]" d "drop ?at u" q1] by auto
    then show ?thesis unfolding s2_cmd_def using q 1 Some by (simp add: Let_def)
  qed
qed

end

text \<open>A port that also answers a read up to a newline, in time.\<close>

locale line_port = timed_port +
  assumes read_line: "\<exists>c q. ser_read_until io [0x0A] p = Some (c, q) \<and> passes tick pending p q"
begin

lemma upload_line_returns: "\<exists>r q. upload_line io d buf p = Some (r, q)"
proof (induction p arbitrary: buf rule: deadline_induct [of d])
  case (1 p)
  obtain c q where r: "ser_read_until io [0x0A] p = Some (c, q)" "passes tick pending p q" using read_line by blast
  have "\<exists>r q'. upload_line io d b q = Some (r, q')" if "ser_now io p < d" for b using 1 [OF that r(2)] .
  then show ?case by (subst upload_line.simps) (auto simp: r(1) Let_def)
qed

lemma upload_expect_returns: "\<exists>r. upload_expect io w d p = Some r"
  unfolding upload_expect_def using upload_line_returns by (intro io_bind_returns) auto

lemma send_blocks_returns: "\<exists>r. send_blocks io d i bs p = Some r"
proof (induction bs arbitrary: i p)
  case (Cons b bs)
  show ?case unfolding send_blocks.simps by (intro io_bind_returns upload_expect_returns Cons.IH)
qed simp

lemma send_upload_returns: "\<exists>r. send_upload_v2 io data d c p = Some r"
  unfolding send_upload_v2_def
  by (intro io_bind_returns upload_expect_returns write_u32_returns send_blocks_returns)

end

text \<open>
  A port whose device falls silent when nothing is written to it: sleeping takes time, and every read of waiting bytes
  uses up some of what the device still sends.
\<close>

locale quiet_port = timed_port +
  fixes left :: "'p \<Rightarrow> nat"
  assumes read_left: "0 < ser_in_waiting io p \<Longrightarrow> left (snd (ser_read io (ser_in_waiting io p) p)) < left p"
    and sleep_tick: "0 < d \<Longrightarrow> tick p < tick (ser_sleep io d p)"
    and sleep_left: "left (ser_sleep io d p) \<le> left p"
begin

lemma drain_loop_upto: "left p \<le> n \<Longrightarrow> \<exists>q. drain_loop io d t0 p = Some q"
proof (induction n arbitrary: t0 p rule: less_induct)
  case (less n)
  have "left p \<le> n \<longrightarrow> (\<exists>q. drain_loop io d t0 p = Some q)" for t0 p
  proof (induction p rule: deadline_induct [of "t0 + d"])
    case (1 p)
    let ?q = "snd (ser_read io (ser_in_waiting io p) p)"
    have later: "passes tick pending p (ser_sleep io 10000 p)" using sleep_tick [of 10000 p] by (simp add: passes_def)
    have some: "\<exists>q. drain_loop io d (ser_now io ?q) (ser_sleep io 10000 ?q) = Some q" if "left p \<le> n" "0 < ser_in_waiting io p"
      using less.IH [of "left (ser_sleep io 10000 ?q)"] read_left [OF that(2)] sleep_left [of 10000 ?q] that(1) by simp
    have none: "\<exists>q. drain_loop io d t0 (ser_sleep io 10000 p) = Some q" if "left p \<le> n" "ser_now io p - t0 < d"
      using 1 [OF _ later] sleep_left [of 10000 p] that by simp
    show ?case using some none by (subst drain_loop.simps) (auto simp: Let_def)
  qed
  then show ?case using less.prems by blast
qed

lemma drain_returns: "\<exists>q. drain_serial io d p = Some q"
  using drain_loop_upto [OF order_refl] by (simp add: drain_serial_def Let_def)

lemma drain_send_returns: "\<exists>q. drain_send io d bs p = Some q"
  using drain_returns [of d p] by (auto simp: drain_send_def)

lemma enter_returns: "\<exists>r. enter_s1 io d b p = Some r" "\<exists>r. enter_s2 io d p = Some r"
proof -
  obtain q where q: "drain_serial io 50000 p = Some q" using drain_returns by blast
  show "\<exists>r. enter_s1 io d b p = Some r" "\<exists>r. enter_s2 io d p = Some r"
    using q s1_loop_returns s2_loop_returns by (auto simp: enter_s1_def enter_s2_def split: if_splits)
qed

lemma send_cmd_returns: "\<exists>t q. send_cmd_and_wait io c d prompt p = Some (t, q)"
proof -
  obtain q where "drain_send io 100000 (encode_utf8 [c]) p = Some q" using drain_send_returns by blast
  then show ?thesis using cmd_wait_returns by (simp add: send_cmd_and_wait_def Let_def)
qed

lemma s2_cmd_ends: "\<exists>r. s2_cmd io line d ch p = Some r"
proof -
  obtain q where "drain_send io 50000 (encode_utf8 line @ [0x0D]) p = Some q" using drain_send_returns by blast
  then show ?thesis using s2_cmd_returns by blast
qed

lemma run_app_returns: "\<exists>r. run_app io path d p = Some r"
proof -
  obtain q where "drain_send io 50000 (encode_utf8 (codes ''run '' @ path @ [0x0D])) p = Some q" using drain_send_returns by blast
  then show ?thesis using run_loop_returns by (simp add: run_app_def)
qed

lemma card_commands_return:
  "\<exists>r. cmd_sd_info io p = Some r" "\<exists>r. cmd_ls io path p = Some r" "\<exists>r. cmd_mkdir io path p = Some r" "\<exists>r. cmd_run_app io path d p = Some r"
proof -
  have "\<exists>r. map_option (\<lambda>(t, p). (Inr t, p)) (send_cmd_and_wait io c d k q) = Some r" for c d k q using send_cmd_returns by fastforce
  then show "\<exists>r. cmd_sd_info io p = Some r" unfolding cmd_sd_info_def by (intro io_bind_returns enter_returns)
  show "\<exists>r. cmd_ls io path p = Some r" "\<exists>r. cmd_mkdir io path p = Some r" "\<exists>r. cmd_run_app io path d p = Some r"
    unfolding cmd_ls_def cmd_mkdir_def cmd_run_app_def by (intro io_bind_returns enter_returns s2_cmd_ends run_app_returns)+
qed

end

text \<open>A port with both: everything the tool does over it ends.\<close>

locale host_port = line_port + quiet_port
begin

lemma upload_some: "\<exists>a q. send_upload_v2 io bs d c p = Some (a, q)"
  using send_upload_returns [of bs d c p] by auto

lemma reads_return: "\<exists>r. map_option f (read_until io ks d t p) = Some r"
  using read_until_some [of ks d t p] by auto

lemma read_until_ends: "\<exists>z. read_until io ks d t p = Some z"
  using read_until_some [of ks d t p] by blast

lemma put_returns: "\<exists>r. put io path bs d p = Some r"
proof -
  obtain q where q: "drain_send io 50000 (encode_utf8 (codes ''put '' @ path) @ [0x0D]) p = Some q" using drain_send_returns by blast
  obtain a q' where u: "send_upload_v2 io bs d None q = Some (a, q')" using upload_some by blast
  show ?thesis
  proof (cases a)
    case (Inl e)
    then show ?thesis by (cases e) (simp_all add: put_def q u reads_return read_until_ends del: split_paired_Ex)
  qed (simp add: put_def q u reads_return read_until_ends del: split_paired_Ex)
qed

lemma ram_boot_returns: "\<exists>r. ram_boot io bs d p = Some r"
proof -
  obtain q where q: "drain_send io 50000 (encode_utf8 (codes ''u'')) p = Some q" using drain_send_returns by blast
  obtain a q' where u: "send_upload_v2 io bs d None q = Some (a, q')" using upload_some by blast
  show ?thesis
  proof (cases a)
    case (Inl e)
    then show ?thesis by (cases e) (simp_all add: ram_boot_def q u reads_return read_until_ends del: split_paired_Ex)
  qed (simp add: ram_boot_def q u reads_return read_until_ends del: split_paired_Ex)
qed

lemma install_returns: "\<exists>r. install_stage2 io bs u d p = Some r"
proof -
  obtain q where q: "drain_send io 50000 (encode_utf8 (codes (if u then ''install -u'' else ''install'')) @ [0x0D]) p = Some q"
    using drain_send_returns by blast
  show ?thesis unfolding install_stage2_def q bind.simps by (intro io_bind_returns send_upload_returns reads_return)
qed

lemma file_commands_return:
  "\<exists>r. cmd_put io path bs p = Some r" "\<exists>r. cmd_run io bs p = Some r" "\<exists>r. cmd_install_stage2 io bs p = Some r"
  unfolding cmd_put_def cmd_run_def cmd_install_stage2_def
  by (intro io_bind_returns enter_returns put_returns ram_boot_returns install_returns reads_return)+

end

text \<open>
  The serial calls return. On a port where a read takes time or takes waiting bytes and whose clock does not turn
  back, reading until a token, waiting for the first or second stage's prompt and waiting for an application's start end,
  with a result or with an exception, whatever the device sends; a command of the second stage does once the port has
  been drained.
\<close>

theorem serial_calls_return:
  assumes "timed_port io tick fine pending"
  shows "(\<exists>r. read_until io ks timeout t p = Some r) \<and>
    (\<exists>r. enter_s1 io timeout False p = Some r) \<and> (\<exists>r. s2_loop io (ser_now io p + timeout) [] p = Some r) \<and>
    (\<exists>r. run_loop io (ser_now io p + timeout) [] p = Some r) \<and>
    (drain_send io 50000 (encode_utf8 line @ [0x0D]) p \<noteq> None \<longrightarrow> (\<exists>r. s2_cmd io line timeout check p = Some r))"
  using timed_port.read_until_some [OF assms] timed_port.enter_s1_returns [OF assms] timed_port.s2_loop_returns [OF assms]
    timed_port.run_loop_returns [OF assms] timed_port.s2_cmd_returns [OF assms]
  by blast

text \<open>
  Every command of the tool ends. On a port that also answers reads up to a newline in time, whose device sends only
  finitely many bytes while nothing is written to it, every command returns, with its output or with an exception.
\<close>

theorem commands_return:
  assumes "host_port io tick fine pending left"
  shows "(\<exists>r. cmd_sd_info io p = Some r) \<and> (\<exists>r. cmd_ls io path p = Some r) \<and> (\<exists>r. cmd_mkdir io path p = Some r) \<and>
    (\<exists>r. cmd_run_app io path timeout p = Some r) \<and> (\<exists>r. cmd_put io path bs p = Some r) \<and> (\<exists>r. cmd_run io bs p = Some r) \<and>
    (\<exists>r. cmd_install_stage2 io bs p = Some r)"
proof -
  have q: "quiet_port io tick fine pending left" using assms by (rule host_port.axioms)
  show ?thesis using quiet_port.card_commands_return [OF q] host_port.file_commands_return [OF assms] by blast
qed

section \<open>What a transfer sends\<close>

text \<open>A port together with the bytes written to it so far: only writing adds to them.\<close>

locale writing_port =
  fixes io :: "'p serial" and sent :: "'p \<Rightarrow> byte list"
  assumes write_sent: "sent (ser_write io b p) = sent p @ b"
    and line_sent: "ser_read_until io k p = Some (c, q) \<Longrightarrow> sent q = sent p"

lemma upload_line_sent:
  assumes "upload_line io d buf p = Some y" "writing_port io sent"
  shows "sent (snd y) = sent p \<and> (case fst y of Inl e \<Rightarrow> \<exists>m. e = UploadError m | Inr l \<Rightarrow> True)"
proof -
  have "writing_port io sent \<longrightarrow> sent (snd y) = sent p \<and> (case fst y of Inl e \<Rightarrow> \<exists>m. e = UploadError m | Inr l \<Rightarrow> True)"
  proof (rule upload_line.raw_induct [where P = "\<lambda>io d buf p y. writing_port io sent \<longrightarrow>
        sent (snd y) = sent p \<and> (case fst y of Inl e \<Rightarrow> \<exists>m. e = UploadError m | Inr l \<Rightarrow> True)", OF _ assms(1)], rule impI, goal_cases)
    case (1 rec io d buf p y)
    have q: "sent q = sent p" if "ser_read_until io [0x0A] p = Some (c, q)" for c q using writing_port.line_sent [OF 1(3) that] .
    show ?case
    proof (cases "ser_now io p < d \<and> ser_read_until io [0x0A] p \<noteq> None")
      case True
      then obtain c r where r: "ser_read_until io [0x0A] p = Some (c, r)" by auto
      show ?thesis using 1(2,3) 1(1) [of io d _ r y] q [OF r] True by (auto simp: Let_def r split: if_splits)
    next
      case False
      then show ?thesis using 1(2) by (cases "ser_now io p < d"; cases "ser_read_until io [0x0A] p") auto
    qed
  qed
  then show ?thesis using assms(2) by simp
qed

text \<open>
  A call that ends in state \<open>q\<close> has sent all of its bytes and returned a value with a property, or a part of them
  from the front and raised \<open>UploadError\<close>.
\<close>

definition sends :: "('p \<Rightarrow> byte list) \<Rightarrow> 'p \<Rightarrow> ('a result \<times> 'p) \<Rightarrow> byte list \<Rightarrow> ('a \<Rightarrow> bool) \<Rightarrow> bool" where
  "sends sent p y bs ok = (case y of
      (Inl e, q) \<Rightarrow> (\<exists>m. e = UploadError m) \<and> (\<exists>k. sent q = sent p @ take k bs)
    | (Inr x, q) \<Rightarrow> sent q = sent p @ bs \<and> ok x)"

lemma sends_bind:
  assumes "io_bind m f = Some y" "\<And>z. m = Some z \<Longrightarrow> sends sent p z bm okm"
    "\<And>x q. okm x \<Longrightarrow> f x q = Some y \<Longrightarrow> sends sent q y bf okf"
  shows "sends sent p y (bm @ bf) okf"
proof -
  obtain r q where y: "y = (r, q)" by (cases y)
  obtain z where z: "m = Some z" using assms(1) by (cases m) auto
  note s = assms(2) [OF z]
  show ?thesis
  proof (cases z)
    case (Pair a q1)
    show ?thesis
    proof (cases a)
      case (Inl e)
      then obtain k where "y = (Inl e, q1)" "\<exists>m. e = UploadError m" "sent q1 = sent p @ take k bm"
        using assms(1) s Pair z by (auto simp: sends_def)
      then show ?thesis by (auto simp: sends_def min_def intro!: exI [of _ "min k (length bm)"])
    next
      case (Inr x)
      have q1: "sent q1 = sent p @ bm" "okm x" using s Pair Inr by (simp_all add: sends_def)
      have "sends sent q1 y bf okf" using assms(3) [OF q1(2)] assms(1) Pair Inr z by simp
      moreover have "bm @ take k bf = take (length bm + k) (bm @ bf)" for k by simp
      ultimately show ?thesis unfolding sends_def y q1(1)
        by (cases r) (auto simp del: take_append)
    qed
  qed
qed

lemma upload_expect_sends:
  assumes "writing_port io sent" "upload_expect io w d p = Some y"
  shows "sends sent p y [] (starts w)"
proof -
  obtain z where z: "upload_line io d [] p = Some z" using assms(2) by (cases "upload_line io d [] p") (auto simp: upload_expect_def)
  show ?thesis
    using assms(2) upload_line_sent [OF z assms(1)] z
    by (cases z, cases "fst z") (auto simp: upload_expect_def sends_def split: if_splits)
qed

lemma sends_any: "sends sent p y bs ok \<Longrightarrow> sends sent p y bs (\<lambda>_. True)"
  by (auto simp: sends_def split: sum.splits prod.splits)

lemma write_u32_sends:
  assumes "writing_port io sent" "fits 32 v" "write_u32 io v p = Some y"
  shows "sends sent p y (le_bytes 4 v) (\<lambda>_. True)"
  using assms(2,3) by (auto simp: write_u32_def pack_u_def fits_def writing_port.write_sent [OF assms(1)] sends_def)

lemma write_sends:
  assumes "writing_port io sent" "sends sent (ser_write io b q) y bs ok"
  shows "sends sent q y (b @ bs) ok"
proof -
  have "sent (ser_write io b q) = sent q @ b" by (rule writing_port.write_sent [OF assms(1)])
  moreover have "b @ take k c = take (length b + k) (b @ c)" for k c by simp
  ultimately show ?thesis using assms(2) by (auto simp: sends_def split: sum.splits prod.splits simp del: take_append)
qed

lemmas sends_then = sends_bind [where okm = "\<lambda>_. True"]

lemma send_blocks_sends:
  assumes w: "writing_port io sent"
  shows "send_blocks io d i bs p = Some y \<Longrightarrow> sends sent p y (concat bs) (\<lambda>_. True)"
proof (induction bs arbitrary: i p)
  case (Cons b bs)
  have "sends sent p y ([] @ b @ concat bs) (\<lambda>_. True)"
    using Cons.prems unfolding send_blocks.simps
    by - (erule sends_then, auto dest: sends_any [OF upload_expect_sends [OF w]] Cons.IH intro: write_sends [OF w])
  then show ?case by simp
qed (auto simp: sends_def)

text \<open>
  C25: a transfer sends its data in order. Whatever the device answers, what a transfer without a CRC override has
  written when it ends is a part, from the front, of the length, the data and the CRC-32; it returns a line only
  after it has written all of them and the line starts with \<open>[OK]\<close>, and it raises nothing but \<open>UploadError\<close>.
\<close>

theorem upload_sends_in_order:
  assumes "writing_port io sent" "length bs < 2 ^ 32" "send_upload_v2 io bs timeout None p = Some y"
  shows "sends sent p y (le_bytes 4 (int (length bs)) @ bs @ le_bytes 4 (crc32 bs)) (starts (codes ''[OK]''))"
proof -
  have len: "fits 32 (int (length bs))" using assms(2) by (simp add: fits_def)
  have data: "concat (pieces UPLOAD_V2_BLOCK bs) = bs" by (rule concat_pieces) (simp add: UPLOAD_V2_BLOCK_def)
  note E = upload_expect_sends [OF assms(1)] and B = send_blocks_sends [OF assms(1)]
    and L = write_u32_sends [OF assms(1) len] and C = write_u32_sends [OF assms(1) crc32_fits]
  have "sends sent p y ([] @ le_bytes 4 (int (length bs)) @ [] @ concat (pieces UPLOAD_V2_BLOCK bs) @ [] @ le_bytes 4 (crc32 bs) @ [])
      (starts (codes ''[OK]''))"
    using assms(3) unfolding send_upload_v2_def option.case crc32_masked
    by - (erule sends_then, erule sends_any [OF E], erule sends_then, erule L, erule sends_then, erule sends_any [OF E],
        erule sends_then, erule B, erule sends_then, erule sends_any [OF E], erule sends_then, erule C, erule E)
  then show ?thesis by (simp add: data)
qed

end
