(* ===== verification/Upload_Device.thy ===== *)
theory Upload_Device
  imports Serial_Calls
begin

text \<open>
  The firmware's side of transfer v2 (\<open>upload_v2\<close> of \<^verbatim>\<open>src/firmware/fw_common/src/upload.rs\<close>) and the two sides
  together. The device is a function from the bytes it has received to the lines it has sent; it waits where the
  input ends, so its timeouts do not occur. The memory it stores into accepts every block.
\<close>

section \<open>The device\<close>

definition BLOCK :: nat where "BLOCK = 512"

definition recv_u32 :: "byte list \<Rightarrow> (nat \<times> byte list) option" where
  "recv_u32 inp = (if length inp < 4 then None else Some (nat (int_of_le (take 4 inp)), drop 4 inp))"

text \<open>Eight upper-case hex digits.\<close>

definition put_hex :: "nat \<Rightarrow> utext" where
  "put_hex v = map (\<lambda>k. hex_digit (drop_bit (4 * k) v mod 16)) (rev [0..<8])"

text \<open>Where the received bytes go: each operation answers whether it succeeded.\<close>

record 's sink =
  sk_begin :: "nat \<Rightarrow> 's \<Rightarrow> bool \<times> 's"
  sk_block :: "nat \<Rightarrow> byte list \<Rightarrow> 's \<Rightarrow> bool \<times> 's"
  sk_finish :: "bool \<Rightarrow> 's \<Rightarrow> bool \<times> 's"

text \<open>
  A dialogue so far: the lines the device has sent, its sink, and its result, \<open>None\<close> while it waits for a byte. The
  input is what has arrived; \<open>late\<close> tells that the time for the next byte has passed.
\<close>

type_synonym 's dialogue = "utext list \<times> 's \<times> nat option option"

definition say :: "utext \<Rightarrow> 's dialogue \<Rightarrow> 's dialogue" where
  "say l e = (l # fst e, snd e)"

definition fail :: "'s sink \<Rightarrow> utext \<Rightarrow> 's \<Rightarrow> 's dialogue" where
  "fail sk l s = ([codes ''[ERR] '' @ l], snd (sk_finish sk False s), Some None)"

definition wait_or :: "bool \<Rightarrow> 's dialogue \<Rightarrow> 's \<Rightarrow> 's dialogue" where
  "wait_or late e s = (if late then e else ([], s, None))"

definition dev_crc_check :: "'s sink \<Rightarrow> bool \<Rightarrow> nat \<Rightarrow> nat \<Rightarrow> byte list \<Rightarrow> 's \<Rightarrow> 's dialogue" where
  "dev_crc_check sk late len crc inp s =
     say (codes ''[READY-CRC]'')
       (case recv_u32 inp of
          None \<Rightarrow> wait_or late (fail sk (codes ''CRC timeout'') s) s
        | Some (sent, _) \<Rightarrow>
            if sent \<noteq> crc then fail sk (codes ''CRC mismatch: sent '' @ put_hex sent @ codes '', received '' @ put_hex crc) s
            else (case sk_finish sk True s of (ok, s) \<Rightarrow>
              if \<not> ok then ([codes ''[ERR] Commit failed''], s, Some None)
              else ([codes ''[OK] '' @ dec len @ codes '' bytes CRC '' @ put_hex crc], s, Some (Some len))))"

function dev_blocks :: "'s sink \<Rightarrow> bool \<Rightarrow> nat \<Rightarrow> nat \<Rightarrow> nat \<Rightarrow> 32 word \<Rightarrow> byte list \<Rightarrow> 's \<Rightarrow> 's dialogue" where
  "dev_blocks sk late len index rest crc inp s =
     (if rest = 0 then dev_crc_check sk late len (unat (crc XOR 0xFFFFFFFF)) inp s
      else (let n = min rest BLOCK
            in say (codes ''[READY-BLK:'' @ dec index @ codes '']'')
               (if length inp < n
                then wait_or late (fail sk (codes ''Timeout at block '' @ dec index @ codes '', byte '' @ dec (length inp)) s) s
                else (case sk_block sk index (take n inp) s of (ok, s) \<Rightarrow>
                  if \<not> ok then fail sk (codes ''Store failed at block '' @ dec index) s
                  else dev_blocks sk late len (index + 1) (rest - n) (crc_update crc (take n inp)) (drop n inp) s))))"
  by pat_completeness auto
termination
  by (relation "measure (\<lambda>(_, _, _, _, rest, _). rest)") (auto simp: BLOCK_def)

declare dev_blocks.simps [simp del]

definition upload_v2 :: "'s sink \<Rightarrow> nat \<Rightarrow> bool \<Rightarrow> byte list \<Rightarrow> 's \<Rightarrow> 's dialogue" where
  "upload_v2 sk max_len late inp s =
     say (codes ''[READY-V2]'')
     (case recv_u32 inp of
        None \<Rightarrow> wait_or late ([codes ''[ERR] Length timeout''], s, Some None) s
      | Some (len, inp) \<Rightarrow>
          if len = 0 \<or> len > max_len then ([codes ''[ERR] Bad length: '' @ dec len], s, Some None)
          else (case sk_begin sk len s of (ok, s) \<Rightarrow>
            if \<not> ok then ([codes ''[ERR] Cannot store '' @ dec len @ codes '' bytes''], s, Some None)
            else say (codes ''[LEN:'' @ dec len @ codes '']'') (dev_blocks sk late len 0 len 0xFFFFFFFF inp s)))"

section \<open>The device as a port\<close>

record 's device =
  dv_sink :: "'s sink"
  dv_max :: nat
  dv_start :: 's

record dev_port =
  dp_sent :: "byte list"
  dp_read :: nat
  dp_now :: int

text \<open>What the device has sent for the bytes it has received, while the host is in time.\<close>

definition dev_lines :: "'s device \<Rightarrow> byte list \<Rightarrow> utext list" where
  "dev_lines dv inp = fst (upload_v2 (dv_sink dv) (dv_max dv) False inp (dv_start dv))"

text \<open>Reading up to a newline gives the device's next line, or nothing; every call takes a microsecond.\<close>

definition dev_read_line :: "'s device \<Rightarrow> dev_port \<Rightarrow> (byte list \<times> dev_port) option" where
  "dev_read_line dv p =
     (let ls = dev_lines dv (dp_sent p)
      in if dp_read p < length ls
         then Some (map of_nat (ls ! dp_read p) @ [0x0A], p\<lparr>dp_read := dp_read p + 1, dp_now := dp_now p + 1\<rparr>)
         else Some ([], p\<lparr>dp_now := dp_now p + 1\<rparr>))"

definition dev_io :: "'s device \<Rightarrow> dev_port serial" where
  "dev_io dv = \<lparr>
     ser_read = (\<lambda>_ p. ([], p\<lparr>dp_now := dp_now p + 1\<rparr>)),
     ser_read_until = (\<lambda>_. dev_read_line dv),
     ser_write = (\<lambda>b p. p\<lparr>dp_sent := dp_sent p @ b, dp_now := dp_now p + 1\<rparr>),
     ser_in_waiting = (\<lambda>_. 0),
     ser_reset = (\<lambda>p. p),
     ser_sleep = (\<lambda>d p. p\<lparr>dp_now := dp_now p + d\<rparr>),
     ser_now = dp_now\<rparr>"

lemma dev_io_simps [simp]:
  "ser_read (dev_io m) n p = ([], p\<lparr>dp_now := dp_now p + 1\<rparr>)"
  "ser_read_until (dev_io m) b p = dev_read_line m p"
  "ser_write (dev_io m) b p = p\<lparr>dp_sent := dp_sent p @ b, dp_now := dp_now p + 1\<rparr>"
  "ser_now (dev_io m) p = dp_now p"
  by (simp_all add: dev_io_def)

interpretation dev: host_port "dev_io dv" dp_now 1 "\<lambda>_. 0" "\<lambda>_. 0" for dv
  by unfold_locales (auto simp: passes_def keeps_def dev_read_line_def Let_def dev_io_def)

interpretation dev: writing_port "dev_io dv" dp_sent for dv
  by unfold_locales (auto simp: dev_read_line_def Let_def split: if_splits)

section \<open>Lines\<close>

definition plain_line :: "utext \<Rightarrow> bool" where
  "plain_line l \<longleftrightarrow> l \<noteq> [] \<and> list_all (\<lambda>c. 32 \<le> c \<and> c < 127) l \<and> \<not> white (hd l) \<and> \<not> white (last l)"

lemma decode_line: "list_all (\<lambda>c. c < 128) l \<Longrightarrow> decode_ascii (map of_nat l) = l"
  by (induction l) (auto simp: decode_ascii_def unat_of_nat)

lemma strip_line: "plain_line l \<Longrightarrow> strip (decode_ascii (map of_nat l @ [0x0A])) = l"
proof -
  assume p: "plain_line l"
  then have "list_all (\<lambda>c. c < 128) l" by (auto simp: plain_line_def list_all_iff)
  then have d: "decode_ascii (map of_nat l @ [0x0A]) = l @ [10]"
    using decode_line [of l] by (simp add: decode_ascii_def)
  obtain a m where a: "l = a # m" using p by (cases l) (auto simp: plain_line_def)
  obtain n b where b: "l = n @ [b]" using p by (cases l rule: rev_cases) (auto simp: plain_line_def)
  have "\<not> white a" using p a by (simp add: plain_line_def)
  then have 1: "dropWhile white (l @ [10]) = l @ [10]" by (simp add: a)
  have "\<not> white b" "white 10" using p b by (simp_all add: plain_line_def white_def)
  then have 2: "dropWhile white (rev (l @ [10])) = rev l" by (simp add: b)
  show ?thesis unfolding d strip_def 1 2 by simp
qed

definition answer_line :: "utext \<Rightarrow> bool" where
  "answer_line l \<longleftrightarrow> plain_line l \<and> list_ex (\<lambda>w. starts (codes w) l) [''[READY'', ''[LEN:'', ''[OK]'', ''[ERR]'']"

text \<open>When the device has a line to send, the host receives it.\<close>

lemma dev_line:
  assumes "dev_lines m (dp_sent p) = ls" "dp_read p < length ls" "answer_line (ls ! dp_read p)" "dp_now p < d"
  shows "upload_line (dev_io m) d [] p = Some (Inr (ls ! dp_read p), p\<lparr>dp_read := dp_read p + 1, dp_now := dp_now p + 1\<rparr>)"
  using assms strip_line [of "ls ! dp_read p"]
  by (subst upload_line.simps) (simp add: dev_read_line_def answer_line_def)

lemma dev_expect:
  assumes "dev_lines m (dp_sent p) = pre @ l # post" "dp_read p = length pre" "answer_line l" "0 < timeout"
  shows "upload_expect (dev_io m) w (dp_now p + timeout) p =
    Some (if starts (codes ''[ERR]'') l \<or> \<not> starts w l then Inl (UploadError (Line l)) else Inr l,
      p\<lparr>dp_read := Suc (length pre), dp_now := dp_now p + 1\<rparr>)"
  using dev_line [of m p "pre @ l # post" "dp_now p + timeout"] assms by (simp add: upload_expect_def)

lemma starts_append [simp]: "starts p (p @ t)"
  by (simp add: starts_def)

lemma dec_digits: "list_all (\<lambda>c. 48 \<le> c \<and> c \<le> 57) (dec n)" "dec n \<noteq> []"
proof -
  show "list_all (\<lambda>c. 48 \<le> c \<and> c \<le> 57) (dec n)"
    by (induction n rule: dec.induct) (subst dec.simps, auto)
  show "dec n \<noteq> []" by (subst dec.simps) simp
qed

lemma hex_digit_range: "d < 16 \<Longrightarrow> 48 \<le> hex_digit d \<and> hex_digit d \<le> 70"
  by (simp add: hex_digit_def)

lemma put_hex_range: "list_all (\<lambda>c. 48 \<le> c \<and> c \<le> 70) (put_hex v)"
  by (simp add: put_hex_def list_all_iff hex_digit_range)

lemma ok_chars:
  "list_all (\<lambda>c. 32 \<le> c \<and> c < 127) (dec n)" "list_all (\<lambda>c. 32 \<le> c \<and> c < 127) (put_hex v)"
  using dec_digits(1) [of n] put_hex_range [of v] by (auto simp: list_all_iff)

lemma digit_not_white: "48 \<le> c \<Longrightarrow> c \<le> 70 \<Longrightarrow> \<not> white c"
  by (simp add: white_def)

lemma last_dec: "\<not> white (last (dec n))"
  using dec_digits(1) [of n] last_in_set [OF dec_digits(2), of n] digit_not_white by (fastforce simp: list_all_iff)

lemma last_put_hex: "\<not> white (last (put_hex v))" "put_hex v \<noteq> []"
proof -
  show n: "put_hex v \<noteq> []" by (simp add: put_hex_def)
  show "\<not> white (last (put_hex v))"
    using put_hex_range [of v] last_in_set [OF n] digit_not_white by (fastforce simp: list_all_iff)
qed

lemma device_lines:
  "answer_line (codes ''[READY-V2]'')" "answer_line (codes ''[READY-CRC]'')"
  "answer_line (codes ''[LEN:'' @ dec n @ codes '']'')" "answer_line (codes ''[READY-BLK:'' @ dec n @ codes '']'')"
  "answer_line (codes ''[OK] '' @ dec n @ codes '' bytes CRC '' @ put_hex v)"
  "answer_line (codes ''[ERR] CRC mismatch: sent '' @ put_hex u @ codes '', received '' @ put_hex v)"
  "answer_line (codes ''[ERR] Bad length: '' @ dec n)"
  using ok_chars(1) [of n] ok_chars(2) [of v] ok_chars(2) [of u] last_dec [of n] last_put_hex [of v] dec_digits(2) [of n]
  by (simp_all add: answer_line_def plain_line_def codes_def starts_def white_def)

lemma not_err:
  "\<not> starts (codes ''[ERR]'') (codes ''[READY-V2]'')" "\<not> starts (codes ''[ERR]'') (codes ''[READY-CRC]'')"
  "\<not> starts (codes ''[ERR]'') (codes ''[LEN:'' @ t)" "\<not> starts (codes ''[ERR]'') (codes ''[READY-BLK:'' @ t)"
  "\<not> starts (codes ''[ERR]'') (codes ''[OK] '' @ t)" "starts (codes ''[OK]'') (codes ''[OK] '' @ t)"
  "starts (codes ''[ERR]'') (codes ''[ERR] CRC mismatch: sent '' @ t)" "starts (codes ''[ERR]'') (codes ''[ERR] Bad length: '' @ t)"
  "starts t t"
  by (simp_all add: starts_def codes_def)

section \<open>The two sides together\<close>

text \<open>A sink that takes everything, and what it holds after the blocks of some data.\<close>

definition accepting :: "'s sink \<Rightarrow> bool" where
  "accepting sk \<longleftrightarrow> (\<forall>n b i d s. fst (sk_begin sk n s) \<and> fst (sk_block sk i d s) \<and> fst (sk_finish sk b s))"

fun stored :: "'s sink \<Rightarrow> nat \<Rightarrow> byte list list \<Rightarrow> 's \<Rightarrow> 's" where
  "stored sk i [] s = s"
| "stored sk i (b # bs) s = stored sk (Suc i) bs (snd (sk_block sk i b s))"

lemma accepting_case [simp]:
  assumes "accepting sk"
  shows "(case sk_begin sk n s of (ok, s) \<Rightarrow> if \<not> ok then e s else f s) = f (snd (sk_begin sk n s))"
    "(case sk_block sk i d s of (ok, s) \<Rightarrow> if \<not> ok then e s else f s) = f (snd (sk_block sk i d s))"
    "(case sk_finish sk True s of (ok, s) \<Rightarrow> if \<not> ok then e s else f s) = f (snd (sk_finish sk True s))"
  using assms by (auto simp: accepting_def split: prod.split) (metis fst_conv)+

lemma dev_blocks_wait:
  assumes "d \<noteq> []"
  shows "dev_blocks sk False len i (length d) crc [] s = ([codes ''[READY-BLK:'' @ dec i @ codes '']''], s, None)"
proof -
  have "0 < min (length d) BLOCK" using assms by (simp add: BLOCK_def)
  then show ?thesis using assms by (subst dev_blocks.simps) (simp add: Let_def say_def wait_or_def)
qed

lemma dev_blocks_take:
  assumes "d \<noteq> []" "accepting sk"
  shows "dev_blocks sk late len i (length d) crc (take BLOCK d @ inp) s =
      say (codes ''[READY-BLK:'' @ dec i @ codes '']'')
      (dev_blocks sk late len (i + 1) (length (drop BLOCK d)) (crc_update crc (take BLOCK d)) inp (snd (sk_block sk i (take BLOCK d) s)))"
  using assms by (subst dev_blocks.simps) (cases "length d \<le> BLOCK"; simp add: Let_def min_def)

text \<open>What a device whose sink takes everything has done after the bytes of a prefix of the exchange.\<close>

definition dev_at :: "'s device \<Rightarrow> byte list \<Rightarrow> utext list \<Rightarrow> (byte list \<Rightarrow> 's dialogue) \<Rightarrow> bool" where
  "dev_at dv inp pre k \<longleftrightarrow>
     (\<forall>x. upload_v2 (dv_sink dv) (dv_max dv) False (inp @ x) (dv_start dv) = (pre @ fst (k x), snd (k x)))"

lemma dev_at_lines: "dev_at dv inp pre k \<Longrightarrow> dev_lines dv (inp @ x) = pre @ fst (k x)"
  by (simp add: dev_at_def dev_lines_def)

lemma dev_at_now: "dev_at dv inp pre k \<Longrightarrow> dev_lines dv inp = pre @ fst (k [])"
  using dev_at_lines [of dv inp pre k "[]"] by simp

lemma dev_at_step: "dev_at dv inp pre k \<Longrightarrow> (\<And>x. k (b @ x) = say l (k' x)) \<Longrightarrow> dev_at dv (inp @ b) (pre @ [l]) k'"
  by (simp add: dev_at_def say_def)

lemma dev_send_blocks:
  assumes "accepting (dv_sink dv)" "0 < timeout"
    and "dev_at dv (dp_sent p) pre (\<lambda>x. dev_blocks (dv_sink dv) False len i (length d) crc x s)" "dp_read p = length pre"
  shows "\<exists>q pre' j. send_blocks (dev_io dv) timeout i (pieces BLOCK d) p = Some (Inr (), q) \<and> dp_sent q = dp_sent p @ d \<and>
    dp_read q = length pre' \<and>
    dev_at dv (dp_sent q) pre'
      (\<lambda>x. dev_blocks (dv_sink dv) False len j 0 (crc_update crc d) x (stored (dv_sink dv) i (pieces BLOCK d) s))"
  using assms(3,4)
proof (induction d arbitrary: p pre i crc s rule: length_induct)
  case (1 d)
  show ?case
  proof (cases "d = []")
    case True
    then show ?thesis using 1(2,3) by (auto simp: crc_update_def)
  next
    case False
    let ?sk = "dv_sink dv" and ?b = "take BLOCK d" and ?r = "drop BLOCK d" and ?l = "codes ''[READY-BLK:'' @ dec i @ codes '']''"
    let ?q = "ser_write (dev_io dv) ?b (p\<lparr>dp_read := Suc (length pre), dp_now := dp_now p + 1\<rparr>)"
    have "dev_lines dv (dp_sent p) = pre @ ?l # []" using dev_at_now [OF 1(2)] by (simp add: dev_blocks_wait [OF False])
    then have e: "upload_expect (dev_io dv) ?l (dp_now p + timeout) p = Some (Inr ?l, p\<lparr>dp_read := Suc (length pre), dp_now := dp_now p + 1\<rparr>)"
      using dev_expect [of dv p pre ?l "[]" timeout ?l] 1(3) assms(2) by (simp add: device_lines not_err)
    have pc: "pieces BLOCK d = ?b # pieces BLOCK ?r" using False by (simp add: pieces_step BLOCK_def)
    have "send_blocks (dev_io dv) timeout i (pieces BLOCK d) p = send_blocks (dev_io dv) timeout (Suc i) (pieces BLOCK ?r) ?q"
      using e by (simp add: pc del: dev_io_simps(3))
    moreover have "dev_at dv (dp_sent ?q) (pre @ [?l])
        (\<lambda>x. dev_blocks ?sk False len (Suc i) (length ?r) (crc_update crc ?b) x (snd (sk_block ?sk i ?b s)))"
      using dev_at_step [OF 1(2) dev_blocks_take [OF False assms(1)]] by simp
    moreover have "length ?r < length d" using False by (simp add: BLOCK_def)
    moreover have "crc_update (crc_update crc ?b) ?r = crc_update crc d" by (simp flip: crc_update_append)
    ultimately show ?thesis
      using 1(1) [rule_format, of ?r ?q "pre @ [?l]" "Suc i" "crc_update crc ?b" "snd (sk_block ?sk i ?b s)"] by (simp add: pc)
  qed
qed

lemma recv_le: "v < 2 ^ 32 \<Longrightarrow> recv_u32 (le_bytes 4 (int v) @ inp) = Some (v, inp)"
  by (simp add: recv_u32_def int_of_le_bytes del: le_bytes.simps)

lemma dev_crc: "unat (crc_update 0xFFFFFFFF d XOR 0xFFFFFFFF) = nat (crc32 d)"
proof -
  have ones: "(0xFFFFFFFF :: 32 word) = - 1" by simp
  have "crc_update 0xFFFFFFFF d XOR 0xFFFFFFFF = NOT (crc_update 0xFFFFFFFF d)"
    unfolding ones by (rule bit.xor_one_right)
  then show ?thesis by (simp add: crc32_def)
qed

text \<open>The end of the exchange: the line of the result, and what the sink has done.\<close>

definition last_line :: "byte list \<Rightarrow> nat \<Rightarrow> utext" where
  "last_line d c =
     (if c = nat (crc32 d) then codes ''[OK] '' @ dec (length d) @ codes '' bytes CRC '' @ put_hex c
      else codes ''[ERR] CRC mismatch: sent '' @ put_hex c @ codes '', received '' @ put_hex (nat (crc32 d)))"

lemma last_line_kind: "answer_line (last_line d c)" "starts (codes ''[ERR]'') (last_line d c) \<or> \<not> starts (codes ''[OK]'') (last_line d c) \<longleftrightarrow> c \<noteq> nat (crc32 d)"
  by (simp_all add: last_line_def device_lines not_err)

lemma dev_crc_check_wait: "dev_crc_check sk False len crc [] s = ([codes ''[READY-CRC]''], s, None)"
  by (simp add: dev_crc_check_def recv_u32_def say_def wait_or_def)

lemma dev_crc_check_end:
  assumes "accepting sk" "c < 2 ^ 32"
  shows "dev_crc_check sk late (length d) (nat (crc32 d)) (le_bytes 4 (int c)) s =
    ([codes ''[READY-CRC]'', last_line d c], snd (sk_finish sk (c = nat (crc32 d)) s),
      Some (if c = nat (crc32 d) then Some (length d) else None))"
  using recv_le [OF assms(2), of "[]"] assms(1)
  by (simp add: dev_crc_check_def say_def fail_def last_line_def codes_def del: le_bytes.simps)

lemma dev_tail:
  assumes sk: "accepting (dv_sink dv)" and t: "0 < timeout" and c: "c < 2 ^ 32"
    and dev: "dev_at dv (dp_sent p) pre (\<lambda>x. dev_blocks (dv_sink dv) False (length d) j 0 (crc_update 0xFFFFFFFF d) x s)"
    and r: "dp_read p = length pre"
  shows "\<exists>q. io_bind (upload_expect (dev_io dv) (codes ''[READY-CRC]'') (ser_now (dev_io dv) p + timeout) p) (\<lambda>_ p.
     io_bind (write_u32 (dev_io dv) (int c) p) (\<lambda>_ p.
     upload_expect (dev_io dv) (codes ''[OK]'') (ser_now (dev_io dv) p + timeout) p)) =
       Some (if c = nat (crc32 d) then Inr (last_line d c) else Inl (UploadError (Line (last_line d c))), q) \<and>
     dp_sent q = dp_sent p @ le_bytes 4 (int c) \<and>
     snd (upload_v2 (dv_sink dv) (dv_max dv) False (dp_sent q) (dv_start dv)) =
       (snd (sk_finish (dv_sink dv) (c = nat (crc32 d)) s), Some (if c = nat (crc32 d) then Some (length d) else None))"
proof -
  let ?r = "codes ''[READY-CRC]''" and ?l = "last_line d c"
  let ?p1 = "p\<lparr>dp_read := Suc (length pre), dp_now := dp_now p + 1\<rparr>"
  let ?p2 = "ser_write (dev_io dv) (le_bytes 4 (int c)) ?p1"
  have k: "dev_blocks (dv_sink dv) False (length d) j 0 (crc_update 0xFFFFFFFF d) x s =
      dev_crc_check (dv_sink dv) False (length d) (nat (crc32 d)) x s" for x
    by (simp add: dev_blocks.simps [of _ _ _ _ 0] dev_crc)
  have "dev_lines dv (dp_sent p) = pre @ ?r # []" using dev_at_now [OF dev] by (simp add: k dev_crc_check_wait)
  then have e1: "upload_expect (dev_io dv) ?r (dp_now p + timeout) p = Some (Inr ?r, ?p1)"
    using dev_expect [of dv p pre ?r "[]" timeout ?r] r t by (simp add: device_lines not_err)
  have w: "write_u32 (dev_io dv) (int c) ?p1 = Some (Inr (), ?p2)"
    using c by (simp add: write_u32_def pack_u_def del: le_bytes.simps)
  have l: "dev_lines dv (dp_sent ?p2) = (pre @ [?r]) @ ?l # []"
    using dev_at_lines [OF dev, of "le_bytes 4 (int c)"] by (simp add: k dev_crc_check_end [OF sk c] del: le_bytes.simps)
  have e2: "upload_expect (dev_io dv) (codes ''[OK]'') (dp_now ?p2 + timeout) ?p2 =
      Some (if starts (codes ''[ERR]'') ?l \<or> \<not> starts (codes ''[OK]'') ?l then Inl (UploadError (Line ?l)) else Inr ?l,
        ?p2\<lparr>dp_read := Suc (length (pre @ [?r])), dp_now := dp_now ?p2 + 1\<rparr>)"
    using t l last_line_kind(1) by (intro dev_expect) simp_all
  have "snd (upload_v2 (dv_sink dv) (dv_max dv) False (dp_sent p @ le_bytes 4 (int c)) (dv_start dv)) =
       (snd (sk_finish (dv_sink dv) (c = nat (crc32 d)) s), Some (if c = nat (crc32 d) then Some (length d) else None))"
    using dev by (simp add: dev_at_def k dev_crc_check_end [OF sk c] del: le_bytes.simps)
  then show ?thesis using e1 w e2 unfolding last_line_kind(2) by (simp del: le_bytes.simps)
qed

text \<open>The start of a transfer: the device is ready, and the host writes the length.\<close>

lemma dev_ready:
  assumes p: "dp_sent p = []" "dp_read p = 0" and "0 < timeout" "length bs < 2 ^ 32"
    and "q = ser_write (dev_io dv) (le_bytes 4 (int (length bs))) (p\<lparr>dp_read := Suc 0, dp_now := dp_now p + 1\<rparr>)"
  shows "upload_expect (dev_io dv) (codes ''[READY-V2]'') (dp_now p + timeout) p =
      Some (Inr (codes ''[READY-V2]''), p\<lparr>dp_read := Suc 0, dp_now := dp_now p + 1\<rparr>)"
    and "write_u32 (dev_io dv) (int (length bs)) (p\<lparr>dp_read := Suc 0, dp_now := dp_now p + 1\<rparr>) = Some (Inr (), q)"
    and "dp_sent q = le_bytes 4 (int (length bs))" "dp_read q = 1"
proof -
  let ?r = "codes ''[READY-V2]''"
  have "dev_lines dv (dp_sent p) = [] @ ?r # []"
    using p(1) by (simp add: dev_lines_def upload_v2_def recv_u32_def say_def wait_or_def)
  then show "upload_expect (dev_io dv) ?r (dp_now p + timeout) p = Some (Inr ?r, p\<lparr>dp_read := Suc 0, dp_now := dp_now p + 1\<rparr>)"
    using dev_expect [of dv p "[]" ?r "[]" timeout ?r] p(2) assms(3) by (simp add: device_lines not_err)
  show "write_u32 (dev_io dv) (int (length bs)) (p\<lparr>dp_read := Suc 0, dp_now := dp_now p + 1\<rparr>) = Some (Inr (), q)"
    unfolding assms(5) using assms(4) by (simp add: write_u32_def pack_u_def del: le_bytes.simps)
  show "dp_sent q = le_bytes 4 (int (length bs))" "dp_read q = 1" using p(1) by (simp_all add: assms(5))
qed

lemma dev_refuses:
  assumes dv: "dv_sink dv = sk" "dv_max dv = max_len" "dv_start dv = s" and "bs = [] \<or> max_len < length bs"
    and q: "dp_sent q = le_bytes 4 (int (length bs))" "dp_read q = 1" and "0 < timeout" "length bs < 2 ^ 32"
    and e: "e = codes ''[ERR] Bad length: '' @ dec (length bs)"
  shows "snd (upload_v2 sk max_len False (dp_sent q) s) = (s, Some None)"
    and "upload_expect (dev_io dv) (codes ''[LEN:'' @ dec (length bs) @ codes '']'') (dp_now q + timeout) q =
      Some (Inl (UploadError (Line e)), q\<lparr>dp_read := Suc (Suc 0), dp_now := dp_now q + 1\<rparr>)"
proof -
  let ?r = "codes ''[READY-V2]''"
  have u: "upload_v2 sk max_len False (dp_sent q) s = ([?r, e], s, Some None)"
    using assms(4) recv_le [OF assms(8), of "[]"] by (simp add: upload_v2_def say_def e q(1) del: le_bytes.simps)
  then show "snd (upload_v2 sk max_len False (dp_sent q) s) = (s, Some None)" by simp
  have "dev_lines dv (dp_sent q) = [?r] @ e # []" using u by (simp add: dev_lines_def dv)
  then show "upload_expect (dev_io dv) (codes ''[LEN:'' @ dec (length bs) @ codes '']'') (dp_now q + timeout) q =
      Some (Inl (UploadError (Line e)), q\<lparr>dp_read := Suc (Suc 0), dp_now := dp_now q + 1\<rparr>)"
    using dev_expect [of dv q "[?r]" e "[]" timeout] assms(7) q(2) by (simp add: e device_lines not_err)
qed

lemma dev_accepts:
  assumes dv: "dv_sink dv = sk" "dv_max dv = max_len" "dv_start dv = s" "accepting sk" and len: "\<not> (bs = [] \<or> max_len < length bs)"
    and q: "dp_sent q = le_bytes 4 (int (length bs))" "dp_read q = 1" and "0 < timeout" "length bs < 2 ^ 32"
    and l: "l = codes ''[LEN:'' @ dec (length bs) @ codes '']''" and p: "p = q\<lparr>dp_read := Suc (Suc 0), dp_now := dp_now q + 1\<rparr>"
  shows "upload_expect (dev_io dv) l (dp_now q + timeout) q = Some (Inr l, p)"
    and "dev_at dv (dp_sent p) [codes ''[READY-V2]'', l]
      (\<lambda>x. dev_blocks (dv_sink dv) False (length bs) 0 (length bs) 0xFFFFFFFF x (snd (sk_begin sk (length bs) s)))"
proof -
  let ?r = "codes ''[READY-V2]''"
  show at: "dev_at dv (dp_sent p) [?r, l]
      (\<lambda>x. dev_blocks (dv_sink dv) False (length bs) 0 (length bs) 0xFFFFFFFF x (snd (sk_begin sk (length bs) s)))"
    using len recv_le [OF assms(9)] q dv(4) by (simp add: dev_at_def upload_v2_def say_def dv l p del: le_bytes.simps)
  have "dev_lines dv (dp_sent q) =
      [?r] @ l # fst (dev_blocks (dv_sink dv) False (length bs) 0 (length bs) 0xFFFFFFFF [] (snd (sk_begin sk (length bs) s)))"
    using dev_at_now [OF at] by (simp add: p)
  then show "upload_expect (dev_io dv) l (dp_now q + timeout) q = Some (Inr l, p)"
    using dev_expect [of dv q "[?r]" l _ timeout l] assms(8) q(2) by (simp add: l p device_lines not_err)
qed

text \<open>
  C24: a transfer to the firmware. Sent to a device that runs \<open>upload_v2\<close> with a sink that takes everything, data whose
  length the device refuses ends in \<open>UploadError\<close> with its \<open>[ERR]\<close> line after nothing but the length was sent, and
  the sink is untouched. Other data is transferred: with the right CRC-32 the call returns the device's \<open>[OK]\<close> line,
  with a wrong one it raises the device's report of the mismatch; the device has received the length, the data and the
  CRC, and its sink got the length, the blocks of the data in order, and then a commit, or a discard for a wrong CRC.
\<close>

theorem upload_to_firmware:
  fixes sk :: "'s sink"
  assumes sk: "dv = \<lparr>dv_sink = sk, dv_max = max_len, dv_start = s\<rparr>" "accepting sk"
    and p: "dp_sent p = []" "dp_read p = 0" and "0 < timeout" "max_len < 2 ^ 32" "length bs < 2 ^ 32"
    and c: "c = (case crc of None \<Rightarrow> nat (crc32 bs) | Some v \<Rightarrow> nat v)" "\<forall>v. crc = Some v \<longrightarrow> fits 32 v"
  shows "\<exists>q. if bs = [] \<or> max_len < length bs
    then send_upload_v2 (dev_io dv) bs timeout crc p =
        Some (Inl (UploadError (Line (codes ''[ERR] Bad length: '' @ dec (length bs)))), q) \<and>
      dp_sent q = le_bytes 4 (int (length bs)) \<and> snd (upload_v2 sk max_len False (dp_sent q) s) = (s, Some None)
    else send_upload_v2 (dev_io dv) bs timeout crc p =
        Some (if c = nat (crc32 bs) then Inr (codes ''[OK] '' @ dec (length bs) @ codes '' bytes CRC '' @ put_hex c)
              else Inl (UploadError (Line (codes ''[ERR] CRC mismatch: sent '' @ put_hex c @ codes '', received '' @
                put_hex (nat (crc32 bs))))), q) \<and>
      dp_sent q = le_bytes 4 (int (length bs)) @ bs @ le_bytes 4 (int c) \<and>
      snd (upload_v2 sk max_len False (dp_sent q) s) =
        (snd (sk_finish sk (c = nat (crc32 bs)) (stored sk 0 (pieces BLOCK bs) (snd (sk_begin sk (length bs) s)))),
         Some (if c = nat (crc32 bs) then Some (length bs) else None))"
proof -
  let ?io = "dev_io dv" and ?n = "length bs"
  define p2 where "p2 = ser_write ?io (le_bytes 4 (int ?n)) (p\<lparr>dp_read := Suc 0, dp_now := dp_now p + 1\<rparr>)"
  have dv: "dv_sink dv = sk" "dv_max dv = max_len" "dv_start dv = s" by (simp_all add: sk(1))
  note R = dev_ready [OF p assms(5,7) p2_def]
  have sum: "int c = (case crc of Some v \<Rightarrow> v | None \<Rightarrow> crc32 bs AND 0xFFFFFFFF)"
    using c crc32_fits [of bs] by (auto simp: crc32_masked fits_def split: option.splits)
  have cl: "c < 2 ^ 32" using c crc32_fits [of bs] by (auto simp: fits_def split: option.splits)
  show ?thesis
  proof (cases "bs = [] \<or> max_len < ?n")
    case True
    then show ?thesis using R dev_refuses [OF dv True R(3,4) assms(5,7) refl]
      by (simp add: send_upload_v2_def del: le_bytes.simps)
  next
    case False
    define p3 where "p3 = p2\<lparr>dp_read := Suc (Suc 0), dp_now := dp_now p2 + 1\<rparr>"
    let ?s = "snd (sk_begin sk ?n s)"
    note A = dev_accepts [OF dv sk(2) False R(3,4) assms(5,7) refl p3_def]
    obtain q pre j where b: "send_blocks ?io timeout 0 (pieces BLOCK bs) p3 = Some (Inr (), q)" "dp_sent q = dp_sent p3 @ bs"
      "dp_read q = length pre"
      "dev_at dv (dp_sent q) pre (\<lambda>x. dev_blocks (dv_sink dv) False ?n j 0 (crc_update 0xFFFFFFFF bs) x (stored sk 0 (pieces BLOCK bs) ?s))"
      using dev_send_blocks [OF _ assms(5) A(2)] sk(2) dv(1) by (auto simp: p3_def)
    obtain q' where "io_bind (upload_expect ?io (codes ''[READY-CRC]'') (ser_now ?io q + timeout) q) (\<lambda>_ p.
       io_bind (write_u32 ?io (int c) p) (\<lambda>_ p. upload_expect ?io (codes ''[OK]'') (ser_now ?io p + timeout) p)) =
         Some (if c = nat (crc32 bs) then Inr (last_line bs c) else Inl (UploadError (Line (last_line bs c))), q')"
      "dp_sent q' = dp_sent q @ le_bytes 4 (int c)"
      "snd (upload_v2 sk max_len False (dp_sent q') s) =
         (snd (sk_finish sk (c = nat (crc32 bs)) (stored sk 0 (pieces BLOCK bs) ?s)), Some (if c = nat (crc32 bs) then Some ?n else None))"
      using dev_tail [OF _ assms(5) cl b(4,3)] sk(2) unfolding dv by blast
    then show ?thesis
      using R A(1) b(1,2) False
      by (intro exI [of _ q'])
        (simp add: send_upload_v2_def UPLOAD_V2_BLOCK_def BLOCK_def sum [symmetric] last_line_def p3_def del: le_bytes.simps)
  qed
qed

text \<open>A sink that keeps what it gets.\<close>

definition list_sink :: "(byte list \<times> bool) sink" where
  "list_sink = \<lparr>sk_begin = (\<lambda>_ _. (True, ([], False))), sk_block = (\<lambda>_ b (d, f). (True, (d @ b, f))), sk_finish = (\<lambda>ok (d, _). (True, (d, ok)))\<rparr>"

lemma list_sink_accepting: "accepting list_sink"
  by (simp add: accepting_def list_sink_def split_def)

abbreviation test_device :: "(byte list \<times> bool) device" where
  "test_device \<equiv> \<lparr>dv_sink = list_sink, dv_max = 100, dv_start = ([], False)\<rparr>"

abbreviation test_port :: dev_port where
  "test_port \<equiv> \<lparr>dp_sent = [], dp_read = 0, dp_now = 0\<rparr>"

theorem upload_to_firmware_witness:
  "\<exists>q. send_upload_v2 (dev_io test_device) [1, 2, 3] 1000 None test_port =
     Some (Inr (codes ''[OK] '' @ dec 3 @ codes '' bytes CRC '' @ put_hex (nat (crc32 [1, 2, 3]))), q) \<and>
     dp_sent q = le_bytes 4 3 @ [1, 2, 3] @ le_bytes 4 (crc32 [1, 2, 3]) \<and>
     snd (upload_v2 list_sink 100 False (dp_sent q) ([], False)) = (([1, 2, 3], True), Some (Some 3))"
proof -
  let ?d = "[1, 2, 3] :: byte list"
  have p: "pieces BLOCK ?d = [?d]" by (simp add: pieces_step BLOCK_def)
  have st: "snd (sk_finish list_sink True (stored list_sink 0 [?d] (snd (sk_begin list_sink n ([], False))))) = (?d, True)" for n
    by (simp add: list_sink_def)
  have n: "length ?d = 3" by simp
  have c: "int (nat (crc32 ?d)) = crc32 ?d" using crc32_fits [of ?d] by (simp add: fits_def)
  have i: "int 3 = 3" by simp
  show ?thesis
    using upload_to_firmware [OF refl list_sink_accepting, of test_port 1000 100 ?d "nat (crc32 ?d)" None "([], False)"]
    unfolding n p i c by (simp only: st if_True if_False option.case list.simps dev_port.select_convs refl) simp
qed

theorem serial_calls_return_witness:
  "timed_port (dev_io test_device) dp_now 1 (\<lambda>_. 0) \<and>
   (\<exists>r. read_until (dev_io test_device) [S1_PROMPT] 1000 [] test_port = Some r) \<and>
   (\<exists>r. enter_s1 (dev_io test_device) 1000 False test_port = Some r)"
  using serial_calls_return [OF dev.timed_port_axioms [of test_device]] dev.timed_port_axioms [of test_device] by blast

theorem commands_return_witness:
  "host_port (dev_io test_device) dp_now 1 (\<lambda>_. 0) (\<lambda>_. 0) \<and>
   (\<exists>r. cmd_put (dev_io test_device) (codes ''a'') [1] test_port = Some r) \<and>
   (\<exists>r. cmd_ls (dev_io test_device) (codes ''/'') test_port = Some r)"
  using commands_return [OF dev.host_port_axioms [of test_device]] dev.host_port_axioms [of test_device] by blast

theorem upload_sends_in_order_witness:
  "\<exists>y. send_upload_v2 (dev_io test_device) [7] 1000 None test_port = Some y \<and>
     sends dp_sent \<lparr>dp_sent = [], dp_read = 0, dp_now = 0\<rparr> y (le_bytes 4 1 @ [7] @ le_bytes 4 (crc32 [7])) (starts (codes ''[OK]''))"
proof -
  obtain y where y: "send_upload_v2 (dev_io test_device) [7] 1000 None test_port = Some y"
    using dev.send_upload_returns by blast
  show ?thesis using upload_sends_in_order [OF dev.writing_port_axioms _ y] y by (simp del: le_bytes.simps)
qed

section \<open>Replies\<close>

lemma find_sub_here: "p \<noteq> [] \<Longrightarrow> find_sub p (p @ t) = Some 0"
  by (cases p) (simp_all add: starts_def)

lemma rfind_sub_end: "p \<noteq> [] \<Longrightarrow> rfind_sub p (t @ p) = Some (length t)"
  using find_sub_here [of "rev p" "rev t"] by (simp add: rfind_sub_def)

lemma find_newline: "10 \<notin> set l \<Longrightarrow> find_sub [10] (l @ 10 # r) = Some (length l)"
  by (induction l) (auto simp: starts_def)

text \<open>
  C31: replies of the second stage. When the echo of a command line is first found after \<open>pre\<close>, the reply is what
  lies between the echo and the last prompt; it raises \<open>S2Error\<close> with the first of its lines that starts with
  \<open>[ERR]\<close>, and is returned when there is none. The output of an application is what follows the line of its
  \<open>[RUN]\<close> mark.
\<close>

theorem replies_exact:
  assumes "find_sub (line @ [10]) (pre @ line @ [10] @ out @ S2_PROMPT) = Some (length pre)"
    and "find_sub (codes ''[RUN] '') (pre' @ codes ''[RUN] '' @ l @ [10] @ app) = Some (length pre')" "10 \<notin> set l"
  shows "s2_reply (pre @ line @ [10] @ out @ S2_PROMPT) line = out \<and>
    (case s2_check out of
       Inr o' \<Rightarrow> o' = out \<and> list_all (\<lambda>ln. \<not> starts (codes ''[ERR]'') ln) (splitlines out)
     | Inl e \<Rightarrow> (\<exists>ok ln more. splitlines out = ok @ ln # more \<and> e = S2Error ln \<and> starts (codes ''[ERR]'') ln \<and>
         list_all (\<lambda>ln. \<not> starts (codes ''[ERR]'') ln) ok)) \<and>
    after_run (pre' @ codes ''[RUN] '' @ l @ [10] @ app) = app"
proof -
  have "s2_reply (pre @ line @ [10] @ out @ S2_PROMPT) line = out"
    using assms(1) rfind_sub_end [of S2_PROMPT out] by (simp add: s2_reply_def Let_def)
  moreover have "case s2_check out of
       Inr o' \<Rightarrow> o' = out \<and> list_all (\<lambda>ln. \<not> starts (codes ''[ERR]'') ln) (splitlines out)
     | Inl e \<Rightarrow> (\<exists>ok ln more. splitlines out = ok @ ln # more \<and> e = S2Error ln \<and> starts (codes ''[ERR]'') ln \<and>
         list_all (\<lambda>ln. \<not> starts (codes ''[ERR]'') ln) ok)"
  proof (cases "List.find (starts (codes ''[ERR]'')) (splitlines out)")
    case None
    then have "list_all (\<lambda>ln. \<not> starts (codes ''[ERR]'') ln) (splitlines out)" by (auto simp: find_None_iff list_all_iff)
    then show ?thesis by (simp add: s2_check_def None)
  next
    case (Some ln)
    then obtain i where i: "i < length (splitlines out)" "starts (codes ''[ERR]'') (splitlines out ! i)" "ln = splitlines out ! i"
      "\<forall>j < i. \<not> starts (codes ''[ERR]'') (splitlines out ! j)"
      by (auto simp: find_Some_iff)
    have "splitlines out = take i (splitlines out) @ ln # drop (Suc i) (splitlines out)" using i by (simp add: id_take_nth_drop)
    moreover have "list_all (\<lambda>ln. \<not> starts (codes ''[ERR]'') ln) (take i (splitlines out))"
      using i by (auto simp: list_all_length)
    moreover have "starts (codes ''[ERR]'') ln" using i(2,3) by simp
    ultimately have "\<exists>ok more. splitlines out = ok @ ln # more \<and> starts (codes ''[ERR]'') ln \<and>
        list_all (\<lambda>ln. \<not> starts (codes ''[ERR]'') ln) ok" by blast
    then show ?thesis by (simp add: s2_check_def Some)
  qed
  moreover have "after_run (pre' @ codes ''[RUN] '' @ l @ [10] @ app) = app"
  proof -
    have n: "10 \<notin> set (codes ''[RUN] '' @ l)" using assms(3) by (simp add: codes_def)
    have "find_sub [10] ((codes ''[RUN] '' @ l) @ 10 # app) = Some (length (codes ''[RUN] '' @ l))" using n by (rule find_newline)
    then show ?thesis using assms(2) by (simp add: after_run_def after_def occurs_def)
  qed
  ultimately show ?thesis by blast
qed

theorem replies_exact_witness:
  "s2_reply (codes ''x'' @ codes ''ls'' @ [10] @ codes ''A'' @ S2_PROMPT) (codes ''ls'') = codes ''A'' \<and>
   after_run (codes ''y'' @ codes ''[RUN] '' @ codes ''z'' @ [10] @ codes ''hi'') = codes ''hi''"
proof -
  have a: "find_sub (codes ''ls'' @ [10]) (codes ''x'' @ codes ''ls'' @ [10] @ codes ''A'' @ S2_PROMPT) = Some (length (codes ''x''))"
    by (simp add: codes_def starts_def)
  have b: "find_sub (codes ''[RUN] '') (codes ''y'' @ codes ''[RUN] '' @ codes ''z'' @ [10] @ codes ''hi'') = Some (length (codes ''y''))"
    by (simp add: codes_def starts_def)
  have c: "10 \<notin> set (codes ''z'')" by (simp add: codes_def)
  show ?thesis using replies_exact [OF a b c] by blast
qed

end
