(* ===== verification/Sd_Card.thy ===== *)
theory Sd_Card
  imports Upload_Device
begin

text \<open>
  The SD card's SPI-mode protocol of \<^verbatim>\<open>src/sim/integration/sdcard_protocol.py\<close>.

  The constructor's arguments are the record \<open>sd_config\<close>, the object's attributes the record \<open>sdcard\<close>
  (\<open>sectors\<close> is a map from block numbers to blocks, \<open>_state\<close> a datatype). A method that mutates the object
  returns the new record; \<open>begin_byte\<close> and \<open>exchange\<close> also return the MISO byte. The texts of \<open>violations\<close>
  are the constructors of \<open>violation\<close>, with the values the texts contain.
\<close>

section \<open>The object\<close>

definition SECTOR :: nat where "SECTOR = 512"
definition POWER_UP_CLOCKS :: int where "POWER_UP_CLOCKS = 74"
definition INIT_SCLK_HZ :: int where "INIT_SCLK_HZ = 400000"

record sd_config =
  sdhc :: bool
  strict :: bool
  mute_cmds :: "int list"
  never_ready :: bool
  read_error :: bool
  bad_sectors :: "int list"
  write_reject :: bool

datatype sd_state = Idle | Cmd | WaitToken | Data | Resync

datatype violation = FastSclk int | PowerUp int int | Unaligned int int

record sdcard =
  cfg :: sd_config
  sectors :: "int \<rightharpoonup> byte list"
  commands :: "(int \<times> int) list"
  violations :: "violation list"
  idle_clocks :: int
  first_cmd_seen :: bool
  ready :: bool
  sclk_hz :: int
  fast_reported :: bool
  resp :: "byte list"
  answering :: bool
  sd_st :: sd_state
  sd_buf :: "byte list"
  sd_lba :: int

definition sd_new :: "sd_config \<Rightarrow> sdcard" where
  "sd_new c = \<lparr>cfg = c, sectors = Map.empty, commands = [], violations = [], idle_clocks = 0,
     first_cmd_seen = False, ready = False, sclk_hz = INIT_SCLK_HZ, fast_reported = False, resp = [],
     answering = False, sd_st = Idle, sd_buf = [], sd_lba = 0\<rparr>"

section \<open>Methods\<close>

definition get_sector :: "int \<Rightarrow> sdcard \<Rightarrow> byte list" where
  "get_sector l c = (case sectors c l of None \<Rightarrow> replicate SECTOR 0 | Some d \<Rightarrow> d)"

definition set_sector :: "int \<Rightarrow> byte list \<Rightarrow> sdcard \<Rightarrow> sdcard" where
  "set_sector l data c = c\<lparr>sectors := (sectors c)(l \<mapsto> ljust SECTOR 0 (take SECTOR data))\<rparr>"

definition set_cs :: "bool \<Rightarrow> sdcard \<Rightarrow> sdcard" where
  "set_cs selected c = (if selected then c else c\<lparr>sd_st := Idle, sd_buf := []\<rparr>)"

definition set_sclk_hz :: "int \<Rightarrow> sdcard \<Rightarrow> sdcard" where
  "set_sclk_hz hz c = c\<lparr>sclk_hz := hz\<rparr>"

definition begin_byte :: "sdcard \<Rightarrow> byte \<times> sdcard" where
  "begin_byte c = (case resp c of [] \<Rightarrow> (0xFF, c\<lparr>answering := False\<rparr>)
     | b # bs \<Rightarrow> (b, c\<lparr>answering := True, resp := bs\<rparr>))"

definition addr_lba :: "int \<Rightarrow> int \<Rightarrow> sdcard \<Rightarrow> int \<times> sdcard" where
  "addr_lba cmd arg c =
     (if \<not> strict (cfg c) then (if arg < 0x10000 then arg else drop_bit 9 arg, c)
      else if sdhc (cfg c) then (arg, c)
      else (drop_bit 9 arg,
        if arg mod int SECTOR \<noteq> 0 then c\<lparr>violations := violations c @ [Unaligned cmd arg]\<rparr> else c))"

definition add_resp :: "byte list \<Rightarrow> sdcard \<Rightarrow> sdcard" where
  "add_resp bs c = c\<lparr>resp := resp c @ bs\<rparr>"

definition log_command :: "int \<Rightarrow> int \<Rightarrow> sdcard \<Rightarrow> sdcard" where
  "log_command cmd arg c =
     (let c = c\<lparr>commands := commands c @ [(cmd, arg)]\<rparr>
      in if first_cmd_seen c then c
         else let c = c\<lparr>first_cmd_seen := True\<rparr>
              in if strict (cfg c) \<and> idle_clocks c < POWER_UP_CLOCKS
                 then c\<lparr>violations := violations c @ [PowerUp (idle_clocks c) cmd]\<rparr> else c)"

definition answer :: "int \<Rightarrow> int \<Rightarrow> sdcard \<Rightarrow> sdcard" where
  "answer cmd arg c =
     (if cmd = 0 then add_resp [0xFF, 0x01] (c\<lparr>ready := False\<rparr>)
      else if cmd = 8 then add_resp [0xFF, 0x01, 0x00, 0x00, 0x01, 0xAA] c
      else if cmd = 55 then add_resp (if ready c then [0xFF, 0x00] else [0xFF, 0x01]) c
      else if cmd = 1 \<or> cmd = 41 then
        (let c = c\<lparr>ready := \<not> never_ready (cfg c)\<rparr>;
             c = c\<lparr>fast_reported := fast_reported c \<and> \<not> ready c\<rparr>
         in add_resp (if ready c then [0xFF, 0x00] else [0xFF, 0x01]) c)
      else if cmd = 58 then add_resp [0xFF, 0x00, if sdhc (cfg c) then 0xC0 else 0x80, 0xFF, 0x80, 0x00] c
      else if cmd = 16 then add_resp [0xFF, 0x00] c
      else if cmd = 17 then
        (let (l, c) = addr_lba cmd arg c
         in if read_error (cfg c) \<or> l \<in> set (bad_sectors (cfg c)) then add_resp [0xFF, 0x00, 0xFF, 0x08] c
            else add_resp ([0xFF, 0x00, 0xFF, 0xFE] @ get_sector l c @ [0x12, 0x34]) c)
      else if cmd = 24 then
        (let (l, c) = addr_lba cmd arg c
         in (add_resp [0xFF, 0x00] (c\<lparr>sd_lba := l\<rparr>))\<lparr>sd_st := WaitToken\<rparr>)
      else c)"

definition command :: "int \<Rightarrow> int \<Rightarrow> sdcard \<Rightarrow> sdcard" where
  "command cmd arg c =
     (let c = log_command cmd arg c
      in if cmd \<in> set (mute_cmds (cfg c)) then c else answer cmd arg c)"

text \<open>\<open>int.from_bytes(\<dots>, "big")\<close>.\<close>

definition int_of_be :: "byte list \<Rightarrow> int" where
  "int_of_be bs = int_of_le (rev bs)"

definition count_clocks :: "bool \<Rightarrow> sdcard \<Rightarrow> sdcard" where
  "count_clocks selected c =
     (let c = (if \<not> selected \<and> \<not> first_cmd_seen c then c\<lparr>idle_clocks := idle_clocks c + 8\<rparr> else c)
      in if strict (cfg c) \<and> \<not> ready c \<and> sclk_hz c > INIT_SCLK_HZ \<and> \<not> fast_reported c
         then c\<lparr>fast_reported := True, violations := violations c @ [FastSclk (sclk_hz c)]\<rparr> else c)"

definition take_byte :: "byte \<Rightarrow> sdcard \<Rightarrow> sdcard" where
  "take_byte mosi c = (case sd_st c of
       Idle \<Rightarrow> (if mosi AND 0xC0 = 0x40 then c\<lparr>sd_st := Cmd, sd_buf := [mosi]\<rparr> else c)
     | Cmd \<Rightarrow>
         (let c = c\<lparr>sd_buf := sd_buf c @ [mosi]\<rparr>
          in if length (sd_buf c) = 6
             then command (uint (hd (sd_buf c) AND 0x3F)) (int_of_be (slice 1 5 (sd_buf c))) (c\<lparr>sd_st := Idle\<rparr>)
             else c)
     | WaitToken \<Rightarrow> (if mosi = 0xFE then c\<lparr>sd_st := Data, sd_buf := []\<rparr> else c)
     | Data \<Rightarrow>
         (let c = c\<lparr>sd_buf := sd_buf c @ [mosi]\<rparr>
          in if length (sd_buf c) = SECTOR + 2
             then let c = c\<lparr>sd_st := Resync\<rparr>
                  in if write_reject (cfg c) then add_resp [0x0B] c
                     else add_resp [0x05, 0x3F] (set_sector (sd_lba c) (take SECTOR (sd_buf c)) c)
             else c)
     | Resync \<Rightarrow> c)"

definition end_byte :: "byte \<Rightarrow> bool \<Rightarrow> sdcard \<Rightarrow> sdcard" where
  "end_byte mosi selected c =
     (let c = count_clocks selected c
      in if answering c \<or> \<not> selected then c else take_byte mosi c)"

definition exchange :: "byte \<Rightarrow> bool \<Rightarrow> sdcard \<Rightarrow> byte \<times> sdcard" where
  "exchange mosi selected c = (let (miso, c) = begin_byte c in (miso, end_byte mosi selected c))"

section \<open>Blocks\<close>

text \<open>
  What the rest of the protocol relies on of the card's storage: a block has a fixed size, a block just
  stored is read back (padded to the size), and other blocks keep their contents.
\<close>

locale block_store =
  fixes get_b :: "int \<Rightarrow> 's \<Rightarrow> byte list"
    and set_b :: "int \<Rightarrow> byte list \<Rightarrow> 's \<Rightarrow> 's"
    and block_size :: nat
    and inv_b :: "'s \<Rightarrow> bool"
  assumes size: "inv_b s \<Longrightarrow> length (get_b l s) = block_size"
    and get_set: "inv_b s \<Longrightarrow> get_b l (set_b k d s) =
      (if l = k then ljust block_size 0 (take block_size d) else get_b l s)"
    and set_inv: "inv_b s \<Longrightarrow> inv_b (set_b k d s)"
begin

lemma get_set_full: "inv_b s \<Longrightarrow> length d = block_size \<Longrightarrow> get_b k (set_b k d s) = d"
  by (simp add: get_set ljust_def)

lemma set_set: "inv_b s \<Longrightarrow> get_b l (set_b k d (set_b k e s)) = get_b l (set_b k d s)"
  by (simp add: get_set set_inv)

lemma set_commute: "inv_b s \<Longrightarrow> k \<noteq> j \<Longrightarrow> get_b l (set_b k d (set_b j e s)) = get_b l (set_b j e (set_b k d s))"
  by (simp add: get_set set_inv)

lemma rewrite: "inv_b s \<Longrightarrow> get_b l (set_b k (get_b k s) s) = get_b l s"
  using size [of s k] by (simp add: get_set ljust_def)

end

definition blocks_inv :: "sdcard \<Rightarrow> bool" where
  "blocks_inv c \<longleftrightarrow> (\<forall>l d. sectors c l = Some d \<longrightarrow> length d = SECTOR)"

interpretation card: block_store get_sector set_sector SECTOR blocks_inv
proof
  fix c l k and d :: "byte list"
  assume "blocks_inv c"
  then show "length (get_sector l c) = SECTOR" "blocks_inv (set_sector k d c)"
    "get_sector l (set_sector k d c) = (if l = k then ljust SECTOR 0 (take SECTOR d) else get_sector l c)"
    by (auto simp: blocks_inv_def get_sector_def set_sector_def split: option.splits)
qed

section \<open>Invariant of every reachable card\<close>

inductive sd_reach :: "sd_config \<Rightarrow> sdcard \<Rightarrow> bool" for k where
  new: "sd_reach k (sd_new k)"
| preload: "sd_reach k c \<Longrightarrow> sd_reach k (set_sector l d c)"
| cs: "sd_reach k c \<Longrightarrow> sd_reach k (set_cs b c)"
| sclk: "sd_reach k c \<Longrightarrow> sd_reach k (set_sclk_hz hz c)"
| begin_b: "sd_reach k c \<Longrightarrow> sd_reach k (snd (begin_byte c))"
| end_b: "sd_reach k c \<Longrightarrow> sd_reach k (end_byte mosi b c)"

definition buf_ok :: "sdcard \<Rightarrow> bool" where
  "buf_ok c \<longleftrightarrow> (case sd_st c of
       Cmd \<Rightarrow> 1 \<le> length (sd_buf c) \<and> length (sd_buf c) < 6 \<and> hd (sd_buf c) AND 0xC0 = 0x40
     | Data \<Rightarrow> length (sd_buf c) < SECTOR + 2 | _ \<Rightarrow> True)"

definition clocks_ok :: "sdcard \<Rightarrow> bool" where
  "clocks_ok c \<longleftrightarrow> 0 \<le> idle_clocks c \<and> idle_clocks c mod 8 = 0 \<and> (first_cmd_seen c \<longleftrightarrow> commands c \<noteq> [])"

definition reports_ok :: "sdcard \<Rightarrow> bool" where
  "reports_ok c \<longleftrightarrow> (strict (cfg c) \<or> violations c = [] \<and> \<not> fast_reported c) \<and> (fast_reported c \<longrightarrow> \<not> ready c) \<and>
     (never_ready (cfg c) \<longrightarrow> \<not> ready c)"

definition sd_inv :: "sdcard \<Rightarrow> bool" where
  "sd_inv c \<longleftrightarrow> blocks_inv c \<and> buf_ok c \<and> clocks_ok c \<and> reports_ok c"

lemma addr_lba_fields [simp]:
  "cfg (snd (addr_lba cmd arg c)) = cfg c" "sectors (snd (addr_lba cmd arg c)) = sectors c"
  "commands (snd (addr_lba cmd arg c)) = commands c" "first_cmd_seen (snd (addr_lba cmd arg c)) = first_cmd_seen c"
  "idle_clocks (snd (addr_lba cmd arg c)) = idle_clocks c" "sd_buf (snd (addr_lba cmd arg c)) = sd_buf c"
  "sd_st (snd (addr_lba cmd arg c)) = sd_st c" "ready (snd (addr_lba cmd arg c)) = ready c"
  "fast_reported (snd (addr_lba cmd arg c)) = fast_reported c" "resp (snd (addr_lba cmd arg c)) = resp c"
  "answering (snd (addr_lba cmd arg c)) = answering c" "sclk_hz (snd (addr_lba cmd arg c)) = sclk_hz c"
  "sd_lba (snd (addr_lba cmd arg c)) = sd_lba c"
  "\<not> strict (cfg c) \<Longrightarrow> violations (snd (addr_lba cmd arg c)) = violations c"
  by (simp_all add: addr_lba_def)

lemmas answer_defs = answer_def add_resp_def Let_def split_def

lemma cfg_answer [simp]: "cfg (answer cmd arg c) = cfg c"
  by (simp add: answer_defs)

lemma cfg_ops [simp]:
  "cfg (set_sector l d c) = cfg c" "cfg (set_cs b c) = cfg c" "cfg (set_sclk_hz hz c) = cfg c"
  "cfg (snd (begin_byte c)) = cfg c" "cfg (log_command cmd arg c) = cfg c"
  "cfg (add_resp bs c) = cfg c" "cfg (count_clocks b c) = cfg c"
  by (simp_all add: set_sector_def set_cs_def set_sclk_hz_def begin_byte_def log_command_def add_resp_def
      count_clocks_def Let_def split: list.splits)

lemma cfg_end_byte [simp]: "cfg (take_byte mosi c) = cfg c" "cfg (end_byte mosi b c) = cfg c"
proof -
  have "cfg (command cmd arg d) = cfg d" for cmd arg d by (simp add: command_def Let_def)
  then show *: "cfg (take_byte mosi c) = cfg c" for c
    by (simp add: take_byte_def Let_def split: sd_state.splits)
  show "cfg (end_byte mosi b c) = cfg c" by (simp add: end_byte_def Let_def *)
qed

lemma log_inv: "sd_inv c \<Longrightarrow> sd_st c = Idle \<Longrightarrow> sd_inv (log_command cmd arg c) \<and> sd_st (log_command cmd arg c) = Idle"
  by (auto simp: log_command_def Let_def sd_inv_def blocks_inv_def buf_ok_def clocks_ok_def reports_ok_def)

lemma answer_frame:
  "sectors (answer cmd arg c) = sectors c" "commands (answer cmd arg c) = commands c"
  "first_cmd_seen (answer cmd arg c) = first_cmd_seen c" "idle_clocks (answer cmd arg c) = idle_clocks c"
  "sd_buf (answer cmd arg c) = sd_buf c" "sd_st (answer cmd arg c) = (if cmd = 24 then WaitToken else sd_st c)"
  by (simp_all add: answer_defs)

lemma answer_reports: "reports_ok c \<Longrightarrow> reports_ok (answer cmd arg c)"
proof -
  assume r: "reports_ok c"
  have v: "violations (answer cmd arg c) = violations c \<or> strict (cfg c)"
    by (cases "strict (cfg c)") (simp_all add: answer_defs)
  have f: "fast_reported (answer cmd arg c) \<longrightarrow> fast_reported c" by (simp add: answer_defs)
  have rd: "ready (answer cmd arg c) \<longrightarrow> ready c \<or> (\<not> never_ready (cfg c) \<and> \<not> fast_reported (answer cmd arg c))"
    by (simp add: answer_defs)
  show ?thesis using r v f rd unfolding reports_ok_def cfg_answer by metis
qed

lemma answer_inv: "sd_inv c \<Longrightarrow> sd_st c = Idle \<Longrightarrow> sd_inv (answer cmd arg c)"
  using answer_reports [of c cmd arg]
  by (simp add: sd_inv_def blocks_inv_def buf_ok_def clocks_ok_def answer_frame)

lemma command_inv: "sd_inv c \<Longrightarrow> sd_st c = Idle \<Longrightarrow> sd_inv (command cmd arg c)"
  using log_inv answer_inv by (simp add: command_def Let_def)

lemma take_byte_inv:
  assumes "sd_inv c"
  shows "sd_inv (take_byte mosi c)"
proof (cases "sd_st c")
  case Idle
  then show ?thesis using assms
    by (auto simp: take_byte_def sd_inv_def blocks_inv_def buf_ok_def clocks_ok_def reports_ok_def)
next
  case Cmd
  let ?c = "c\<lparr>sd_buf := sd_buf c @ [mosi]\<rparr>"
  have "sd_inv (?c\<lparr>sd_st := Idle\<rparr>)" using assms
    by (auto simp: sd_inv_def blocks_inv_def buf_ok_def clocks_ok_def reports_ok_def)
  then have "sd_inv (command a b (?c\<lparr>sd_st := Idle\<rparr>))" for a b by (simp add: command_inv)
  moreover have "length (sd_buf ?c) \<noteq> 6 \<Longrightarrow> sd_inv ?c" using assms Cmd
    by (cases "sd_buf c") (auto simp: sd_inv_def blocks_inv_def buf_ok_def clocks_ok_def reports_ok_def)
  ultimately show ?thesis using Cmd by (auto simp: take_byte_def Let_def)
next
  case WaitToken
  then show ?thesis using assms
    by (auto simp: take_byte_def sd_inv_def blocks_inv_def buf_ok_def clocks_ok_def reports_ok_def)
next
  case Data
  then show ?thesis using assms
    by (auto simp: take_byte_def Let_def set_sector_def add_resp_def sd_inv_def blocks_inv_def buf_ok_def clocks_ok_def
        reports_ok_def)
next
  case Resync
  then show ?thesis using assms by (simp add: take_byte_def)
qed

lemma count_inv: "sd_inv c \<Longrightarrow> sd_inv (count_clocks b c)"
  by (auto simp: count_clocks_def Let_def sd_inv_def blocks_inv_def buf_ok_def clocks_ok_def reports_ok_def split: sd_state.splits)

lemma end_byte_inv: "sd_inv c \<Longrightarrow> sd_inv (end_byte mosi b c)"
  by (simp add: end_byte_def Let_def count_inv take_byte_inv)

text \<open>
  C12: every reachable card is consistent. Whatever the host clocks, however CS and SCLK change and whatever
  blocks are preloaded: each stored block has 512 bytes; a partial command has one to five bytes and starts
  with a command byte, and a partial data block has fewer than 514; idle clocks come in eights; a card that is not strict
  never reports a violation; a too-fast clock is reported only while the card is not ready; and a card that
  is never ready stays so.
\<close>

theorem sd_reach_inv: "sd_reach k c \<Longrightarrow> sd_inv c \<and> cfg c = k"
proof (induction rule: sd_reach.induct)
  case new
  show ?case by (simp add: sd_new_def sd_inv_def blocks_inv_def buf_ok_def clocks_ok_def reports_ok_def)
next
  case (preload c l d)
  then show ?case
    by (auto simp: set_sector_def sd_inv_def blocks_inv_def buf_ok_def clocks_ok_def reports_ok_def split: sd_state.splits)
next
  case (cs c b)
  then show ?case
    by (auto simp: set_cs_def sd_inv_def blocks_inv_def buf_ok_def clocks_ok_def reports_ok_def)
next
  case (sclk c hz)
  then show ?case
    by (auto simp: set_sclk_hz_def sd_inv_def blocks_inv_def buf_ok_def clocks_ok_def reports_ok_def split: sd_state.splits)
next
  case (begin_b c)
  then show ?case
    by (auto simp: begin_byte_def sd_inv_def blocks_inv_def buf_ok_def clocks_ok_def reports_ok_def split: list.splits sd_state.splits)
next
  case (end_b c mosi b)
  then show ?case using end_byte_inv [of c mosi b] by simp
qed

theorem sd_reach_inv_witness:
  "\<exists>k c. sd_reach k c \<and> sd_inv c \<and> sd_st c = Cmd \<and> violations c \<noteq> []"
proof -
  let ?k = "\<lparr>sdhc = True, strict = True, mute_cmds = [], never_ready = False, read_error = False, bad_sectors = [],
    write_reject = False\<rparr>"
  let ?c = "end_byte 0x40 True (set_sclk_hz 1000000 (sd_new ?k))"
  have r: "sd_reach ?k ?c" by (intro sd_reach.intros)
  have "sd_st ?c = Cmd" "violations ?c \<noteq> []"
    by (simp_all add: end_byte_def set_sclk_hz_def sd_new_def count_clocks_def take_byte_def INIT_SCLK_HZ_def Let_def)
  with r sd_reach_inv [OF r] show ?thesis by blast
qed

section \<open>A host's byte sequences\<close>

fun exchanges :: "byte list \<Rightarrow> sdcard \<Rightarrow> byte list \<times> sdcard" where
  "exchanges [] c = ([], c)"
| "exchanges (m # ms) c =
     (let (b, c) = exchange m True c; (bs, c) = exchanges ms c in (b # bs, c))"

lemma exchanges_append:
  "exchanges (ms @ ns) c = (let (bs, c) = exchanges ms c; (cs, c) = exchanges ns c in (bs @ cs, c))"
  by (induction ms arbitrary: c) (simp_all add: Let_def split_def)

lemma exchanges_then: "exchanges ms c = (bs, d) \<Longrightarrow> exchanges ns d = (cs, e) \<Longrightarrow> exchanges (ms @ ns) c = (bs @ cs, e)"
  by (simp add: exchanges_append)

lemma exchanges_one: "exchange m True c = (b, d) \<Longrightarrow> exchanges [m] c = ([b], d)"
  by simp

definition be_bytes :: "nat \<Rightarrow> int \<Rightarrow> byte list" where
  "be_bytes n v = rev (le_bytes n v)"

lemma int_of_be_bytes: "0 \<le> v \<Longrightarrow> v < 256 ^ n \<Longrightarrow> int_of_be (be_bytes n v) = v"
  by (simp add: int_of_be_def be_bytes_def int_of_le_bytes)

text \<open>A command frame: start and command bits, the argument, a CRC byte.\<close>

definition cmd_frame :: "int \<Rightarrow> int \<Rightarrow> byte \<Rightarrow> byte list" where
  "cmd_frame cmd arg crc = [0x40 OR word_of_int cmd] @ be_bytes 4 arg @ [crc]"

text \<open>The same card up to the clock counters, the reports and the buffers.\<close>

definition like :: "sdcard \<Rightarrow> sdcard \<Rightarrow> bool" where
  "like d c \<longleftrightarrow> cfg d = cfg c \<and> sectors d = sectors c \<and> sd_lba d = sd_lba c \<and> ready d = ready c"

lemma like_trans: "like a b \<Longrightarrow> like b c \<Longrightarrow> like a c"
  by (simp add: like_def)

lemma count_like: "like (count_clocks b c) c" "resp (count_clocks b c) = resp c" "sd_st (count_clocks b c) = sd_st c"
  "sd_buf (count_clocks b c) = sd_buf c" "answering (count_clocks b c) = answering c" "commands (count_clocks b c) = commands c"
  by (simp_all add: count_clocks_def Let_def like_def)

text \<open>While it answers, the card sends its answer whatever the host sends.\<close>

lemma drain:
  "resp c = bs @ rest \<Longrightarrow> length ms = length bs \<Longrightarrow>
   \<exists>d. exchanges ms c = (bs, d) \<and> like d c \<and> resp d = rest \<and> sd_st d = sd_st c \<and> sd_buf d = sd_buf c"
proof (induction bs arbitrary: c ms)
  case Nil
  then show ?case by (simp add: like_def)
next
  case (Cons b bs)
  then obtain m ms' where ms: "ms = m # ms'" "length ms' = length bs" by (cases ms) auto
  let ?d = "count_clocks True (c\<lparr>answering := True, resp := bs @ rest\<rparr>)"
  have e: "exchange m True c = (b, ?d)"
    using Cons.prems(1) by (simp add: exchange_def begin_byte_def end_byte_def Let_def count_like)
  have d: "like ?d c" "resp ?d = bs @ rest" "sd_st ?d = sd_st c" "sd_buf ?d = sd_buf c"
    using count_like [of True "c\<lparr>answering := True, resp := bs @ rest\<rparr>"] by (simp_all add: like_def)
  from Cons.IH [OF d(2) ms(2)] obtain f where
    "exchanges ms' ?d = (bs, f)" "like f ?d" "resp f = rest" "sd_st f = sd_st ?d" "sd_buf f = sd_buf ?d" by blast
  with e d ms(1) show ?case by (auto simp: like_def)
qed

lemma listen:
  assumes "resp c = []"
  shows "\<exists>d. exchange m True c = (0xFF, take_byte m d) \<and> like d c \<and> resp d = [] \<and> sd_st d = sd_st c \<and> sd_buf d = sd_buf c \<and>
    commands d = commands c"
  using assms count_like [of True "c\<lparr>answering := False\<rparr>"]
  by (auto simp: exchange_def begin_byte_def end_byte_def Let_def like_def)

lemma cmd_bytes:
  "resp c = [] \<Longrightarrow> sd_st c = Cmd \<Longrightarrow> length (sd_buf c) + length ms < 6 \<Longrightarrow>
   \<exists>d. exchanges ms c = (replicate (length ms) 0xFF, d) \<and> like d c \<and> resp d = [] \<and> sd_st d = Cmd \<and> sd_buf d = sd_buf c @ ms \<and>
     commands d = commands c"
proof (induction ms arbitrary: c)
  case Nil
  then show ?case by (simp add: like_def)
next
  case (Cons m ms)
  obtain d where d: "exchange m True c = (0xFF, take_byte m d)" "like d c" "resp d = []" "sd_st d = sd_st c" "sd_buf d = sd_buf c"
    "commands d = commands c"
    using listen [OF Cons.prems(1)] by blast
  let ?e = "d\<lparr>sd_buf := sd_buf d @ [m]\<rparr>"
  have e: "take_byte m d = ?e" using d Cons.prems by (simp add: take_byte_def Let_def)
  have "resp ?e = []" "sd_st ?e = Cmd" "length (sd_buf ?e) + length ms < 6" using d Cons.prems by simp_all
  from Cons.IH [OF this] d e show ?case by (auto simp: like_def)
qed

lemma frame_head:
  assumes "0 \<le> cmd" "cmd < 64"
  shows "(0x40 OR word_of_int cmd :: byte) AND 0xC0 = 0x40" "uint ((0x40 OR word_of_int cmd :: byte) AND 0x3F) = cmd"
proof -
  have "list_all (\<lambda>k. (0x40 OR word_of_int k :: byte) AND 0xC0 = 0x40 \<and>
      uint ((0x40 OR word_of_int k :: byte) AND 0x3F) = k) [0..63]" by code_simp
  with assms show "(0x40 OR word_of_int cmd :: byte) AND 0xC0 = 0x40"
    "uint ((0x40 OR word_of_int cmd :: byte) AND 0x3F) = cmd" by (auto simp: list_all_iff)
qed

lemma length_be_bytes [simp]: "length (be_bytes n v) = n"
  by (simp add: be_bytes_def)

text \<open>A whole frame reaches \<open>_command\<close> with the command and the argument that were sent.\<close>

lemma send_frame:
  assumes "resp c = []" "sd_st c = Idle" "0 \<le> cmd" "cmd < 64" "0 \<le> arg" "arg < 2 ^ 32"
  shows "\<exists>d. exchanges (cmd_frame cmd arg crc) c = (replicate 6 0xFF, command cmd arg d) \<and> like d c \<and> resp d = [] \<and>
    sd_st d = Idle \<and> commands d = commands c"
proof -
  let ?h = "0x40 OR word_of_int cmd :: byte"
  obtain d where d: "exchange ?h True c = (0xFF, take_byte ?h d)" "like d c" "resp d = []" "sd_st d = Idle"
    "commands d = commands c" using listen [OF assms(1), of ?h] assms(2) by metis
  let ?e = "d\<lparr>sd_st := Cmd, sd_buf := [?h]\<rparr>"
  have e: "take_byte ?h d = ?e" using d(4) frame_head(1) [OF assms(3,4)] by (simp add: take_byte_def)
  obtain f where f: "exchanges (be_bytes 4 arg) ?e = (replicate 4 0xFF, f)" "like f ?e" "resp f = []" "sd_st f = Cmd"
    "sd_buf f = [?h] @ be_bytes 4 arg" "commands f = commands d"
    using cmd_bytes [of ?e "be_bytes 4 arg"] d(3) by auto
  obtain g where g: "exchange crc True f = (0xFF, take_byte crc g)" "like g f" "resp g = []" "sd_st g = Cmd"
    "sd_buf g = [?h] @ be_bytes 4 arg" "commands g = commands f"
    using listen [OF f(3), of crc] f(4,5) by metis
  let ?g = "g\<lparr>sd_buf := sd_buf g @ [crc], sd_st := Idle\<rparr>"
  have "slice 1 5 (sd_buf g @ [crc]) = be_bytes 4 arg" by (simp add: g(5) slice_def)
  then have "take_byte crc g = command cmd arg ?g"
    using g(4,5) frame_head(2) [OF assms(3,4)] int_of_be_bytes [of arg 4] assms(5,6)
    by (simp add: take_byte_def Let_def)
  moreover have "replicate 6 (0xFF :: byte) = 0xFF # replicate 4 0xFF @ [0xFF]" by (simp add: numeral_eq_Suc)
  moreover have "like ?g c" using d(2) f(2) g(2) by (simp add: like_def)
  ultimately show ?thesis
    unfolding cmd_frame_def using d(1,5) e f(1,6) g(1,3,6)
    by (intro exI [of _ ?g]) (simp add: exchanges_append)
qed

lemma log_like: "like (log_command cmd arg c) c" "resp (log_command cmd arg c) = resp c" "sd_st (log_command cmd arg c) = sd_st c"
  by (simp_all add: log_command_def Let_def like_def)

lemma addr_like: "fst (addr_lba cmd arg c) = fst (addr_lba cmd' arg d)" if "like c d"
  using that by (simp add: addr_lba_def like_def)

lemma sector_like: "like c d \<Longrightarrow> get_sector l c = get_sector l d"
  by (simp add: like_def get_sector_def)

text \<open>The block a command's argument selects.\<close>

definition target :: "int \<Rightarrow> sdcard \<Rightarrow> int" where
  "target arg c = fst (addr_lba 17 arg c)"

lemma target_like: "like c d \<Longrightarrow> fst (addr_lba cmd arg c) = target arg d"
  unfolding target_def by (rule addr_like)

definition listening :: "sdcard \<Rightarrow> bool" where
  "listening c \<longleftrightarrow> resp c = [] \<and> sd_st c = Idle"

lemma command_unmuted: "cmd \<notin> set (mute_cmds (cfg c)) \<Longrightarrow> command cmd arg c = answer cmd arg (log_command cmd arg c)"
  by (simp add: command_def Let_def)

lemma read_command:
  assumes "like c e" "resp c = []" "sd_st c = Idle" "17 \<notin> set (mute_cmds (cfg e))" "\<not> read_error (cfg e)"
    "target arg e \<notin> set (bad_sectors (cfg e))"
  shows "resp (command 17 arg c) = [0xFF, 0x00, 0xFF, 0xFE] @ get_sector (target arg e) e @ [0x12, 0x34]"
    "like (command 17 arg c) e" "sd_st (command 17 arg c) = Idle"
proof -
  let ?d = "log_command 17 arg c"
  have d: "like ?d e" "resp ?d = []" "sd_st ?d = Idle" using log_like assms(1-3) like_trans by metis+
  have "answer 17 arg ?d = add_resp ([0xFF, 0x00, 0xFF, 0xFE] @ get_sector (target arg e) e @ [0x12, 0x34])
      (snd (addr_lba 17 arg ?d))"
    using assms(5,6) d(1) target_like [OF d(1), of 17 arg] sector_like [of "snd (addr_lba 17 arg ?d)" e]
    by (simp add: answer_def Let_def split_def like_def)
  moreover have "command 17 arg c = answer 17 arg ?d" using assms(1,4) by (simp add: command_unmuted like_def)
  ultimately show "resp (command 17 arg c) = [0xFF, 0x00, 0xFF, 0xFE] @ get_sector (target arg e) e @ [0x12, 0x34]"
    "like (command 17 arg c) e" "sd_st (command 17 arg c) = Idle"
    using d by (simp_all add: add_resp_def like_def addr_lba_def)
qed

lemma write_command:
  assumes "like c e" "resp c = []" "24 \<notin> set (mute_cmds (cfg e))"
  shows "resp (command 24 arg c) = [0xFF, 0x00]" "like (command 24 arg c) (e\<lparr>sd_lba := target arg e\<rparr>)"
    "sd_st (command 24 arg c) = WaitToken"
proof -
  let ?d = "log_command 24 arg c"
  have d: "like ?d e" "resp ?d = []" using log_like assms(1,2) like_trans by metis+
  have c: "command 24 arg c = answer 24 arg ?d" using assms(1,3) by (simp add: command_unmuted like_def)
  show "resp (command 24 arg c) = [0xFF, 0x00]" "like (command 24 arg c) (e\<lparr>sd_lba := target arg e\<rparr>)"
    "sd_st (command 24 arg c) = WaitToken"
    using d target_like [OF d(1), of 24 arg] unfolding c
    by (simp_all add: answer_def add_resp_def Let_def split_def like_def)
qed

lemma read_block:
  assumes "listening c" "17 \<notin> set (mute_cmds (cfg c))" "\<not> read_error (cfg c)" "target arg c \<notin> set (bad_sectors (cfg c))"
    "0 \<le> arg" "arg < 2 ^ 32" "blocks_inv c" "length ms = SECTOR + 6"
  shows "\<exists>d. exchanges (cmd_frame 17 arg crc @ ms) c =
      (replicate 6 0xFF @ [0xFF, 0x00, 0xFF, 0xFE] @ get_sector (target arg c) c @ [0x12, 0x34], d) \<and> like d c \<and> listening d"
proof -
  obtain d where d: "exchanges (cmd_frame 17 arg crc) c = (replicate 6 0xFF, command 17 arg d)" "like d c" "resp d = []" "sd_st d = Idle"
    using send_frame [of c 17 arg crc] assms(1,5,6) by (auto simp: listening_def)
  note r = read_command [OF d(2-4) assms(2-4)]
  have "length ms = length ([0xFF, 0x00, 0xFF, 0xFE] @ get_sector (target arg c) c @ [0x12, 0x34])"
    using card.size [OF assms(7)] assms(8) by simp
  from drain [of "command 17 arg d" _ "[]", OF _ this] r obtain f where
    "exchanges ms (command 17 arg d) = ([0xFF, 0x00, 0xFF, 0xFE] @ get_sector (target arg c) c @ [0x12, 0x34], f)"
    "like f (command 17 arg d)" "resp f = []" "sd_st f = Idle" by auto
  then show ?thesis using d(1) r(2) like_trans [of f "command 17 arg d" c]
    by (auto simp: exchanges_append listening_def)
qed

lemma data_bytes:
  "resp c = [] \<Longrightarrow> sd_st c = Data \<Longrightarrow> length (sd_buf c) + length ms < SECTOR + 2 \<Longrightarrow>
   \<exists>d. exchanges ms c = (replicate (length ms) 0xFF, d) \<and> like d c \<and> resp d = [] \<and> sd_st d = Data \<and> sd_buf d = sd_buf c @ ms"
proof (induction ms arbitrary: c)
  case Nil
  then show ?case by (simp add: like_def)
next
  case (Cons m ms)
  obtain d where d: "exchange m True c = (0xFF, take_byte m d)" "like d c" "resp d = []" "sd_st d = sd_st c" "sd_buf d = sd_buf c"
    using listen [OF Cons.prems(1)] by blast
  let ?e = "d\<lparr>sd_buf := sd_buf d @ [m]\<rparr>"
  have e: "take_byte m d = ?e" using d Cons.prems by (simp add: take_byte_def Let_def)
  have "resp ?e = []" "sd_st ?e = Data" "length (sd_buf ?e) + length ms < SECTOR + 2" using d Cons.prems by simp_all
  from Cons.IH [OF this] d e show ?case by (auto simp: like_def)
qed

lemma wait_bytes:
  "resp c = [] \<Longrightarrow> sd_st c = WaitToken \<Longrightarrow> 0xFE \<notin> set ms \<Longrightarrow>
   \<exists>d. exchanges ms c = (replicate (length ms) 0xFF, d) \<and> like d c \<and> resp d = [] \<and> sd_st d = WaitToken"
proof (induction ms arbitrary: c)
  case Nil
  then show ?case by (simp add: like_def)
next
  case (Cons m ms)
  obtain d where d: "exchange m True c = (0xFF, take_byte m d)" "like d c" "resp d = []" "sd_st d = sd_st c"
    using listen [OF Cons.prems(1)] by blast
  have e: "take_byte m d = d" using d Cons.prems by (simp add: take_byte_def)
  from Cons.IH [of d] Cons.prems d e show ?case by (auto simp: like_def)
qed

text \<open>The last byte of the block and its CRC, with the two bytes in which the card answers.\<close>

lemma last_byte:
  assumes "resp c = []" "sd_st c = Data" "sd_buf c = data @ [crc1]" "length data = SECTOR"
  shows "\<exists>d. exchange crc2 True c = (0xFF, d) \<and> sd_st d = Resync \<and> cfg d = cfg c \<and> ready d = ready c \<and>
    resp d = (if write_reject (cfg c) then [0x0B] else [0x05, 0x3F]) \<and>
    sectors d = (if write_reject (cfg c) then sectors c else (sectors c)(sd_lba c \<mapsto> data))"
proof -
  obtain d where d: "exchange crc2 True c = (0xFF, take_byte crc2 d)" "like d c" "resp d = []" "sd_st d = sd_st c" "sd_buf d = sd_buf c"
    using listen [OF assms(1)] by blast
  have "ljust SECTOR 0 (take SECTOR data) = data" using assms(4) by (simp add: ljust_def)
  then show ?thesis using d assms(2-4)
    by (auto simp: take_byte_def Let_def add_resp_def set_sector_def like_def)
qed

lemma write_answered:
  assumes "sd_st c = Resync" "resp c = (if write_reject (cfg c) then [0x0B] else [0x05, 0x3F])"
  shows "\<exists>d. exchanges [0xFF, 0xFF] c = (if write_reject (cfg c) then [0x0B, 0xFF] else [0x05, 0x3F], d) \<and> like d c \<and>
    resp d = [] \<and> sd_st d = Resync"
proof (cases "write_reject (cfg c)")
  case True
  then obtain d where d: "exchanges [0xFF] c = ([0x0B], d)" "like d c" "resp d = []" "sd_st d = Resync"
    using drain [of c "[0x0B]" "[]" "[0xFF]"] assms by auto
  obtain e where e: "exchange 0xFF True d = (0xFF, take_byte 0xFF e)" "like e d" "resp e = []" "sd_st e = Resync"
    using listen [OF d(3)] d(4) by metis
  have "take_byte 0xFF e = e" using e(4) by (simp add: take_byte_def)
  then have "exchanges ([0xFF] @ [0xFF]) c = ([0x0B] @ [0xFF], e)"
    using e(1) by (intro exchanges_then [OF d(1)] exchanges_one) simp
  then show ?thesis using True e like_trans [OF e(2) d(2)] by auto
next
  case False
  then show ?thesis using drain [of c "[0x05, 0x3F]" "[]" "[0xFF, 0xFF]"] assms by auto
qed

text \<open>A block write as a host clocks it: the command, its answer, filler, the token, the block, its CRC, the response.\<close>

definition write_frame :: "int \<Rightarrow> byte \<Rightarrow> byte list \<Rightarrow> byte list \<Rightarrow> byte list" where
  "write_frame arg crc gap data =
     cmd_frame 24 arg crc @ [0xFF, 0xFF] @ gap @ [0xFE] @ data @ [0xFF, 0xFF] @ [0xFF, 0xFF]"

lemma replicate_gaps: "replicate (n + 1) x @ replicate (m + 1) x @ [x] = replicate (n + m + 3) x"
proof -
  have "[x] = replicate 1 x" by simp
  then show ?thesis by (simp only: replicate_add [symmetric]) (simp add: numeral_3_eq_3)
qed

text \<open>Its beginning, up to the token: then the card takes the block's bytes.\<close>

definition write_start :: "int \<Rightarrow> byte \<Rightarrow> byte list \<Rightarrow> byte list" where
  "write_start arg crc gap = cmd_frame 24 arg crc @ [0xFF, 0xFF] @ gap @ [0xFE]"

lemma write_started:
  assumes "listening c" "24 \<notin> set (mute_cmds (cfg c))" "0 \<le> arg" "arg < 2 ^ 32" "0xFE \<notin> set gap"
  shows "\<exists>d. exchanges (write_start arg crc gap) c = (replicate 6 0xFF @ [0xFF, 0x00] @ replicate (length gap + 1) 0xFF, d) \<and>
    like d (c\<lparr>sd_lba := target arg c\<rparr>) \<and> resp d = [] \<and> sd_st d = Data \<and> sd_buf d = []"
proof -
  obtain d where d: "exchanges (cmd_frame 24 arg crc) c = (replicate 6 0xFF, command 24 arg d)" "like d c" "resp d = []"
    using send_frame [of c 24 arg crc] assms(1,3,4) by (auto simp: listening_def)
  note w = write_command [OF d(2,3) assms(2), of arg]
  obtain e where e: "exchanges [0xFF, 0xFF] (command 24 arg d) = ([0xFF, 0x00], e)" "like e (command 24 arg d)" "resp e = []"
    "sd_st e = WaitToken"
    using drain [of "command 24 arg d" "[0xFF, 0x00]" "[]" "[0xFF, 0xFF]"] w by auto
  obtain f where f: "exchanges gap e = (replicate (length gap) 0xFF, f)" "like f e" "resp f = []" "sd_st f = WaitToken"
    using wait_bytes [OF e(3,4) assms(5)] by blast
  obtain g where g: "exchange 0xFE True f = (0xFF, take_byte 0xFE g)" "like g f" "resp g = []" "sd_st g = WaitToken"
    using listen [OF f(3)] f(4) by metis
  let ?g = "g\<lparr>sd_st := Data, sd_buf := []\<rparr>"
  have tg: "take_byte 0xFE g = ?g" using g(4) by (simp add: take_byte_def)
  have "exchanges (write_start arg crc gap) c = (replicate 6 0xFF @ [0xFF, 0x00] @ replicate (length gap) 0xFF @ [0xFF], ?g)"
    unfolding write_start_def
    by (intro exchanges_then [OF d(1)] exchanges_then [OF e(1)] exchanges_then [OF f(1)] exchanges_one [OF g(1) [unfolded tg]])
  moreover have "like ?g (c\<lparr>sd_lba := target arg c\<rparr>)" using g(2) f(2) e(2) w(2) by (simp add: like_def)
  ultimately show ?thesis using g(3) by (intro exI [of _ ?g]) (simp add: replicate_append_same)
qed

text \<open>The whole block: stored, or rejected.\<close>

lemma block_sent:
  assumes "listening c" "24 \<notin> set (mute_cmds (cfg c))" "0 \<le> arg" "arg < 2 ^ 32" "0xFE \<notin> set gap" "length data = SECTOR"
  shows "\<exists>d. exchanges (write_frame arg crc gap data) c =
      (replicate 6 0xFF @ [0xFF, 0x00] @ replicate (length gap + SECTOR + 3) 0xFF @
        (if write_reject (cfg c) then [0x0B, 0xFF] else [0x05, 0x3F]), d) \<and>
    resp d = [] \<and> sd_st d = Resync \<and> cfg d = cfg c \<and> ready d = ready c \<and>
    sectors d = (if write_reject (cfg c) then sectors c else (sectors c)(target arg c \<mapsto> data))"
proof -
  obtain g where g: "exchanges (write_start arg crc gap) c = (replicate 6 0xFF @ [0xFF, 0x00] @ replicate (length gap + 1) 0xFF, g)"
    "like g (c\<lparr>sd_lba := target arg c\<rparr>)" "resp g = []" "sd_st g = Data" "sd_buf g = []"
    using write_started [OF assms(1-5)] by blast
  obtain h where h: "exchanges (data @ [0xFF]) g = (replicate (SECTOR + 1) 0xFF, h)" "like h g" "resp h = []" "sd_st h = Data"
    "sd_buf h = data @ [0xFF]"
    using data_bytes [of g "data @ [0xFF]"] g(3-5) assms(6) by auto
  have k: "like h (c\<lparr>sd_lba := target arg c\<rparr>)" using h(2) g(2) by (simp add: like_def)
  obtain i where i: "exchange 0xFF True h = (0xFF, i)" "sd_st i = Resync" "cfg i = cfg c" "ready i = ready c"
    "resp i = (if write_reject (cfg c) then [0x0B] else [0x05, 0x3F])"
    "sectors i = (if write_reject (cfg c) then sectors c else (sectors c)(target arg c \<mapsto> data))"
    using last_byte [OF h(3-5) assms(6), of "0xFF"] k by (auto simp: like_def)
  obtain j where j: "exchanges [0xFF, 0xFF] i = (if write_reject (cfg c) then [0x0B, 0xFF] else [0x05, 0x3F], j)" "like j i" "resp j = []"
    "sd_st j = Resync"
    using write_answered [of i] i(2,3,5) by auto
  have parts: "write_frame arg crc gap data = write_start arg crc gap @ (data @ [0xFF]) @ [0xFF] @ [0xFF, 0xFF]"
    by (simp add: write_frame_def write_start_def)
  have "exchanges (write_frame arg crc gap data) c =
      ((replicate 6 0xFF @ [0xFF, 0x00] @ replicate (length gap + 1) 0xFF) @ replicate (SECTOR + 1) 0xFF @ [0xFF] @
        (if write_reject (cfg c) then [0x0B, 0xFF] else [0x05, 0x3F]), j)"
    unfolding parts
    by (intro exchanges_then [OF g(1)] exchanges_then [OF h(1)] exchanges_then [OF exchanges_one [OF i(1)]] j(1))
  then show ?thesis using i(3,4,6) j(2-4) unfolding replicate_gaps [symmetric] by (intro exI [of _ j]) (simp add: like_def)
qed

lemma write_block:
  assumes "listening c" "24 \<notin> set (mute_cmds (cfg c))" "\<not> write_reject (cfg c)" "0 \<le> arg" "arg < 2 ^ 32"
    "0xFE \<notin> set gap" "length data = SECTOR"
  shows "\<exists>d. exchanges (write_frame arg crc gap data) c =
      (replicate 6 0xFF @ [0xFF, 0x00] @ replicate (length gap + SECTOR + 3) 0xFF @ [0x05, 0x3F], d) \<and>
    resp d = [] \<and> sd_st d = Resync \<and> cfg d = cfg c \<and> sectors d = (sectors c)(target arg c \<mapsto> data)"
  using block_sent [OF assms(1,2,4-7), of crc] assms(3) by auto

text \<open>
  C13: what is written is read back. On a card that listens, has no fault for these commands and is
  addressed in range, a block written the way the protocol asks (with any filler before the token) is
  accepted with \<open>05 3F\<close>; after CS has gone high, reading the same address gives those 512 bytes after
  \<open>FF 00 FF FE\<close>, with the CRC \<open>12 34\<close>, every other block is unchanged, and the card listens again.
\<close>

theorem write_then_read:
  assumes "listening c" "blocks_inv c" "24 \<notin> set (mute_cmds (cfg c))" "17 \<notin> set (mute_cmds (cfg c))"
    "\<not> write_reject (cfg c)" "\<not> read_error (cfg c)" "target arg c \<notin> set (bad_sectors (cfg c))" "0 \<le> arg" "arg < 2 ^ 32"
    "0xFE \<notin> set gap" "length data = SECTOR" "length dummy = SECTOR + 6"
  shows "\<exists>w d. exchanges (write_frame arg crc gap data) c =
      (replicate 6 0xFF @ [0xFF, 0x00] @ replicate (length gap + SECTOR + 3) 0xFF @ [0x05, 0x3F], w) \<and>
    exchanges (cmd_frame 17 arg crc @ dummy) (set_cs True (set_cs False w)) =
      (replicate 6 0xFF @ [0xFF, 0x00, 0xFF, 0xFE] @ data @ [0x12, 0x34], d) \<and>
    (\<forall>l. l \<noteq> target arg c \<longrightarrow> get_sector l d = get_sector l c) \<and> listening d"
proof -
  obtain w where w: "exchanges (write_frame arg crc gap data) c =
      (replicate 6 0xFF @ [0xFF, 0x00] @ replicate (length gap + SECTOR + 3) 0xFF @ [0x05, 0x3F], w)"
    "resp w = []" "cfg w = cfg c" "sectors w = (sectors c)(target arg c \<mapsto> data)"
    using write_block [OF assms(1,3,5,8,9,10,11)] by blast
  let ?w = "set_cs True (set_cs False w)"
  have s: "listening ?w" "cfg ?w = cfg c" "sectors ?w = (sectors c)(target arg c \<mapsto> data)"
    using w by (simp_all add: set_cs_def listening_def)
  have t: "target arg ?w = target arg c" using s(2) by (simp add: target_def addr_lba_def)
  have inv: "blocks_inv ?w" using assms(2,11) s(3) by (simp add: blocks_inv_def)
  have "get_sector (target arg ?w) ?w = data" using s(3) t by (simp add: get_sector_def)
  then obtain d where d: "exchanges (cmd_frame 17 arg crc @ dummy) ?w =
      (replicate 6 0xFF @ [0xFF, 0x00, 0xFF, 0xFE] @ data @ [0x12, 0x34], d)" "like d ?w" "listening d"
    using read_block [OF s(1), of arg dummy crc] assms s(2) t inv by auto
  have "get_sector l d = get_sector l c" if "l \<noteq> target arg c" for l
    using that sector_like [OF d(2)] s(3) by (simp add: get_sector_def)
  with w(1) d(1,3) show ?thesis by blast
qed

theorem write_then_read_witness:
  "\<exists>w d. exchanges (write_frame 7 0xFF [0xFF] (replicate SECTOR 0xA5))
      (sd_new \<lparr>sdhc = True, strict = True, mute_cmds = [], never_ready = False, read_error = False, bad_sectors = [],
         write_reject = False\<rparr>) =
      (replicate 6 0xFF @ [0xFF, 0x00] @ replicate (1 + SECTOR + 3) 0xFF @ [0x05, 0x3F], w) \<and>
    exchanges (cmd_frame 17 7 0xFF @ replicate (SECTOR + 6) 0xFF) (set_cs True (set_cs False w)) =
      (replicate 6 0xFF @ [0xFF, 0x00, 0xFF, 0xFE] @ replicate SECTOR 0xA5 @ [0x12, 0x34], d) \<and> listening d"
proof -
  let ?c = "sd_new \<lparr>sdhc = True, strict = True, mute_cmds = [], never_ready = False, read_error = False, bad_sectors = [],
         write_reject = False\<rparr>"
  have "listening ?c" "blocks_inv ?c" by (simp_all add: sd_new_def listening_def blocks_inv_def)
  from write_then_read [OF this, of 7 "[0xFF]" "replicate SECTOR 0xA5" "replicate (SECTOR + 6) 0xFF" "0xFF"]
  show ?thesis by (auto simp: sd_new_def)
qed

section \<open>Error answers\<close>

text \<open>Bytes that start no command.\<close>

lemma idle_bytes:
  "listening c \<Longrightarrow> list_all (\<lambda>m. m AND 0xC0 \<noteq> 0x40) ms \<Longrightarrow>
   \<exists>d. exchanges ms c = (replicate (length ms) 0xFF, d) \<and> like d c \<and> listening d \<and> commands d = commands c"
proof (induction ms arbitrary: c)
  case Nil
  then show ?case by (simp add: like_def)
next
  case (Cons m ms)
  obtain d where d: "exchange m True c = (0xFF, take_byte m d)" "like d c" "resp d = []" "sd_st d = sd_st c" "commands d = commands c"
    using listen [of c m] Cons.prems by (auto simp: listening_def)
  have e: "take_byte m d = d" using d Cons.prems by (simp add: take_byte_def listening_def)
  from Cons.IH [of d] Cons.prems d e show ?case by (auto simp: like_def listening_def)
qed

lemma muted_frame:
  assumes "listening c" "0 \<le> cmd" "cmd < 64" "0 \<le> arg" "arg < 2 ^ 32" "cmd \<in> set (mute_cmds (cfg c))"
    "list_all (\<lambda>m. m AND 0xC0 \<noteq> 0x40) ms"
  shows "\<exists>d. exchanges (cmd_frame cmd arg crc @ ms) c = (replicate (6 + length ms) 0xFF, d) \<and> like d c \<and> listening d \<and>
    commands d = commands c @ [(cmd, arg)]"
proof -
  obtain d where d: "exchanges (cmd_frame cmd arg crc) c = (replicate 6 0xFF, command cmd arg d)" "like d c" "resp d = []" "sd_st d = Idle"
    "commands d = commands c"
    using send_frame [of c cmd arg crc] assms(1-5) by (auto simp: listening_def)
  let ?e = "log_command cmd arg d"
  have e: "command cmd arg d = ?e" using assms(6) d(2) by (simp add: command_def Let_def like_def)
  have l: "listening ?e" "commands ?e = commands c @ [(cmd, arg)]" "like ?e c"
    using d log_like [of cmd arg d] like_trans [OF log_like(1) d(2)] by (simp_all add: listening_def log_command_def Let_def)
  obtain f where f: "exchanges ms ?e = (replicate (length ms) 0xFF, f)" "like f ?e" "listening f" "commands f = commands ?e"
    using idle_bytes [OF l(1) assms(7)] by blast
  have "exchanges (cmd_frame cmd arg crc @ ms) c = (replicate 6 0xFF @ replicate (length ms) 0xFF, f)"
    by (rule exchanges_then [OF d(1)]) (simp add: e f(1))
  then show ?thesis using f(3,4) l(2) like_trans [OF f(2) l(3)] by (intro exI [of _ f]) (simp add: replicate_add)
qed

lemma failed_read:
  assumes "listening c" "0 \<le> arg" "arg < 2 ^ 32" "17 \<notin> set (mute_cmds (cfg c))"
    "read_error (cfg c) \<or> target arg c \<in> set (bad_sectors (cfg c))" "length ms = 4"
  shows "\<exists>d. exchanges (cmd_frame 17 arg crc @ ms) c = (replicate 6 0xFF @ [0xFF, 0x00, 0xFF, 0x08], d) \<and> like d c \<and> listening d"
proof -
  obtain d where d: "exchanges (cmd_frame 17 arg crc) c = (replicate 6 0xFF, command 17 arg d)" "like d c" "resp d = []" "sd_st d = Idle"
    using send_frame [of c 17 arg crc] assms(1-3) by (auto simp: listening_def)
  let ?e = "log_command 17 arg d"
  have e: "like ?e c" "resp ?e = []" "sd_st ?e = Idle" using log_like d(2-4) like_trans by metis+
  have "command 17 arg d = answer 17 arg ?e" using d(2) assms(4) by (simp add: command_unmuted like_def)
  moreover have "answer 17 arg ?e = add_resp [0xFF, 0x00, 0xFF, 0x08] (snd (addr_lba 17 arg ?e))"
    using assms(5) e(1) target_like [OF e(1), of 17 arg] by (simp add: answer_def Let_def split_def like_def)
  ultimately have r: "resp (command 17 arg d) = [0xFF, 0x00, 0xFF, 0x08]" "like (command 17 arg d) c" "sd_st (command 17 arg d) = Idle"
    using e by (simp_all add: add_resp_def like_def)
  obtain f where f: "exchanges ms (command 17 arg d) = ([0xFF, 0x00, 0xFF, 0x08], f)" "like f (command 17 arg d)" "resp f = []" "sd_st f = Idle"
    using drain [of "command 17 arg d" "[0xFF, 0x00, 0xFF, 0x08]" "[]" ms] r(1,3) assms(6) by auto
  show ?thesis using exchanges_then [OF d(1) f(1)] f(3,4) like_trans [OF f(2) r(2)] by (auto simp: listening_def)
qed

lemma partial_block:
  assumes "listening c" "24 \<notin> set (mute_cmds (cfg c))" "0 \<le> arg" "arg < 2 ^ 32" "0xFE \<notin> set gap" "length part < SECTOR + 2"
  shows "\<exists>d. exchanges (write_start arg crc gap @ part) c =
      (replicate 6 0xFF @ [0xFF, 0x00] @ replicate (length gap + 1 + length part) 0xFF, d) \<and>
    sectors d = sectors c \<and> cfg d = cfg c \<and> ready d = ready c \<and> resp d = []"
proof -
  obtain g where g: "exchanges (write_start arg crc gap) c = (replicate 6 0xFF @ [0xFF, 0x00] @ replicate (length gap + 1) 0xFF, g)"
    "like g (c\<lparr>sd_lba := target arg c\<rparr>)" "resp g = []" "sd_st g = Data" "sd_buf g = []"
    using write_started [OF assms(1-5)] by blast
  obtain h where h: "exchanges part g = (replicate (length part) 0xFF, h)" "like h g" "resp h = []"
    using data_bytes [of g part] g(3-5) assms(6) by auto
  have "exchanges (write_start arg crc gap @ part) c =
      ((replicate 6 0xFF @ [0xFF, 0x00] @ replicate (length gap + 1) 0xFF) @ replicate (length part) 0xFF, h)"
    by (rule exchanges_then [OF g(1) h(1)])
  then show ?thesis using h(2,3) g(2) by (intro exI [of _ h]) (simp add: like_def flip: replicate_add)
qed

text \<open>
  C14: the faults, over the bus. On a card that listens: a muted command is logged and does nothing else - the host
  reads \<open>FF\<close>s while it sends bytes that start no command, the blocks are as they were and the card listens, so that a
  muted write takes no block; a read with \<open>read_error\<close> or of a bad sector answers \<open>FF 00 FF 08\<close> and no data, changes
  nothing and leaves the card listening; a block sent to a card that rejects writes is answered with \<open>0B\<close> and stored
  nowhere; and a write of which fewer than the block's 514 bytes were sent when CS goes high stores nothing, whatever
  the bytes were. In both cases the card listens again as soon as CS has gone high.
\<close>

theorem sd_faults:
  assumes "listening c" "0 \<le> arg" "arg < 2 ^ 32"
  shows "(0 \<le> cmd \<and> cmd < 64 \<and> cmd \<in> set (mute_cmds (cfg c)) \<and> list_all (\<lambda>m. m AND 0xC0 \<noteq> 0x40) ms \<longrightarrow>
      (\<exists>d. exchanges (cmd_frame cmd arg crc @ ms) c = (replicate (6 + length ms) 0xFF, d) \<and> like d c \<and> listening d \<and>
        commands d = commands c @ [(cmd, arg)])) \<and>
    (17 \<notin> set (mute_cmds (cfg c)) \<and> (read_error (cfg c) \<or> target arg c \<in> set (bad_sectors (cfg c))) \<and> length ms = 4 \<longrightarrow>
      (\<exists>d. exchanges (cmd_frame 17 arg crc @ ms) c = (replicate 6 0xFF @ [0xFF, 0x00, 0xFF, 0x08], d) \<and> like d c \<and> listening d)) \<and>
    (24 \<notin> set (mute_cmds (cfg c)) \<and> 0xFE \<notin> set gap \<and> write_reject (cfg c) \<and> length data = SECTOR \<longrightarrow>
      (\<exists>d. exchanges (write_frame arg crc gap data) c =
          (replicate 6 0xFF @ [0xFF, 0x00] @ replicate (length gap + SECTOR + 3) 0xFF @ [0x0B, 0xFF], d) \<and>
        sectors (set_cs False d) = sectors c \<and> cfg d = cfg c \<and> ready d = ready c \<and> listening (set_cs False d))) \<and>
    (24 \<notin> set (mute_cmds (cfg c)) \<and> 0xFE \<notin> set gap \<and> length part < SECTOR + 2 \<longrightarrow>
      (\<exists>d. exchanges (write_start arg crc gap @ part) c =
          (replicate 6 0xFF @ [0xFF, 0x00] @ replicate (length gap + 1 + length part) 0xFF, d) \<and>
        sectors (set_cs False d) = sectors c \<and> cfg d = cfg c \<and> ready d = ready c \<and> listening (set_cs False d)))"
proof (intro conjI impI, goal_cases)
  case 1
  then show ?case using muted_frame [OF assms(1) _ _ assms(2,3)] by blast
next
  case 2
  then show ?case using failed_read [OF assms] by blast
next
  case 3
  then obtain d where "exchanges (write_frame arg crc gap data) c =
      (replicate 6 0xFF @ [0xFF, 0x00] @ replicate (length gap + SECTOR + 3) 0xFF @ [0x0B, 0xFF], d)"
    "resp d = []" "cfg d = cfg c" "ready d = ready c" "sectors d = sectors c"
    using block_sent [OF assms(1) _ assms(2,3), of gap data crc] by auto
  then show ?case by (intro exI [of _ d]) (simp add: set_cs_def listening_def)
next
  case 4
  then obtain d where "exchanges (write_start arg crc gap @ part) c =
      (replicate 6 0xFF @ [0xFF, 0x00] @ replicate (length gap + 1 + length part) 0xFF, d)"
    "sectors d = sectors c" "cfg d = cfg c" "ready d = ready c" "resp d = []"
    using partial_block [OF assms(1) _ assms(2,3), of gap part crc] by blast
  then show ?case by (intro exI [of _ d]) (simp add: set_cs_def listening_def)
qed

definition faulty_card :: sdcard where
  "faulty_card = sd_new \<lparr>sdhc = True, strict = False, mute_cmds = [8], never_ready = False, read_error = False,
     bad_sectors = [0x1000], write_reject = True\<rparr>"

theorem sd_faults_witness:
  "\<exists>d e f. exchanges (cmd_frame 17 0x200000 0xFF @ [0xFF, 0xFF, 0xFF, 0xFF]) faulty_card = (replicate 6 0xFF @ [0xFF, 0x00, 0xFF, 0x08], d) \<and>
    exchanges (cmd_frame 8 0x200000 0xFF @ [0xFF, 0xFF, 0xFF, 0xFF]) faulty_card = (replicate 10 0xFF, e) \<and> commands e = [(8, 0x200000)] \<and>
    exchanges (write_frame 0x200000 0xFF [] (replicate SECTOR 0xA5)) faulty_card =
      (replicate 6 0xFF @ [0xFF, 0x00] @ replicate (SECTOR + 3) 0xFF @ [0x0B, 0xFF], f) \<and> sectors (set_cs False f) = Map.empty"
proof -
  have f: "listening faulty_card" "target 0x200000 faulty_card = 0x1000" "commands faulty_card = []" "sectors faulty_card = Map.empty"
    "mute_cmds (cfg faulty_card) = [8]" "bad_sectors (cfg faulty_card) = [0x1000]" "write_reject (cfg faulty_card)"
    by (simp_all add: listening_def target_def addr_lba_def faulty_card_def sd_new_def)
  show ?thesis
    using sd_faults [OF f(1), of "0x200000" 8 "[0xFF, 0xFF, 0xFF, 0xFF]" "0xFF" "[]" "replicate SECTOR 0xA5" "[]"]
    by (simp add: f) blast
qed

section \<open>Addressing\<close>

text \<open>
  Which block an argument addresses. A strict SDHC card takes block numbers and a strict SDSC card
  byte addresses, reporting exactly those that are no multiple of 512. A card that is not strict takes
  arguments below \<open>0x10000\<close> as block numbers and others as byte addresses, whatever its type: a byte address of one of
  the first 128 blocks of an SDSC card is taken as a block number there.
\<close>

theorem addressing:
  "addr_lba cmd arg c =
    (if strict (cfg c) then
       (if sdhc (cfg c) then (arg, c)
        else if arg mod 512 = 0 then (arg div 512, c)
        else (arg div 512, c\<lparr>violations := violations c @ [Unaligned cmd arg]\<rparr>))
     else if arg < 0x10000 then (arg, c) else (arg div 512, c))"
  by (simp add: addr_lba_def SECTOR_def drop_bit_eq_div)

end
