(* ===== verification/Card_Setup.thy ===== *)
theory Card_Setup
  imports Sd_Card
begin

text \<open>
  The cards of the test benches: \<^verbatim>\<open>src/sim/integration/soc_env.py\<close> gives the SD model the sectors of a FAT32 image and
  wraps payloads in v4 files, \<^verbatim>\<open>src/sim/emu/vux9k.py\<close> makes one raw image for the emulator from the same sectors.

  A dictionary of sectors is a list of pairs of a block number and the block. The repository's root and the files that
  the build leaves there are parameters (a string and a \<open>file_system\<close>). The theorems show that both benches
  present the card that the image describes, down to the bytes on the SPI bus.
\<close>

section \<open>Files and sectors\<close>

definition soc_mbr_sector :: "byte list" where
  "soc_mbr_sector = (replicate 512 0)[510 := 0x55, 511 := 0xAA]"

definition SOC_STAGE2_BASE :: int where "SOC_STAGE2_BASE = 0x80700000"

text \<open>\<open>load\<close> is \<open>None\<close> when the call has no \<open>load_addr\<close> argument.\<close>

definition v4_file ::
  "byte list \<Rightarrow> int \<Rightarrow> string \<Rightarrow> int option option \<Rightarrow> int option \<Rightarrow> int option \<Rightarrow> int option \<Rightarrow> byte list result" where
  "v4_file payload version mode load entry crc_override magic_override =
     rmap fst (build_vux9_v4_image (\<lambda>_. None) (Bytes payload) ''test'' mode version
       (case load of None \<Rightarrow> Some SOC_STAGE2_BASE | Some l \<Rightarrow> l) entry crc_override magic_override)"

definition v4_size :: "byte list \<Rightarrow> int result" where
  "v4_size data = (case header_parse data of None \<Rightarrow> Inl AssertionError | Some h \<Rightarrow> Inr (hd_size h))"

definition read_file :: "file_system \<Rightarrow> string \<Rightarrow> byte list result" where
  "read_file fs path = (case fs path of None \<Rightarrow> Inl FileNotFoundError | Some d \<Rightarrow> Inr d)"

definition stage2_file :: "file_system \<Rightarrow> string \<Rightarrow> int \<Rightarrow> byte list result" where
  "stage2_file fs root version =
     rbind (read_file fs (root @ ''/build/firmware/stage2/stage2.bin'')) (\<lambda>d. v4_file d version ''riscv'' None None None None)"

text \<open>The sectors of an image that are not all zero.\<close>

definition sector_of :: "nat \<Rightarrow> byte list \<Rightarrow> byte list" where
  "sector_of lba img = slice (lba * 512) ((lba + 1) * 512) img"

definition image_sectors :: "byte list \<Rightarrow> (nat \<times> byte list) list" where
  "image_sectors img =
     filter (\<lambda>(_, s). list_ex (\<lambda>b. b \<noteq> 0) s) (map (\<lambda>lba. (lba, sector_of lba img)) [0..<length img div 512])"

definition fat_sectors :: "(string \<times> byte list) list \<Rightarrow> (nat \<times> byte list) list result" where
  "fat_sectors files = rmap image_sectors (build_fat32_image files 8192 1 ''VUX9K'')"

fun s2_files :: "file_system \<Rightarrow> (string \<times> string) list \<Rightarrow> (string \<times> byte list) list \<Rightarrow> (string \<times> byte list) list result" where
  "s2_files fs [] files = Inr files"
| "s2_files fs ((dest, path) # ps) files =
     (case fs path of None \<Rightarrow> Inl AssertionError | Some d \<Rightarrow> s2_files fs ps (dict_set dest d files))"

definition s2_card :: "file_system \<Rightarrow> string \<Rightarrow> string list \<Rightarrow> (nat \<times> byte list) list result" where
  "s2_card fs root apps =
     rbind (s2_files fs
       ((''VUX9K/STAGE2.BIN'', root @ ''/build/firmware/stage2/STAGE2.BIN'') #
        map (\<lambda>a. (''VUX9K/APPS/'' @ a, root @ ''/build/firmware/apps/'' @ a)) apps) []) fat_sectors"

text \<open>The blocks that \<open>start_soc\<close> preloads into the SD model.\<close>

definition preload_card :: "bool \<Rightarrow> (nat \<times> byte list) list \<Rightarrow> sdcard \<Rightarrow> sdcard" where
  "preload_card mbr sds c =
     fold (\<lambda>(lba, data) c. set_sector (int lba) data c) sds (if mbr then set_sector 0 soc_mbr_sector c else c)"

text \<open>The emulator's raw image.\<close>

definition sd_image :: "(nat \<times> byte list) list \<Rightarrow> bool \<Rightarrow> byte list" where
  "sd_image sds mbr =
     (let sds = fold (\<lambda>(lba, data) d. dict_set lba data d) sds (if mbr then [(0, soc_mbr_sector)] else [])
      in if sds = [] then []
         else fold (\<lambda>(lba, data) img. put_at (lba * 512) (take 512 data) img) sds
           (replicate (512 * (Max (set (map fst sds)) + 1)) 0))"

section \<open>v4 files\<close>

lemma stored_riscv [simp]: "stored_payload ''riscv'' p = p"
  by (simp add: stored_payload_def)

text \<open>What \<open>v4_file\<close> returns without overrides.\<close>

lemma v4_file_eq:
  "v4_file payload version mode load entry None None =
     (let h = v4_header payload ''test'' mode version (case load of None \<Rightarrow> Some SOC_STAGE2_BASE | Some l \<Rightarrow> l) entry
      in if header_ok h then Inr (header_bytes h @ stored_payload mode payload) else Inl StructError)"
proof -
  have "read_payload (\<lambda>_. None) (Bytes payload) = Inr (payload, None)" by (simp add: read_payload_def)
  then show ?thesis by (simp add: v4_file_def build_eq or_else_def Let_def)
qed

section \<open>Sectors\<close>

lemma image_sectors_keys: "distinct (map fst (image_sectors img))"
proof -
  have "map fst (image_sectors img) = filter (\<lambda>l. list_ex (\<lambda>b. b \<noteq> 0) (sector_of l img)) [0..<length img div 512]"
    by (simp add: image_sectors_def filter_map comp_def)
  then show ?thesis by simp
qed

lemma map_of_image_sectors:
  "map_of (image_sectors img) l =
     (if l < length img div 512 \<and> list_ex (\<lambda>b. b \<noteq> 0) (sector_of l img) then Some (sector_of l img) else None)"
proof (cases "l < length img div 512 \<and> list_ex (\<lambda>b. b \<noteq> 0) (sector_of l img)")
  case True
  then have "(l, sector_of l img) \<in> set (image_sectors img)" by (auto simp: image_sectors_def)
  then show ?thesis using True image_sectors_keys by simp
next
  case False
  then have "l \<notin> fst ` set (image_sectors img)" by (auto simp: image_sectors_def)
  then show ?thesis using False by (auto simp: map_of_eq_None_iff)
qed

lemma sector_zero: "l < length img div 512 \<Longrightarrow> \<not> list_ex (\<lambda>b. b \<noteq> 0) (sector_of l img) \<Longrightarrow> sector_of l img = replicate 512 0"
proof -
  assume l: "l < length img div 512" and z: "\<not> list_ex (\<lambda>b. b \<noteq> 0) (sector_of l img)"
  have "length (sector_of l img) = 512" using l by (simp add: sector_of_def)
  then show ?thesis using z by (intro replicate_eqI) (auto simp: list_ex_iff)
qed

lemma length_sector_of: "l < length img div 512 \<Longrightarrow> length (sector_of l img) = 512"
  by (simp add: sector_of_def)

text \<open>Preloading stores each block under its number.\<close>

lemma preload_blocks:
  "blocks_inv c \<Longrightarrow> distinct (map fst sds) \<Longrightarrow>
   blocks_inv (fold (\<lambda>(lba, data) c. set_sector (int lba) data c) sds c) \<and>
   get_sector (int l) (fold (\<lambda>(lba, data) c. set_sector (int lba) data c) sds c) =
     (case map_of sds l of None \<Rightarrow> get_sector (int l) c | Some d \<Rightarrow> ljust SECTOR 0 (take SECTOR d))"
proof (induction sds arbitrary: c)
  case (Cons e sds)
  obtain k d where e: "e = (k, d)" by force
  have "map_of sds k = None" using Cons.prems(2) by (auto simp: e map_of_eq_None_iff)
  then show ?case
    using Cons.IH [of "set_sector (int k) d c"] Cons.prems card.set_inv card.get_set by (auto simp: e split: option.splits)
qed simp

lemma preload_inv:
  "blocks_inv c \<Longrightarrow> distinct (map fst sds) \<Longrightarrow> blocks_inv (preload_card mbr sds c) \<and>
   get_sector (int l) (preload_card mbr sds c) =
     (case map_of sds l of None \<Rightarrow> get_sector (int l) (if mbr then set_sector 0 soc_mbr_sector c else c)
      | Some d \<Rightarrow> ljust SECTOR 0 (take SECTOR d))"
  using preload_blocks [of "if mbr then set_sector 0 soc_mbr_sector c else c" sds l] card.set_inv
  by (auto simp: preload_card_def)

text \<open>The emulator's image has the same blocks.\<close>

lemma sector_put:
  "length d = 512 \<Longrightarrow> (k + 1) * 512 \<le> length xs \<Longrightarrow> sector_of l (put_at (k * 512) d xs) = (if l = k then d else sector_of l xs)"
proof -
  assume d: "length d = 512" and k: "(k + 1) * 512 \<le> length xs"
  consider "l = k" | "l < k" | "k < l" by linarith
  then show ?thesis
  proof cases
    case 1
    then show ?thesis using d k by (simp add: sector_of_def slice_put_here)
  next
    case 2
    then have "(l + 1) * 512 \<le> k * 512" by simp
    then show ?thesis using 2 k by (simp add: sector_of_def slice_put_below)
  next
    case 3
    then have "k * 512 + length d \<le> l * 512" using d by simp
    then show ?thesis using 3 d k by (simp add: sector_of_def slice_put_above)
  qed
qed

lemma put_blocks:
  assumes "list_all (\<lambda>(k, d). length d = 512 \<and> (k + 1) * 512 \<le> length xs) sds" "distinct (map fst sds)"
  shows "length (fold (\<lambda>(lba, data) img. put_at (lba * 512) (take 512 data) img) sds xs) = length xs \<and>
    sector_of l (fold (\<lambda>(lba, data) img. put_at (lba * 512) (take 512 data) img) sds xs) =
      (case map_of sds l of None \<Rightarrow> sector_of l xs | Some d \<Rightarrow> d)"
  using assms
proof (induction sds arbitrary: xs)
  case (Cons e sds)
  obtain k d where e: "e = (k, d)" by force
  have k: "length d = 512" "(k + 1) * 512 \<le> length xs" using Cons.prems(1) by (simp_all add: e)
  have len: "length (put_at (k * 512) d xs) = length xs" using k by simp
  have "map_of sds k = None" using Cons.prems(2) by (auto simp: e map_of_eq_None_iff)
  then show ?case
    using Cons.IH [of "put_at (k * 512) d xs"] Cons.prems k len sector_put [OF k, of l] by (auto simp: e split: option.splits)
qed simp

lemma eq_by_sectors:
  assumes "length xs = n * 512" "length ys = n * 512" "\<And>l. l < n \<Longrightarrow> sector_of l xs = sector_of l ys"
  shows "xs = ys"
proof (rule nth_equalityI)
  show "length xs = length ys" using assms(1,2) by simp
  fix i
  assume i: "i < length xs"
  then have n: "i div 512 < n" using assms(1) by (simp add: less_mult_imp_div_less)
  have b: "i div 512 * 512 \<le> length xs" "i div 512 * 512 \<le> length ys" using i assms(1,2) by (simp_all add: le_trans [OF div_times_less_eq_dividend])
  have "zs ! i = sector_of (i div 512) zs ! (i mod 512)" if "length zs = n * 512" for zs :: "byte list"
  proof -
    have "i div 512 * 512 + 512 \<le> length zs" using n that by (simp add: Suc_leI [THEN mult_le_mono1, of "i div 512" n 512])
    then show ?thesis by (simp add: sector_of_def slice_def)
  qed
  then show "xs ! i = ys ! i" using assms n by metis
qed

lemma sector_take: "(l + 1) * 512 \<le> n \<Longrightarrow> sector_of l (take n xs) = sector_of l xs"
  by (simp add: sector_of_def slice_def drop_take min_def)

lemma dict_union_disjoint:
  "distinct (map fst sds) \<Longrightarrow> set (map fst sds) \<inter> set (map fst d) = {} \<Longrightarrow> fold (\<lambda>(k, v) d. dict_set k v d) sds d = d @ sds"
proof (induction sds arbitrary: d)
  case (Cons e sds)
  obtain k v where e: "e = (k, v)" by force
  have "dict_set k v d' = d' @ [(k, v)]" if "k \<notin> set (map fst d')" for d'
    using that by (induction d') auto
  then show ?case using Cons.IH [of "d @ [(k, v)]"] Cons.prems by (auto simp: e)
qed simp

lemma dict_union_first:
  assumes "distinct (map fst ((k, v) # sds))"
  shows "fold (\<lambda>(k, v) d. dict_set k v d) ((k, v) # sds) [(k, w)] = (k, v) # sds"
  using dict_union_disjoint [of sds "[(k, v)]"] assms by simp

section \<open>Both benches show the image\<close>

lemma image_first:
  assumes "build_fat32_image files ps cs label = Inr img"
  shows "list_ex (\<lambda>b. b \<noteq> 0) (sector_of 0 img)"
proof -
  obtain mbr rest where m: "mbr_sector ps = Inr mbr" "img = mbr @ rest"
    using assms by (auto simp: build_fat32_image_def Let_def rmap_eq_Inr split: if_splits prod.splits)
  obtain lba where l: "pack_fields [(4, int FAT_PART_LBA), (4, ps)] = Inr lba" "mbr = put_at 510 [0x55, 0xAA]
       (put_at 446 ([0] @ pack_s 3 [0xFE, 0xFF, 0xFF] @ [0x0C] @ pack_s 3 [0xFE, 0xFF, 0xFF] @ lba) (replicate VUX_SECTOR 0))"
    using m(1) by (auto simp: mbr_sector_def)
  have len: "510 \<le> length (put_at 446 xs (replicate VUX_SECTOR (0 :: byte)))" if "length xs \<le> 66" for xs
    using that by (simp add: put_at_def VUX_SECTOR_def)
  have "length lba = 8" using l(1) by (auto simp: FAT_PART_LBA_def split: if_splits)
  then have "length ([0] @ pack_s 3 [0xFE, 0xFF, 0xFF] @ [0x0C] @ pack_s 3 [0xFE, 0xFF, 0xFF] @ lba) \<le> 66"
    by (simp add: pack_s_def)
  from len [OF this] have "length mbr \<ge> 512" "mbr ! 510 = 0x55"
    unfolding l(2) by (simp_all add: put_at_def nth_append)
  then have "0x55 \<in> set (sector_of 0 img)"
    using nth_mem [of 510 "take 512 mbr"] by (simp add: m(2) sector_of_def slice_def)
  then show ?thesis unfolding list_ex_iff by (rule bexI [rotated]) simp
qed

lemma soc_mbr_length: "length soc_mbr_sector = 512"
  by (simp add: soc_mbr_sector_def)

lemma card_blocks:
  assumes "list_ex (\<lambda>b. b \<noteq> 0) (sector_of 0 img)" "0 < length img div 512" "blocks_inv c" "\<And>l. get_sector l c = replicate 512 0"
  shows "get_sector (int l) (preload_card mbr (image_sectors img) c) = (if l < length img div 512 then sector_of l img else replicate 512 0)"
proof -
  have "get_sector (int l) (set_sector 0 soc_mbr_sector c) = (if l = 0 then soc_mbr_sector else replicate 512 0)"
    using card.get_set [OF assms(3)] assms(4) by (simp add: SECTOR_def ljust_def soc_mbr_length)
  then show ?thesis
    using preload_inv [OF assms(3) image_sectors_keys [of img], of mbr l] assms length_sector_of [of l img] sector_zero [of l img]
    by (auto simp: map_of_image_sectors SECTOR_def ljust_def)
qed

lemma emu_sectors:
  assumes "list_ex (\<lambda>b. b \<noteq> 0) (sector_of 0 img)" "0 < length img div 512"
  shows "fold (\<lambda>(lba, data) d. dict_set lba data d) (image_sectors img) (if mbr then [(0, soc_mbr_sector)] else []) = image_sectors img"
    and "image_sectors img \<noteq> []"
proof -
  let ?n = "length img div 512"
  have "[0..<?n] = 0 # [1..<?n]" using assms(2) by (simp add: upt_conv_Cons)
  then obtain rest where r: "image_sectors img = (0, sector_of 0 img) # rest" using assms(1) by (simp add: image_sectors_def)
  then show "image_sectors img \<noteq> []" by simp
  show "fold (\<lambda>(lba, data) d. dict_set lba data d) (image_sectors img) (if mbr then [(0, soc_mbr_sector)] else []) = image_sectors img"
    using image_sectors_keys [of img] dict_union_disjoint [of "image_sectors img" "[]"] dict_union_first [of 0 "sector_of 0 img" rest]
    by (cases mbr) (simp_all add: r)
qed

lemma last_sector:
  assumes "image_sectors img \<noteq> []" "m = Max (set (map fst (image_sectors img))) + 1"
  shows "m \<le> length img div 512" "(k, d) \<in> set (image_sectors img) \<Longrightarrow> k < m"
    "m \<le> l \<Longrightarrow> l < length img div 512 \<Longrightarrow> sector_of l img = replicate 512 0"
proof -
  let ?s = "image_sectors img"
  show lt: "k < m" if "(k, d) \<in> set ?s" for k d
  proof -
    have "k \<le> Max (set (map fst ?s))" using that by (intro Max_ge) (auto intro!: image_eqI [of _ fst "(k, d)"])
    then show ?thesis by (simp add: assms(2))
  qed
  have "Max (set (map fst ?s)) \<in> set (map fst ?s)" using assms(1) by (intro Max_in) auto
  then show "m \<le> length img div 512" unfolding assms(2) by (auto simp: image_sectors_def)
  assume l: "m \<le> l" "l < length img div 512"
  then have "(l, d) \<notin> set ?s" for d using lt [of l d] by auto
  then show "sector_of l img = replicate 512 0" using l(2) sector_zero [of l img] by (auto simp: image_sectors_def)
qed

lemma emu_front:
  assumes "list_ex (\<lambda>b. b \<noteq> 0) (sector_of 0 img)" "0 < length img div 512" "m = Max (set (map fst (image_sectors img))) + 1"
  shows "sd_image (image_sectors img) mbr = take (m * 512) img"
proof -
  let ?s = "image_sectors img" and ?z = "replicate (512 * m) (0 :: byte)"
  note E = emu_sectors [OF assms(1,2)]
  note M = last_sector [OF E(2) assms(3)]
  have "length d = 512 \<and> (k + 1) * 512 \<le> length ?z" if "(k, d) \<in> set ?s" for k d
  proof -
    have "k + 1 \<le> m" "k < length img div 512" "d = sector_of k img" using M(2) [OF that] that by (auto simp: image_sectors_def)
    then show ?thesis using length_sector_of [of k img] by simp
  qed
  then have ok: "list_all (\<lambda>(k, d). length d = 512 \<and> (k + 1) * 512 \<le> length ?z) ?s" by (auto simp: list_all_iff)
  have sd: "sd_image ?s mbr = fold (\<lambda>(lba, data) img. put_at (lba * 512) (take 512 data) img) ?s ?z"
    using E assms(3) by (simp add: sd_image_def Let_def)
  note p = put_blocks [OF ok image_sectors_keys, folded sd]
  show ?thesis
  proof (rule eq_by_sectors)
    show "length (sd_image ?s mbr) = m * 512" using p [THEN conjunct1] by simp
    show "length (take (m * 512) img) = m * 512" using M(1) by simp
    fix l
    assume l: "l < m"
    then have lm: "(l + 1) * 512 \<le> m * 512" by (intro mult_le_mono1) simp
    then have "sector_of l ?z = replicate 512 0" by (simp add: sector_of_def slice_zeros mult.commute)
    then show "sector_of l (sd_image ?s mbr) = sector_of l (take (m * 512) img)"
      using p [of l] l M(1) sector_zero [of l img] sector_take [OF lm, of img] by (auto simp: map_of_image_sectors)
  qed
qed

lemma emu_image:
  assumes "list_ex (\<lambda>b. b \<noteq> 0) (sector_of 0 img)" "length img = n * 512" "0 < n"
  shows "\<exists>m \<le> n. sd_image (image_sectors img) mbr = take (m * 512) img \<and> drop (m * 512) img = replicate ((n - m) * 512) 0"
proof -
  define m where m: "m = Max (set (map fst (image_sectors img))) + 1"
  have n: "length img div 512 = n" using assms(2) by simp
  have ne: "image_sectors img \<noteq> []" using emu_sectors(2) [OF assms(1)] n assms(3) by simp
  note M = last_sector [OF ne m, unfolded n]
  have "drop (m * 512) img = replicate ((n - m) * 512) 0"
  proof (rule eq_by_sectors)
    show "length (drop (m * 512) img) = (n - m) * 512" using assms(2) by (simp add: diff_mult_distrib)
    show "length (replicate ((n - m) * 512) (0 :: byte)) = (n - m) * 512" by simp
    fix l
    assume l: "l < n - m"
    have "sector_of l (drop (m * 512) img) = sector_of (l + m) img" by (simp add: sector_of_def slice_def algebra_simps)
    also have "\<dots> = replicate 512 0" using l by (intro M(3)) simp_all
    also have "(l + 1) * 512 \<le> (n - m) * 512" using l by (intro mult_le_mono1) simp
    then have "replicate 512 (0 :: byte) = sector_of l (replicate ((n - m) * 512) 0)" by (simp add: sector_of_def slice_zeros)
    finally show "sector_of l (drop (m * 512) img) = sector_of l (replicate ((n - m) * 512) 0)" .
  qed
  with M(1) emu_front [OF assms(1) _ m, of mbr] n assms(3) show ?thesis by auto
qed

text \<open>
  Reading blocks over the bus: a read command, then clocks for the answer, block after block from the same card. The
  argument is the block's number, or its byte address for an SDSC card that is strict.
\<close>

definition block_arg :: "sd_config \<Rightarrow> nat \<Rightarrow> int" where
  "block_arg k l = (if strict k \<and> \<not> sdhc k then 512 * int l else int l)"

fun bus_reads :: "nat list \<Rightarrow> sdcard \<Rightarrow> byte list \<times> sdcard" where
  "bus_reads [] c = ([], c)"
| "bus_reads (l # ls) c =
     (case exchanges (cmd_frame 17 (block_arg (cfg c) l) 0xFF @ replicate 518 0xFF) c of
        (miso, c) \<Rightarrow> (case bus_reads ls c of (bs, c) \<Rightarrow> (slice 10 522 miso @ bs, c)))"

lemma preload_state: "resp (preload_card mbr sds c) = resp c \<and> sd_st (preload_card mbr sds c) = sd_st c \<and> cfg (preload_card mbr sds c) = cfg c"
proof -
  have "resp (fold (\<lambda>(lba, data) c. set_sector (int lba) data c) sds c) = resp c \<and>
      sd_st (fold (\<lambda>(lba, data) c. set_sector (int lba) data c) sds c) = sd_st c \<and>
      cfg (fold (\<lambda>(lba, data) c. set_sector (int lba) data c) sds c) = cfg c" for c
    by (induction sds arbitrary: c) (auto simp: set_sector_def)
  then show ?thesis by (simp add: preload_card_def set_sector_def)
qed

lemma block_target: "l < 0x10000 \<Longrightarrow> target (block_arg (cfg c) l) c = int l"
  by (simp add: target_def addr_lba_def block_arg_def drop_bit_eq_div)

lemma bus_read_block:
  assumes "listening c" "blocks_inv c" "17 \<notin> set (mute_cmds (cfg c))" "\<not> read_error (cfg c)"
    "int l \<notin> set (bad_sectors (cfg c))" "l < 0x10000"
  shows "\<exists>miso d. exchanges (cmd_frame 17 (block_arg (cfg c) l) 0xFF @ replicate 518 0xFF) c = (miso, d) \<and>
    slice 10 522 miso = get_sector (int l) c \<and> like d c \<and> listening d"
proof -
  note t = block_target [OF assms(6), of c]
  have len: "length (get_sector (int l) c) = 512" using card.size [OF assms(2)] by (simp add: SECTOR_def)
  have l: "0 \<le> block_arg (cfg c) l" "block_arg (cfg c) l < 2 ^ 32" using assms(6) by (simp_all add: block_arg_def)
  obtain d where "exchanges (cmd_frame 17 (block_arg (cfg c) l) 0xFF @ replicate 518 0xFF) c =
      (replicate 6 0xFF @ [0xFF, 0x00, 0xFF, 0xFE] @ get_sector (int l) c @ [0x12, 0x34], d)" "like d c" "listening d"
    using read_block [OF assms(1,3,4) _ l assms(2), of "replicate 518 0xFF" "0xFF"] assms(5) by (auto simp: t SECTOR_def)
  then show ?thesis
    using slice_at [of "replicate 6 0xFF @ [0xFF, 0x00, 0xFF, 0xFE]" 10 "get_sector (int l) c" 522 "[0x12, 0x34]"] len by simp
qed

lemma bus_reads_blocks:
  "listening c \<Longrightarrow> blocks_inv c \<Longrightarrow> 17 \<notin> set (mute_cmds (cfg c)) \<Longrightarrow> \<not> read_error (cfg c) \<Longrightarrow> bad_sectors (cfg c) = [] \<Longrightarrow>
   list_all (\<lambda>l. l < 0x10000) ls \<Longrightarrow> fst (bus_reads ls c) = concat (map (\<lambda>l. get_sector (int l) c) ls)"
proof (induction ls arbitrary: c)
  case (Cons l ls)
  have "int l \<notin> set (bad_sectors (cfg c))" "l < 0x10000" using Cons.prems(5,6) by simp_all
  from bus_read_block [OF Cons.prems(1-4) this] obtain miso d where
    d: "exchanges (cmd_frame 17 (block_arg (cfg c) l) 0xFF @ replicate 518 0xFF) c = (miso, d)" "slice 10 522 miso = get_sector (int l) c"
    "like d c" "listening d" by blast
  have same: "cfg d = cfg c" "blocks_inv d" "get_sector i d = get_sector i c" for i
    using d(3) Cons.prems(2) sector_like [OF d(3)] by (simp_all add: like_def blocks_inv_def)
  have "fst (bus_reads ls d) = concat (map (\<lambda>l. get_sector (int l) d) ls)" using Cons.prems same by (intro Cons.IH d(4)) simp_all
  then show ?case using d(1,2) same(3) by (simp add: split_def del: exchanges.simps)
qed simp

lemma concat_sectors: "length xs = n * 512 \<Longrightarrow> concat (map (\<lambda>l. sector_of l xs) [0..<n]) = xs"
proof (induction n arbitrary: xs)
  case (Suc n)
  let ?h = "take (n * 512) xs"
  have "map (\<lambda>l. sector_of l ?h) [0..<n] = map (\<lambda>l. sector_of l xs) [0..<n]"
    by (rule map_cong) (auto intro!: sector_take mult_le_mono1)
  then have "concat (map (\<lambda>l. sector_of l xs) [0..<n]) = ?h" using Suc.IH [of ?h] Suc.prems by (simp only: length_take) simp
  moreover have "sector_of n xs = drop (n * 512) xs" using Suc.prems by (simp add: sector_of_def slice_def)
  ultimately show ?case by simp
qed simp

lemma card_served:
  assumes "fat_sectors files = Inr sds" and k: "17 \<notin> set (mute_cmds k)" "\<not> read_error k" "bad_sectors k = []"
  shows "\<exists>img m. build_fat32_image files 8192 1 ''VUX9K'' = Inr img \<and> length img = 10240 * 512 \<and>
    (\<forall>ls. list_all (\<lambda>l. l < 10240) ls \<longrightarrow>
      fst (bus_reads ls (preload_card mbr sds (sd_new k))) = concat (map (\<lambda>l. sector_of l img) ls)) \<and>
    fst (bus_reads [0..<10240] (preload_card mbr sds (sd_new k))) = img \<and>
    (\<forall>(path, x) \<in> set files. \<exists>parts. path_parts path = Inr parts \<and> img_read img parts = Some x) \<and>
    sd_image sds mbr @ replicate m 0 = img"
proof -
  obtain img where i: "build_fat32_image files 8192 1 ''VUX9K'' = Inr img" and s: "sds = image_sectors img"
    using assms(1) by (auto simp: fat_sectors_def)
  have r: "length img = 10240 * 512" "\<forall>(path, x) \<in> set files. \<exists>parts. path_parts path = Inr parts \<and> img_read img parts = Some x"
    using fat_image_reads_aux [OF i] by simp_all
  let ?c = "preload_card mbr sds (sd_new k)"
  have new: "blocks_inv (sd_new k)" "get_sector l (sd_new k) = replicate 512 0" for l
    by (simp_all add: sd_new_def blocks_inv_def get_sector_def SECTOR_def)
  have inv: "blocks_inv ?c" using preload_inv [OF new(1)] image_sectors_keys by (simp add: s)
  have blocks: "fst (bus_reads ls ?c) = concat (map (\<lambda>l. sector_of l img) ls)" if "list_all (\<lambda>l. l < 10240) ls" for ls
  proof -
    have b: "list_all (\<lambda>l. l < 0x10000) ls" using that by (auto simp: list_all_iff)
    have "fst (bus_reads ls ?c) = concat (map (\<lambda>l. get_sector (int l) ?c) ls)"
      using k preload_state [of mbr sds "sd_new k"] by (intro bus_reads_blocks [OF _ inv _ _ _ b]) (simp_all add: listening_def sd_new_def)
    moreover have "map (\<lambda>l. get_sector (int l) ?c) ls = map (\<lambda>l. sector_of l img) ls"
      using that card_blocks [OF image_first [OF i] _ new] r(1) by (simp add: s list_all_iff)
    ultimately show ?thesis by simp
  qed
  have "list_all (\<lambda>l. l < 10240) [0..<10240]" unfolding list_all_iff by simp
  then have "fst (bus_reads [0..<10240] ?c) = img" using blocks concat_sectors [OF r(1)] by presburger
  moreover obtain m where "sd_image sds mbr = take (m * 512) img" "drop (m * 512) img = replicate ((10240 - m) * 512) 0"
    using emu_image [OF image_first [OF i] r(1), of mbr] s by auto
  then have "sd_image sds mbr @ replicate ((10240 - m) * 512) 0 = img" by (metis append_take_drop_id)
  ultimately show ?thesis using i r blocks by blast
qed


text \<open>A card with a v4 file as its second stage.\<close>

lemma stage2_tree: "build_tree [(''VUX9K/STAGE2.BIN'', x)] [] = Inr [(map of_char ''VUX9K      '', Dir [(map of_char ''STAGE2  BIN'', File x)])]"
proof -
  have "path_parts ''VUX9K/STAGE2.BIN'' = Inr [map of_char ''VUX9K      '', map of_char ''STAGE2  BIN'']" by code_simp
  then show ?thesis by simp
qed

lemma stage2_sectors: "x \<noteq> [] \<Longrightarrow> length x \<le> 512 \<Longrightarrow> \<exists>sds. fat_sectors [(''VUX9K/STAGE2.BIN'', x)] = Inr sds"
  using default_card [OF stage2_tree] by (fastforce simp: fat_sectors_def)

abbreviation plain_config :: sd_config where
  "plain_config \<equiv> \<lparr>sdhc = True, strict = False, mute_cmds = [], never_ready = False, read_error = False, bad_sectors = [], write_reject = False\<rparr>"


text \<open>
  Second-stage files. \<open>v4_file\<close> without overrides returns exactly when the header's values fit 32 bits; the file then
  passes the firmware's checks, carries the payload after 64 bytes of header, loads at the given address or else at the
  second stage's, and \<open>v4_size\<close> gives back the size of what is stored. \<open>v4_size\<close> raises for what is no v4 file.
\<close>

theorem v4_file_size:
  "case v4_file payload version mode load entry None None of
     Inl e \<Rightarrow> e = StructError \<and> \<not> header_ok (v4_header payload ''test'' mode version (case load of None \<Rightarrow> Some SOC_STAGE2_BASE | Some l \<Rightarrow> l) entry)
   | Inr data \<Rightarrow> image_valid data \<and> drop HEADER_LEN data = stored_payload mode payload \<and>
       v4_size data = Inr (int (length (stored_payload mode payload))) \<and> v4_size (drop 1 (take HEADER_LEN data)) = Inl AssertionError \<and>
       (\<exists>h. header_parse data = Some h \<and> hd_version h = version \<and>
         hd_load_addr h = (case load of None \<Rightarrow> 0x80700000 | Some (Some l) \<Rightarrow> l | Some None \<Rightarrow> (if mode = ''hack'' then 0 else 0x80000000)))"
proof -
  define h where "h = v4_header payload ''test'' mode version (case load of None \<Rightarrow> Some SOC_STAGE2_BASE | Some l \<Rightarrow> l) entry"
  show ?thesis
  proof (cases "header_ok h")
    case False
    then show ?thesis by (simp add: v4_file_eq flip: h_def)
  next
    case True
    have sz: "hd_size h = int (length (stored_payload mode payload))" "hd_crc32 h = crc32 (stored_payload mode payload)" "hd_version h = version"
      "hd_load_addr h = (case load of None \<Rightarrow> 0x80700000 | Some (Some l) \<Rightarrow> l | Some None \<Rightarrow> (if mode = ''hack'' then 0 else 0x80000000))"
      by (simp_all add: h_def v4_header_def Let_def SOC_STAGE2_BASE_def split: option.splits)
    have "v4_size (drop 1 (take HEADER_LEN (header_bytes h @ stored_payload mode payload))) = Inl AssertionError"
      by (simp add: v4_size_def header_parse_def HEADER_LEN_def)
    then show ?thesis
      using True header_valid [OF True sz(1,2)] sz
      by (simp add: v4_file_eq v4_size_def parse_header_bytes HEADER_LEN_def Let_def flip: h_def)
  qed
qed

end
