(* ===== verification/Emu_Port.thy ===== *)
theory Emu_Port
  imports Upload_Device "HOL-Library.Sublist"
begin

text \<open>
  The emulator's side of the tests (\<^verbatim>\<open>src/sim/emu/vux9k.py\<close>): the clock and the serial port that let the host tool
  talk to an emulated SoC, and the paced sender. The SoC is a parameter, a record of the operations the code calls on
  it; its clock counts cycles, and the port's clock is that count in microseconds, rounded down.
\<close>

section \<open>The emulated SoC\<close>

record 's soc_api =
  soc_cycle :: "'s \<Rightarrow> nat"
  soc_run :: "nat \<Rightarrow> 's \<Rightarrow> 's"
  uart_send :: "byte list \<Rightarrow> 's \<Rightarrow> 's"
  uart_send_done :: "'s \<Rightarrow> nat"
  uart_received :: "'s \<Rightarrow> byte list"
  uart_rx_level :: "'s \<Rightarrow> nat"
  uart_rx_dropped :: "'s \<Rightarrow> nat"
  set_button :: "bool \<Rightarrow> 's \<Rightarrow> 's"
  run_until_tx :: "byte list \<Rightarrow> nat \<Rightarrow> nat \<Rightarrow> 's \<Rightarrow> nat option \<times> 's"

definition CLK_HZ :: nat where "CLK_HZ = 18000000"
definition EMU_UART_BIT :: nat where "EMU_UART_BIT = 156"
definition EMU_UART_FRAME :: nat where "EMU_UART_FRAME = 10 * EMU_UART_BIT"

text \<open>Cycles in some milliseconds, and in some microseconds.\<close>

definition ms :: "nat \<Rightarrow> nat" where "ms n = CLK_HZ * n div 1000"

definition us_cycles :: "int \<Rightarrow> nat" where "us_cycles d = nat (d * int CLK_HZ div 1000000)"

section \<open>The port\<close>

record 's emu_port =
  ep_soc :: 's
  ep_pos :: nat
  ep_log :: "byte list"

definition emu_serial :: "'s soc_api \<Rightarrow> 's \<Rightarrow> 's emu_port" where
  "emu_serial api s = \<lparr>ep_soc = s, ep_pos = length (uart_received api s), ep_log = []\<rparr>"

definition emu_available :: "'s soc_api \<Rightarrow> 's emu_port \<Rightarrow> nat" where
  "emu_available api p = length (uart_received api (ep_soc p)) - ep_pos p"

definition emu_run :: "'s soc_api \<Rightarrow> nat \<Rightarrow> 's emu_port \<Rightarrow> 's emu_port" where
  "emu_run api n p = p\<lparr>ep_soc := soc_run api n (ep_soc p)\<rparr>"

abbreviation emu_cycle :: "'s soc_api \<Rightarrow> 's emu_port \<Rightarrow> nat" where
  "emu_cycle api p \<equiv> soc_cycle api (ep_soc p)"

definition emu_write :: "'s soc_api \<Rightarrow> byte list \<Rightarrow> 's emu_port \<Rightarrow> 's emu_port" where
  "emu_write api b p = p\<lparr>ep_soc := uart_send api b (ep_soc p)\<rparr>"

definition emu_flush :: "'s soc_api \<Rightarrow> 's emu_port \<Rightarrow> 's emu_port" where
  "emu_flush api p = emu_run api (uart_send_done api (ep_soc p) - emu_cycle api p) p"

text \<open>The wait of a read: a frame at a time, until a byte has arrived or the time has passed.\<close>

fun emu_wait :: "'s soc_api \<Rightarrow> nat \<Rightarrow> nat \<Rightarrow> 's emu_port \<Rightarrow> 's emu_port" where
  "emu_wait api 0 end_c p = p"
| "emu_wait api (Suc fuel) end_c p =
     (if emu_available api p = 0 \<and> emu_cycle api p < end_c then emu_wait api fuel end_c (emu_run api EMU_UART_FRAME p) else p)"

text \<open>The cycles of \<open>timeout or 0\<close>.\<close>

definition wait_cycles :: "int option \<Rightarrow> nat" where
  "wait_cycles timeout = us_cycles (case timeout of None \<Rightarrow> 0 | Some t \<Rightarrow> t)"

definition emu_take :: "'s soc_api \<Rightarrow> nat \<Rightarrow> 's emu_port \<Rightarrow> byte list \<times> 's emu_port" where
  "emu_take api n p =
     (let got = take n (drop (ep_pos p) (uart_received api (ep_soc p)))
      in (got, p\<lparr>ep_pos := ep_pos p + length got, ep_log := ep_log p @ got\<rparr>))"

text \<open>Every turn of the wait takes a cycle at least, so that as many turns as cycles are enough.\<close>

definition emu_read :: "'s soc_api \<Rightarrow> int option \<Rightarrow> nat \<Rightarrow> 's emu_port \<Rightarrow> byte list \<times> 's emu_port" where
  "emu_read api timeout n p = emu_take api n (emu_wait api (wait_cycles timeout) (emu_cycle api p + wait_cycles timeout) p)"

partial_function (option) emu_read_loop :: "'s soc_api \<Rightarrow> int option \<Rightarrow> byte list \<Rightarrow> nat option \<Rightarrow> byte list \<Rightarrow> 's emu_port \<Rightarrow> (byte list \<times> 's emu_port) option" where
  "emu_read_loop api timeout k n out p =
     (if \<not> ends k out \<and> (case n of None \<Rightarrow> True | Some m \<Rightarrow> length out < m)
      then (case emu_read api timeout 1 p of (b, p) \<Rightarrow> if b = [] then Some (out, p) else emu_read_loop api timeout k n (out @ b) p)
      else Some (out, p))"

definition emu_read_until :: "'s soc_api \<Rightarrow> int option \<Rightarrow> byte list \<Rightarrow> nat option \<Rightarrow> 's emu_port \<Rightarrow> (byte list \<times> 's emu_port) option" where
  "emu_read_until api timeout k n p = emu_read_loop api timeout k n [] p"

definition emu_reset :: "'s soc_api \<Rightarrow> 's emu_port \<Rightarrow> 's emu_port" where
  "emu_reset api p = p\<lparr>ep_pos := length (uart_received api (ep_soc p))\<rparr>"

definition emu_sleep :: "'s soc_api \<Rightarrow> int \<Rightarrow> 's emu_port \<Rightarrow> 's emu_port" where
  "emu_sleep api d p = emu_run api (max 1 (us_cycles d)) p"

definition emu_time :: "'s soc_api \<Rightarrow> 's emu_port \<Rightarrow> int" where
  "emu_time api p = int (emu_cycle api p) * 1000000 div int CLK_HZ"

text \<open>
  What the host tool calls. Its \<open>flush\<close> after a write is \<open>emu_flush\<close>, which only lets time pass; it is left out of \<open>ser_write\<close>.
\<close>

definition emu_io :: "'s soc_api \<Rightarrow> int option \<Rightarrow> 's emu_port serial" where
  "emu_io api timeout = \<lparr>
     ser_read = emu_read api timeout,
     ser_read_until = (\<lambda>k. emu_read_until api timeout k None),
     ser_write = emu_write api,
     ser_in_waiting = emu_available api,
     ser_reset = emu_reset api,
     ser_sleep = emu_sleep api,
     ser_now = emu_time api\<rparr>"

section \<open>Sending at the program's pace\<close>

fun drain_fifo :: "'s soc_api \<Rightarrow> nat \<Rightarrow> nat \<Rightarrow> 's \<Rightarrow> 's" where
  "drain_fifo api 0 end_c s = s"
| "drain_fifo api (Suc fuel) end_c s =
     (if uart_rx_level api s \<noteq> 0 \<and> soc_cycle api s < end_c then drain_fifo api fuel end_c (soc_run api 2000 s) else s)"

definition send_chunk :: "'s soc_api \<Rightarrow> nat \<Rightarrow> byte list \<Rightarrow> 's \<Rightarrow> 's" where
  "send_chunk api drain b s =
     (let s = uart_send api b s; s = soc_run api (uart_send_done api s - soc_cycle api s) s
      in drain_fifo api drain (soc_cycle api s + drain) s)"

definition send_paced :: "'s soc_api \<Rightarrow> byte list \<Rightarrow> nat \<Rightarrow> nat \<Rightarrow> 's \<Rightarrow> unit result \<times> 's" where
  "send_paced api data chunk drain s =
     (if chunk = 0 then (Inl ValueError, s)
      else (let s = fold (send_chunk api drain) (pieces chunk data) s
            in (if uart_rx_dropped api s \<noteq> 0 then Inl RuntimeError else Inr (), s)))"

definition press_button :: "'s soc_api \<Rightarrow> nat \<Rightarrow> nat \<Rightarrow> 's \<Rightarrow> 's" where
  "press_button api hold_ms after_ms s =
     soc_run api (ms after_ms) (set_button api False (soc_run api (ms hold_ms) (set_button api True s)))"

definition wait_for :: "'s soc_api \<Rightarrow> byte list \<Rightarrow> nat \<Rightarrow> nat \<Rightarrow> 's \<Rightarrow> utext result \<times> 's" where
  "wait_for api token timeout_cycles start s =
     (case run_until_tx api token timeout_cycles start s of (e, s) \<Rightarrow>
        (case e of
           None \<Rightarrow> Inl TimeoutError
         | Some e \<Rightarrow> Inr (decode_utf8 (drop start (take e (uart_received api s)))), s))"

section \<open>Uses of the port\<close>

datatype emu_op = Read nat | Write "byte list" | Flush | Sleep int

fun emu_step :: "'s soc_api \<Rightarrow> int option \<Rightarrow> emu_op \<Rightarrow> 's emu_port \<Rightarrow> byte list \<times> 's emu_port" where
  "emu_step api timeout (Read n) p = emu_read api timeout n p"
| "emu_step api timeout (Write b) p = ([], emu_write api b p)"
| "emu_step api timeout Flush p = ([], emu_flush api p)"
| "emu_step api timeout (Sleep d) p = ([], emu_sleep api d p)"

fun emu_steps :: "'s soc_api \<Rightarrow> int option \<Rightarrow> emu_op list \<Rightarrow> 's emu_port \<Rightarrow> byte list \<times> 's emu_port" where
  "emu_steps api timeout [] p = ([], p)"
| "emu_steps api timeout (x # xs) p =
     (case emu_step api timeout x p of (b, p) \<Rightarrow> (case emu_steps api timeout xs p of (c, p) \<Rightarrow> (b @ c, p)))"

text \<open>From one state to another the port has given \<open>d\<close>, the next bytes of the SoC's output, and logged it.\<close>

definition emu_gives :: "'s soc_api \<Rightarrow> 's emu_port \<Rightarrow> byte list \<Rightarrow> 's emu_port \<Rightarrow> bool" where
  "emu_gives api p d q \<longleftrightarrow>
     prefix (uart_received api (ep_soc p)) (uart_received api (ep_soc q)) \<and> soc_cycle api (ep_soc p) \<le> soc_cycle api (ep_soc q) \<and>
     ep_pos q = ep_pos p + length d \<and> ep_log q = ep_log p @ d \<and>
     prefix d (drop (ep_pos p) (uart_received api (ep_soc q)))"

lemma emu_gives_trans:
  assumes "emu_gives api p d q" "emu_gives api q e r"
  shows "emu_gives api p (d @ e) r"
proof -
  let ?x = "uart_received api (ep_soc q)" and ?y = "uart_received api (ep_soc r)"
  have d: "prefix d (drop (ep_pos p) ?x)" "ep_pos q = ep_pos p + length d" "prefix ?x ?y" "prefix e (drop (ep_pos q) ?y)"
    using assms by (simp_all add: emu_gives_def)
  obtain z u where z: "?y = ?x @ z" "drop (ep_pos p) ?x = d @ u" using d by (auto simp: prefix_def)
  have "drop (ep_pos p + length d) ?y = drop (length d) (drop (ep_pos p) ?y)" by (simp add: add.commute)
  then have "drop (ep_pos p) ?y = d @ drop (ep_pos q) ?y" using z d(2) by simp
  then have "prefix (d @ e) (drop (ep_pos p) ?y)" using d(4) by simp
  then show ?thesis using assms unfolding emu_gives_def by (auto intro: prefix_order.trans)
qed

text \<open>The SoC after it has run for some UART frames.\<close>

definition frames :: "'s soc_api \<Rightarrow> nat \<Rightarrow> 's \<Rightarrow> 's" where
  "frames api m s = (soc_run api EMU_UART_FRAME ^^ m) s"

section \<open>What the SoC promises\<close>

text \<open>Running takes time and never takes output back; sending a byte takes no time of the SoC's.\<close>

locale emu_soc =
  fixes api :: "'s soc_api"
  assumes run_cycle: "0 < n \<Longrightarrow> soc_cycle api s < soc_cycle api (soc_run api n s)"
    and run_zero: "soc_cycle api (soc_run api 0 s) = soc_cycle api s"
    and run_output: "prefix (uart_received api s) (uart_received api (soc_run api n s))"
    and send_cycle: "soc_cycle api (uart_send api b s) = soc_cycle api s"
    and send_output: "uart_received api (uart_send api b s) = uart_received api s"
begin

lemma run_le: "soc_cycle api s \<le> soc_cycle api (soc_run api n s)"
  using run_cycle [of n s] run_zero [of s] by (cases n) auto

lemma run_length: "length (uart_received api s) \<le> length (uart_received api (soc_run api n s))"
  using run_output by (rule prefix_length_le)

text \<open>A wait that gets as many turns as cycles ends as the loop does.\<close>

lemma wait_ends: "end_c \<le> emu_cycle api p + fuel \<Longrightarrow>
    emu_available api (emu_wait api fuel end_c p) \<noteq> 0 \<or> end_c \<le> emu_cycle api (emu_wait api fuel end_c p)"
proof (induction fuel arbitrary: p)
  case (Suc n)
  show ?case using Suc.prems Suc.IH [of "emu_run api EMU_UART_FRAME p"] run_cycle [of EMU_UART_FRAME "ep_soc p"]
    by (auto simp: emu_run_def EMU_UART_FRAME_def EMU_UART_BIT_def)
qed simp

lemma wait_keeps: "ep_pos (emu_wait api fuel end_c p) = ep_pos p \<and> ep_log (emu_wait api fuel end_c p) = ep_log p \<and>
    prefix (uart_received api (ep_soc p)) (uart_received api (ep_soc (emu_wait api fuel end_c p))) \<and>
    emu_cycle api p \<le> emu_cycle api (emu_wait api fuel end_c p)"
proof (induction fuel arbitrary: p)
  case (Suc n)
  let ?q = "emu_run api EMU_UART_FRAME p"
  have "prefix (uart_received api (ep_soc p)) (uart_received api (ep_soc ?q))" "emu_cycle api p \<le> emu_cycle api ?q"
    using run_output run_le by (simp_all add: emu_run_def)
  then show ?case using Suc.IH [of ?q] by (auto simp: emu_run_def intro: prefix_order.trans)
qed simp

text \<open>The wait ends in the first of these states in which a byte has come or the time has passed.\<close>

lemma frames_step: "frames api m (soc_run api EMU_UART_FRAME s) = frames api (Suc m) s"
  by (simp add: frames_def funpow_swap1)

lemma wait_frames:
  "\<exists>m. emu_wait api fuel end_c p = p\<lparr>ep_soc := frames api m (ep_soc p)\<rparr> \<and>
     (\<forall>j < m. length (uart_received api (frames api j (ep_soc p))) \<le> ep_pos p \<and> soc_cycle api (frames api j (ep_soc p)) < end_c)"
proof (induction fuel arbitrary: p)
  case 0
  show ?case by (intro exI [of _ 0]) (simp add: frames_def)
next
  case (Suc n)
  show ?case
  proof (cases "emu_available api p = 0 \<and> emu_cycle api p < end_c")
    case True
    let ?q = "emu_run api EMU_UART_FRAME p"
    obtain m where m: "emu_wait api n end_c ?q = ?q\<lparr>ep_soc := frames api m (ep_soc ?q)\<rparr>"
      "\<forall>j < m. length (uart_received api (frames api j (ep_soc ?q))) \<le> ep_pos ?q \<and> soc_cycle api (frames api j (ep_soc ?q)) < end_c"
      using Suc.IH by blast
    have "length (uart_received api (frames api j (ep_soc p))) \<le> ep_pos p \<and> soc_cycle api (frames api j (ep_soc p)) < end_c" if "j < Suc m" for j
      using that m(2) True by (cases j) (simp_all add: emu_run_def frames_step frames_def [of _ 0] emu_available_def)
    then show ?thesis using m(1) True by (intro exI [of _ "Suc m"]) (simp add: emu_run_def frames_step)
  next
    case False
    then show ?thesis by (intro exI [of _ 0]) (auto simp: frames_def)
  qed
qed

lemma wait_now: "emu_available api p \<noteq> 0 \<Longrightarrow> emu_wait api fuel end_c p = p"
  by (cases fuel) simp_all

lemma wait_later:
  assumes "emu_available api p = 0" "0 < fuel" "emu_cycle api p < end_c"
  shows "emu_cycle api p < emu_cycle api (emu_wait api fuel end_c p)"
proof -
  obtain n where "fuel = Suc n" using assms(2) by (cases fuel) auto
  then show ?thesis
    using assms wait_keeps [of n end_c "emu_run api EMU_UART_FRAME p"] run_cycle [of EMU_UART_FRAME "ep_soc p"]
    by (auto simp: emu_run_def EMU_UART_FRAME_def EMU_UART_BIT_def)
qed

lemma drain_ends: "end_c \<le> soc_cycle api s + fuel \<Longrightarrow>
    uart_rx_level api (drain_fifo api fuel end_c s) = 0 \<or> end_c \<le> soc_cycle api (drain_fifo api fuel end_c s)"
proof (induction fuel arbitrary: s)
  case (Suc n)
  show ?case using Suc.prems Suc.IH [of "soc_run api 2000 s"] run_cycle [of 2000 s] by auto
qed simp

lemma chunk_drained:
  "uart_rx_level api (send_chunk api drain b s) = 0 \<or> soc_cycle api s + drain \<le> soc_cycle api (send_chunk api drain b s)"
proof -
  let ?s = "uart_send api b s"
  let ?t = "soc_run api (uart_send_done api ?s - soc_cycle api ?s) ?s"
  have "soc_cycle api s \<le> soc_cycle api ?t" using run_le [of ?s] by (simp add: send_cycle)
  then show ?thesis using drain_ends [of "soc_cycle api ?t + drain" ?t drain] by (auto simp: send_chunk_def Let_def)
qed

lemma read_cases:
  assumes "emu_read api timeout n p = (got, q)"
  obtains w where "got = take n (drop (ep_pos w) (uart_received api (ep_soc w)))" "q = w\<lparr>ep_pos := ep_pos w + length got, ep_log := ep_log w @ got\<rparr>"
    "w = emu_wait api (wait_cycles timeout) (emu_cycle api p + wait_cycles timeout) p"
  using assms by (auto simp: emu_read_def emu_take_def Let_def)

text \<open>What a read does: it returns the next bytes of the SoC's output, and nothing only when none came in time.\<close>

lemma read_spec:
  assumes "emu_read api timeout n p = (got, q)"
  shows "got = take n (drop (ep_pos p) (uart_received api (ep_soc q)))" "ep_pos q = ep_pos p + length got" "ep_log q = ep_log p @ got"
    "prefix (uart_received api (ep_soc p)) (uart_received api (ep_soc q))" "emu_cycle api p \<le> emu_cycle api q"
    "got = [] \<Longrightarrow> 0 < n \<Longrightarrow> emu_cycle api p + wait_cycles timeout \<le> emu_cycle api q"
proof -
  obtain w where w: "got = take n (drop (ep_pos w) (uart_received api (ep_soc w)))" "q = w\<lparr>ep_pos := ep_pos w + length got, ep_log := ep_log w @ got\<rparr>"
    "w = emu_wait api (wait_cycles timeout) (emu_cycle api p + wait_cycles timeout) p"
    using read_cases [OF assms] .
  note k = wait_keeps [of "wait_cycles timeout" "emu_cycle api p + wait_cycles timeout" p, folded w(3)]
  show "got = take n (drop (ep_pos p) (uart_received api (ep_soc q)))" "ep_pos q = ep_pos p + length got" "ep_log q = ep_log p @ got"
    "prefix (uart_received api (ep_soc p)) (uart_received api (ep_soc q))" "emu_cycle api p \<le> emu_cycle api q"
    using k w(1,2) by simp_all
  assume "got = []" "0 < n"
  then have "emu_available api w = 0" using w(1) by (auto simp: emu_available_def)
  then show "emu_cycle api p + wait_cycles timeout \<le> emu_cycle api q"
    using wait_ends [of "emu_cycle api p + wait_cycles timeout" p "wait_cycles timeout"] w(2,3) by simp
qed

lemma read_gives: "emu_read api timeout n p = (d, q) \<Longrightarrow> emu_gives api p d q"
  using read_spec [of timeout n p d q] by (simp add: emu_gives_def take_is_prefix)

lemma run_gives: "emu_gives api p [] (emu_run api n p)"
  using run_output run_le by (simp add: emu_gives_def emu_run_def)

lemma write_gives: "emu_gives api p [] (emu_write api b p)"
  by (simp add: emu_gives_def emu_write_def send_cycle send_output)

lemma step_gives: "emu_step api timeout x p = (d, q) \<Longrightarrow> emu_gives api p d q"
  using read_gives run_gives write_gives by (cases x) (auto simp: emu_flush_def emu_sleep_def)

lemma steps_give: "emu_steps api timeout xs p = (d, q) \<Longrightarrow> emu_gives api p d q"
proof (induction xs arbitrary: p d)
  case (Cons x xs)
  obtain b r where 1: "emu_step api timeout x p = (b, r)" by (cases "emu_step api timeout x p")
  obtain c where 2: "emu_steps api timeout xs r = (c, q)" "d = b @ c" using Cons.prems 1 by (auto split: prod.splits)
  show ?case using emu_gives_trans [OF step_gives [OF 1] Cons.IH [OF 2(1)]] 2(2) by simp
qed (simp add: emu_gives_def)

lemma time_cycles: "emu_time api p = int (emu_cycle api p) div 18"
  by (simp add: emu_time_def CLK_HZ_def)

end

text \<open>A port whose timeout is a microsecond or more.\<close>

locale emu_timed = emu_soc +
  fixes timeout :: "int option"
  assumes wait_pos: "0 < wait_cycles timeout"
begin

lemma read_later:
  assumes "0 < n"
  shows "passes (\<lambda>p. int (emu_cycle api p)) (emu_available api) p (snd (emu_read api timeout n p))"
proof -
  obtain got q where r: "emu_read api timeout n p = (got, q)" by (cases "emu_read api timeout n p")
  show ?thesis
  proof (cases "emu_available api p = 0")
    case True
    then have "emu_cycle api p < emu_cycle api q"
      using read_cases [OF r] wait_later [OF True wait_pos] wait_pos by fastforce
    then show ?thesis by (simp add: r passes_def)
  next
    case False
    then show ?thesis using assms by (auto simp: emu_read_def emu_take_def wait_now passes_def emu_available_def Let_def)
  qed
qed

lemma write_later: "keeps (\<lambda>p. int (emu_cycle api p)) (emu_available api) p (emu_write api b p)"
  by (simp add: keeps_def emu_write_def emu_available_def send_cycle send_output)

end

sublocale emu_timed \<subseteq> timed_port "emu_io api timeout" "\<lambda>p. int (emu_cycle api p)" 18 "emu_available api"
  by unfold_locales (simp_all add: emu_io_def time_cycles read_later write_later)

text \<open>The bytes that a port can still give: those that wait and those that the SoC still sends.\<close>

definition port_left :: "'s soc_api \<Rightarrow> ('s \<Rightarrow> nat) \<Rightarrow> 's emu_port \<Rightarrow> nat" where
  "port_left api more_out p = emu_available api p + more_out (ep_soc p)"

text \<open>A SoC that sends only so many more bytes until it gets input.\<close>

locale quiet_soc = emu_timed +
  fixes more_out :: "'a \<Rightarrow> nat"
  assumes run_out: "length (uart_received api (soc_run api n s)) + more_out (soc_run api n s) \<le> length (uart_received api s) + more_out s"
begin

lemma run_left: "port_left api more_out (emu_run api n p) \<le> port_left api more_out p"
  using run_out [of n "ep_soc p"] run_length [of "ep_soc p" n] by (simp add: port_left_def emu_available_def emu_run_def)

lemma wait_left: "port_left api more_out (emu_wait api fuel end_c p) \<le> port_left api more_out p"
proof (induction fuel arbitrary: p)
  case (Suc n)
  then show ?case using run_left [of EMU_UART_FRAME p] order_trans by (auto simp del: split_paired_Ex)
qed simp

lemma emu_read_left:
  assumes "emu_read api timeout n p = (got, q)"
  shows "port_left api more_out q + length got \<le> port_left api more_out p"
proof -
  obtain w where w: "got = take n (drop (ep_pos w) (uart_received api (ep_soc w)))" "q = w\<lparr>ep_pos := ep_pos w + length got, ep_log := ep_log w @ got\<rparr>"
    "w = emu_wait api (wait_cycles timeout) (emu_cycle api p + wait_cycles timeout) p"
    using read_cases [OF assms] .
  have "port_left api more_out q + length got \<le> port_left api more_out w" by (simp add: w(2) port_left_def emu_available_def) (simp add: w(1))
  then show ?thesis using wait_left [of "wait_cycles timeout" "emu_cycle api p + wait_cycles timeout" p] w(3) by simp
qed

lemma read_loop_ends:
  "\<exists>d q. emu_read_loop api timeout k n out p = Some (out @ d, q) \<and> emu_gives api p d q \<and>
     keeps (\<lambda>p. int (emu_cycle api p)) (emu_available api) p q \<and>
     (\<not> ends k out \<and> n = None \<longrightarrow> passes (\<lambda>p. int (emu_cycle api p)) (emu_available api) p q)"
proof (induction "port_left api more_out p" arbitrary: p out rule: less_induct)
  case less
  obtain b q where r: "emu_read api timeout 1 p = (b, q)" by (cases "emu_read api timeout 1 p")
  have lt: "passes (\<lambda>p. int (emu_cycle api p)) (emu_available api) p q" using read_later [of 1 p] r by simp
  have g: "emu_gives api p b q" using r by (rule read_gives)
  have IH: "\<exists>d q'. emu_read_loop api timeout k n (out @ b) q = Some (out @ d, q') \<and> emu_gives api p d q' \<and>
      passes (\<lambda>p. int (emu_cycle api p)) (emu_available api) p q'" if "b \<noteq> []"
  proof -
    have "port_left api more_out q < port_left api more_out p" using emu_read_left [OF r] that by (cases b) auto
    then obtain d q' where "emu_read_loop api timeout k n (out @ b) q = Some ((out @ b) @ d, q')" "emu_gives api q d q'"
      "keeps (\<lambda>p. int (emu_cycle api p)) (emu_available api) q q'"
      using less [of q "out @ b"] by blast
    then show ?thesis using trans(1) [OF lt] emu_gives_trans [OF g] by (metis append.assoc)
  qed
  show ?case
  proof (cases "\<not> ends k out \<and> (case n of None \<Rightarrow> True | Some m \<Rightarrow> length out < m)")
    case True
    then have "emu_read_loop api timeout k n out p = (if b = [] then Some (out, q) else emu_read_loop api timeout k n (out @ b) q)"
      by (subst emu_read_loop.simps) (simp add: r del: One_nat_def)
    then show ?thesis using IH g lt trans(4) by (cases "b = []") auto
  next
    case False
    then have "emu_read_loop api timeout k n out p = Some (out, p)" by (subst emu_read_loop.simps) auto
    then show ?thesis using False trans(5) [of p] by (auto simp: emu_gives_def)
  qed
qed

end

sublocale quiet_soc \<subseteq> host_port "emu_io api timeout" "\<lambda>p. int (emu_cycle api p)" 18 "emu_available api" "port_left api more_out"
proof unfold_locales
  fix p :: "'a emu_port" and d :: int
  show "\<exists>c q. ser_read_until (emu_io api timeout) [0x0A] p = Some (c, q) \<and>
      passes (\<lambda>p. int (emu_cycle api p)) (emu_available api) p q"
    using read_loop_ends [of "[0x0A]" None "[]" p] by (auto simp: emu_io_def emu_read_until_def ends_def starts_def)
  show "port_left api more_out (ser_sleep (emu_io api timeout) d p) \<le> port_left api more_out p"
    using run_left by (simp add: emu_io_def emu_sleep_def)
  show "int (emu_cycle api p) < int (emu_cycle api (ser_sleep (emu_io api timeout) d p))" if "0 < d"
    using run_cycle by (simp add: emu_io_def emu_sleep_def emu_run_def)
  show "port_left api more_out (snd (ser_read (emu_io api timeout) (ser_in_waiting (emu_io api timeout) p) p)) < port_left api more_out p"
    if "0 < ser_in_waiting (emu_io api timeout) p"
  proof -
    let ?n = "emu_available api p"
    obtain got q where r: "emu_read api timeout ?n p = (got, q)" by (cases "emu_read api timeout ?n p")
    have n: "?n \<noteq> 0" using that by (simp add: emu_io_def)
    then have "got = take ?n (drop (ep_pos p) (uart_received api (ep_soc p)))"
      using r by (auto simp: emu_read_def emu_take_def wait_now Let_def)
    then have "length got = ?n" by (simp add: emu_available_def)
    then show ?thesis using emu_read_left [OF r] n r by (simp add: emu_io_def)
  qed
qed

section \<open>The firmware on the emulator\<close>

text \<open>
  A SoC that runs the firmware's transfer, a byte of its output a frame. The firmware takes what it is sent at once.
\<close>

record fw_soc =
  fs_cycle :: nat
  fs_done :: nat
  fs_in :: "byte list"
  fs_out :: "byte list"

definition fw_output :: "'s device \<Rightarrow> fw_soc \<Rightarrow> byte list" where
  "fw_output dv s = concat (map (\<lambda>l. map of_nat l @ [0x0A]) (dev_lines dv (fs_in s)))"

definition fw_run :: "'s device \<Rightarrow> nat \<Rightarrow> fw_soc \<Rightarrow> fw_soc" where
  "fw_run dv n s =
     s\<lparr>fs_cycle := fs_cycle s + n, fs_out := fs_out s @ take (n div EMU_UART_FRAME) (drop (length (fs_out s)) (fw_output dv s))\<rparr>"

definition fw_api :: "'s device \<Rightarrow> fw_soc soc_api" where
  "fw_api dv = \<lparr>
     soc_cycle = fs_cycle,
     soc_run = fw_run dv,
     uart_send = (\<lambda>b s. s\<lparr>fs_in := fs_in s @ b, fs_done := max (fs_done s) (fs_cycle s) + EMU_UART_FRAME * length b\<rparr>),
     uart_send_done = fs_done,
     uart_received = fs_out,
     uart_rx_level = (\<lambda>_. 0),
     uart_rx_dropped = (\<lambda>_. 0),
     set_button = (\<lambda>_ s. s),
     run_until_tx = (\<lambda>k n i s. let t = fw_run dv n s
       in (map_option (\<lambda>j. i + j + length k) (find_sub k (drop i (fs_out t))), t))\<rparr>"

definition fw_left :: "'s device \<Rightarrow> fw_soc \<Rightarrow> nat" where
  "fw_left dv s = length (fw_output dv s) - length (fs_out s)"

interpretation fw: quiet_soc "fw_api dv" "Some 50000" "fw_left dv" for dv
proof unfold_locales
  fix n s
  have "fw_output dv (fw_run dv n s) = fw_output dv s" by (simp add: fw_output_def fw_run_def)
  then show "length (uart_received (fw_api dv) (soc_run (fw_api dv) n s)) + fw_left dv (soc_run (fw_api dv) n s) \<le>
      length (uart_received (fw_api dv) s) + fw_left dv s"
    by (simp add: fw_left_def fw_api_def) (simp add: fw_run_def min_def)
qed (simp_all add: fw_api_def fw_run_def wait_cycles_def us_cycles_def CLK_HZ_def)

section \<open>What the port and the sender do\<close>

text \<open>
  C29: the emulated port. On a SoC whose runs take time (and overshoot the cycles asked for by \<open>late\<close> at most) and only add
  to its output, any sequence of reads, writes, flushes and pauses gives, in its reads together, the SoC's output from the
  port's position on, every byte once and in order; the log has them. A further read runs the SoC for the least number of
  UART frames after which there is a byte or the timeout has passed: none when a byte waits already. It returns what has
  arrived then, up to the size asked for, and so nothing only after the whole timeout; it overstays the timeout by less
  than a frame and \<open>late\<close>.
\<close>

theorem emu_port_exact:
  assumes "emu_soc api" and late: "\<And>n s. soc_cycle api (soc_run api n s) \<le> soc_cycle api s + n + late"
  shows "case emu_steps api timeout xs (emu_serial api s) of (d, q) \<Rightarrow>
    prefix (uart_received api s @ d) (uart_received api (ep_soc q)) \<and> ep_log q = d \<and>
    ep_pos q = length (uart_received api s) + length d \<and>
    (case emu_read api timeout (Suc n) q of (b, r) \<Rightarrow>
       let c = soc_cycle api (ep_soc q); after = \<lambda>m. frames api m (ep_soc q)
       in b = take (Suc n) (drop (ep_pos q) (uart_received api (ep_soc r))) \<and>
         (\<exists>m. ep_soc r = after m \<and>
            (\<forall>j < m. length (uart_received api (after j)) \<le> ep_pos q \<and> soc_cycle api (after j) < c + wait_cycles timeout) \<and>
            (ep_pos q < length (uart_received api (after m)) \<or> c + wait_cycles timeout \<le> soc_cycle api (after m))) \<and>
         (b = [] \<longrightarrow> c + wait_cycles timeout \<le> soc_cycle api (ep_soc r)) \<and>
         (c < soc_cycle api (ep_soc r) \<longrightarrow> soc_cycle api (ep_soc r) < c + wait_cycles timeout + EMU_UART_FRAME + late))"
proof -
  obtain d q where q: "emu_steps api timeout xs (emu_serial api s) = (d, q)" by (cases "emu_steps api timeout xs (emu_serial api s)")
  obtain b r where r: "emu_read api timeout (Suc n) q = (b, r)" by (cases "emu_read api timeout (Suc n) q")
  let ?r = "uart_received api s" and ?c = "soc_cycle api (ep_soc q)" and ?W = "wait_cycles timeout"
  let ?at = "\<lambda>m. frames api m (ep_soc q)"
  have g: "prefix ?r (uart_received api (ep_soc q))" "prefix d (drop (length ?r) (uart_received api (ep_soc q)))"
    "ep_log q = d" "ep_pos q = length ?r + length d"
    using emu_soc.steps_give [OF assms(1) q] by (simp_all add: emu_gives_def emu_serial_def)
  have pre: "prefix (?r @ d) (uart_received api (ep_soc q))" using g(1,2) by (auto simp: prefix_def)
  obtain m where m: "emu_wait api ?W (?c + ?W) q = q\<lparr>ep_soc := ?at m\<rparr>"
    "\<forall>j < m. length (uart_received api (?at j)) \<le> ep_pos q \<and> soc_cycle api (?at j) < ?c + ?W"
    using emu_soc.wait_frames [OF assms(1), of ?W "?c + ?W" q] by blast
  have er: "ep_soc r = ?at m" using r m(1) by (auto simp: emu_read_def emu_take_def Let_def)
  have stop: "ep_pos q < length (uart_received api (?at m)) \<or> ?c + ?W \<le> soc_cycle api (?at m)"
    using emu_soc.wait_ends [OF assms(1), of "?c + ?W" q ?W] m(1) by (auto simp: emu_available_def)
  have up: "soc_cycle api (?at m) < ?c + ?W + EMU_UART_FRAME + late" if "?c < soc_cycle api (?at m)"
  proof (cases m)
    case (Suc k)
    then have "soc_cycle api (?at k) < ?c + ?W" using m(2) by blast
    then show ?thesis using late [of EMU_UART_FRAME "?at k"] Suc by (simp add: frames_def)
  qed (use that in \<open>simp add: frames_def\<close>)
  note R = emu_soc.read_spec [OF assms(1) r]
  show ?thesis unfolding q r prod.case Let_def
    using pre g(3,4) R(1,6) m(2) stop up er by (intro conjI exI [of _ m]) simp_all
qed

theorem emu_port_exact_witness:
  "case emu_steps (fw_api test_device) (Some 50000) [Write [1], Read 4, Flush, Sleep 10]
      (emu_serial (fw_api test_device) \<lparr>fs_cycle = 0, fs_done = 0, fs_in = [], fs_out = []\<rparr>) of (d, q) \<Rightarrow>
    prefix d (fs_out (ep_soc q)) \<and> ep_log q = d"
proof -
  have "soc_cycle (fw_api test_device) (soc_run (fw_api test_device) n s) \<le> soc_cycle (fw_api test_device) s + n + 0" for n s
    by (simp add: fw_api_def fw_run_def)
  from emu_port_exact [OF fw.emu_soc_axioms this, where timeout = "Some 50000" and xs = "[Write [1], Read 4, Flush, Sleep 10]"
      and s = "\<lparr>fs_cycle = 0, fs_done = 0, fs_in = [], fs_out = []\<rparr>" and n = 0]
  show ?thesis by (simp add: fw_api_def split: prod.splits)
qed

text \<open>
  C30: the paced sender. It sends the data and nothing else, in chunks of at most \<open>chunk\<close> bytes; when a further chunk is
  sent, the program has emptied the receive FIFO since the last one, or \<open>drain_cycles\<close> have passed. It raises exactly
  when the FIFO has overflowed.
\<close>

theorem send_paced_exact:
  assumes "emu_soc api" "\<forall>b s. sent (uart_send api b s) = sent s @ b" "\<forall>n s. sent (soc_run api n s) = sent s" "0 < chunk"
  shows "sent (snd (send_paced api data chunk drain s)) = sent s @ data \<and>
    (fst (send_paced api data chunk drain s) = Inl RuntimeError \<longleftrightarrow> uart_rx_dropped api (snd (send_paced api data chunk drain s)) \<noteq> 0) \<and>
    (\<forall>pre b c post. pieces chunk data = pre @ b # c # post \<longrightarrow>
       length c \<le> chunk \<and>
       (let s0 = fold (send_chunk api drain) pre s; s1 = send_chunk api drain b s0
        in uart_rx_level api s1 = 0 \<or> soc_cycle api s0 + drain \<le> soc_cycle api s1))"
proof -
  have d: "sent (drain_fifo api fuel e t) = sent t" for fuel e t
    by (induction fuel arbitrary: t) (simp_all add: assms(3))
  have c: "sent (send_chunk api drain b t) = sent t @ b" for b t
    by (simp add: send_chunk_def Let_def d assms(2,3))
  have f: "sent (fold (send_chunk api drain) bs t) = sent t @ concat bs" for bs t
    by (induction bs arbitrary: t) (simp_all add: c)
  show ?thesis
    using assms(4) f [of "pieces chunk data" s] emu_soc.chunk_drained [OF assms(1)] pieces_short [of chunk _ data] by (auto simp: send_paced_def Let_def concat_pieces)
qed

theorem send_paced_exact_witness:
  "fs_in (snd (send_paced (fw_api test_device) [1, 2, 3] 2 1000 \<lparr>fs_cycle = 0, fs_done = 0, fs_in = [], fs_out = []\<rparr>)) = [1, 2, 3]"
proof -
  have "\<forall>b s. fs_in (uart_send (fw_api test_device) b s) = fs_in s @ b" "\<forall>n s. fs_in (soc_run (fw_api test_device) n s) = fs_in s"
    by (simp_all add: fw_api_def fw_run_def)
  then show ?thesis using send_paced_exact [OF fw.emu_soc_axioms, of fs_in test_device 2 "[1, 2, 3]" 1000] by simp
qed

end
