(* ===== verification/Utf8_Text.thy ===== *)
theory Utf8_Text
  imports Serial_Text
begin

text \<open>UTF-8 in both directions: text of Unicode scalar values is read back as it was written.\<close>

definition scalar :: "nat \<Rightarrow> bool" where
  "scalar c \<longleftrightarrow> c < 0xD800 \<or> 0xE000 \<le> c \<and> c < 0x110000"

lemma mod_small_add: "(n :: nat) dvd k \<Longrightarrow> x < n \<Longrightarrow> (k + x) mod n = x"
  by (auto elim!: dvdE)

lemma div_4096: "(c :: nat) div 4096 = c div 64 div 64" and div_262144: "(c :: nat) div 262144 = c div 64 div 64 div 64"
  by (simp_all flip: div_mult2_eq)

lemma utf8_two: "0x80 \<le> c \<Longrightarrow> c < 0x800 \<Longrightarrow> utf8 (utf8_char c @ t) = c # utf8 t"
proof -
  assume c: "0x80 \<le> c" "c < 0x800"
  have h: "2 \<le> c div 64" "c div 64 < 32" using c by (auto simp: less_eq_div_iff_mult_less_eq div_less_iff_less_mult)
  have "utf8_lead (0xC0 + c div 64) = Some (1, 0x80, 0xBF, c div 64)"
    using h mod_small_add [of 32 "0xC0" "c div 64"] by (simp add: utf8_lead_def)
  then show ?thesis using c h mod_small_add [of 64 "0x80" "c mod 64"] by (simp add: utf8_char_def)
qed

lemma utf8_three: "0x800 \<le> c \<Longrightarrow> c < 0x10000 \<Longrightarrow> scalar c \<Longrightarrow> utf8 (utf8_char c @ t) = c # utf8 t"
proof -
  assume c: "0x800 \<le> c" "c < 0x10000" "scalar c"
  define h m l where d: "h = c div 4096" "m = c div 64 mod 64" "l = c mod 64"
  have e: "c = h * 4096 + m * 64 + l" unfolding d div_4096 using div_mult_mod_eq [of "c div 64" 64] div_mult_mod_eq [of c 64] by linarith
  have b: "m < 64" "l < 64" "h < 16" using c(2) by (simp_all add: d div_less_iff_less_mult)
  have lead: "\<exists>lo hi. utf8_lead (0xE0 + h) = Some (2, lo, hi, h) \<and> lo \<le> 0x80 + m \<and> 0x80 + m \<le> hi \<and> hi \<le> 0xBF"
  proof -
    consider "h = 0" | "h = 13" | "h \<noteq> 0" "h \<noteq> 13" by blast
    then show ?thesis
    proof cases
      case 1
      then have "32 \<le> m" using c(1) e b by simp
      then show ?thesis using 1 b by (simp add: utf8_lead_def)
    next
      case 2
      then have "m \<le> 31" using c(3) e b by (simp add: scalar_def)
      then show ?thesis using 2 b by (simp add: utf8_lead_def)
    next
      case 3
      then show ?thesis using b mod_small_add [of 16 "0xE0" h] by (simp add: utf8_lead_def)
    qed
  qed
  have "utf8_char c = [0xE0 + h, 0x80 + m, 0x80 + l]" using c by (simp add: utf8_char_def d)
  then show ?thesis using lead b mod_small_add [of 64 "0x80" m] mod_small_add [of 64 "0x80" l] e by (auto simp: numeral_2_eq_2 ring_distribs)
qed

lemma utf8_four: "0x10000 \<le> c \<Longrightarrow> c < 0x110000 \<Longrightarrow> utf8 (utf8_char c @ t) = c # utf8 t"
proof -
  assume c: "0x10000 \<le> c" "c < 0x110000"
  define g h m l where d: "g = c div 262144" "h = c div 4096 mod 64" "m = c div 64 mod 64" "l = c mod 64"
  have e: "c = g * 262144 + h * 4096 + m * 64 + l"
    unfolding d div_4096 div_262144
    using div_mult_mod_eq [of "c div 64 div 64" 64] div_mult_mod_eq [of "c div 64" 64] div_mult_mod_eq [of c 64]
    by linarith
  have b: "h < 64" "m < 64" "l < 64" "g < 5" using c(2) by (simp_all add: d div_less_iff_less_mult)
  have lead: "\<exists>lo hi. utf8_lead (0xF0 + g) = Some (3, lo, hi, g) \<and> lo \<le> 0x80 + h \<and> 0x80 + h \<le> hi \<and> hi \<le> 0xBF"
  proof -
    consider "g = 0" | "g = 4" | "g \<noteq> 0" "g \<noteq> 4" by blast
    then show ?thesis
    proof cases
      case 1
      then have "16 \<le> h" using c(1) e b by simp
      then show ?thesis using 1 b by (simp add: utf8_lead_def)
    next
      case 2
      then have "h \<le> 15" using c(2) e b by simp
      then show ?thesis using 2 b by (simp add: utf8_lead_def)
    next
      case 3
      then show ?thesis using b mod_small_add [of 8 "0xF0" g] by (simp add: utf8_lead_def)
    qed
  qed
  have "utf8_char c = [0xF0 + g, 0x80 + h, 0x80 + m, 0x80 + l]" using c by (simp add: utf8_char_def d)
  then show ?thesis using lead b mod_small_add [of 64 "0x80" h] mod_small_add [of 64 "0x80" m] mod_small_add [of 64 "0x80" l] e
    by (auto simp: numeral_3_eq_3 ring_distribs)
qed

lemma utf8_one_char: "scalar c \<Longrightarrow> utf8 (utf8_char c @ t) = c # utf8 t"
  using utf8_two [of c t] utf8_three [of c t] utf8_four [of c t] by (cases "c < 0x80") (auto simp: scalar_def utf8_char_def [of c])

lemma utf8_char_byte: "scalar c \<Longrightarrow> b \<in> set (utf8_char c) \<Longrightarrow> b < 256"
  by (auto simp: scalar_def utf8_char_def div_less_iff_less_mult split: if_splits)

lemma utf8_roundtrip: "list_all scalar t \<Longrightarrow> decode_utf8 (encode_utf8 t) = t"
proof -
  assume s: "list_all scalar t"
  have bytes: "map unat (map (of_nat :: nat \<Rightarrow> byte) xs) = xs" if "\<forall>b \<in> set xs. b < 256" for xs
    using that by (induction xs) (simp_all add: unat_of_nat)
  have "\<forall>b \<in> set (concat (map utf8_char t)). b < 256" using s utf8_char_byte by (auto simp: list_all_iff)
  from bytes [OF this] have "map unat (encode_utf8 t) = concat (map utf8_char t)" unfolding encode_utf8_def .
  moreover have "utf8 (concat (map utf8_char t)) = t" using s by (induction t) (simp_all add: utf8_one_char)
  ultimately show ?thesis by (simp add: decode_utf8_def)
qed

lemma utf8_tail_range:
  "fst (utf8_tail (Suc n) lo hi acc bs) = Some c \<Longrightarrow> 0x80 \<le> lo \<Longrightarrow> hi \<le> 0xBF \<Longrightarrow>
    (acc * 64 + (lo - 0x80)) * 64 ^ n \<le> c \<and> c < (acc * 64 + (hi - 0x80) + 1) * 64 ^ n"
proof (induction n arbitrary: lo hi acc bs)
  case 0
  then obtain b r where b: "bs = b # r" "lo \<le> b" "b \<le> hi" "c = acc * 64 + b mod 64" by (cases bs) (auto split: if_splits)
  then have "b mod 64 = b - 0x80" using 0 mod_small_add [of 64 "0x80" "b - 0x80"] by simp
  then show ?case using b 0 by auto
next
  case (Suc n)
  then obtain b r where b: "bs = b # r" "lo \<le> b" "b \<le> hi" "fst (utf8_tail (Suc n) 0x80 0xBF (acc * 64 + b mod 64) r) = Some c"
    by (cases bs) (auto split: if_splits)
  have m: "b mod 64 = b - 0x80" using b Suc.prems mod_small_add [of 64 "0x80" "b - 0x80"] by simp
  have "(acc * 64 + (b - 0x80)) * 64 * 64 ^ n \<le> c" "c < ((acc * 64 + (b - 0x80)) * 64 + 64) * 64 ^ n"
    using Suc.IH [OF b(4)] m by (simp_all add: add.commute)
  moreover have "(acc * 64 + (lo - 0x80)) * 64 ^ Suc n \<le> (acc * 64 + (b - 0x80)) * 64 * 64 ^ n"
    using b by (simp add: mult.assoc mult.commute [of "64 ^ n"])
  moreover have "((acc * 64 + (b - 0x80)) * 64 + 64) * 64 ^ n \<le> (acc * 64 + (hi - 0x80) + 1) * 64 ^ Suc n"
  proof -
    have "acc * 64 + (b - 0x80) + 1 \<le> acc * 64 + (hi - 0x80) + 1" using b by simp
    then have "(acc * 64 + (b - 0x80) + 1) * (64 * 64 ^ n) \<le> (acc * 64 + (hi - 0x80) + 1) * (64 * 64 ^ n)" by (rule mult_le_mono1)
    then show ?thesis by (simp add: algebra_simps)
  qed
  ultimately show ?case by linarith
qed

lemma utf8_lead_scalar:
  assumes "utf8_lead b = Some (n, lo, hi, acc)" "fst (utf8_tail n lo hi acc bs) = Some c"
  shows "scalar c"
proof -
  have b16: "b mod 16 = b - 0xE0" if "0xE0 \<le> b" "b \<le> 0xEF" using that mod_small_add [of 16 "0xE0" "b - 0xE0"] by simp
  have b8: "b mod 8 = b - 0xF0" if "0xF0 \<le> b" "b < 0xF8" using that mod_small_add [of 8 "0xF0" "b - 0xF0"] by simp
  have cases: "0x80 \<le> lo \<and> hi \<le> 0xBF \<and>
    (n = Suc 0 \<and> acc < 32 \<or> n = Suc (Suc 0) \<and> acc = 13 \<and> hi = 0x9F \<or> n = Suc (Suc 0) \<and> acc < 13 \<or>
     n = Suc (Suc 0) \<and> 14 \<le> acc \<and> acc < 16 \<or> n = Suc (Suc (Suc 0)) \<and> acc = 0 \<and> lo = 0x90 \<or>
     n = Suc (Suc (Suc 0)) \<and> 0 < acc \<and> acc < 4 \<or> n = Suc (Suc (Suc 0)) \<and> acc = 4 \<and> hi = 0x8F)"
    using assms(1) b16 b8 by (auto simp: utf8_lead_def numeral_2_eq_2 numeral_3_eq_3 split: if_splits)
  then obtain k where k: "n = Suc k" by auto
  have r: "(acc * 64 + (lo - 0x80)) * 64 ^ k \<le> c" "c < (acc * 64 + (hi - 0x80) + 1) * 64 ^ k"
    using utf8_tail_range [of k lo hi acc bs c] assms(2) cases by (simp_all add: k)
  from cases show ?thesis using r unfolding k scalar_def by (elim conjE disjE) (simp_all, linarith+)
qed

lemma utf8_scalars: "list_all scalar (utf8 bs)"
proof (induction bs rule: utf8.induct)
  case (2 b bs)
  then show ?case
    using utf8_lead_scalar [of b _ _ _ _ bs] by (auto simp: scalar_def split: option.split prod.split)
qed simp

text \<open>Decoding as \<open>open\<close> does it by default: text that is not UTF-8 raises.\<close>

definition decode_strict :: "byte list \<Rightarrow> utext result" where
  "decode_strict bs = (if encode_utf8 (decode_utf8 bs) = bs then Inr (decode_utf8 bs) else Inl UnicodeError)"

lemma decode_scalars: "decode_strict bs = Inr t \<Longrightarrow> list_all scalar t"
  using utf8_scalars [of "map unat bs"] by (auto simp: decode_strict_def decode_utf8_def split: if_splits)

lemma decode_encode: "list_all scalar t \<Longrightarrow> decode_strict (encode_utf8 t) = Inr t"
  by (simp add: decode_strict_def utf8_roundtrip)

lemma text_mode_chars: "13 \<notin> set (text_mode t) \<and> set (text_mode t) \<subseteq> insert 10 (set t)"
  by (induction t rule: text_mode.induct) auto

lemma text_mode_id: "13 \<notin> set t \<Longrightarrow> text_mode t = t"
  by (induction t rule: text_mode.induct) auto

lemma plain_codes: "CHR 0x0D \<notin> set k \<Longrightarrow> rmap text_mode (decode_strict (encode_utf8 (codes k))) = Inr (codes k)"
proof -
  assume k: "CHR 0x0D \<notin> set k"
  have cr: "13 = (of_char CHR 0x0D :: nat)" by simp
  have "13 \<notin> set (codes k)" unfolding codes_def set_map cr using k by (simp only: inj_image_mem_iff [OF inj_of_char] simp_thms)
  moreover have "scalar (of_char c)" for c :: char using nat_of_char_less_256 [of c] unfolding scalar_def by linarith
  ultimately show ?thesis by (simp add: decode_encode text_mode_id codes_def list_all_iff)
qed

end
