(* ===== verification/Board_Port.thy ===== *)
theory Board_Port
  imports Upload_Device Utf8_Text "HOL-Library.List_Lexorder"
begin

text \<open>
  The board's side of \<^verbatim>\<open>src/tools/vux_tool.py\<close>: finding and opening the UART's port, making the USB bridge run at the
  port's rate, the warning about ModemManager and the dispatch of the serial commands. The operating system, pyserial and
  pyftdi are parameters: records of the operations that the code calls. Texts and paths are lists of code points, times
  are microseconds.
\<close>

section \<open>Paths\<close>

abbreviation slash :: nat where "slash \<equiv> 47"

definition join_path :: "utext \<Rightarrow> utext \<Rightarrow> utext" where
  "join_path a b = (if starts [slash] b then b else if a = [] \<or> ends [slash] a then a @ b else a @ [slash] @ b)"

definition basename :: "utext \<Rightarrow> utext" where
  "basename p = rev (takeWhile (\<lambda>c. c \<noteq> slash) (rev p))"

definition dirname :: "utext \<Rightarrow> utext" where
  "dirname p =
     (let head = rev (dropWhile (\<lambda>c. c \<noteq> slash) (rev p))
      in if list_all (\<lambda>c. c = slash) head then head else rev (dropWhile (\<lambda>c. c = slash) (rev head)))"

lemma rev_dropWhile_prefix: "\<exists>x. p = rev (dropWhile P (rev p)) @ x"
  by (rule exI [of _ "rev (takeWhile P (rev p))"]) (simp flip: rev_append)

lemma dirname_shorter:
  assumes "dirname p \<noteq> p"
  shows "length (dirname p) < length p"
proof -
  define h where "h = rev (dropWhile (\<lambda>c. c \<noteq> slash) (rev p))"
  obtain x where x: "p = h @ x" using rev_dropWhile_prefix [of p "\<lambda>c. c \<noteq> slash"] unfolding h_def by blast
  obtain y where "h = rev (dropWhile (\<lambda>c. c = slash) (rev h)) @ y" using rev_dropWhile_prefix [of h "\<lambda>c. c = slash"] by blast
  moreover have "dirname p = (if list_all (\<lambda>c. c = slash) h then h else rev (dropWhile (\<lambda>c. c = slash) (rev h)))"
    by (simp add: dirname_def Let_def h_def)
  ultimately have "dirname p = h \<or> h = dirname p @ y" by presburger
  then have "\<exists>x. p = dirname p @ x" using x by (metis append.assoc)
  then obtain z where z: "p = dirname p @ z" by blast
  then have "z \<noteq> []" using assms by auto
  then have "length (dirname p) < length (dirname p @ z)" by simp
  then show ?thesis using z by simp
qed

section \<open>The operating system\<close>

record 'w host_os =
  os_listdir :: "utext \<Rightarrow> 'w \<Rightarrow> utext list result"
  os_exists :: "utext \<Rightarrow> 'w \<Rightarrow> bool"
  os_isfile :: "utext \<Rightarrow> 'w \<Rightarrow> bool"
  os_isdir :: "utext \<Rightarrow> 'w \<Rightarrow> bool"
  os_realpath :: "utext \<Rightarrow> 'w \<Rightarrow> utext"
  os_glob :: "utext \<Rightarrow> 'w \<Rightarrow> utext list"
  os_file :: "utext \<Rightarrow> 'w \<Rightarrow> byte list option"
  os_now :: "'w \<Rightarrow> int"
  os_sleep :: "int \<Rightarrow> 'w \<Rightarrow> 'w"

text \<open>
  \<open>os_file\<close> gives a file's bytes, or nothing where opening or reading it raises \<open>OSError\<close>; the errors of \<open>os_listdir\<close> are
  \<open>OSError\<close>s too. Reading takes no time in the model; sleeping does. \<open>str.lower\<close>: of the code points outside ASCII only two have an ASCII letter in their lower case; the others are left
  as they are, which a search for an ASCII text does not tell.
\<close>

definition lower_case :: "utext \<Rightarrow> utext" where
  "lower_case t = concat (map (\<lambda>c.
     if 65 \<le> c \<and> c \<le> 90 then [c + 32] else if c = 0x130 then [105, 0x307] else if c = 0x212A then [107] else [c]) t)"

definition uart_interface :: "utext \<Rightarrow> bool" where
  "uart_interface e \<longleftrightarrow> occurs (codes ''if01'') e \<or> occurs (codes ''if1'') e"

definition board_name :: "utext \<Rightarrow> bool" where
  "board_name e \<longleftrightarrow> occurs (codes ''sipeed'') e \<or> occurs (codes ''debugger'') e \<or> occurs (codes ''tang'') e \<or> occurs (codes ''gowin'') e"

definition find_tangnano_uart_port :: "'w host_os \<Rightarrow> 'w \<Rightarrow> utext option" where
  "find_tangnano_uart_port os w =
     (let by_id_dir = codes ''/dev/serial/by-id'';
          entries = (if os_exists os by_id_dir w then (case os_listdir os by_id_dir w of Inl e \<Rightarrow> [] | Inr es \<Rightarrow> es) else []);
          first = (\<lambda>P. List.find (\<lambda>e. P (lower_case e)) entries)
      in case first (\<lambda>e. board_name e \<and> uart_interface e) of
           Some e \<Rightarrow> Some (join_path by_id_dir e)
         | None \<Rightarrow> (case first (\<lambda>e. \<not> occurs (codes ''ft232r'') e \<and> uart_interface e) of
             Some e \<Rightarrow> Some (join_path by_id_dir e)
           | None \<Rightarrow> if os_exists os (codes ''/dev/ttyUSB3'') w then Some (codes ''/dev/ttyUSB3'') else None))"

section \<open>ModemManager\<close>

text \<open>A file is read as text, strictly: \<open>OSError\<close> gives the empty text, bytes that are not UTF-8 raise.\<close>

definition read_text :: "'w host_os \<Rightarrow> utext \<Rightarrow> 'w \<Rightarrow> utext result" where
  "read_text os path w = (case os_file os path w of None \<Rightarrow> Inr [] | Some bs \<Rightarrow> rmap text_mode (decode_strict bs))"

definition join_all :: "utext \<Rightarrow> utext list \<Rightarrow> utext" where
  "join_all p ps = foldl join_path p ps"

text \<open>The names under \<open>/proc\<close> are ASCII, where \<open>str.isdigit\<close> asks for the digits alone.\<close>

definition is_pid :: "utext \<Rightarrow> bool" where
  "is_pid p \<longleftrightarrow> p \<noteq> [] \<and> list_all (\<lambda>c. 48 \<le> c \<and> c \<le> 57) p"

text \<open>\<open>any\<close> over the processes: it stops at the first that is ModemManager, or at the first name that cannot be read.\<close>

fun any_mm :: "'w host_os \<Rightarrow> utext \<Rightarrow> 'w \<Rightarrow> utext list \<Rightarrow> bool result" where
  "any_mm os proc w [] = Inr False"
| "any_mm os proc w (p # ps) =
     rbind (read_text os (join_all proc [p, codes ''comm'']) w)
       (\<lambda>t. if strip t = codes ''ModemManager'' then Inr True else any_mm os proc w ps)"

definition mm_running :: "'w host_os \<Rightarrow> utext \<Rightarrow> 'w \<Rightarrow> bool result" where
  "mm_running os proc w = (case os_listdir os proc w of Inl e \<Rightarrow> Inr False | Inr ps \<Rightarrow> any_mm os proc w (filter is_pid ps))"

function usb_parent :: "'w host_os \<Rightarrow> 'w \<Rightarrow> utext \<Rightarrow> utext" where
  "usb_parent os w dev =
     (if dev \<noteq> dirname dev \<and> \<not> os_isfile os (join_path dev (codes ''idVendor'')) w then usb_parent os w (dirname dev) else dev)"
  by pat_completeness auto
termination
  by (relation "measure (\<lambda>(os, w, dev). length dev)") (auto intro: dirname_shorter [OF not_sym])

declare usb_parent.simps [simp del]

lemma usb_parent_stop: "os_isfile os (join_path dev (codes ''idVendor'')) w \<Longrightarrow> usb_parent os w dev = dev"
  by (subst usb_parent.simps) simp

lemma usb_parent_up: "dev \<noteq> dirname dev \<Longrightarrow> \<not> os_isfile os (join_path dev (codes ''idVendor'')) w \<Longrightarrow>
    usb_parent os w dev = usb_parent os w (dirname dev)"
  by (subst usb_parent.simps) simp

definition usb_device :: "'w host_os \<Rightarrow> utext \<Rightarrow> utext \<Rightarrow> 'w \<Rightarrow> utext option" where
  "usb_device os sysfs tty w =
     (let name = basename (os_realpath os tty w);
          dev = usb_parent os w (os_realpath os (join_all sysfs [codes ''class'', codes ''tty'', name, codes ''device'']) w)
      in if os_isfile os (join_path dev (codes ''idVendor'')) w then Some dev else None)"

definition device_ttys :: "'w host_os \<Rightarrow> utext \<Rightarrow> 'w \<Rightarrow> utext list" where
  "device_ttys os dev w = sorted_list_of_set (set (map basename (os_glob os (join_all dev (map codes [''*'', ''*'', ''tty'', ''*''])) w)))"

definition tty_props :: "'w host_os \<Rightarrow> utext \<Rightarrow> utext \<Rightarrow> 'w \<Rightarrow> utext \<Rightarrow> utext list result" where
  "tty_props os sysfs run w t =
     rbind (read_text os (join_all sysfs [codes ''class'', codes ''tty'', t, codes ''dev'']) w) (\<lambda>dev.
       let devno = strip dev
       in if devno \<noteq> [] then rmap splitlines (read_text os (join_all run [codes ''udev'', codes ''data'', codes ''c'' @ devno]) w) else Inr [])"

definition ignores :: "utext list \<Rightarrow> bool" where
  "ignores props \<longleftrightarrow> {codes ''E:ID_MM_DEVICE_IGNORE=1'', codes ''E:ID_MM_PORT_IGNORE=1''} \<inter> set props \<noteq> {}"

text \<open>A pass over the ttys: those ModemManager may probe, and those without data.\<close>

fun scan_ttys :: "'w host_os \<Rightarrow> utext \<Rightarrow> utext \<Rightarrow> 'w \<Rightarrow> utext list \<Rightarrow> (utext list \<times> utext list) result" where
  "scan_ttys os sysfs run w [] = Inr ([], [])"
| "scan_ttys os sysfs run w (t # ts) =
     rbind (tty_props os sysfs run w t) (\<lambda>props.
       rmap (\<lambda>(probed, unknown). if props = [] then (probed, t # unknown) else if \<not> ignores props then (t # probed, unknown) else (probed, unknown))
         (scan_ttys os sysfs run w ts))"

partial_function (option) settle_ttys :: "'w host_os \<Rightarrow> utext \<Rightarrow> utext \<Rightarrow> utext list \<Rightarrow> int \<Rightarrow> 'w \<Rightarrow> ('w, utext list \<times> utext list) outcome" where
  "settle_ttys os sysfs run ttys deadline w =
     (case scan_ttys os sysfs run w ttys of
        Inl e \<Rightarrow> Some (Inl e, w)
      | Inr (probed, unknown) \<Rightarrow>
          if unknown = [] \<or> deadline \<le> os_now os w then Some (Inr (probed, unknown), w)
          else settle_ttys os sysfs run ttys deadline (os_sleep os 10000 w))"

fun comma :: "utext list \<Rightarrow> utext" where
  "comma [] = []"
| "comma [t] = t"
| "comma (t # ts) = t @ codes '', '' @ comma ts"

definition hint_text :: "utext list \<Rightarrow> utext list \<Rightarrow> utext" where
  "hint_text probed unknown =
     (if probed = [] \<and> unknown = [] then []
      else let why = (if probed \<noteq> [] then codes ''may probe the board's '' @ comma probed else []);
               why = (if unknown \<noteq> [] then why @ (if why \<noteq> [] then codes ''; '' else []) @
                  codes ''can't tell whether it ignores '' @ comma unknown @ codes '' (no udev data readable)'' else why)
           in codes ''ModemManager is running and '' @ why @ codes '': its probe sets 57600 baud, which the board's USB bridge applies to the board's UART and garbles its output. Install tools/70-vux9k-board.rules (instructions in the file) or stop ModemManager.'')"

definition modemmanager_hint :: "'w host_os \<Rightarrow> utext \<Rightarrow> utext \<Rightarrow> utext \<Rightarrow> utext \<Rightarrow> int \<Rightarrow> 'w \<Rightarrow> ('w, utext) outcome" where
  "modemmanager_hint os tty sysfs run proc settle w =
     (case mm_running os proc w of
        Inl e \<Rightarrow> Some (Inl e, w)
      | Inr running \<Rightarrow>
          if \<not> running then Some (Inr [], w)
          else case usb_device os sysfs tty w of
            None \<Rightarrow> Some (Inr [], w)
          | Some dev \<Rightarrow>
              let ttys = device_ttys os dev w;
                  deadline = (if os_isdir os (join_all run [codes ''udev'', codes ''data'']) w then os_now os w + settle else 0)
              in io_bind (settle_ttys os sysfs run ttys deadline w) (\<lambda>(probed, unknown) w. Some (Inr (hint_text probed unknown), w)))"

lemma settle_ends:
  assumes clock: "\<And>d w. 0 < d \<Longrightarrow> os_now os w + d \<le> os_now os (os_sleep os d w) \<and> os_now os (os_sleep os d w) \<le> os_now os w + d + late"
  shows "\<exists>w'. settle_ttys os sysfs run ttys deadline w = Some (scan_ttys os sysfs run w' ttys, w') \<and>
    (\<forall>probed unknown. scan_ttys os sysfs run w' ttys = Inr (probed, unknown) \<longrightarrow> unknown = [] \<or> deadline \<le> os_now os w') \<and>
    os_now os w \<le> os_now os w' \<and> os_now os w' \<le> max (os_now os w) (deadline + 10000 + late) \<and>
    (deadline \<le> os_now os w \<longrightarrow> w' = w)"
proof (induction "nat (deadline - os_now os w)" arbitrary: w rule: less_induct)
  case less
  let ?s = "os_sleep os 10000 w"
  have c: "os_now os w + 10000 \<le> os_now os ?s" "os_now os ?s \<le> os_now os w + 10000 + late" using clock [of 10000 w] by simp_all
  consider e where "scan_ttys os sysfs run w ttys = Inl e"
    | probed unknown where "scan_ttys os sysfs run w ttys = Inr (probed, unknown)" "unknown = [] \<or> deadline \<le> os_now os w"
    | probed unknown where "scan_ttys os sysfs run w ttys = Inr (probed, unknown)" "unknown \<noteq> []" "os_now os w < deadline"
    by (cases "scan_ttys os sysfs run w ttys") (auto simp: not_le [symmetric])
  then show ?case
  proof cases
    case 3
    then have "nat (deadline - os_now os ?s) < nat (deadline - os_now os w)" using c by simp
    from less.hyps [OF this] obtain w' where "settle_ttys os sysfs run ttys deadline ?s = Some (scan_ttys os sysfs run w' ttys, w')"
      "\<forall>probed unknown. scan_ttys os sysfs run w' ttys = Inr (probed, unknown) \<longrightarrow> unknown = [] \<or> deadline \<le> os_now os w'"
      "os_now os ?s \<le> os_now os w'" "os_now os w' \<le> max (os_now os ?s) (deadline + 10000 + late)" by blast
    moreover have "settle_ttys os sysfs run ttys deadline w = settle_ttys os sysfs run ttys deadline ?s"
      using 3 by (subst settle_ttys.simps) simp
    ultimately show ?thesis using 3 c by (intro exI [of _ w']) (auto simp: max_def split: if_splits)
  qed (subst settle_ttys.simps; auto)+
qed

lemma hint_text_Nil: "hint_text probed unknown = [] \<longleftrightarrow> probed = [] \<and> unknown = []"
  by (simp add: hint_text_def Let_def codes_def)

lemma scan_result:
  "case scan_ttys os sysfs run w ttys of
     Inr (probed, unknown) \<Rightarrow> list_all (\<lambda>t. \<exists>props. tty_props os sysfs run w t = Inr props) ttys \<and>
       probed = filter (\<lambda>t. \<exists>props. tty_props os sysfs run w t = Inr props \<and> props \<noteq> [] \<and> \<not> ignores props) ttys \<and>
       unknown = filter (\<lambda>t. tty_props os sysfs run w t = Inr []) ttys
   | Inl e \<Rightarrow> list_ex (\<lambda>t. tty_props os sysfs run w t = Inl e) ttys"
proof (induction ttys)
  case (Cons t ts)
  then show ?case
    by (cases "tty_props os sysfs run w t"; cases "scan_ttys os sysfs run w ts") (auto simp: rbind_def rmap_def ignores_def)
qed simp

lemma scan_silent:
  assumes "scan_ttys os sysfs run w ttys = Inr (probed, unknown)"
  shows "probed = [] \<and> unknown = [] \<longleftrightarrow> list_all (\<lambda>t. \<exists>props. tty_props os sysfs run w t = Inr props \<and> ignores props) ttys"
proof -
  have "\<not> ignores []" by (simp add: ignores_def)
  then show ?thesis using scan_result [of os sysfs run w ttys] assms
    by (auto simp: filter_empty_conv list_all_iff) (metis sum.inject(2))+
qed

text \<open>What raises: a file that is not UTF-8.\<close>

definition not_text :: "'w host_os \<Rightarrow> 'w \<Rightarrow> utext \<Rightarrow> bool" where
  "not_text os w path \<longleftrightarrow> (\<exists>bs. os_file os path w = Some bs \<and> (\<nexists>t. list_all scalar t \<and> bs = encode_utf8 t))"

lemma read_raises: "read_text os path w = Inl e \<longleftrightarrow> e = UnicodeError \<and> not_text os w path"
proof -
  have "decode_strict bs = Inl e \<longleftrightarrow> e = UnicodeError \<and> (\<nexists>t. list_all scalar t \<and> bs = encode_utf8 t)" for bs
  proof (cases "decode_strict bs")
    case (Inl e')
    then have "\<nexists>t. list_all scalar t \<and> bs = encode_utf8 t" using decode_encode by auto
    moreover have "e' = UnicodeError" using Inl by (simp add: decode_strict_def split: if_splits)
    ultimately show ?thesis using Inl by auto
  next
    case (Inr t)
    then have "list_all scalar t" "bs = encode_utf8 t" using decode_scalars by (auto simp: decode_strict_def split: if_splits)
    then show ?thesis using Inr by auto
  qed
  moreover have "rmap text_mode m = Inl e \<longleftrightarrow> m = Inl e" for m by (cases m) (simp_all add: rmap_def)
  ultimately show ?thesis by (simp add: read_text_def not_text_def split: option.split)
qed

lemma props_raise: "tty_props os sysfs run w t = Inl e \<Longrightarrow> e = UnicodeError \<and> (\<exists>path. not_text os w path)"
  by (auto simp: tty_props_def rbind_def rmap_def Let_def read_raises split: sum.splits if_splits)

definition process_names :: "'w host_os \<Rightarrow> utext \<Rightarrow> 'w \<Rightarrow> utext list" where
  "process_names os proc w = (case os_listdir os proc w of Inl e \<Rightarrow> [] | Inr names \<Rightarrow> map (\<lambda>p. join_all proc [p, codes ''comm'']) (filter is_pid names))"

definition named_mm :: "'w host_os \<Rightarrow> 'w \<Rightarrow> utext \<Rightarrow> bool" where
  "named_mm os w path \<longleftrightarrow> (\<exists>t. read_text os path w = Inr t \<and> strip t = codes ''ModemManager'')"

definition name_unreadable :: "'w host_os \<Rightarrow> utext \<Rightarrow> 'w \<Rightarrow> bool" where
  "name_unreadable os proc w \<longleftrightarrow> (\<exists>before path after. process_names os proc w = before @ path # after \<and>
     not_text os w path \<and> list_all (\<lambda>q. \<not> named_mm os w q) before)"

lemma any_mm_raises:
  "any_mm os proc w ps = Inl e \<Longrightarrow> e = UnicodeError \<and>
     (\<exists>before path after. map (\<lambda>p. join_all proc [p, codes ''comm'']) ps = before @ path # after \<and> not_text os w path \<and>
        list_all (\<lambda>q. \<not> named_mm os w q) before)"
proof (induction ps)
  case (Cons p ps)
  let ?c = "\<lambda>p. join_all proc [p, codes ''comm'']"
  show ?case
  proof (cases "read_text os (?c p) w")
    case (Inl e')
    then have "e = UnicodeError" "not_text os w (?c p)" using Cons.prems read_raises [of os "?c p" w e'] by (simp_all add: rbind_def)
    moreover have "map ?c (p # ps) = [] @ ?c p # map ?c ps" by simp
    moreover have "list_all (\<lambda>q. \<not> named_mm os w q) []" by simp
    ultimately show ?thesis by blast
  next
    case (Inr t)
    then have n: "\<not> named_mm os w (?c p)" "any_mm os proc w ps = Inl e" using Cons.prems by (auto simp: rbind_def named_mm_def split: if_splits)
    then obtain before path after where b: "e = UnicodeError" "map ?c ps = before @ path # after" "not_text os w path"
      "list_all (\<lambda>q. \<not> named_mm os w q) before" using Cons.IH by blast
    have "map ?c (p # ps) = (?c p # before) @ path # after" using b(2) by simp
    moreover have "list_all (\<lambda>q. \<not> named_mm os w q) (?c p # before)" using b(4) n(1) by simp
    ultimately show ?thesis using b(1,3) by blast
  qed
qed simp

lemma any_mm_found:
  "any_mm os proc w ps = Inr b \<Longrightarrow> (b \<longleftrightarrow> list_ex (named_mm os w) (map (\<lambda>p. join_all proc [p, codes ''comm'']) ps)) \<and>
     (\<forall>before path after. map (\<lambda>p. join_all proc [p, codes ''comm'']) ps = before @ path # after \<and> not_text os w path \<longrightarrow>
        list_ex (named_mm os w) before)"
proof (induction ps)
  case (Cons p ps)
  let ?c = "\<lambda>p. join_all proc [p, codes ''comm'']"
  obtain t where t: "read_text os (?c p) w = Inr t" using Cons.prems by (cases "read_text os (?c p) w") (auto simp: rbind_def)
  then have n: "\<not> not_text os w (?c p)" using read_raises [of os "?c p" w UnicodeError] by auto
  show ?case
  proof (cases "strip t = codes ''ModemManager''")
    case True
    then have "named_mm os w (?c p)" using t by (simp add: named_mm_def)
    then show ?thesis using Cons.prems t True n by (auto simp: rbind_def Cons_eq_append_conv)
  next
    case False
    then have "\<not> named_mm os w (?c p)" using t by (simp add: named_mm_def)
    then show ?thesis using Cons t False n by (auto simp: rbind_def Cons_eq_append_conv)
  qed
qed simp

lemma mm_running_spec:
  "mm_running os proc w = (if name_unreadable os proc w then Inl UnicodeError else Inr (list_ex (named_mm os w) (process_names os proc w)))"
proof -
  obtain ps where ps: "mm_running os proc w = any_mm os proc w ps" "process_names os proc w = map (\<lambda>p. join_all proc [p, codes ''comm'']) ps"
    by (cases "os_listdir os proc w") (force simp: mm_running_def process_names_def)+
  have no: "\<not> (list_ex (named_mm os w) b \<and> list_all (\<lambda>q. \<not> named_mm os w q) b)" for b by (auto simp: list_ex_iff list_all_iff)
  show ?thesis
  proof (cases "any_mm os proc w ps")
    case (Inl e)
    then show ?thesis using any_mm_raises [OF Inl] ps by (auto simp: name_unreadable_def)
  next
    case (Inr b)
    then show ?thesis using any_mm_found [OF Inr] no ps by (fastforce simp: name_unreadable_def)
  qed
qed

text \<open>The check's outcome when ModemManager runs and the port is the USB device \<open>dev\<close>'s.\<close>

lemma probed_outcome:
  fixes run :: utext
  assumes clock: "\<And>d w. 0 < d \<Longrightarrow> os_now os w + d \<le> os_now os (os_sleep os d w) \<and> os_now os (os_sleep os d w) \<le> os_now os w + d + late"
    and "0 \<le> settle" "0 \<le> late" "0 \<le> os_now os w" and dev: "mm_running os proc w = Inr True" "usb_device os sysfs tty w = Some dev"
  defines "ttys \<equiv> device_ttys os dev w" and "db \<equiv> os_isdir os (join_all run [codes ''udev'', codes ''data'']) w"
  shows "\<exists>r w'. modemmanager_hint os tty sysfs run proc settle w = Some (r, w') \<and> os_now os w' \<le> os_now os w + settle + 10000 + late \<and>
    (case r of
       Inl e \<Rightarrow> e = UnicodeError \<and> (\<exists>t \<in> set ttys. tty_props os sysfs run w' t = Inl UnicodeError) \<and> (\<exists>path. not_text os w' path)
     | Inr hint \<Rightarrow> (hint = [] \<longleftrightarrow> (\<forall>t \<in> set ttys. \<exists>props. tty_props os sysfs run w' t = Inr props \<and> ignores props)) \<and>
         ((\<exists>t \<in> set ttys. tty_props os sysfs run w' t = Inr []) \<longrightarrow> (if db then os_now os w + settle \<le> os_now os w' else w' = w)))"
proof -
  let ?d = "if db then os_now os w + settle else 0"
  obtain w' where w: "settle_ttys os sysfs run ttys ?d w = Some (scan_ttys os sysfs run w' ttys, w')"
    "\<forall>probed unknown. scan_ttys os sysfs run w' ttys = Inr (probed, unknown) \<longrightarrow> unknown = [] \<or> ?d \<le> os_now os w'"
    "os_now os w' \<le> max (os_now os w) (?d + 10000 + late)" "?d \<le> os_now os w \<longrightarrow> w' = w"
    using settle_ends [OF clock] by blast
  have late: "os_now os w' \<le> os_now os w + settle + 10000 + late" using w(3,4) assms(2-4) by (auto split: if_splits)
  have m: "modemmanager_hint os tty sysfs run proc settle w =
      io_bind (settle_ttys os sysfs run ttys ?d w) (\<lambda>(probed, unknown) w. Some (Inr (hint_text probed unknown), w))"
    by (simp add: modemmanager_hint_def dev Let_def ttys_def db_def)
  show ?thesis
  proof (cases "scan_ttys os sysfs run w' ttys")
    case (Inl e)
    then obtain t where t: "t \<in> set ttys" "tty_props os sysfs run w' t = Inl e" using scan_result [of os sysfs run w' ttys] by (auto simp: list_ex_iff)
    then show ?thesis unfolding m using w(1) late Inl props_raise [OF t(2)]
      by (intro exI [of _ "Inl e"] exI [of _ w']) (auto simp: io_bind_def)
  next
    case (Inr pu)
    obtain probed unknown where pu: "pu = (probed, unknown)" by (cases pu)
    have u: "unknown = filter (\<lambda>t. tty_props os sysfs run w' t = Inr []) ttys" using scan_result [of os sysfs run w' ttys] Inr pu by auto
    have t: "unknown = [] \<or> ?d \<le> os_now os w'" using w(2) Inr pu by blast
    have "if db then os_now os w + settle \<le> os_now os w' else w' = w" if "\<exists>t \<in> set ttys. tty_props os sysfs run w' t = Inr []"
      using that t w(4) assms(4) u by (auto simp: filter_empty_conv split: if_splits)
    then show ?thesis unfolding m using w(1) late Inr pu scan_silent [OF Inr [unfolded pu]]
      by (intro exI [of _ "Inr (hint_text probed unknown)"] exI [of _ w']) (simp add: io_bind_def hint_text_Nil list_all_iff)
  qed
qed


text \<open>A host where udev takes 20 ms to tell ModemManager to ignore the board's tty.\<close>

definition slow_udev :: "int host_os" where
  "slow_udev = \<lparr>
     os_listdir = (\<lambda>p w. if p = codes ''/proc'' then Inr [codes ''self'', codes ''7''] else Inl FileNotFoundError),
     os_exists = (\<lambda>p w. False),
     os_isfile = (\<lambda>p w. p = codes ''/sys/devices/usb1/idVendor''),
     os_isdir = (\<lambda>p w. True),
     os_realpath = (\<lambda>p w. if p = codes ''/sys/class/tty/ttyUSB1/device'' then codes ''/sys/devices/usb1/if0/ttyUSB1'' else p),
     os_glob = (\<lambda>p w. [codes ''/sys/devices/usb1/if0/ttyUSB1/tty/ttyUSB1'']),
     os_file = (\<lambda>p w. if p = codes ''/proc/7/comm'' then Some (encode_utf8 (codes (''ModemManager'' @ [CHR 0x0A])))
       else if p = codes ''/sys/class/tty/ttyUSB1/dev'' then Some (encode_utf8 (codes (''188:1'' @ [CHR 0x0A])))
       else if p = codes ''/run/udev/data/c188:1'' \<and> 20000 \<le> w then Some (encode_utf8 (codes ''E:ID_MM_PORT_IGNORE=1'')) else None),
     os_now = (\<lambda>w. w),
     os_sleep = (\<lambda>d w. w + d)\<rparr>"

lemmas slow_simps = usb_device_def device_ttys_def is_pid_def join_all_def join_path_def basename_def
  dirname_def splitlines.simps line_break_def strip_def white_def starts_def ends_def codes_def slow_udev_def Let_def

lemma slow_udev_parent: "usb_parent slow_udev 0 (codes ''/sys/devices/usb1/if0/ttyUSB1'') = codes ''/sys/devices/usb1''"
proof -
  have d: "dirname (codes ''/sys/devices/usb1/if0/ttyUSB1'') = codes ''/sys/devices/usb1/if0''"
    "dirname (codes ''/sys/devices/usb1/if0'') = codes ''/sys/devices/usb1''"
    by (simp_all add: slow_simps)
  have f: "os_isfile slow_udev (join_path (codes ''/sys/devices/usb1'') (codes ''idVendor'')) 0"
    "\<not> os_isfile slow_udev (join_path (codes ''/sys/devices/usb1/if0'') (codes ''idVendor'')) 0"
    "\<not> os_isfile slow_udev (join_path (codes ''/sys/devices/usb1/if0/ttyUSB1'') (codes ''idVendor'')) 0"
    by (simp_all add: slow_simps)
  have n: "codes ''/sys/devices/usb1/if0/ttyUSB1'' \<noteq> codes ''/sys/devices/usb1/if0''" "codes ''/sys/devices/usb1/if0'' \<noteq> codes ''/sys/devices/usb1''"
    by (simp_all add: slow_simps)
  show ?thesis using usb_parent_up [of "codes ''/sys/devices/usb1/if0/ttyUSB1''" slow_udev 0] usb_parent_up [of "codes ''/sys/devices/usb1/if0''" slow_udev 0]
      usb_parent_stop [OF f(1)] f(2,3) n unfolding d by simp
qed

lemma slow_udev_text:
  "read_text slow_udev (codes ''/proc/7/comm'') w = Inr (codes (''ModemManager'' @ [CHR 0x0A]))"
  "read_text slow_udev (codes ''/sys/class/tty/ttyUSB1/dev'') w = Inr (codes (''188:1'' @ [CHR 0x0A]))"
  "read_text slow_udev (codes ''/run/udev/data/c188:1'') w = Inr (if 20000 \<le> w then codes ''E:ID_MM_PORT_IGNORE=1'' else [])"
proof -
  have f: "os_file slow_udev (codes ''/proc/7/comm'') w = Some (encode_utf8 (codes (''ModemManager'' @ [CHR 0x0A])))"
    "os_file slow_udev (codes ''/sys/class/tty/ttyUSB1/dev'') w = Some (encode_utf8 (codes (''188:1'' @ [CHR 0x0A])))"
    "os_file slow_udev (codes ''/run/udev/data/c188:1'') w = (if 20000 \<le> w then Some (encode_utf8 (codes ''E:ID_MM_PORT_IGNORE=1'')) else None)"
    by (simp_all add: slow_udev_def codes_def del: encode_utf8_def)
  have "CHR 0x0D \<notin> set (''ModemManager'' @ [CHR 0x0A])" "CHR 0x0D \<notin> set (''188:1'' @ [CHR 0x0A])" "CHR 0x0D \<notin> set ''E:ID_MM_PORT_IGNORE=1''"
    by simp_all
  from this [THEN plain_codes]
  show "read_text slow_udev (codes ''/proc/7/comm'') w = Inr (codes (''ModemManager'' @ [CHR 0x0A]))"
    "read_text slow_udev (codes ''/sys/class/tty/ttyUSB1/dev'') w = Inr (codes (''188:1'' @ [CHR 0x0A]))"
    "read_text slow_udev (codes ''/run/udev/data/c188:1'') w = Inr (if 20000 \<le> w then codes ''E:ID_MM_PORT_IGNORE=1'' else [])"
    unfolding read_text_def f by simp_all
qed

lemma slow_udev_facts:
  "process_names slow_udev (codes ''/proc'') w = [codes ''/proc/7/comm'']" "named_mm slow_udev w (codes ''/proc/7/comm'')"
  "usb_device slow_udev (codes ''/sys'') (codes ''/dev/ttyUSB1'') 0 = Some (codes ''/sys/devices/usb1'')"
  "device_ttys slow_udev (codes ''/sys/devices/usb1'') 0 = [codes ''ttyUSB1'']"
proof -
  show "device_ttys slow_udev (codes ''/sys/devices/usb1'') 0 = [codes ''ttyUSB1'']"
    by (simp add: slow_simps)
  have "strip (codes (''ModemManager'' @ [CHR 0x0A])) = codes ''ModemManager''" by (simp add: strip_def white_def codes_def)
  then show "named_mm slow_udev w (codes ''/proc/7/comm'')" by (simp add: named_mm_def slow_udev_text)
  show "process_names slow_udev (codes ''/proc'') w = [codes ''/proc/7/comm'']" by (simp add: process_names_def slow_simps)
  have n: "os_realpath slow_udev (codes ''/dev/ttyUSB1'') 0 = codes ''/dev/ttyUSB1''" "basename (codes ''/dev/ttyUSB1'') = codes ''ttyUSB1''"
    "join_all (codes ''/sys'') [codes ''class'', codes ''tty'', codes ''ttyUSB1'', codes ''device''] = codes ''/sys/class/tty/ttyUSB1/device''"
    "os_realpath slow_udev (codes ''/sys/class/tty/ttyUSB1/device'') 0 = codes ''/sys/devices/usb1/if0/ttyUSB1''"
    "os_isfile slow_udev (join_path (codes ''/sys/devices/usb1'') (codes ''idVendor'')) 0"
    by (simp_all add: slow_simps)
  then show "usb_device slow_udev (codes ''/sys'') (codes ''/dev/ttyUSB1'') 0 = Some (codes ''/sys/devices/usb1'')"
    by (simp add: usb_device_def Let_def slow_udev_parent)
qed

lemma slow_udev_props:
  "tty_props slow_udev (codes ''/sys'') (codes ''/run'') w (codes ''ttyUSB1'') = Inr (if 20000 \<le> w then [codes ''E:ID_MM_PORT_IGNORE=1''] else [])"
proof -
  let ?f = "\<lambda>b. splitlines (if b then codes ''E:ID_MM_PORT_IGNORE=1'' else [])"
  have e: "join_all (codes ''/sys'') [codes ''class'', codes ''tty'', codes ''ttyUSB1'', codes ''dev''] = codes ''/sys/class/tty/ttyUSB1/dev''"
    "strip (codes (''188:1'' @ [CHR 0x0A])) = codes ''188:1''" "codes ''188:1'' \<noteq> []"
    "join_all (codes ''/run'') [codes ''udev'', codes ''data'', codes ''c'' @ codes ''188:1''] = codes ''/run/udev/data/c188:1''"
    "?f True = [codes ''E:ID_MM_PORT_IGNORE=1'']" "?f False = []"
    by (simp_all add: slow_simps)
  then show ?thesis by (simp add: tty_props_def Let_def slow_udev_text)
qed


section \<open>Opening the port\<close>

datatype stop_bits = One | One_point_five | Two

text \<open>
  pyserial (its \<open>Serial\<close> and its \<open>serial_for_url\<close>) and pyftdi, if they are installed, and the port's line format, an
  assignment to which reconfigures the port.
\<close>

type_synonym 'p opener = "utext \<Rightarrow> int \<Rightarrow> int \<Rightarrow> 'p result"

record 'p port_libs =
  lib_serial :: "('p opener \<times> 'p opener) option"
  lib_ftdi :: "'p opener option"
  lib_is_serial :: "'p \<Rightarrow> bool"
  lib_stopbits :: "'p \<Rightarrow> stop_bits"
  lib_set_stopbits :: "stop_bits \<Rightarrow> 'p \<Rightarrow> 'p result"

definition apply_line_settings :: "'p port_libs \<Rightarrow> 'p \<Rightarrow> 'p result" where
  "apply_line_settings libs ser =
     (if lib_serial libs = None \<or> \<not> lib_is_serial libs ser then Inr ser
      else let stopbits = lib_stopbits libs ser
           in rbind (lib_set_stopbits libs (if stopbits = One then Two else One) ser) (lib_set_stopbits libs stopbits))"

definition DEFAULT_FTDI_URL :: utext where "DEFAULT_FTDI_URL = codes ''ftdi://ftdi:2232/2''"

definition ftdi_fallback :: "'p port_libs \<Rightarrow> int \<Rightarrow> int \<Rightarrow> 'p result" where
  "ftdi_fallback libs baudrate timeout =
     (case lib_ftdi libs of
        None \<Rightarrow> Inl RuntimeError
      | Some url \<Rightarrow> (case url DEFAULT_FTDI_URL baudrate timeout of Inl e \<Rightarrow> Inl RuntimeError | Inr ser \<Rightarrow> Inr ser))"

definition open_port :: "'p port_libs \<Rightarrow> utext option \<Rightarrow> utext \<Rightarrow> int \<Rightarrow> int \<Rightarrow> 'p result" where
  "open_port libs found port_name baudrate timeout =
     (if port_name = codes ''auto'' then
        (case (found, lib_serial libs) of
           (Some port, Some (serial, _)) \<Rightarrow>
             (case serial port baudrate timeout of
                Inl e \<Rightarrow> ftdi_fallback libs baudrate timeout
              | Inr ser \<Rightarrow> apply_line_settings libs ser)
         | _ \<Rightarrow> ftdi_fallback libs baudrate timeout)
      else if starts (codes ''ftdi://'') port_name then
        (case lib_ftdi libs of None \<Rightarrow> Inl RuntimeError | Some url \<Rightarrow> url port_name baudrate timeout)
      else (case lib_serial libs of
              None \<Rightarrow> Inl RuntimeError
            | Some (_, url) \<Rightarrow> rbind (url port_name baudrate timeout) (apply_line_settings libs)))"

text \<open>
  The rates: the one a port was opened with (\<open>own\<close>), the one that the board's bridge keeps (\<open>kept\<close>) and the one its UART
  runs at (\<open>running\<close>). Opening stores the port's rate; a change of the line format restarts the UART at the kept rate
  and may store the port's rate again. A port of pyftdi is none of pyserial's.
\<close>

definition bridge_driver :: "'p port_libs \<Rightarrow> ('p \<Rightarrow> int) \<Rightarrow> ('p \<Rightarrow> int) \<Rightarrow> ('p \<Rightarrow> int) \<Rightarrow> bool" where
  "bridge_driver libs own kept running \<longleftrightarrow>
     (\<forall>n q q'. lib_set_stopbits libs n q = Inr q' \<longrightarrow>
        lib_is_serial libs q' = lib_is_serial libs q \<and> lib_stopbits libs q' = n \<and> own q' = own q \<and>
        kept q' \<in> {kept q, own q} \<and> running q' = (if n = lib_stopbits libs q then running q else kept q)) \<and>
     (\<forall>serial url name b t q. lib_serial libs = Some (serial, url) \<and> (serial name b t = Inr q \<or> url name b t = Inr q) \<longrightarrow>
        own q = b \<and> kept q = b) \<and>
     (\<forall>url name b t q. lib_ftdi libs = Some url \<and> url name b t = Inr q \<longrightarrow> \<not> lib_is_serial libs q)"

lemma bridge_set:
  assumes "bridge_driver libs own kept running" "lib_set_stopbits libs n q = Inr q'"
  shows "lib_stopbits libs q' = n" "own q' = own q" "kept q' \<in> {kept q, own q}"
    "running q' = (if n = lib_stopbits libs q then running q else kept q)"
  using assms(1) [unfolded bridge_driver_def, THEN conjunct1, rule_format, OF assms(2)] by simp_all

lemma line_settings_rate:
  assumes b: "bridge_driver libs own kept running" and "lib_serial libs \<noteq> None" "lib_is_serial libs q" "own q = r" "kept q = r"
    and "apply_line_settings libs q = Inr p"
  shows "running p = r \<and> kept p = r \<and> lib_stopbits libs p = lib_stopbits libs q"
proof -
  let ?s = "lib_stopbits libs q" and ?n = "if lib_stopbits libs q = One then Two else One"
  obtain q' where q': "lib_set_stopbits libs ?n q = Inr q'" "lib_set_stopbits libs ?s q' = Inr p"
    using assms(2,3,6) by (auto simp: apply_line_settings_def Let_def simp del: if_split)
  note A = bridge_set [OF b q'(1)] and B = bridge_set [OF b q'(2)]
  have "?n \<noteq> ?s" by (cases ?s) simp_all
  then show ?thesis using A B assms(4,5) by auto
qed

text \<open>
  C27: an opened port runs at its own rate. Whatever rate the bridge's UART ran at, a serial port that \<open>open_port\<close> returns
  runs at the rate asked for, with the line format the port was opened with. With \<open>auto\<close> a failure is
  \<open>RuntimeError\<close>, or the exception with which the line format of a port that did open could not be set.
\<close>

theorem opened_at_rate:
  assumes "bridge_driver libs own kept running"
  shows "case open_port libs found name baud timeout of
      Inr p \<Rightarrow> lib_is_serial libs p \<longrightarrow> running p = baud \<and> kept p = baud \<and>
        (\<exists>serial url port q. lib_serial libs = Some (serial, url) \<and> (serial port baud timeout = Inr q \<or> url port baud timeout = Inr q) \<and>
          lib_stopbits libs p = lib_stopbits libs q)
    | Inl e \<Rightarrow> name = codes ''auto'' \<and> e \<noteq> RuntimeError \<longrightarrow>
        (\<exists>serial url port q. found = Some port \<and> lib_serial libs = Some (serial, url) \<and> serial port baud timeout = Inr q \<and>
          apply_line_settings libs q = Inl e)"
proof -
  have no: "\<not> lib_is_serial libs q" if "lib_ftdi libs = Some url" "url n b t = Inr q" for url n b t q
    using assms that unfolding bridge_driver_def by blast
  have set: "lib_is_serial libs p \<longrightarrow> running p = baud \<and> kept p = baud \<and> lib_stopbits libs p = lib_stopbits libs q"
    if "lib_serial libs = Some (serial, url)" "serial port baud timeout = Inr q \<or> url port baud timeout = Inr q"
      "apply_line_settings libs q = Inr p" for serial url port p q
  proof (cases "lib_is_serial libs q")
    case True
    have "own q = baud" "kept q = baud" using assms that(1,2) unfolding bridge_driver_def by blast+
    with line_settings_rate [OF assms _ True] that show ?thesis by auto
  next
    case False
    then show ?thesis using that(3) by (auto simp: apply_line_settings_def)
  qed
  show ?thesis
  proof (cases "open_port libs found name baud timeout")
    case (Inl e)
    then show ?thesis
      by (auto simp: open_port_def ftdi_fallback_def split: option.splits sum.splits if_splits)
  next
    case (Inr p)
    have "(\<exists>url n. lib_ftdi libs = Some url \<and> url n baud timeout = Inr p) \<or>
        (\<exists>serial url port q. lib_serial libs = Some (serial, url) \<and> (serial port baud timeout = Inr q \<or> url port baud timeout = Inr q) \<and>
          apply_line_settings libs q = Inr p)"
      using Inr unfolding open_port_def ftdi_fallback_def by (simp split: option.splits sum.splits if_splits prod.splits; blast)
    then consider url n where "lib_ftdi libs = Some url" "url n baud timeout = Inr p"
      | serial url port q where "lib_serial libs = Some (serial, url)" "serial port baud timeout = Inr q \<or> url port baud timeout = Inr q"
          "apply_line_settings libs q = Inr p"
      by blast
    then show ?thesis
    proof cases
      case 1
      then show ?thesis using no Inr by auto
    next
      case 2
      then show ?thesis using set [OF 2] Inr by auto
    qed
  qed
qed


text \<open>A port as (own rate, kept rate, running rate, stop bits), on a bridge that still runs at 57600 baud.\<close>

definition ftdi_sio :: "(int \<times> int \<times> int \<times> stop_bits) port_libs" where
  "ftdi_sio = \<lparr>
     lib_serial = Some (\<lambda>_ b _. Inr (b, b, 57600, One), \<lambda>_ b _. Inr (b, b, 57600, One)),
     lib_ftdi = None,
     lib_is_serial = (\<lambda>_. True),
     lib_stopbits = (\<lambda>(_, _, _, n). n),
     lib_set_stopbits = (\<lambda>m (own, kept, running, n). Inr (own, own, if m = n then running else kept, m))\<rparr>"

theorem opened_at_rate_witness:
  "\<exists>p. open_port ftdi_sio (Some (codes ''/dev/ttyUSB3'')) (codes ''auto'') 115200 200000 = Inr p \<and> fst (snd (snd p)) = 115200"
proof -
  have b: "bridge_driver ftdi_sio fst (fst \<circ> snd) (fst \<circ> snd \<circ> snd)"
    by (auto simp: bridge_driver_def ftdi_sio_def)
  obtain p where p: "open_port ftdi_sio (Some (codes ''/dev/ttyUSB3'')) (codes ''auto'') 115200 200000 = Inr p"
    by (simp add: open_port_def apply_line_settings_def ftdi_sio_def Let_def)
  have "lib_is_serial ftdi_sio p" by (simp add: ftdi_sio_def)
  with opened_at_rate [OF b, where found = "Some (codes ''/dev/ttyUSB3'')" and name = "codes ''auto''" and baud = 115200 and timeout = 200000]
  have "(fst \<circ> snd \<circ> snd) p = 115200" unfolding p sum.case by blast
  then show ?thesis using p by simp
qed

section \<open>The monitor\<close>

text \<open>\<open>bytes.replace\<close> for a non-empty pattern, from left to right.\<close>

function replace_sub :: "'a list \<Rightarrow> 'a list \<Rightarrow> 'a list \<Rightarrow> 'a list" where
  "replace_sub old new [] = []"
| "replace_sub old new (x # xs) =
     (if old \<noteq> [] \<and> starts old (x # xs) then new @ replace_sub old new (drop (length old) (x # xs)) else x # replace_sub old new xs)"
  by pat_completeness auto
termination
  by (relation "measure (\<lambda>(old, new, xs). length xs)") (auto simp: Suc_le_eq)

definition terminal_lines :: "byte list \<Rightarrow> byte list" where
  "terminal_lines data = replace_sub [0x0A] [0x0D, 0x0A] (replace_sub [0x0D, 0x0A] [0x0A] data)"

text \<open>A turn of the loop: what was read from the terminal, if it was readable, and whether the port was.\<close>

type_synonym turn = "byte list option \<times> bool"

definition exit_keys :: "byte list \<Rightarrow> bool" where
  "exit_keys key \<longleftrightarrow> key = [] \<or> 0x03 \<in> set key \<or> 0x1D \<in> set key"

definition monitor_show :: "'p serial \<Rightarrow> bool \<Rightarrow> 'p \<Rightarrow> byte list list \<times> 'p" where
  "monitor_show io ready p =
     (if ready \<or> 0 < ser_in_waiting io p
      then (case ser_read io (if ser_in_waiting io p = 0 then 256 else ser_in_waiting io p) p of
              (data, p) \<Rightarrow> (if data \<noteq> [] then [terminal_lines data] else [], p))
      else ([], p))"

fun monitor_loop :: "'p serial \<Rightarrow> bool \<Rightarrow> turn list \<Rightarrow> 'p \<Rightarrow> byte list list \<times> 'p" where
  "monitor_loop io is_tty [] p = ([], p)"
| "monitor_loop io is_tty ((key, ready) # turns) p =
     (let typed = (if is_tty then key else None)
      in if typed \<noteq> None \<and> exit_keys (the typed) then ([], p)
         else (case monitor_show io ready (case typed of None \<Rightarrow> p | Some k \<Rightarrow> ser_write io k p) of
                 (out, p) \<Rightarrow> (case monitor_loop io is_tty turns p of (outs, p) \<Rightarrow> (out @ outs, p))))"

definition cmd_monitor :: "'p serial \<Rightarrow> bool \<Rightarrow> turn list \<Rightarrow> 'p \<Rightarrow> (byte list list \<times> 'p) option" where
  "cmd_monitor io is_tty turns p =
     map_option (\<lambda>p. monitor_loop io is_tty turns (ser_write io [0x0D] p)) (drain_serial io 100000 p)"

text \<open>The keys of the turns before the one that ends the monitor.\<close>

fun keys_sent :: "bool \<Rightarrow> turn list \<Rightarrow> byte list" where
  "keys_sent is_tty [] = []"
| "keys_sent is_tty ((key, ready) # turns) =
     (case (if is_tty then key else None) of
        None \<Rightarrow> keys_sent is_tty turns
      | Some k \<Rightarrow> if exit_keys k then [] else k @ keys_sent is_tty turns)"

text \<open>A port whose reads, sleeps and resets send nothing.\<close>

locale terminal_port = writing_port +
  assumes read_sent: "sent (snd (ser_read io n p)) = sent p"
    and sleep_sent: "sent (ser_sleep io d p) = sent p"
    and reset_sent: "sent (ser_reset io p) = sent p"
begin

lemma show_sent: "monitor_show io ready p = (out, q) \<Longrightarrow> sent q = sent p"
  using read_sent [of "if ser_in_waiting io p = 0 then 256 else ser_in_waiting io p" p]
  by (auto simp: monitor_show_def split: if_splits prod.splits)

lemma loop_sent: "sent (snd (monitor_loop io is_tty turns p)) = sent p @ keys_sent is_tty turns"
proof (induction turns arbitrary: p)
  case (Cons t turns)
  obtain key ready where t: "t = (key, ready)" by (cases t)
  let ?k = "if is_tty then key else None" and ?p = "case (if is_tty then key else None) of None \<Rightarrow> p | Some k \<Rightarrow> ser_write io k p"
  obtain out q where s: "monitor_show io ready ?p = (out, q)" by (cases "monitor_show io ready ?p")
  have "sent q = sent p @ (case ?k of None \<Rightarrow> [] | Some k \<Rightarrow> k)"
    using show_sent [OF s] by (cases ?k) (simp_all add: write_sent)
  with Cons.IH [of q] s show ?case by (cases ?k) (simp_all add: t Let_def split_def)
qed simp

end

lemma drain_loop_sent:
  assumes "drain_loop io d t0 p = Some q" "terminal_port io sent"
  shows "sent q = sent p"
proof -
  have "terminal_port io sent \<longrightarrow> sent q = sent p"
  proof (rule drain_loop.raw_induct [where P = "\<lambda>io d t0 p q. terminal_port io sent \<longrightarrow> sent q = sent p", OF _ assms(1)], rule impI, goal_cases)
    case (1 loop io d t0 p q)
    have s: "sent (ser_sleep io 10000 r) = sent r" "sent (snd (ser_read io n r)) = sent r" for r n
      using terminal_port.sleep_sent [OF 1(3)] terminal_port.read_sent [OF 1(3)] by blast+
    show ?case
    proof (cases "ser_now io p - t0 < d")
      case True
      let ?r = "if 0 < ser_in_waiting io p then snd (ser_read io (ser_in_waiting io p) p) else p"
      have "\<exists>t. loop io d t (ser_sleep io 10000 ?r) = Some q" using 1(2) True by (auto simp: Let_def split: if_splits)
      then have "sent q = sent (ser_sleep io 10000 ?r)" using 1(1) 1(3) by blast
      then show ?thesis by (simp add: s)
    next
      case False
      then show ?thesis using 1(2) by simp
    qed
  qed
  then show ?thesis using assms(2) by blast
qed

interpretation dev: terminal_port "dev_io dv" dp_sent for dv
  by unfold_locales (simp_all add: dev_io_def)

lemma replace_lf: "replace_sub [a] [b, a] (xs :: 'a list) = concat (map (\<lambda>x. if x = a then [b, a] else [x]) xs)"
  by (induction xs) (simp_all add: starts_def)

lemma bare_lf:
  assumes "i < length (terminal_lines data)" "terminal_lines data ! i = 0x0A"
  shows "0 < i \<and> terminal_lines data ! (i - 1) = 0x0D"
proof -
  have "0 < i \<and> ys ! (i - 1) = 0x0D" if "ys = concat (map (\<lambda>x. if x = 0x0A then [0x0D, 0x0A] else [x]) xs)" "i < length ys" "ys ! i = (0x0A :: byte)" for i xs ys
    using that
  proof (induction xs arbitrary: i ys)
    case (Cons x xs)
    let ?r = "concat (map (\<lambda>x. if x = 0x0A then [0x0D, 0x0A] else [x]) xs)" and ?h = "if x = 0x0A then [0x0D, 0x0A] else [x]"
    have ys: "ys = ?h @ ?r" using Cons.prems(1) by simp
    show ?case
    proof (cases "i < length ?h")
      case True
      then show ?thesis using Cons.prems(3) ys by (cases i; cases "i - 1") (auto simp: nth_append split: if_splits)
    next
      case False
      then have "0 < i - length ?h \<and> ?r ! (i - length ?h - 1) = 0x0D"
        using Cons.IH [OF refl, of "i - length ?h"] Cons.prems(2,3) ys by (simp add: nth_append)
      then show ?thesis using False by (auto simp: ys nth_append diff_commute)
    qed
  qed simp
  then show ?thesis using assms unfolding terminal_lines_def replace_lf by blast
qed


lemma shown_chunks:
  assumes "monitor_loop io is_tty turns p = (shown, q)"
  shows "\<exists>chunks. shown = map terminal_lines chunks \<and> list_all (\<lambda>c. c \<noteq> []) chunks"
  using assms
proof (induction turns arbitrary: p shown q)
  case (Cons t turns)
  obtain key ready where t: "t = (key, ready)" by (cases t)
  let ?k = "if is_tty then key else None" and ?p = "case (if is_tty then key else None) of None \<Rightarrow> p | Some k \<Rightarrow> ser_write io k p"
  obtain out r where s: "monitor_show io ready ?p = (out, r)" by (cases "monitor_show io ready ?p")
  obtain outs u where l: "monitor_loop io is_tty turns r = (outs, u)" by (cases "monitor_loop io is_tty turns r")
  obtain cs where c: "outs = map terminal_lines cs" "list_all (\<lambda>c. c \<noteq> []) cs" using Cons.IH [OF l] by blast
  have "out = [] \<or> (\<exists>d. d \<noteq> [] \<and> out = [terminal_lines d])"
    using s by (auto simp: monitor_show_def split: if_splits prod.splits)
  moreover have "shown = [] \<or> shown = out @ outs" using Cons.prems s l by (auto simp: t Let_def split: if_splits)
  ultimately consider "shown = []" | "shown = map terminal_lines cs" | d where "d \<noteq> []" "shown = map terminal_lines (d # cs)"
    using c(1) by auto
  then show ?case
  proof cases
    case 3
    then show ?thesis using c(2) by (intro exI [of _ "d # cs"]) simp
  qed (use c(2) in \<open>auto intro: exI [of _ "[]"]\<close>)
qed simp

text \<open>
  The monitor. It sends a carriage return and then the keys typed, in order, up to the first read that is empty or holds
  Ctrl+C or Ctrl+], of which nothing is sent, and nothing at all from a standard input that is no terminal. Everything
  it shows is data that it read, in which every line feed stands behind a carriage return.
\<close>

theorem monitor_exact:
  assumes "terminal_port io sent" "cmd_monitor io is_tty turns p = Some (shown, q)"
  shows "sent q = sent p @ [0x0D] @ keys_sent is_tty turns \<and>
    (\<exists>chunks. shown = map terminal_lines chunks \<and> list_all (\<lambda>c. c \<noteq> []) chunks) \<and>
    list_all (\<lambda>out. \<forall>i. i < length out \<longrightarrow> out ! i = 0x0A \<longrightarrow> 0 < i \<and> out ! (i - 1) = 0x0D) shown"
proof -
  obtain r where r: "drain_serial io 100000 p = Some r" and l: "monitor_loop io is_tty turns (ser_write io [0x0D] r) = (shown, q)"
    using assms(2) by (auto simp: cmd_monitor_def)
  have "sent r = sent (ser_reset io p)" using r drain_loop_sent [OF _ assms(1)] by (auto simp: drain_serial_def Let_def)
  then have "sent r = sent p" by (simp add: terminal_port.reset_sent [OF assms(1)])
  then have "sent q = sent p @ [0x0D] @ keys_sent is_tty turns"
    using terminal_port.loop_sent [OF assms(1), of is_tty turns "ser_write io [0x0D] r"]
      writing_port.write_sent [OF terminal_port.axioms(1) [OF assms(1)], of "[0x0D]" r] by (simp add: l)
  moreover obtain chunks where c: "shown = map terminal_lines chunks" "list_all (\<lambda>c. c \<noteq> []) chunks" using shown_chunks [OF l] by blast
  moreover have "list_all (\<lambda>out. \<forall>i. i < length out \<longrightarrow> out ! i = 0x0A \<longrightarrow> 0 < i \<and> out ! (i - 1) = 0x0D) shown"
    unfolding c(1) list_all_iff set_map using bare_lf by blast
  ultimately show ?thesis by blast
qed

section \<open>The command line\<close>

text \<open>
  The serial commands with their arguments. \<open>files\<close> reads a file; it is read before the port is opened, except for \<open>run\<close>,
  which reads it at the first stage's prompt. The port is closed in the end, whatever happens. The monitor comes with its
  terminal: whether standard input is one, and the turns of its loop up to the key or the interrupt that ends it.
\<close>

datatype tool_cmd = Reset | Monitor bool "turn list" | Sd_info | Run utext | Install_stage2 utext | Ls utext | Mkdir utext | Put utext utext | Run_app utext int

text \<open>What a command writes: text, or the monitor's bytes to its terminal.\<close>

datatype tool_out = Printed "utext list" | Terminal "byte list list"

text \<open>The reset: where \<open>openFPGALoader\<close> is, and whether it succeeds.\<close>

record loader =
  ld_which :: "utext option"
  ld_home :: "utext option"
  ld_run :: "utext \<Rightarrow> bool"

definition cmd_reset :: "loader \<Rightarrow> unit result" where
  "cmd_reset ld =
     (case (case ld_which ld of None \<Rightarrow> ld_home ld | Some b \<Rightarrow> Some b) of
        None \<Rightarrow> Inl SystemExit
      | Some b \<Rightarrow> if ld_run ld b then Inr () else Inl SystemExit)"

definition with_port :: "'p result \<Rightarrow> ('p \<Rightarrow> ('p, 'a) outcome) \<Rightarrow> 'a result option" where
  "with_port port act = (case port of Inl e \<Rightarrow> Some (Inl e) | Inr p \<Rightarrow> map_option fst (act p))"

definition monitor_out :: "bool \<Rightarrow> byte list list \<Rightarrow> tool_out" where
  "monitor_out is_tty shown = (if is_tty then Terminal shown else Printed (map decode_utf8 shown))"

text \<open>\<open>port\<close> opens the port with a timeout: 50 ms for the monitor, 200 ms for the others.\<close>

definition dispatch :: "'p serial \<Rightarrow> (utext \<Rightarrow> byte list result) \<Rightarrow> loader \<Rightarrow> (int \<Rightarrow> 'p result) \<Rightarrow> tool_cmd \<Rightarrow> tool_out result option" where
  "dispatch io files ld open_at cmd =
     (let port = open_at 200000; one = map_option (rmap (\<lambda>t. Printed [t]))
      in case cmd of
           Reset \<Rightarrow> Some (rmap (\<lambda>_. Printed []) (cmd_reset ld))
         | Monitor is_tty turns \<Rightarrow> with_port (open_at 50000)
             (\<lambda>p. map_option (\<lambda>(shown, p). (Inr (monitor_out is_tty shown), p)) (cmd_monitor io is_tty turns p))
         | Sd_info \<Rightarrow> one (with_port port (cmd_sd_info io))
         | Run f \<Rightarrow> one (with_port port (\<lambda>p. case files f of
               Inr data \<Rightarrow> cmd_run io data p
             | Inl e \<Rightarrow> io_bind (enter_s1 io 10000000 True p) (\<lambda>_ p. Some (Inl e, p))))
         | Install_stage2 f \<Rightarrow> (case files f of Inl e \<Rightarrow> Some (Inl e) | Inr data \<Rightarrow> map_option (rmap Printed) (with_port port (cmd_install_stage2 io data)))
         | Ls path \<Rightarrow> one (with_port port (cmd_ls io path))
         | Mkdir path \<Rightarrow> one (with_port port (cmd_mkdir io path))
         | Put f path \<Rightarrow> (case files f of Inl e \<Rightarrow> Some (Inl e) | Inr data \<Rightarrow> one (with_port port (cmd_put io path data)))
         | Run_app path timeout \<Rightarrow> one (with_port port (cmd_run_app io path timeout)))"

definition catch_s2 :: "'a result \<Rightarrow> 'a result" where
  "catch_s2 r = (case r of Inl (S2Error t) \<Rightarrow> Inl SystemExit | _ \<Rightarrow> r)"

definition port_hint :: "'w host_os \<Rightarrow> utext \<Rightarrow> 'w \<Rightarrow> ('w, utext) outcome" where
  "port_hint os port w =
     (case (if port = codes ''auto'' then find_tangnano_uart_port os w else Some port) of
        None \<Rightarrow> Some (Inr [], w)
      | Some tty \<Rightarrow> if tty \<noteq> [] \<and> \<not> occurs (codes ''://'') tty
          then modemmanager_hint os tty (codes ''/sys'') (codes ''/run'') (codes ''/proc'') 2000000 w else Some (Inr [], w))"

text \<open>The warning that was printed, and the command's result; the check of ModemManager runs before the command.\<close>

definition tool_main :: "'w host_os \<Rightarrow> 'p port_libs \<Rightarrow> 'p serial \<Rightarrow> (utext \<Rightarrow> byte list result) \<Rightarrow> loader \<Rightarrow> utext \<Rightarrow> int \<Rightarrow> tool_cmd \<Rightarrow> 'w \<Rightarrow>
    (utext \<times> tool_out result) option" where
  "tool_main os libs io files ld port baud cmd w =
     Option.bind (port_hint os port w) (\<lambda>(h, w).
       case h of
         Inl e \<Rightarrow> Some ([], Inl e)
       | Inr hint \<Rightarrow> map_option (\<lambda>r. (hint, catch_s2 r)) (dispatch io files ld (open_port libs (find_tangnano_uart_port os w) port baud) cmd))"

lemma hint_ends:
  assumes "\<And>d w. 0 < d \<Longrightarrow> os_now os w + d \<le> os_now os (os_sleep os d w) \<and> os_now os (os_sleep os d w) \<le> os_now os w + d + late"
  shows "\<exists>h w'. modemmanager_hint os tty sysfs run proc settle w = Some (h, w') \<and> (\<forall>e. h = Inl e \<longrightarrow> e = UnicodeError)"
proof (cases "mm_running os proc w = Inr True \<and> usb_device os sysfs tty w \<noteq> None")
  case True
  then obtain dev where d: "mm_running os proc w = Inr True" "usb_device os sysfs tty w = Some dev" by blast
  let ?t = "device_ttys os dev w" and ?d = "if os_isdir os (join_all run [codes ''udev'', codes ''data'']) w then os_now os w + settle else 0"
  obtain w' where w: "settle_ttys os sysfs run ?t ?d w = Some (scan_ttys os sysfs run w' ?t, w')"
    using settle_ends [OF assms] by blast
  have m: "modemmanager_hint os tty sysfs run proc settle w =
      io_bind (settle_ttys os sysfs run ?t ?d w) (\<lambda>(probed, unknown) w. Some (Inr (hint_text probed unknown), w))"
    by (simp add: modemmanager_hint_def d Let_def)
  show ?thesis
  proof (cases "scan_ttys os sysfs run w' ?t")
    case (Inl e)
    then show ?thesis unfolding m w using scan_result [of os sysfs run w' ?t] props_raise [of os sysfs run w' _ e]
      by (auto simp: io_bind_def list_ex_iff)
  next
    case (Inr pu)
    then show ?thesis unfolding m w by (simp add: io_bind_def split: prod.split)
  qed
next
  case False
  then show ?thesis by (auto simp: modemmanager_hint_def mm_running_spec split: option.split)
qed

lemma with_port_returns: "(\<And>p. \<exists>r. act p = Some r) \<Longrightarrow> \<exists>r. with_port port act = Some r"
proof (cases port)
  case (Inr p)
  assume "\<And>p. \<exists>r. act p = Some r"
  then obtain r where "act p = Some r" by blast
  then show ?thesis by (simp add: with_port_def Inr)
qed (simp add: with_port_def)

lemma one_returns: "(\<And>p. \<exists>r. act p = Some r) \<Longrightarrow> \<exists>r. map_option f (with_port port act) = Some r"
  using with_port_returns [of act port] by auto

lemma dispatch_returns:
  assumes h: "host_port io tick fine pending left"
  shows "\<exists>r. dispatch io files ld port cmd = Some r"
proof -
  have q: "quiet_port io tick fine pending left" and t: "timed_port io tick fine pending"
    using h host_port.axioms(2) quiet_port.axioms(1) by blast+
  note C = quiet_port.card_commands_return [OF q] host_port.file_commands_return [OF h]
  have "\<exists>r. (case files f of Inr data \<Rightarrow> cmd_run io data p | Inl e \<Rightarrow> io_bind (enter_s1 io 10000000 True p) (\<lambda>_ p. Some (Inl e, p))) = Some r" for f p
    using C(6) quiet_port.enter_returns [OF q] by (cases "files f") (auto simp del: split_paired_Ex intro: io_bind_returns)
  moreover have "\<exists>r. map_option (\<lambda>(shown, p). (Inr (monitor_out is_tty shown) :: tool_out result, p)) (cmd_monitor io is_tty turns p) = Some r" for is_tty turns p
    using quiet_port.drain_returns [OF q, of 100000 p] by (auto simp: cmd_monitor_def simp del: split_paired_Ex)
  ultimately show ?thesis
    by (cases cmd) (auto simp: dispatch_def Let_def C split: sum.split simp del: split_paired_Ex intro!: one_returns with_port_returns)
qed

text \<open>
  C26: every serial command of the tool ends. On a host whose clock advances when the tool sleeps (late by \<open>late\<close> at most),
  over a port whose reads end in time and whose device sends only finitely many bytes while nothing is written to it
  (\<open>host_port\<close>), an invocation returns, with its output or with an exception, whatever is connected, installed and
  running; for the monitor, which a key or an interrupt ends, this says that everything before and between its turns
  returns. The check of ModemManager comes first: it gives the warning that is printed, or ends the invocation with
  \<open>UnicodeDecodeError\<close>, and with nothing else. An error line of the second stage ends it as an exit, not as a traceback.
\<close>

theorem tool_ends:
  assumes "host_port io tick fine pending left"
    and "\<And>d w. 0 < d \<Longrightarrow> os_now os w + d \<le> os_now os (os_sleep os d w) \<and> os_now os (os_sleep os d w) \<le> os_now os w + d + late"
  shows "\<exists>h w' r. port_hint os port w = Some (h, w') \<and>
    tool_main os libs io files ld port baud cmd w = Some (case h of Inl e \<Rightarrow> ([], Inl e) | Inr hint \<Rightarrow> (hint, r)) \<and>
    (\<forall>e. h = Inl e \<longrightarrow> e = UnicodeError) \<and> (\<forall>t. r \<noteq> Inl (S2Error t))"
proof -
  have m: "\<exists>h w'. modemmanager_hint os tty (codes ''/sys'') (codes ''/run'') (codes ''/proc'') 2000000 w = Some (h, w') \<and> (\<forall>e. h = Inl e \<longrightarrow> e = UnicodeError)" for tty
    by (rule hint_ends [OF assms(2)])
  have "\<exists>h w'. port_hint os port w = Some (h, w') \<and> (\<forall>e. h = Inl e \<longrightarrow> e = UnicodeError)"
  proof (cases "if port = codes ''auto'' then find_tangnano_uart_port os w else Some port")
    case (Some tty)
    show ?thesis unfolding port_hint_def Some option.case using m [of tty] by simp
  qed (simp add: port_hint_def)
  then obtain h w' where h: "port_hint os port w = Some (h, w')" "\<forall>e. h = Inl e \<longrightarrow> e = UnicodeError" by blast
  obtain r where r: "dispatch io files ld (open_port libs (find_tangnano_uart_port os w') port baud) cmd = Some r"
    using dispatch_returns [OF assms(1)] by blast
  have "catch_s2 r \<noteq> Inl (S2Error t)" for t by (auto simp: catch_s2_def split: sum.splits py_error.splits)
  with h r show ?thesis by (intro exI [of _ h] exI [of _ w'] exI [of _ "catch_s2 r"]) (simp add: tool_main_def split: sum.split)
qed

theorem tool_ends_witness:
  "\<exists>h r. tool_main slow_udev \<lparr>lib_serial = Some (\<lambda>_ _ _. Inr test_port, \<lambda>_ _ _. Inr test_port), lib_ftdi = None,
       lib_is_serial = (\<lambda>_. False), lib_stopbits = (\<lambda>_. One), lib_set_stopbits = (\<lambda>_ p. Inr p)\<rparr> (dev_io test_device)
     (\<lambda>_. Inl FileNotFoundError) \<lparr>ld_which = None, ld_home = None, ld_run = (\<lambda>_. True)\<rparr> (codes ''/dev/ttyUSB1'') 115200 (Ls []) 0 =
     Some (case h of Inl e \<Rightarrow> ([], Inl e) | Inr hint \<Rightarrow> (hint, r))"
proof -
  have "os_now slow_udev w + d \<le> os_now slow_udev (os_sleep slow_udev d w) \<and>
      os_now slow_udev (os_sleep slow_udev d w) \<le> os_now slow_udev w + d + 0" for d w
    by (simp add: slow_udev_def)
  from tool_ends [OF dev.host_port_axioms [of test_device] this] show ?thesis by blast
qed

theorem monitor_exact_witness:
  "\<exists>shown q. cmd_monitor (dev_io test_device) True [(Some [0x6C, 0x73], False), (None, True), (Some [0x0D], False), (Some [0x1D], True)] test_port =
     Some (shown, q) \<and> dp_sent q = [0x0D, 0x6C, 0x73, 0x0D]"
proof -
  let ?t = "[(Some [0x6C, 0x73], False), (None, True), (Some [0x0D], False), (Some [0x1D], True)] :: turn list"
  obtain r where "drain_serial (dev_io test_device) 100000 test_port = Some r" using dev.drain_returns by blast
  then have "\<exists>y. cmd_monitor (dev_io test_device) True ?t test_port = Some y" unfolding cmd_monitor_def by (simp del: split_paired_Ex monitor_loop.simps)
  then obtain shown q where c: "cmd_monitor (dev_io test_device) True ?t test_port = Some (shown, q)" by auto
  from monitor_exact [OF dev.terminal_port_axioms this] have "dp_sent q = dp_sent test_port @ [0x0D] @ keys_sent True ?t" by blast
  then show ?thesis using c by (simp add: exit_keys_def)
qed

end
