(* ===== verification/Soc_Start.thy ===== *)
theory Soc_Start
  imports Lockstep_Run
begin

text \<open>
  How the benches start a program without the boot firmware (\<^verbatim>\<open>src/sim/integration/soc_env.py\<close> and
  \<^verbatim>\<open>src/sim/integration/irq_echo_pace.py\<close>): the ROM words that jump to an application or hold it back for a
  time, the preload of the PSRAM's word model, and the preload of a Hack program behind \<open>hack_stub\<close>. The words
  are run on the reference machine; \<open>bus_steps\<close> is that machine on a bus whose answers depend on the step, with
  the addresses it loads from.
\<close>

section \<open>Pacing\<close>

definition CHUNK :: int where "CHUNK = 16"
definition HANDLER_FRAMES_PER_BYTE :: int where "HANDLER_FRAMES_PER_BYTE = 5"
definition GAP_FRAMES :: int where "GAP_FRAMES = 2 * HANDLER_FRAMES_PER_BYTE * CHUNK"
definition RX_FIFO :: int where "RX_FIFO = 32"
definition OVERRUN_LINE :: int where "OVERRUN_LINE = RX_FIFO + 1"
definition SLOWEST_FRAME_CYCLES :: int where "SLOWEST_FRAME_CYCLES = 11 * 156"
definition HOLD_CYCLES :: int where "HOLD_CYCLES = (OVERRUN_LINE + 4) * SLOWEST_FRAME_CYCLES"

lemmas pace_consts = CHUNK_def HANDLER_FRAMES_PER_BYTE_def GAP_FRAMES_def RX_FIFO_def OVERRUN_LINE_def
  SLOWEST_FRAME_CYCLES_def HOLD_CYCLES_def

text \<open>\<open>range\<close> with step 0 raises, and is empty with a negative one.\<close>

definition chunks :: "byte list \<Rightarrow> int \<Rightarrow> byte list list result" where
  "chunks data n = (if n = 0 then Inl ValueError else Inr (if n < 0 then [] else pieces (nat n) data))"

section \<open>ROM words that start an application\<close>

definition jump_words :: "int \<Rightarrow> int list result" where
  "jump_words target = rassert (target mod 4096 = 0) (build 0 (concat [
     rv_lui ''t0'' (drop_bit 12 target),
     rv_jalr ''zero'' ''t0'' 0]))"

definition hold_words :: "int \<Rightarrow> int list result" where
  "hold_words target = rassert (target mod 4096 = 0) (build 0 (concat [
     rv_li ''t0'' 0x2000BFF8,
     rv_li ''t1'' HOLD_CYCLES,
     rv_lw ''t2'' 0 ''t0'',
     rv_add ''t1'' ''t1'' ''t2'',
     rv_label ''wait'',
     rv_lw ''t2'' 0 ''t0'',
     rv_bltu ''t2'' ''t1'' ''wait'',
     rv_lui ''t0'' (drop_bit 12 target),
     rv_jalr ''zero'' ''t0'' 0]))"

section \<open>The preloads\<close>

text \<open>The ROM's words, and the word model's two halves of the PSRAM, in the builds that have it.\<close>

record bench_soc =
  rom_mem :: "int list"
  xmem_mem :: "(nat \<Rightarrow> nat \<Rightarrow> int) option"

definition XMEM_HALF_WORDS :: nat where "XMEM_HALF_WORDS = 2 ^ 20"

definition load_imem :: "bench_soc \<Rightarrow> int list \<Rightarrow> bench_soc result" where
  "load_imem soc words = (if length words \<le> length (rom_mem soc)
     then Inr (soc\<lparr>rom_mem := fold (\<lambda>(idx, word) mem. mem[idx := word]) (enumerate 0 words) (rom_mem soc)\<rparr>)
     else Inl IndexError)"

definition put_word :: "nat \<Rightarrow> nat \<times> byte list \<Rightarrow> (nat \<Rightarrow> nat \<Rightarrow> int) \<Rightarrow> nat \<Rightarrow> nat \<Rightarrow> int" where
  "put_word start = (\<lambda>(i, chunk) mem.
     let word = start + i; h = word div XMEM_HALF_WORDS
     in mem(h := (mem h)(word mod XMEM_HALF_WORDS := int_of_le (ljust 4 0 chunk))))"

definition load_xmem :: "bench_soc \<Rightarrow> int \<Rightarrow> byte list \<Rightarrow> bench_soc result" where
  "load_xmem soc addr img =
     rassert (addr mod 4 = 0 \<and> XMEM \<le> addr \<and> addr + int (length img) \<le> XMEM + 2 * int XMEM_HALF_WORDS * 4)
       (case xmem_mem soc of
          None \<Rightarrow> Inl AssertionError
        | Some mem \<Rightarrow> Inr (soc\<lparr>xmem_mem := Some (fold (put_word (nat ((addr - XMEM) div 4))) (enumerate 0 (pieces 4 img)) mem)\<rparr>))"

definition preload_psram_app :: "byte list \<Rightarrow> int \<Rightarrow> bench_soc \<Rightarrow> bench_soc result" where
  "preload_psram_app img addr soc =
     rbind (load_xmem soc addr img) (\<lambda>soc. rbind (jump_words addr) (load_imem soc))"

definition hack_preload :: "int list \<Rightarrow> bench_soc \<Rightarrow> bench_soc result" where
  "hack_preload words soc =
     rbind (hack_image_bytes words) (\<lambda>img.
     rbind hack_stub (\<lambda>stub.
     rbind (load_imem soc stub) (\<lambda>soc.
     rbind (load_xmem soc HACK_I_BASE img) (\<lambda>soc.
     load_xmem soc HACK_STUB_FLAG (replicate 4 0)))))"

section \<open>The machine on a bus in time\<close>

definition load_of :: "int \<Rightarrow> rv_state \<Rightarrow> int list" where
  "load_of w s = (if w AND 0x7F = 0x03 then [take_bit 32 (get_reg (bits w 19 15) s + imm_model w)] else [])"

fun bus_steps :: "(int \<Rightarrow> int option) \<Rightarrow> (nat \<Rightarrow> stores \<Rightarrow> int \<Rightarrow> int \<Rightarrow> int) \<Rightarrow> nat \<Rightarrow> nat \<Rightarrow> rv_state \<Rightarrow>
    (rv_state \<times> int list) option" where
  "bus_steps f ld k 0 s = Some (s, [])"
| "bus_steps f ld k (Suc n) s =
     (case f (rv_pc s) of None \<Rightarrow> None
      | Some w \<Rightarrow> case rv_exec (ld k) w s of None \<Rightarrow> None
        | Some s' \<Rightarrow> map_option (\<lambda>(t, as). (t, load_of w s @ as)) (bus_steps f ld (Suc k) n s'))"

lemma bus_steps_add:
  "bus_steps f ld k (m + n) s = Option.bind (bus_steps f ld k m s)
     (\<lambda>(t, as). map_option (\<lambda>(u, bs). (u, as @ bs)) (bus_steps f ld (k + m) n t))"
proof (induction m arbitrary: k s)
  case 0
  then show ?case by (cases "bus_steps f ld k n s") auto
next
  case (Suc m)
  show ?case
  proof (cases "f (rv_pc s)")
    case (Some w)
    show ?thesis
    proof (cases "rv_exec (ld k) w s")
      case (Some s')
      with \<open>f (rv_pc s) = Some w\<close> show ?thesis
        by (cases "bus_steps f ld (Suc k) m s'") (auto simp: Suc.IH option.map_comp comp_def split_def)
    qed (simp add: Some)
  qed simp
qed

section \<open>Jumping to an aligned address\<close>

definition lui_t0 :: "int \<Rightarrow> int" where
  "lui_t0 v = push_bit 12 (v AND 0xFFFFF) OR push_bit 7 5 OR 0x37"

lemma u_type_t0: "u_type v ''t0'' 0x37 = Inr (lui_t0 v)"
  by (simp add: u_type_def lui_t0_def)

lemma exec_lui_t0:
  "target mod 4096 = 0 \<Longrightarrow>
    rv_exec ld (lui_t0 (drop_bit 12 target)) (at_pc p s) = Some (at_pc (take_bit 32 (p + 4)) ((fst s)(5 := take_bit 32 target), snd s))"
proof -
  assume "target mod 4096 = 0"
  then obtain q where "target = 4096 * q" by (metis dvdE mod_0_imp_dvd)
  then have "target = push_bit 12 q" "drop_bit 12 target = q" by (simp_all add: push_bit_eq_mult drop_bit_eq_div)
  then have "push_bit 12 (take_bit 20 (drop_bit 12 target)) = take_bit 32 target" by (simp add: take_bit_push_bit)
  then show ?thesis using exec_lui [OF u_type_t0, of 5 ld "drop_bit 12 target" "at_pc p s"]
    by (simp add: next_pc_def at_pc_def set_reg_def)
qed

lemma load_of_lui_t0: "load_of (lui_t0 v) s = []"
proof -
  have "lui_t0 v AND 0x7F = 0x37" using u_type_fields [OF u_type_t0] by simp
  then show ?thesis by (simp add: load_of_def)
qed

lemma exec_jr_t0:
  assumes "r 5 = take_bit 32 target" "target mod 4096 = 0"
  shows "rv_exec ld 0x28067 (at_pc p (r, out)) = Some (at_pc (take_bit 32 target) (r, out))"
proof -
  have "(2 :: int) dvd 4096" by simp
  then have "2 dvd target" using assms(2) by (metis dvd_trans mod_0_imp_dvd)
  then have "2 * (take_bit 32 target div 2) = take_bit 32 target"
    unfolding take_bit_eq_mod by (intro dvd_mult_div_cancel dvd_mod) simp_all
  with assms(1) show ?thesis
    by (simp add: rv_exec_def Let_def bits_def imm_model_def sext_def at_pc_def get_reg_def set_reg_def take_bit_eq_mod)
qed

lemma jump_words_eq: "target mod 4096 = 0 \<Longrightarrow> jump_words target = Inr [lui_t0 (drop_bit 12 target), 0x28067]"
  using u_type_t0 [of "drop_bit 12 target"] by (simp add: jump_words_def asm_eval lui_t0_def)


section \<open>Holding an application back\<close>

definition MTIME_LO :: int where "MTIME_LO = 0x2000BFF8"

definition hold_list :: "int \<Rightarrow> int list" where
  "hold_list target = [0x2000C2B7, 0xFF828293, 0x00010337, 0x80430313, 0x0002A383, 0x00730333, 0x0002A383, 0xFE63EEE3,
     lui_t0 (drop_bit 12 target), 0x28067]"

lemma hold_words_eq: "target mod 4096 = 0 \<Longrightarrow> hold_words target = Inr (hold_list target)"
  using u_type_t0 [of "drop_bit 12 target"] by (simp add: hold_words_def asm_eval pace_consts lui_t0_def hold_list_def)

lemmas bus_simps = run_simps load_of_def hold_list_def MTIME_LO_def

lemma hold_start:
  "bus_steps (fetch_at 0 (hold_list target)) ld 0 6 (at_pc 0 (r, [])) =
    Some (at_pc 24 (r(5 := MTIME_LO, 6 := take_bit 32 (HOLD_CYCLES + ld 4 [] 2 MTIME_LO), 7 := ld 4 [] 2 MTIME_LO), []), [MTIME_LO])"
  by (simp add: numeral_eq_Suc bus_simps pace_consts fun_upd_twist and_mask32)

lemma hold_turn:
  assumes "r 5 = MTIME_LO"
  shows "bus_steps (fetch_at 0 (hold_list target)) ld k 2 (at_pc 24 (r, [])) =
    Some (at_pc (if ld k [] 2 MTIME_LO < r 6 then 24 else 32) (r(7 := ld k [] 2 MTIME_LO), []), [MTIME_LO])"
  using assms by (simp add: numeral_eq_Suc bus_simps)

lemma hold_end:
  assumes "target mod 4096 = 0"
  shows "bus_steps (fetch_at 0 (hold_list target)) ld k 2 (at_pc 32 (r, [])) =
    Some (at_pc (take_bit 32 target) (r(5 := take_bit 32 target), []), [])"
proof -
  let ?F = "fetch_at 0 (hold_list target)"
  have f: "?F 32 = Some (lui_t0 (drop_bit 12 target))" "?F 36 = Some 0x28067"
    by (simp_all add: fetch_at_def hold_list_def)
  have "load_of 0x28067 s = []" for s by (simp add: load_of_def)
  then show ?thesis
    using exec_jr_t0 [OF _ assms, of "r(5 := take_bit 32 target)" "ld (Suc k)" 36 "[]"]
    by (simp add: numeral_2_eq_2 state_simps f exec_lui_t0 assms load_of_lui_t0 take_bit_eq_mod)
qed


lemma hold_loop:
  fixes clock :: "nat \<Rightarrow> int"
  assumes tick: "\<And>k. clock k < clock (Suc k)" "\<And>k. clock (Suc k) \<le> clock k + c"
    and ld: "\<And>k out. ld k out 2 MTIME_LO = take_bit 32 (clock k)"
    and r: "r 5 = MTIME_LO" and k: "0 \<le> clock k" "clock k < r 6 + 2 * c" "r 6 + 2 * c \<le> 2 ^ 32"
  shows "\<exists>m r' as. bus_steps (fetch_at 0 (hold_list target)) ld k (2 * m) (at_pc 24 (r, [])) = Some (at_pc 32 (r', []), as) \<and>
    set as \<subseteq> {MTIME_LO} \<and> r 6 \<le> clock (k + 2 * m) \<and> clock (k + 2 * m) \<le> r 6 + 4 * c \<and> int (2 * m) \<le> max 0 (r 6 - clock k + 1) + 2"
  using r k
proof (induction "nat (r 6 - clock k)" arbitrary: k r rule: less_induct)
  case less
  let ?F = "fetch_at 0 (hold_list target)" and ?r = "r(7 := clock k)"
  have v: "ld k [] 2 MTIME_LO = clock k" using less.prems by (simp add: ld take_bit_int_eq_self)
  have two: "clock k + 2 \<le> clock (k + 2)" "clock (k + 2) \<le> clock k + 2 * c"
    using tick(1) [of k] tick(1) [of "Suc k"] tick(2) [of k] tick(2) [of "Suc k"] by simp_all
  show ?case
  proof (cases "clock k < r 6")
    case False
    then show ?thesis using hold_turn [of r target ld k] two less.prems
      by (intro exI [of _ 1] exI [of _ ?r] exI [of _ "[MTIME_LO]"]) (simp add: v del: bus_steps.simps)
  next
    case True
    with less.prems two have "nat (?r 6 - clock (k + 2)) < nat (r 6 - clock k)" by simp
    from less.hyps [of ?r "k + 2", OF this] less.prems two True obtain m r' as where
      m: "bus_steps ?F ld (k + 2) (2 * m) (at_pc 24 (?r, [])) = Some (at_pc 32 (r', []), as)" "set as \<subseteq> {MTIME_LO}"
        "r 6 \<le> clock (k + 2 + 2 * m)" "clock (k + 2 + 2 * m) \<le> r 6 + 4 * c"
        "int (2 * m) \<le> max 0 (r 6 - clock (k + 2) + 1) + 2"
      by (auto simp del: bus_steps.simps)
    have "bus_steps ?F ld k (2 + 2 * m) (at_pc 24 (r, [])) = Some (at_pc 32 (r', []), MTIME_LO # as)"
      unfolding bus_steps_add using hold_turn [of r target ld k] less.prems(1) True m(1)
      by (simp add: v del: bus_steps.simps add_2_eq_Suc')
    with m two True show ?thesis
      by (intro exI [of _ "Suc m"] exI [of _ r'] exI [of _ "MTIME_LO # as"]) (simp add: add.assoc del: bus_steps.simps)
  qed
qed

text \<open>
  C11: an application held back. The words of \<open>hold_words\<close>, run from reset on a machine whose bus reads \<open>mtime\<close> at
  the step's time (a clock that advances at every step, by \<open>c\<close> cycles at most, and does not pass \<open>2 ^ 32\<close> meanwhile),
  come to the target after at most \<open>HOLD_CYCLES + 9\<close> instructions, not before \<open>HOLD_CYCLES\<close> cycles have passed and not
  later than ten steps after. They store nothing and load from nothing but \<open>mtime\<close>, so the UART is left as it is. A
  line of \<open>OVERRUN_LINE\<close> bytes that starts within four of the slowest frames has ended by then, however slowly of the
  senders' frames it is sent.
\<close>

theorem hold_words_hold:
  fixes clock :: "nat \<Rightarrow> int"
  assumes "target mod 4096 = 0"
    and tick: "\<And>k. clock k < clock (Suc k)" "\<And>k. clock (Suc k) \<le> clock k + c"
    and ld: "\<And>k out. ld k out 2 MTIME_LO = take_bit 32 (clock k)"
    and range: "0 \<le> clock 0" "clock 0 + HOLD_CYCLES + 6 * c \<le> 2 ^ 32"
  shows "\<exists>ws n r' as. hold_words target = Inr ws \<and>
    bus_steps (fetch_at 0 ws) ld 0 n (at_pc 0 (r, [])) = Some (at_pc (take_bit 32 target) (r', []), as) \<and>
    set as \<subseteq> {MTIME_LO} \<and> int n \<le> HOLD_CYCLES + 9 \<and>
    clock 0 + HOLD_CYCLES \<le> clock n \<and> clock n \<le> clock 0 + HOLD_CYCLES + 10 * c \<and>
    (\<forall>t. t 0 \<le> clock 0 + 4 * SLOWEST_FRAME_CYCLES \<and> (\<forall>i. t (Suc i) \<le> t i + SLOWEST_FRAME_CYCLES) \<longrightarrow>
      t (nat OVERRUN_LINE) \<le> clock n)"
proof -
  let ?F = "fetch_at 0 (hold_list target)" and ?r = "r(5 := MTIME_LO, 6 := clock 4 + HOLD_CYCLES, 7 := clock 4)"
  have step: "clock m < clock (m + 1)" "clock (m + 1) \<le> clock m + c" for m using tick [of m] by simp_all
  have c4: "clock 0 \<le> clock 4" "clock 4 \<le> clock 0 + 4 * c" "clock 4 + 2 \<le> clock 6" "clock 6 \<le> clock 4 + 2 * c"
    using step [of 0] step [of 1] step [of 2] step [of 3] step [of 4] step [of 5] by (simp_all add: eval_nat_numeral)
  have v: "ld 4 [] 2 MTIME_LO = clock 4" "take_bit 32 (HOLD_CYCLES + clock 4) = clock 4 + HOLD_CYCLES"
    using range c4 by (simp_all add: ld take_bit_int_eq_self pace_consts)
  obtain m r' as where m: "bus_steps ?F ld 6 (2 * m) (at_pc 24 (?r, [])) = Some (at_pc 32 (r', []), as)"
      "set as \<subseteq> {MTIME_LO}" "clock 4 + HOLD_CYCLES \<le> clock (6 + 2 * m)" "clock (6 + 2 * m) \<le> clock 4 + HOLD_CYCLES + 4 * c"
      "int (2 * m) \<le> max 0 (clock 4 + HOLD_CYCLES - clock 6 + 1) + 2"
    using hold_loop [where r = ?r and clock = clock and c = c and ld = ld and k = 6 and target = target, OF tick ld] range c4
    by (auto simp: pace_consts simp del: bus_steps.simps)
  let ?n = "6 + (2 * m + 2)"
  have run: "bus_steps ?F ld 0 ?n (at_pc 0 (r, [])) =
      Some (at_pc (take_bit 32 target) (r'(5 := take_bit 32 target), []), MTIME_LO # as)"
    unfolding bus_steps_add hold_start v by (simp add: m(1) hold_end assms(1) bus_steps_add del: bus_steps.simps)
  have n: "clock 0 + HOLD_CYCLES \<le> clock ?n" "clock ?n \<le> clock 0 + HOLD_CYCLES + 10 * c" "int ?n \<le> HOLD_CYCLES + 9"
    using m(3-5) c4 step [of "6 + 2 * m"] step [of "6 + 2 * m + 1"] by (simp_all add: pace_consts)
  have "t (nat OVERRUN_LINE) \<le> clock ?n"
    if t: "t 0 \<le> clock 0 + 4 * SLOWEST_FRAME_CYCLES" "\<And>i. t (Suc i) \<le> t i + SLOWEST_FRAME_CYCLES" for t
  proof -
    have "t i \<le> t 0 + int i * SLOWEST_FRAME_CYCLES" for i
    proof (induction i)
      case (Suc i)
      then show ?case using t(2) [of i] by (simp add: algebra_simps)
    qed simp
    from this [of "nat OVERRUN_LINE"] t(1) n(1) show ?thesis by (simp add: pace_consts)
  qed
  with run n m(2) hold_words_eq [OF assms(1)] show ?thesis
    by (intro exI [of _ "hold_list target"] exI [of _ ?n] exI [of _ "r'(5 := take_bit 32 target)"] exI [of _ "MTIME_LO # as"])
      (simp del: bus_steps.simps)
qed

theorem hold_words_hold_witness:
  "\<exists>ws n r' as. hold_words XMEM = Inr ws \<and>
    bus_steps (fetch_at 0 ws) (\<lambda>k out f3 a. if a = MTIME_LO then take_bit 32 (20 + 3 * int k) else 0) 0 n (at_pc 0 (\<lambda>_. 0, [])) =
      Some (at_pc XMEM (r', []), as) \<and> HOLD_CYCLES \<le> 3 * int n"
proof -
  have "take_bit 32 XMEM = XMEM" by (simp add: XMEM_def take_bit_eq_mod)
  with hold_words_hold [where target = XMEM and clock = "\<lambda>k. 20 + 3 * int k" and c = 3 and r = "\<lambda>_. 0"
    and ld = "\<lambda>k out f3 a. if a = MTIME_LO then take_bit 32 (20 + 3 * int k) else 0"] show ?thesis
    by (fastforce simp: XMEM_def pace_consts simp del: bus_steps.simps)
qed


section \<open>What the preloads leave\<close>

text \<open>A word of the PSRAM by its number, and a word and a byte by the RV32 address.\<close>

definition xword :: "(nat \<Rightarrow> nat \<Rightarrow> int) \<Rightarrow> nat \<Rightarrow> int" where
  "xword mem w = mem (w div XMEM_HALF_WORDS) (w mod XMEM_HALF_WORDS)"

definition psram_word :: "(nat \<Rightarrow> nat \<Rightarrow> int) \<Rightarrow> int \<Rightarrow> int" where
  "psram_word mem a = xword mem (nat ((a - XMEM) div 4))"

definition psram_byte :: "(nat \<Rightarrow> nat \<Rightarrow> int) \<Rightarrow> int \<Rightarrow> byte" where
  "psram_byte mem a = le_bytes 4 (psram_word mem a) ! nat ((a - XMEM) mod 4)"

lemma xword_put: "xword (put_word start (i, c) mem) w = (if w = start + i then int_of_le (ljust 4 0 c) else xword mem w)"
proof -
  have "w = start + i" if "w div XMEM_HALF_WORDS = (start + i) div XMEM_HALF_WORDS" "w mod XMEM_HALF_WORDS = (start + i) mod XMEM_HALF_WORDS"
    using that by (metis div_mult_mod_eq)
  then show ?thesis by (auto simp: xword_def put_word_def Let_def)
qed

lemma xword_fold:
  "xword (fold (put_word start) (enumerate j cs) mem) w =
    (if start + j \<le> w \<and> w < start + j + length cs then int_of_le (ljust 4 0 (cs ! (w - start - j))) else xword mem w)"
proof (induction cs arbitrary: j mem)
  case (Cons c cs)
  have "w - start - j = Suc (w - start - Suc j)" if "start + Suc j \<le> w" using that by simp
  then show ?case by (auto simp: Cons.IH xword_put)
qed simp

lemma load_xmem_words:
  assumes "xmem_mem soc = Some mem" "addr mod 4 = 0" "XMEM \<le> addr" "addr + int (length img) \<le> XMEM + 0x800000"
  shows "\<exists>mem'. load_xmem soc addr img = Inr (soc\<lparr>xmem_mem := Some mem'\<rparr>) \<and>
    (\<forall>w. xword mem' w = (let j = w - nat ((addr - XMEM) div 4) in
      if nat ((addr - XMEM) div 4) \<le> w \<and> 4 * j < length img then int_of_le (ljust 4 0 (take 4 (drop (4 * j) img))) else xword mem w))"
proof -
  let ?s = "nat ((addr - XMEM) div 4)"
  have "(4 * (w - ?s) < length img) = (w - ?s < length (pieces 4 img))" for w
    by (simp add: length_pieces) linarith
  then have "xword (fold (put_word ?s) (enumerate 0 (pieces 4 img)) mem) w = (let j = w - ?s in
      if ?s \<le> w \<and> 4 * j < length img then int_of_le (ljust 4 0 (take 4 (drop (4 * j) img))) else xword mem w)" for w
    unfolding xword_fold Let_def by (auto simp: nth_pieces)
  with assms show ?thesis
    by (intro exI [of _ "fold (put_word ?s) (enumerate 0 (pieces 4 img)) mem"]) (simp add: load_xmem_def XMEM_HALF_WORDS_def rassert_def)
qed

lemma fold_update:
  assumes "length xs = k" "length ws \<le> length us"
  shows "fold (\<lambda>(idx, word) mem. mem[idx := word]) (enumerate k ws) (xs @ us) = xs @ ws @ drop (length ws) us"
  using assms
proof (induction ws arbitrary: k xs us)
  case (Cons w ws)
  then obtain u vs where "us = u # vs" by (cases us) auto
  with Cons.IH [where xs = "xs @ [w]" and k = "Suc k" and us = vs] Cons.prems show ?case by (simp add: list_update_append)
qed simp

lemma load_imem_eq: "length ws \<le> length (rom_mem soc) \<Longrightarrow>
    load_imem soc ws = Inr (soc\<lparr>rom_mem := ws @ drop (length ws) (rom_mem soc)\<rparr>)"
  using fold_update [of "[]" 0 ws "rom_mem soc"] by (simp add: load_imem_def)

lemma steps_more_words: "rv_steps (fetch_at org ws) ld n s = Some t \<Longrightarrow> rv_steps (fetch_at org (ws @ vs)) ld n s = Some t"
proof (induction n arbitrary: s)
  case (Suc n)
  then obtain w u where w: "fetch_at org ws (rv_pc s) = Some w" "rv_exec ld w s = Some u" "rv_steps (fetch_at org ws) ld n u = Some t"
    by (auto split: option.splits)
  then have "fetch_at org (ws @ vs) (rv_pc s) = Some w" by (auto simp: fetch_at_def nth_append split: if_splits)
  with w Suc.IH show ?case by simp
qed simp


lemma jump_runs:
  assumes "target mod 4096 = 0"
  shows "rv_steps (fetch_at 0 [lui_t0 (drop_bit 12 target), 0x28067]) ld 2 (at_pc 0 (r, out)) =
    Some (at_pc (take_bit 32 target) (r(5 := take_bit 32 target), out))"
proof -
  let ?F = "fetch_at 0 [lui_t0 (drop_bit 12 target), 0x28067]"
  have f: "?F 0 = Some (lui_t0 (drop_bit 12 target))" "?F 4 = Some 0x28067" by (simp_all add: fetch_at_def)
  show ?thesis using exec_jr_t0 [OF _ assms, of "r(5 := take_bit 32 target)" ld 4 out]
    by (simp add: numeral_2_eq_2 state_simps f exec_lui_t0 assms take_bit_eq_mod)
qed

lemma window_word:
  assumes "addr mod 4 = 0" "XMEM \<le> addr"
  shows "\<exists>q. addr = XMEM + 4 * int q"
proof -
  have "(addr - XMEM) mod 4 = 0" using assms(1) unfolding XMEM_def by presburger
  then obtain k where "addr - XMEM = 4 * k" by (metis dvdE mod_0_imp_dvd)
  then have "addr = XMEM + 4 * int (nat k)" using assms(2) by simp
  then show ?thesis by blast
qed

lemma byte_of_word:
  assumes "i < length img"
  shows "le_bytes 4 (int_of_le (ljust 4 0 (take 4 (drop (4 * (i div 4)) img)))) ! (i mod 4) = img ! i"
proof -
  let ?c = "take 4 (drop (4 * (i div 4)) img)"
  have "le_bytes (length (ljust 4 0 ?c)) (int_of_le (ljust 4 0 ?c)) = ljust 4 0 ?c" by (rule le_bytes_of_le)
  moreover have "length (ljust 4 0 ?c) = 4" by simp
  ultimately have "le_bytes 4 (int_of_le (ljust 4 0 ?c)) = ljust 4 0 ?c" by metis
  moreover have eq: "4 * (i div 4) + i mod 4 = i" by simp
  moreover have "i mod 4 < length ?c" using assms by (simp add: less_diff_conv)
  ultimately show ?thesis by (simp add: ljust_def nth_append del: le_bytes.simps)
qed

text \<open>
  An application in the PSRAM. \<open>preload_psram_app\<close> raises unless the address is 4 KB-aligned, the image lies in the
  window and the build has the word model; otherwise every byte of the image stands at its address, every word of the
  PSRAM outside the image and every ROM word from the third on is as it was, and the machine started at 0 is at the
  image's first byte after two instructions, with one register changed and nothing stored.
\<close>

theorem psram_app_starts:
  assumes "2 \<le> length (rom_mem soc)"
  shows "if addr mod 4096 = 0 \<and> XMEM \<le> addr \<and> addr + int (length img) \<le> XMEM + 0x800000 \<and> xmem_mem soc \<noteq> None
    then \<exists>mem' rom'. preload_psram_app img addr soc = Inr \<lparr>rom_mem = rom', xmem_mem = Some mem'\<rparr> \<and>
      list_all (\<lambda>i. psram_byte mem' (addr + int i) = img ! i) [0..<length img] \<and>
      (\<forall>w. (int w < (addr - XMEM) div 4 \<or> addr + int (length img) \<le> XMEM + 4 * int w) \<longrightarrow>
        xword mem' w = xword (the (xmem_mem soc)) w) \<and>
      length rom' = length (rom_mem soc) \<and> drop 2 rom' = drop 2 (rom_mem soc) \<and>
      (\<forall>ld r out. rv_steps (fetch_at 0 rom') ld 2 (at_pc 0 (r, out)) = Some (at_pc addr (r(5 := addr), out)))
    else preload_psram_app img addr soc = Inl AssertionError"
proof (cases "addr mod 4096 = 0 \<and> XMEM \<le> addr \<and> addr + int (length img) \<le> XMEM + 0x800000 \<and> xmem_mem soc \<noteq> None")
  case True
  then obtain mem where mem: "xmem_mem soc = Some mem" by auto
  have al: "addr mod 4 = 0" using mod_mod_cancel [of 4 4096 addr] True by simp
  let ?s = "nat ((addr - XMEM) div 4)" and ?jump = "[lui_t0 (drop_bit 12 addr), 0x28067]"
  obtain q where q: "addr = XMEM + 4 * int q" using window_word [OF al] True by blast
  then have sq: "(addr - XMEM) div 4 = int q" by simp
  obtain mem' where l: "load_xmem soc addr img = Inr (soc\<lparr>xmem_mem := Some mem'\<rparr>)"
    and w: "\<And>w. xword mem' w = (let j = w - ?s in
      if ?s \<le> w \<and> 4 * j < length img then int_of_le (ljust 4 0 (take 4 (drop (4 * j) img))) else xword mem w)"
    using load_xmem_words [OF mem al] True by blast
  let ?rom = "?jump @ drop 2 (rom_mem soc)"
  have a32: "take_bit 32 addr = addr" using True by (simp add: take_bit_int_eq_self XMEM_def)
  have "preload_psram_app img addr soc = Inr \<lparr>rom_mem = ?rom, xmem_mem = Some mem'\<rparr>"
    using True assms by (simp add: preload_psram_app_def l jump_words_eq load_imem_eq numeral_2_eq_2)
  moreover have "rv_steps (fetch_at 0 ?rom) ld 2 (at_pc 0 (r, out)) = Some (at_pc addr (r(5 := addr), out))" for ld r out
    using steps_more_words [OF jump_runs [of addr ld r out]] True by (simp add: a32 del: append_Cons)
  moreover have "psram_byte mem' (addr + int i) = img ! i" if "i < length img" for i
  proof -
    have "nat ((addr + int i - XMEM) div 4) = q + i div 4" "nat ((addr + int i - XMEM) mod 4) = i mod 4"
      unfolding q by (simp_all add: nat_add_distrib nat_mod_distrib zdiv_int flip: of_nat_mod of_nat_div)
    moreover have "4 * (i div 4) \<le> i" by simp
    then have "4 * (i div 4) < length img" using that by (rule le_less_trans)
    ultimately show ?thesis using byte_of_word [OF that] by (simp add: sq psram_byte_def psram_word_def w Let_def del: le_bytes.simps)
  qed
  moreover have "xword mem' w = xword mem w" if "int w < (addr - XMEM) div 4 \<or> addr + int (length img) \<le> XMEM + 4 * int w" for w
  proof -
    have "\<not> (?s \<le> w \<and> 4 * (w - ?s) < length img)" using that by (auto simp: sq q)
    then show ?thesis unfolding w Let_def by (rule if_not_P)
  qed
  ultimately show ?thesis using True assms mem by (simp add: list_all_iff)
next
  case False
  then show ?thesis
    by (auto simp: preload_psram_app_def jump_words_def load_xmem_def rassert_def XMEM_HALF_WORDS_def split: option.splits)
qed


theorem psram_app_starts_witness:
  "\<exists>mem' rom'. preload_psram_app [1, 2, 3, 4, 5] (XMEM + 4096) \<lparr>rom_mem = replicate 8 0, xmem_mem = Some (\<lambda>_ _. 7)\<rparr> =
      Inr \<lparr>rom_mem = rom', xmem_mem = Some mem'\<rparr> \<and> psram_byte mem' (XMEM + 4100) = 5 \<and> xword mem' 1026 = 7 \<and>
    rv_steps (fetch_at 0 rom') (\<lambda>_ _ _. 0) 2 (at_pc 0 (\<lambda>_. 0, [])) = Some (at_pc (XMEM + 4096) ((\<lambda>_. 0)(5 := XMEM + 4096), []))"
proof -
  let ?s = "\<lparr>rom_mem = replicate 8 0, xmem_mem = Some (\<lambda>_ _. 7)\<rparr>" and ?i = "[1, 2, 3, 4, 5] :: byte list"
  obtain mem' rom' where p: "preload_psram_app ?i (XMEM + 4096) ?s = Inr \<lparr>rom_mem = rom', xmem_mem = Some mem'\<rparr>"
    and b: "list_all (\<lambda>i. psram_byte mem' (XMEM + 4096 + int i) = ?i ! i) [0..<length ?i]"
    and w: "\<And>w. int w < (XMEM + 4096 - XMEM) div 4 \<or> XMEM + 4096 + int (length ?i) \<le> XMEM + 4 * int w \<Longrightarrow>
        xword mem' w = xword (the (xmem_mem ?s)) w"
    and r: "\<And>ld r out. rv_steps (fetch_at 0 rom') ld 2 (at_pc 0 (r, out)) = Some (at_pc (XMEM + 4096) (r(5 := XMEM + 4096), out))"
    using psram_app_starts [of ?s "XMEM + 4096" ?i] by (auto simp: XMEM_def simp del: rv_steps.simps)
  from b have "psram_byte mem' (XMEM + 4100) = 5" by (simp add: list_all_iff add.commute)
  moreover have "xword mem' 1026 = 7" using w [of 1026] by (simp add: xword_def)
  ultimately show ?thesis using p r by (intro exI [of _ mem'] exI [of _ rom']) (simp del: rv_steps.simps)
qed

lemma image_words:
  assumes "list_all (fits 32) words"
  shows "\<exists>img. hack_image_bytes words = Inr img \<and> length img = 4 * length words \<and>
    (\<forall>k<length words. take 4 (drop (4 * k) img) = le_bytes 4 (words ! k))"
proof -
  have "rmapM (pack_u 4) words = Inr (map (le_bytes 4) words)"
    using assms by (auto simp: rmapM_Inr_iff list_all2_conv_all_nth list_all_length pack_u_def fits_def)
  moreover have "length (concat (map (le_bytes 4) words)) = 4 * length words" by (induction words) simp_all
  moreover have "take 4 (drop (4 * k) (concat (map (le_bytes 4) ws))) = le_bytes 4 (ws ! k)" if "k < length ws" for k ws
    using that
  proof (induction ws arbitrary: k)
    case (Cons w ws)
    then show ?case by (cases k) (simp_all del: le_bytes.simps)
  qed simp
  ultimately show ?thesis by (simp add: hack_image_bytes_def pack_words_def del: le_bytes.simps)
qed

text \<open>
  A Hack program behind the stub. For words of 32 bits that end below the stub's flag, the preload of \<open>start_hack\<close>
  puts word \<open>k\<close> of the program at Hack's instruction \<open>2 * k\<close>, clears the flag and, on any bus that reads the flag
  from the PSRAM, the machine started at 0 stores the flag, the Hack mode and the soft-reset key, in this order and
  nothing else, and spins.
\<close>

theorem hack_preload_starts:
  assumes "list_all (fits 32) words" "4 * length words \<le> 0x400000" "18 \<le> length (rom_mem soc)" "xmem_mem soc \<noteq> None"
  shows "\<exists>mem' rom'. hack_preload words soc = Inr \<lparr>rom_mem = rom', xmem_mem = Some mem'\<rparr> \<and>
    (\<forall>k. k < length words \<longrightarrow> psram_word mem' (HACK_I_BASE + 4 * int k) = words ! k) \<and>
    psram_word mem' HACK_STUB_FLAG = 0 \<and>
    (\<forall>ld r m. ld [] 2 HACK_STUB_FLAG = psram_word mem' HACK_STUB_FLAG \<longrightarrow>
      (\<exists>r'. rv_steps (fetch_at 0 rom') ld (11 + m) (at_pc 0 (r, [])) =
        Some (at_pc 44 (r', [(2, HACK_STUB_FLAG, 1), (2, 0x40003008, 0x100), (2, 0x4000300C, 0xA55A)]))))"
proof -
  obtain mem where mem: "xmem_mem soc = Some mem" using assms(4) by auto
  obtain img where img: "hack_image_bytes words = Inr img" "length img = 4 * length words"
    "\<And>k. k < length words \<Longrightarrow> take 4 (drop (4 * k) img) = le_bytes 4 (words ! k)"
    using image_words [OF assms(1)] by blast
  let ?rom = "stub_words @ drop 18 (rom_mem soc)" and ?soc = "soc\<lparr>rom_mem := stub_words @ drop 18 (rom_mem soc)\<rparr>"
  have "length stub_words = 18" by (simp add: stub_words_def)
  then have rom: "load_imem soc stub_words = Inr ?soc" using assms(3) load_imem_eq [of stub_words soc] by simp
  have fit: "HACK_I_BASE + int (length img) \<le> XMEM + 0x800000" "HACK_STUB_FLAG + 4 \<le> XMEM + 0x800000"
    using img(2) assms(2) by (simp_all add: lockstep_consts)
  obtain mem1 where l1: "load_xmem ?soc HACK_I_BASE img = Inr (?soc\<lparr>xmem_mem := Some mem1\<rparr>)"
    and w1: "\<And>w. xword mem1 w = (if 4 * w < length img then int_of_le (ljust 4 0 (take 4 (drop (4 * w) img))) else xword mem w)"
    using load_xmem_words [of ?soc mem HACK_I_BASE img] mem fit(1) by (auto simp: HACK_I_BASE_def XMEM_def Let_def)
  obtain mem2 where l2: "load_xmem (?soc\<lparr>xmem_mem := Some mem1\<rparr>) HACK_STUB_FLAG (replicate 4 0) = Inr (?soc\<lparr>xmem_mem := Some mem2\<rparr>)"
    and w2: "\<And>w. xword mem2 w = (let j = w - 0x100000 in if 0x100000 \<le> w \<and> 4 * j < 4
        then int_of_le (ljust 4 0 (take 4 (drop (4 * j) (replicate 4 (0 :: byte))))) else xword mem1 w)"
    using load_xmem_words [of "?soc\<lparr>xmem_mem := Some mem1\<rparr>" mem1 HACK_STUB_FLAG "replicate 4 0"] fit(2)
    by (auto simp: HACK_STUB_FLAG_def XMEM_def)
  have pre: "hack_preload words soc = Inr \<lparr>rom_mem = ?rom, xmem_mem = Some mem2\<rparr>"
    by (simp add: hack_preload_def img(1) hack_stub_words rom l1 l2)
  have flag: "psram_word mem2 HACK_STUB_FLAG = 0"
    by (simp add: psram_word_def HACK_STUB_FLAG_def w2 Let_def ljust_def int_of_le_zeros)
  have word: "psram_word mem2 (HACK_I_BASE + 4 * int k) = words ! k" if "k < length words" for k
  proof -
    have "k < 0x100000" using that assms(2) by simp
    then have "psram_word mem2 (HACK_I_BASE + 4 * int k) = int_of_le (ljust 4 0 (le_bytes 4 (words ! k)))"
      using that img(2,3) by (simp add: psram_word_def HACK_I_BASE_def XMEM_def w2 w1 Let_def del: le_bytes.simps)
    also have "\<dots> = words ! k" using assms(1) that
      by (simp add: ljust_def int_of_le_bytes list_all_length fits_def del: le_bytes.simps)
    finally show ?thesis .
  qed
  have "\<exists>r'. rv_steps (fetch_at 0 ?rom) ld (11 + m) (at_pc 0 (r, [])) =
      Some (at_pc 44 (r', [(2, HACK_STUB_FLAG, 1), (2, 0x40003008, 0x100), (2, 0x4000300C, 0xA55A)]))"
    if "ld [] 2 HACK_STUB_FLAG = 0" for ld r m
    using stub_first_pass [of ld m r] that steps_more_words by blast
  with pre flag word show ?thesis by (intro exI [of _ mem2] exI [of _ ?rom]) (simp del: rv_steps.simps)
qed


theorem hack_preload_starts_witness:
  "\<exists>mem' rom' r'. hack_preload [0xEA87FFFF, 5] \<lparr>rom_mem = replicate 32 0, xmem_mem = Some (\<lambda>_ _. 7)\<rparr> =
      Inr \<lparr>rom_mem = rom', xmem_mem = Some mem'\<rparr> \<and> psram_word mem' (HACK_I_BASE + 4) = 5 \<and>
    rv_steps (fetch_at 0 rom') (\<lambda>_ _ a. psram_word mem' a) 100 (at_pc 0 (\<lambda>_. 0, [])) =
      Some (at_pc 44 (r', [(2, HACK_STUB_FLAG, 1), (2, 0x40003008, 0x100), (2, 0x4000300C, 0xA55A)]))"
proof -
  let ?s = "\<lparr>rom_mem = replicate 32 0, xmem_mem = Some (\<lambda>_ _. 7)\<rparr>" and ?w = "[0xEA87FFFF, 5] :: int list"
  obtain mem' rom' where p: "hack_preload ?w ?s = Inr \<lparr>rom_mem = rom', xmem_mem = Some mem'\<rparr>"
    and w: "\<And>k. k < length ?w \<Longrightarrow> psram_word mem' (HACK_I_BASE + 4 * int k) = ?w ! k"
    and r: "\<And>ld r m. ld [] 2 HACK_STUB_FLAG = psram_word mem' HACK_STUB_FLAG \<Longrightarrow>
      (\<exists>r'. rv_steps (fetch_at 0 rom') ld (11 + m) (at_pc 0 (r, [])) =
        Some (at_pc 44 (r', [(2, HACK_STUB_FLAG, 1), (2, 0x40003008, 0x100), (2, 0x4000300C, 0xA55A)])))"
    using hack_preload_starts [of ?w ?s] by (auto simp: fits_def simp del: rv_steps.simps)
  have "psram_word mem' (HACK_I_BASE + 4) = 5" using w [of 1] by simp
  moreover have "11 + 89 = (100 :: nat)" by simp
  ultimately show ?thesis using p r [of "\<lambda>_ _ a. psram_word mem' a" 89 "\<lambda>_. 0"] by metis
qed

text \<open>A line in chunks is the line, in pieces the FIFO holds twice; the gap is what the handler needs for two chunks.\<close>

lemma chunks_line:
  "\<exists>cs. chunks data CHUNK = Inr cs \<and> concat cs = data \<and> (\<forall>c\<in>set cs. 2 * int (length c) \<le> RX_FIFO)"
  using pieces_short [of 16 _ data] by (auto simp: chunks_def pace_consts concat_pieces)

end
