(* ===== verification/Spi_Pins.thy ===== *)
theory Spi_Pins
  imports Sd_Card
begin

text \<open>
  The SD card on the RTL's SPI pins (\<^verbatim>\<open>src/sim/integration/sdcard_model.py\<close>): the coroutine is a step function over
  the edges that the simulator delivers, and it does at the pins what the byte-level card does.
\<close>

section \<open>The SD card on the SPI pins\<close>

text \<open>
  The coroutine waits for a rising edge of SCLK, then for a falling one. An edge carries what it samples: MOSI (\<open>None\<close>
  where it is not resolvable), whether CS is low, and the time in picoseconds. A change of CS goes to the card at once.
\<close>

datatype spi_event = Rise "bool option" bool int | Fall | Cs_change bool

record spi_card =
  sp_card :: sdcard
  sp_out :: byte
  sp_bit :: nat
  sp_fall :: bool
  sp_mosi :: int
  sp_selected :: bool
  sp_first :: int
  sp_miso :: bool

text \<open>\<open>round\<close> of a quotient: to the nearest integer, a half to the even one.\<close>

definition round_div :: "int \<Rightarrow> int \<Rightarrow> int" where
  "round_div a b =
     (let q = a div b; r = a mod b
      in if 2 * r < b then q else if b < 2 * r then q + 1 else if even q then q else q + 1)"

text \<open>
  The clock measured over a byte: seven periods between its first and its last rising edge, in picoseconds. The
  quotient is exact where the source divides floats, and the edges are at different times, since SCLK has to fall
  between them; at the same time the source's division raises.
\<close>

definition spi_hz :: "int \<Rightarrow> int \<Rightarrow> int" where
  "spi_hz first now = round_div 7000000000000 (now - first)"

text \<open>The start of a byte.\<close>

definition spi_begin :: "sdcard \<Rightarrow> spi_card" where
  "spi_begin c = (let (miso, c) = begin_byte c
     in \<lparr>sp_card = c, sp_out = miso, sp_bit = 7, sp_fall = False, sp_mosi = 0, sp_selected = False, sp_first = 0, sp_miso = bit miso 7\<rparr>)"

fun spi_step :: "spi_event \<Rightarrow> spi_card \<Rightarrow> spi_card" where
  "spi_step (Rise mosi cs_low now) s =
     (if sp_fall s then s
      else (let s = (if sp_bit s = 7 then s\<lparr>sp_selected := cs_low, sp_first := now\<rparr>
                     else if sp_bit s = 0 then s\<lparr>sp_card := set_sclk_hz (spi_hz (sp_first s) now) (sp_card s)\<rparr>
                     else s);
                b = (case mosi of None \<Rightarrow> 1 | Some v \<Rightarrow> of_bool v)
            in s\<lparr>sp_mosi := push_bit 1 (sp_mosi s) OR b, sp_fall := True\<rparr>))"
| "spi_step Fall s =
     (if \<not> sp_fall s then s
      else if sp_bit s = 0 then spi_begin (end_byte (word_of_int (sp_mosi s)) (sp_selected s) (sp_card s))
      else s\<lparr>sp_fall := False, sp_bit := sp_bit s - 1, sp_miso := bit (sp_out s) (sp_bit s - 1)\<rparr>)"
| "spi_step (Cs_change cs_low) s = s\<lparr>sp_card := set_cs cs_low (sp_card s)\<rparr>"

text \<open>The run over a sequence of events, with the level of MISO at each rising edge.\<close>

fun spi_run :: "spi_event list \<Rightarrow> spi_card \<Rightarrow> bool list \<times> spi_card" where
  "spi_run [] s = ([], s)"
| "spi_run (e # es) s =
     (let (ms, t) = spi_run es (spi_step e s)
      in (case e of Rise _ _ _ \<Rightarrow> sp_miso s # ms | _ \<Rightarrow> ms, t))"

section \<open>Bytes on the pins\<close>

text \<open>The master's events for a byte, most significant bit first, with the rising edges at some times.\<close>

definition byte_events :: "byte \<Rightarrow> bool \<Rightarrow> (nat \<Rightarrow> int) \<Rightarrow> spi_event list" where
  "byte_events m cs_low tm = concat (map (\<lambda>i. [Rise (Some (bit m (7 - i))) cs_low (tm i), Fall]) [0..<8])"

definition byte_bits :: "byte \<Rightarrow> bool list" where
  "byte_bits b = map (\<lambda>i. bit b (7 - i)) [0..<8]"

text \<open>What the card does for a byte at some frequency.\<close>

definition clocked :: "byte \<Rightarrow> bool \<Rightarrow> int \<Rightarrow> sdcard \<Rightarrow> byte \<times> sdcard" where
  "clocked m cs_low hz c = (let (miso, c) = begin_byte c in (miso, end_byte m cs_low (set_sclk_hz hz c)))"

lemma upt_8: "[0..<8] = [0, 1, 2, 3, 4, 5, 6, 7]"
  by (simp add: upt_conv_Cons)

lemma bits_of_byte: "(word_of_int (fold (\<lambda>i v. push_bit 1 v OR of_bool (bit m (7 - i))) [0..<8] 0) :: byte) = m"
proof (rule bit_word_eqI)
  fix n
  assume "n < LENGTH(8)"
  then have "n \<in> set [0..<8]" by simp
  then have "n = 0 \<or> n = 1 \<or> n = 2 \<or> n = 3 \<or> n = 4 \<or> n = 5 \<or> n = 6 \<or> n = 7" unfolding upt_8 by simp
  then show "bit (word_of_int (fold (\<lambda>i v. push_bit 1 v OR of_bool (bit m (7 - i))) [0..<8] 0) :: byte) n = bit m n"
    unfolding upt_8 by (elim disjE) (simp_all add: bit_simps del: push_bit_of_1)
qed

lemma spi_byte:
  "spi_run (byte_events m cs_low tm) (spi_begin c) =
     (byte_bits (fst (clocked m cs_low (spi_hz (tm 0) (tm 7)) c)), spi_begin (snd (clocked m cs_low (spi_hz (tm 0) (tm 7)) c)))"
proof -
  obtain b d where b: "begin_byte c = (b, d)" by (cases "begin_byte c")
  show ?thesis
    using bits_of_byte [of m]
    by (simp add: byte_events_def byte_bits_def upt_8 spi_begin_def clocked_def b Let_def)
qed

section \<open>The card behind the pins\<close>

text \<open>What a master does between the bytes' boundaries, and what it asks of the card.\<close>

datatype spi_item = Byte_on byte bool "nat \<Rightarrow> int" | Select bool

fun item_events :: "spi_item \<Rightarrow> spi_event list" where
  "item_events (Byte_on m cs_low tm) = byte_events m cs_low tm"
| "item_events (Select cs_low) = [Cs_change cs_low]"

fun card_items :: "spi_item list \<Rightarrow> sdcard \<Rightarrow> byte list \<times> sdcard" where
  "card_items [] c = ([], c)"
| "card_items (Byte_on m cs_low tm # xs) c =
     (let (b, c) = clocked m cs_low (spi_hz (tm 0) (tm 7)) c; (bs, c) = card_items xs c in (b # bs, c))"
| "card_items (Select cs_low # xs) c = card_items xs (set_cs cs_low c)"

lemma spi_run_append:
  "spi_run (es @ fs) s = (let (ms, t) = spi_run es s; (ns, u) = spi_run fs t in (ms @ ns, u))"
  by (induction es arbitrary: s) (simp_all add: Let_def split_def split: spi_event.split)

text \<open>A change of CS between two bytes does not touch the answer that the next byte sends.\<close>

lemma spi_select: "spi_step (Cs_change b) (spi_begin c) = spi_begin (set_cs b c)"
  by (simp add: spi_begin_def begin_byte_def set_cs_def split: list.split)

lemma spi_items:
  "spi_run (concat (map item_events xs)) (spi_begin c) =
     (concat (map byte_bits (fst (card_items xs c))), spi_begin (snd (card_items xs c)))"
proof (induction xs c rule: card_items.induct)
  case (2 m cs_low tm xs c)
  obtain b d where b: "clocked m cs_low (spi_hz (tm 0) (tm 7)) c = (b, d)" by (cases "clocked m cs_low (spi_hz (tm 0) (tm 7)) c")
  show ?case using 2 [OF refl b [symmetric]] by (simp add: spi_run_append spi_byte b split_def Let_def)
next
  case (3 cs_low xs c)
  then show ?case by (simp add: Let_def split_def spi_select del: spi_step.simps)
qed simp

lemma sclk_end_byte: "sclk_hz (end_byte m b c) = sclk_hz c"
proof -
  have "sclk_hz (command cmd arg d) = sclk_hz d" for cmd arg d
    by (simp add: command_def log_command_def answer_defs)
  then have "sclk_hz (take_byte m d) = sclk_hz d" for d
    by (simp add: take_byte_def add_resp_def set_sector_def Let_def split: sd_state.split)
  then show ?thesis by (simp add: end_byte_def count_clocks_def Let_def)
qed

lemma clocked_same: "clocked m b (sclk_hz c) c = exchange m b c"
proof -
  obtain b' d where b: "begin_byte c = (b', d)" by (cases "begin_byte c")
  have "sclk_hz (snd (begin_byte c)) = sclk_hz c" by (simp add: begin_byte_def split: list.split)
  then have "set_sclk_hz (sclk_hz c) d = d" by (simp add: b set_sclk_hz_def)
  then show ?thesis by (simp add: clocked_def exchange_def b)
qed

lemma sclk_exchange: "sclk_hz (snd (exchange m b c)) = sclk_hz c"
  by (simp add: exchange_def split_def sclk_end_byte begin_byte_def split: list.split)

lemma items_exchanges:
  "spi_hz (tm 0) (tm 7) = sclk_hz c \<Longrightarrow> card_items (map (\<lambda>m. Byte_on m True tm) ms) c = exchanges ms c"
proof (induction ms arbitrary: c)
  case (Cons m ms)
  then show ?case using sclk_exchange [of m True c] by (simp add: clocked_same split_def)
qed simp

text \<open>
  C15: the card on the pins is the card of the protocol. Whatever bytes a master clocks, with any times between the
  edges, and whatever it does with CS between them, the bits it samples from MISO on the rising edges are the card's
  answer bytes, most significant bit first, and the card behind the pins is the card that took the bytes, each with the
  frequency of its edges. While that frequency stays what the card has, these are its \<open>exchange\<close>s.
\<close>

theorem spi_pins_refine_card:
  "spi_run (concat (map item_events xs)) (spi_begin c) =
     (concat (map byte_bits (fst (card_items xs c))), spi_begin (snd (card_items xs c))) \<and>
   (spi_hz (tm 0) (tm 7) = sclk_hz c \<longrightarrow>
     spi_run (concat (map (\<lambda>m. byte_events m True tm) ms)) (spi_begin c) =
       (concat (map byte_bits (fst (exchanges ms c))), spi_begin (snd (exchanges ms c))))"
  using spi_items [of xs c] spi_items [of "map (\<lambda>m. Byte_on m True tm) ms" c] items_exchanges [of tm c ms]
  by (simp add: comp_def)

definition strict_card :: sdcard where
  "strict_card = sd_new \<lparr>sdhc = True, strict = True, mute_cmds = [], never_ready = False, read_error = False, bad_sectors = [],
     write_reject = False\<rparr>"

lemma go_idle: "fst (exchanges (cmd_frame 0 0 0x95 @ [0xFF, 0xFF]) strict_card) = replicate 7 0xFF @ [0x01]"
  by (simp add: strict_card_def cmd_frame_def be_bytes_def exchange_def begin_byte_def end_byte_def count_clocks_def take_byte_def command_def
      log_command_def answer_def add_resp_def int_of_be_def slice_def sd_new_def INIT_SCLK_HZ_def POWER_UP_CLOCKS_def Let_def numeral_eq_Suc)

theorem spi_pins_refine_card_witness:
  "fst (spi_run (concat (map (\<lambda>m. byte_events m True (\<lambda>i. 2500000 * int i)) (cmd_frame 0 0 0x95 @ [0xFF, 0xFF])))
      (spi_begin strict_card)) = concat (map byte_bits (replicate 7 0xFF @ [0x01]))"
proof -
  have "spi_hz (2500000 * int 0) (2500000 * int 7) = sclk_hz strict_card"
    by (simp add: spi_hz_def round_div_def strict_card_def sd_new_def INIT_SCLK_HZ_def)
  then show ?thesis
    using spi_pins_refine_card [of "[]" strict_card "\<lambda>i. 2500000 * int i" "cmd_frame 0 0 0x95 @ [0xFF, 0xFF]"] go_idle by simp
qed

end
