(* ===== verification/Serial_Bridge.thy ===== *)
theory Serial_Bridge
  imports Spi_Pins
begin

text \<open>
  The serial bridge of the simulations (\<^verbatim>\<open>src/sim/integration/virtual_serial.py\<close>): the worker that sends frames on a
  pin, the worker that receives them from one, and the calls that wait for received bytes.

  A line is a list of segments, a level and how long it lasts, from the present on; after the last one it stays high.
\<close>

type_synonym line = "(bool \<times> nat) list"

section \<open>Sending\<close>

definition uart_frame :: "nat \<Rightarrow> nat \<Rightarrow> byte \<Rightarrow> line" where
  "uart_frame bit_ps stop b = map (\<lambda>l. (l, bit_ps)) (False # map (bit b) [0..<8]) @ [(True, stop)]"

definition tx_worker :: "nat \<Rightarrow> byte list \<Rightarrow> line" where
  "tx_worker bit_ps tx_buffer = concat (map (uart_frame bit_ps (2 * bit_ps)) tx_buffer)"

section \<open>Receiving\<close>

fun level :: "line \<Rightarrow> bool" where
  "level [] = True"
| "level ((l, _) # _) = l"

fun elapse :: "line \<Rightarrow> nat \<Rightarrow> line" where
  "elapse [] d = []"
| "elapse ((l, n) # s) d = (if d < n then (l, n - d) # s else elapse s (d - n))"

text \<open>Wait until the line is idle, then for its next falling edge.\<close>

definition next_start :: "line \<Rightarrow> line" where
  "next_start s = dropWhile fst (if level s then s else dropWhile (\<lambda>(l, _). \<not> l) s)"

text \<open>The eight samples, a bit apart, and the line after the last.\<close>

fun sample :: "nat \<Rightarrow> nat \<Rightarrow> line \<Rightarrow> bool list \<times> line" where
  "sample bit_ps 0 s = ([], s)"
| "sample bit_ps (Suc n) s =
     (let s = elapse s bit_ps; (ls, t) = sample bit_ps n s in (level s # ls, t))"

definition line_size :: "line \<Rightarrow> nat" where
  "line_size s = length s + sum_list (map snd s)"

lemma elapse_size: "line_size (elapse s d) \<le> line_size s"
  by (induction s d rule: elapse.induct) (auto simp: line_size_def)

lemma elapse_less: "0 < d \<Longrightarrow> s \<noteq> [] \<Longrightarrow> line_size (elapse s d) < line_size s"
proof (cases s)
  case (Cons a r)
  moreover assume "0 < d"
  ultimately show ?thesis
    using elapse_size [of r "d - snd a"] by (cases a) (auto simp: line_size_def)
qed simp

lemma drop_size: "line_size (dropWhile P s) \<le> line_size s"
  by (induction s) (auto simp: line_size_def)

lemma start_size: "line_size (next_start s) \<le> line_size s"
  using drop_size [of fst s] order_trans [OF drop_size drop_size] by (simp add: next_start_def)

lemma sample_size: "line_size (snd (sample bit_ps n s)) \<le> line_size s"
  using elapse_size order_trans by (induction n arbitrary: s) (auto simp: Let_def split_def, blast)

definition byte_of_bits :: "bool list \<Rightarrow> byte" where
  "byte_of_bits ls = fold (OR) (map (\<lambda>(i, l). push_bit i (of_bool l)) (enumerate 0 ls)) 0"

text \<open>
  The bytes that the worker queues. A wait of no time is refused by the simulator: for a bit of less than two picoseconds
  the source does not get as far as a byte, and the definition gives none. Every property below has \<open>2 \<le> bit_ps\<close>.
\<close>

function rx_worker :: "nat \<Rightarrow> line \<Rightarrow> byte list" where
  "rx_worker bit_ps s =
     (if bit_ps < 2 \<or> next_start s = [] then []
      else (let s = elapse (next_start s) (bit_ps div 2)
            in if level s then rx_worker bit_ps s
               else (case sample bit_ps 8 s of (ls, s) \<Rightarrow>
                 byte_of_bits ls # rx_worker bit_ps (elapse s (bit_ps div 2)))))"
  by pat_completeness auto
termination
proof (relation "measure (\<lambda>(_, s). line_size s)")
  fix bit_ps s x
  assume a: "\<not> (bit_ps < 2 \<or> next_start s = [])" "x = elapse (next_start s) (bit_ps div 2)"
  have x: "line_size x < line_size s" using elapse_less [of "bit_ps div 2" "next_start s"] start_size [of s] a by auto
  then show "((bit_ps, x), bit_ps, s) \<in> measure (\<lambda>(_, s). line_size s)" by simp
  fix ls t
  assume "\<not> level x" "(ls, t) = sample bit_ps 8 x"
  then have "line_size t \<le> line_size x" using sample_size [of bit_ps 8 x] by (metis snd_conv)
  then show "((bit_ps, elapse t (bit_ps div 2)), bit_ps, s) \<in> measure (\<lambda>(_, s). line_size s)"
    using x elapse_size [of t "bit_ps div 2"] by simp
qed simp

declare rx_worker.simps [simp del]

section \<open>Waiting for bytes\<close>

text \<open>
  \<open>read\<close> takes bytes from the front of the receive buffer. The bytes still to come are a list with the time each one
  is received; a byte received at the deadline is taken. The result has what was consumed and whether it is enough.
\<close>

definition bridge_read :: "nat \<Rightarrow> byte list \<Rightarrow> byte list \<times> byte list" where
  "bridge_read n rx_buffer = (take n rx_buffer, drop n rx_buffer)"

fun consume_until :: "(byte list \<Rightarrow> bool) \<Rightarrow> int \<Rightarrow> byte list \<Rightarrow> byte list \<Rightarrow> int \<Rightarrow> (int \<times> byte) list \<Rightarrow> byte list \<times> bool" where
  "consume_until done_p deadline buf rx now [] =
     (let buf' = buf @ fst (bridge_read (length rx) rx)
      in (buf', rx \<noteq> [] \<and> done_p buf'))"
| "consume_until done_p deadline buf rx now ((t, b) # later) =
     (let buf' = buf @ fst (bridge_read (length rx) rx)
      in if rx \<noteq> [] \<and> done_p buf' then (buf', True)
         else if deadline \<le> now then (buf', False)
         else if t \<le> deadline then consume_until done_p deadline buf' [b] t later
         else (buf', False))"

definition bridge_wait_for :: "byte list \<Rightarrow> int \<Rightarrow> int \<Rightarrow> byte list \<Rightarrow> int \<Rightarrow> (int \<times> byte) list \<Rightarrow> byte list result" where
  "bridge_wait_for token timeout_cycles clk_period_ps rx now later =
     (case consume_until (occurs token) (now + timeout_cycles * clk_period_ps) [] rx now later of
        (buf, found) \<Rightarrow> if found then Inr buf else Inl TimeoutError)"

definition bridge_wait_any :: "int \<Rightarrow> int \<Rightarrow> byte list \<Rightarrow> int \<Rightarrow> (int \<times> byte) list \<Rightarrow> byte list" where
  "bridge_wait_any timeout_cycles clk_period_ps rx now later =
     fst (consume_until (\<lambda>b. b \<noteq> []) (now + timeout_cycles * clk_period_ps) [] rx now later)"

section \<open>Frames are received\<close>

lemma elapse_add: "elapse (elapse s a) b = elapse s (a + b)"
  by (induction s a rule: elapse.induct) (auto simp: add.commute)

text \<open>Segments of one length: time \<open>k * u + r\<close> lies in the segment \<open>k\<close>.\<close>

lemma elapse_even:
  "k < length ls \<Longrightarrow> r < u \<Longrightarrow>
    elapse (map (\<lambda>l. (l, u)) ls @ s) (k * u + r) = (ls ! k, u - r) # map (\<lambda>l. (l, u)) (drop (Suc k) ls) @ s"
proof (induction ls arbitrary: k)
  case (Cons l ls)
  then show ?case by (cases k) (auto simp: add.assoc)
qed simp

lemma elapse_past: "elapse (map (\<lambda>l. (l, u)) ls @ s) (length ls * u + r) = elapse s r"
  by (induction ls) (auto simp: add.assoc)

lemma sample_levels:
  "sample bit_ps (Suc n) s = (map (\<lambda>i. level (elapse s (Suc i * bit_ps))) [0..<Suc n], elapse s (Suc n * bit_ps))"
proof (induction n arbitrary: s)
  case (Suc n)
  have "map (\<lambda>i. level (elapse s (Suc i * bit_ps))) [0..<Suc (Suc n)] =
      level (elapse s bit_ps) # map (\<lambda>i. level (elapse (elapse s bit_ps) (Suc i * bit_ps))) [0..<Suc n]"
    unfolding upt_conv_Cons [OF zero_less_Suc] map_Suc_upt [symmetric] by (simp add: elapse_add comp_def del: upt_Suc)
  then show ?case unfolding sample.simps(2) [of bit_ps "Suc n"] by (simp add: Suc.IH Let_def elapse_add del: upt_Suc sample.simps)
qed (simp add: Let_def)

lemma byte_of_bits: "byte_of_bits (map (bit b) [0..<8]) = b"
proof (rule bit_word_eqI)
  fix n
  assume "n < LENGTH(8)"
  then have "n \<in> set [0..<8]" by simp
  then have "n = 0 \<or> n = 1 \<or> n = 2 \<or> n = 3 \<or> n = 4 \<or> n = 5 \<or> n = 6 \<or> n = 7" unfolding upt_8 by simp
  then show "bit (byte_of_bits (map (bit b) [0..<8])) n = bit b n"
    unfolding upt_8 by (elim disjE) (simp_all add: byte_of_bits_def bit_simps)
qed

text \<open>
  A sender's bits of length \<open>u\<close> are sampled in time by a receiver whose bits have length \<open>B\<close>: the middle of the start
  bit and the last sample lie in their bits, and after it the receiver is ready before the stop bit ends.
\<close>

definition in_time :: "nat \<Rightarrow> nat \<Rightarrow> bool" where
  "in_time B u \<longleftrightarrow> 2 \<le> B \<and> B div 2 < u \<and> 8 * u \<le> B div 2 + 8 * B \<and> B div 2 + 8 * B < 9 * u"

lemma sample_in_bit:
  assumes "in_time B u" "i < 8"
  obtains r where "r < u" "B div 2 + Suc i * B = Suc i * u + r"
proof -
  let ?h = "int (B div 2)" and ?i = "int (Suc i)" and ?B = "int B" and ?u = "int u"
  have h: "?h < ?u" "8 * ?u \<le> ?h + 8 * ?B" "?h + 8 * ?B < 9 * ?u" "0 \<le> ?h"
    using assms(1) by (simp_all add: in_time_def flip: of_nat_mult of_nat_add of_nat_less_iff of_nat_le_iff)
  have i: "1 \<le> ?i" "?i \<le> 8" using assms(2) by simp_all
  have "?i * ?u \<le> ?h + ?i * ?B"
  proof (cases "?u \<le> ?B")
    case True
    then show ?thesis using mult_left_mono [of ?u ?B ?i] h(4) i by linarith
  next
    case False
    then have "?i * (?u - ?B) \<le> 8 * (?u - ?B)" using i by (intro mult_right_mono) auto
    then show ?thesis using h by (simp add: algebra_simps)
  qed
  moreover have "?h + ?i * ?B < ?i * ?u + ?u"
  proof (cases "?B \<le> ?u")
    case True
    then show ?thesis using mult_left_mono [of ?B ?u ?i] h i by linarith
  next
    case False
    then have "?i * (?B - ?u) \<le> 8 * (?B - ?u)" using i by (intro mult_right_mono) auto
    then show ?thesis using h by (simp add: algebra_simps)
  qed
  ultimately have "int (Suc i * u) \<le> int (B div 2 + Suc i * B)" "int (B div 2 + Suc i * B) < int (Suc i * u + u)"
    by (simp_all only: of_nat_add of_nat_mult)
  then show ?thesis using that [of "B div 2 + Suc i * B - Suc i * u"] by linarith
qed

lemma after_frame:
  assumes "in_time B u" "2 * (B div 2) + 8 * B < 9 * u + S" "dropWhile fst rest = rest"
  shows "next_start (elapse (uart_frame u S b @ rest) (B div 2 + 8 * B + B div 2)) = rest"
proof -
  let ?ls = "False # map (bit b) [0..<8]" and ?t = "B div 2 + 8 * B + B div 2"
  have f: "uart_frame u S b @ rest = map (\<lambda>l. (l, u)) ?ls @ (True, S) # rest" by (simp add: uart_frame_def)
  show ?thesis
  proof (cases "?t < 9 * u")
    case True
    have "8 * u \<le> ?t" using assms(1) by (simp add: in_time_def)
    then obtain r where r: "?t = 8 * u + r" "r < u" using True le_Suc_ex by force
    have "elapse (map (\<lambda>l. (l, u)) ?ls @ (True, S) # rest) (8 * u + r) = (?ls ! 8, u - r) # map (\<lambda>l. (l, u)) (drop (Suc 8) ?ls) @ (True, S) # rest"
      using r(2) by (intro elapse_even) simp_all
    then show ?thesis unfolding f r(1) using assms(3) by (simp add: next_start_def)
  next
    case False
    then obtain r where r: "?t = length ?ls * u + r" using le_Suc_ex [of "9 * u" ?t] by auto
    have "elapse (map (\<lambda>l. (l, u)) ?ls @ (True, S) # rest) (length ?ls * u + r) = elapse ((True, S) # rest) r" by (rule elapse_past)
    moreover have "r < S" using r assms(2) by simp
    ultimately show ?thesis unfolding f r using assms(3) by (simp add: next_start_def)
  qed
qed

lemma frame_levels:
  assumes "in_time B u"
  shows "level (elapse (uart_frame u S b @ rest) (B div 2)) = False"
    "map (\<lambda>i. level (elapse (uart_frame u S b @ rest) (B div 2 + Suc i * B))) [0..<8] = map (bit b) [0..<8]"
proof -
  let ?ls = "False # map (bit b) [0..<8]"
  have f: "uart_frame u S b @ rest = map (\<lambda>l. (l, u)) ?ls @ (True, S) # rest" by (simp add: uart_frame_def)
  have at: "level (elapse (uart_frame u S b @ rest) (k * u + r)) = ?ls ! k" if "k < 9" "r < u" for k r
    unfolding f using elapse_even [of k ?ls r u "(True, S) # rest"] that by simp
  show "level (elapse (uart_frame u S b @ rest) (B div 2)) = False" using at [of 0 "B div 2"] assms by (simp add: in_time_def)
  show "map (\<lambda>i. level (elapse (uart_frame u S b @ rest) (B div 2 + Suc i * B))) [0..<8] = map (bit b) [0..<8]"
  proof (rule map_cong [OF refl])
    fix i
    assume "i \<in> set [0..<8]"
    then have i: "i < 8" by simp
    obtain r where r: "r < u" "B div 2 + Suc i * B = Suc i * u + r" using sample_in_bit [OF assms i] .
    show "level (elapse (uart_frame u S b @ rest) (B div 2 + Suc i * B)) = bit b i"
      unfolding r(2) using at [of "Suc i" r] i r(1) by simp
  qed
qed

lemma frame_received:
  assumes "in_time B u" "2 * (B div 2) + 8 * B < 9 * u + S" "dropWhile fst rest = rest" "next_start s = uart_frame u S b @ rest"
  shows "\<exists>s'. rx_worker B s = b # rx_worker B s' \<and> next_start s' = rest"
proof -
  let ?F = "uart_frame u S b @ rest"
  have B: "\<not> B < 2" "?F \<noteq> []" using assms(1) by (simp_all add: in_time_def uart_frame_def)
  have 8: "(8 :: nat) = Suc 7" by simp
  have "sample B 8 (elapse ?F (B div 2)) = (map (bit b) [0..<8], elapse ?F (B div 2 + 8 * B))"
    using sample_levels [of B 7 "elapse ?F (B div 2)"] frame_levels(2) [OF assms(1), of S b rest] unfolding 8 [symmetric] elapse_add
    by (simp del: mult_Suc)
  then have "rx_worker B s = b # rx_worker B (elapse ?F (B div 2 + 8 * B + B div 2))"
    using B frame_levels(1) [OF assms(1), of S b rest] unfolding rx_worker.simps [of B s] assms(4)
    by (simp add: byte_of_bits elapse_add Let_def)
  then show ?thesis using after_frame [OF assms(1-3), of b] by blast
qed

definition frames :: "nat \<Rightarrow> (byte \<times> nat) list \<Rightarrow> line" where
  "frames u fs = concat (map (\<lambda>(b, S). uart_frame u S b) fs)"

lemma frames_start: "dropWhile fst (frames u fs) = frames u fs"
  by (cases fs) (auto simp: frames_def uart_frame_def)

lemma frames_received:
  assumes "in_time B u" "\<forall>(b, S) \<in> set fs. 2 * (B div 2) + 8 * B < 9 * u + S"
  shows "next_start s = frames u fs \<Longrightarrow> rx_worker B s = map fst fs"
  using assms(2)
proof (induction fs arbitrary: s)
  case Nil
  then show ?case by (simp add: frames_def rx_worker.simps)
next
  case (Cons f fs)
  obtain b S where f: "f = (b, S)" by (cases f)
  have "next_start s = uart_frame u S b @ frames u fs" using Cons.prems(1) by (simp add: frames_def f)
  then obtain s' where "rx_worker B s = b # rx_worker B s'" "next_start s' = frames u fs"
    using frame_received [OF assms(1) _ frames_start] Cons.prems(2) f by force
  then show ?case using Cons f by simp
qed

text \<open>
  C16: the bridge receives what it is sent. From an idle line, a receiver reads the bytes of every sequence of frames,
  with stop bits and gaps of any length a bit or more, from a sender whose bits are between 17/18 and 17/16 of its own;
  so it does from the bridge's own sender, which sends them least significant bit first between a start bit and two stop
  bits.
\<close>

theorem bridge_receives:
  assumes "2 \<le> B" "17 * B < 18 * u" "16 * u < 17 * B" "\<forall>(b, S) \<in> set fs. u \<le> S"
  shows "rx_worker B ((True, n) # frames u fs) = map fst fs \<and> rx_worker B ((True, n) # tx_worker B bs) = bs"
proof -
  have i: "in_time B u" "in_time B B" using assms(1-3) by (auto simp: in_time_def)
  have g: "\<forall>(b, S) \<in> set fs. 2 * (B div 2) + 8 * B < 9 * u + S" using assms(2,4) by fastforce
  have t: "tx_worker B bs = frames B (map (\<lambda>b. (b, 2 * B)) bs)" by (simp add: tx_worker_def frames_def comp_def)
  have s: "next_start ((True, n) # frames v gs) = frames v gs" for v gs by (simp add: next_start_def frames_start)
  have "rx_worker B ((True, n) # tx_worker B bs) = map fst (map (\<lambda>b. (b, 2 * B)) bs)"
    unfolding t using assms(1) by (intro frames_received [OF i(2)] s) auto
  then show ?thesis using frames_received [OF i(1) g s] by (simp add: comp_def)
qed

theorem bridge_receives_witness:
  "rx_worker 8666736 ((True, 5) # frames 8500000 [(0x55, 9000000), (0xA0, 8500000)]) = [0x55, 0xA0] \<and>
   rx_worker 8666736 ((True, 5) # tx_worker 8666736 [1, 2, 3]) = [1, 2, 3]"
  using bridge_receives [of 8666736 8500000 "[(0x55, 9000000), (0xA0, 8500000)]" 5 "[1, 2, 3]"] by simp

section \<open>Waits end with the bytes they need\<close>

text \<open>The bytes that a wait can see arrive.\<close>

fun arrivals :: "int \<Rightarrow> int \<Rightarrow> (int \<times> byte) list \<Rightarrow> byte list" where
  "arrivals deadline now [] = []"
| "arrivals deadline now ((t, b) # later) = (if now < deadline \<and> t \<le> deadline then b # arrivals deadline t later else [])"

lemma consume_spec:
  assumes "consume_until P deadline buf rx now later = (out, found)"
  shows "if found then \<exists>k. out = buf @ rx @ take k (arrivals deadline now later) \<and> k \<le> length (arrivals deadline now later) \<and> P out \<and>
        rx @ take k (arrivals deadline now later) \<noteq> [] \<and>
        (\<forall>j < k. rx @ take j (arrivals deadline now later) \<noteq> [] \<longrightarrow> \<not> P (buf @ rx @ take j (arrivals deadline now later)))
    else out = buf @ rx @ arrivals deadline now later \<and>
        (\<forall>j. rx @ take j (arrivals deadline now later) \<noteq> [] \<longrightarrow> \<not> P (buf @ rx @ take j (arrivals deadline now later)))"
  using assms
proof (induction P deadline buf rx now later rule: consume_until.induct)
  case (1 P deadline buf rx now)
  then show ?case by (auto simp: bridge_read_def Let_def)
next
  case (2 P deadline buf rx now t b later)
  let ?b = "buf @ rx" and ?a = "arrivals deadline t later"
  consider (hit) "rx \<noteq> [] \<and> P ?b" | (over) "\<not> (rx \<noteq> [] \<and> P ?b)" "\<not> (now < deadline \<and> t \<le> deadline)"
    | (wait) "\<not> (rx \<noteq> [] \<and> P ?b)" "now < deadline" "t \<le> deadline" by blast
  then show ?case
  proof cases
    case hit
    then show ?thesis using 2(2) by (auto simp: bridge_read_def Let_def intro!: exI [of _ 0])
  next
    case over
    then have "out = ?b" "\<not> found" "arrivals deadline now ((t, b) # later) = []"
      using 2(2) by (auto simp: bridge_read_def Let_def split: if_splits)
    then show ?thesis using over(1) by auto
  next
    case wait
    have a: "arrivals deadline now ((t, b) # later) = b # ?a" using wait by simp
    have f: "fst (bridge_read (length rx) rx) = rx" by (simp add: bridge_read_def)
    have r: "consume_until P deadline ?b [b] t later = (out, found)"
      using 2(2) wait by (simp add: bridge_read_def Let_def)
    have IH: "if found then \<exists>k. out = ?b @ [b] @ take k ?a \<and> k \<le> length ?a \<and> P out \<and> [b] @ take k ?a \<noteq> [] \<and>
        (\<forall>j < k. [b] @ take j ?a \<noteq> [] \<longrightarrow> \<not> P (?b @ [b] @ take j ?a))
      else out = ?b @ [b] @ ?a \<and> (\<forall>j. [b] @ take j ?a \<noteq> [] \<longrightarrow> \<not> P (?b @ [b] @ take j ?a))"
      using wait r by (intro 2(1) [OF refl, unfolded f]) auto
    have no: "\<not> P (buf @ rx @ take j (b # ?a))" if "rx @ take j (b # ?a) \<noteq> []" "\<forall>i < j. \<not> P (?b @ [b] @ take i ?a)" for j
      using that wait(1) by (cases j) auto
    show ?thesis
    proof (cases found)
      case True
      then obtain k where k: "out = ?b @ [b] @ take k ?a" "k \<le> length ?a" "P out" "\<forall>j < k. \<not> P (?b @ [b] @ take j ?a)"
        using IH by auto
      then show ?thesis unfolding a using True no by (auto intro!: exI [of _ "Suc k"])
    next
      case False
      then show ?thesis unfolding a using IH no by auto
    qed
  qed
qed

lemma wait_for_exact:
  assumes "token \<noteq> []" "a = arrivals (now + timeout * period) now later" "all = rx @ a"
  shows "case bridge_wait_for token timeout period rx now later of
      Inr out \<Rightarrow> \<exists>k \<ge> length rx. k \<le> length all \<and> out = take k all \<and> occurs token out \<and> (\<forall>j \<in> {length rx..<k}. \<not> occurs token (take j all))
    | Inl e \<Rightarrow> e = TimeoutError \<and> (\<forall>j \<ge> length rx. \<not> occurs token (take j all))"
proof -
  have tk: "take j all = rx @ take (j - length rx) a" if "length rx \<le> j" for j using that by (simp add: assms(3))
  have no: "\<not> occurs token []" using assms(1) by (simp add: occurs_def)
  obtain out found where c: "consume_until (occurs token) (now + timeout * period) [] rx now later = (out, found)"
    by (cases "consume_until (occurs token) (now + timeout * period) [] rx now later")
  have nil: "\<not> occurs token (rx @ take j a)" if "rx @ take j a \<noteq> [] \<longrightarrow> \<not> occurs token (rx @ take j a)" for j
    using that no by metis
  note s = consume_spec [OF c, folded assms(2), simplified]
  show ?thesis
  proof (cases found)
    case True
    then obtain k where k: "out = rx @ take k a" "k \<le> length a" "occurs token out"
      "\<forall>j < k. rx @ take j a \<noteq> [] \<longrightarrow> \<not> occurs token (rx @ take j a)"
      using s by auto
    have "\<not> occurs token (take j all)" if "j \<in> {length rx..<length rx + k}" for j
    proof -
      have "j - length rx < k" "length rx \<le> j" using that by auto
      then show ?thesis using nil [of "j - length rx"] k(4) by (simp add: tk)
    qed
    then have "\<exists>n \<ge> length rx. n \<le> length all \<and> out = take n all \<and> occurs token out \<and> (\<forall>j \<in> {length rx..<n}. \<not> occurs token (take j all))"
      using k(1-3) by (intro exI [of _ "length rx + k"]) (simp add: assms(3))
    then show ?thesis by (simp add: bridge_wait_for_def c True)
  next
    case False
    then have "\<not> occurs token (take j all)" if "length rx \<le> j" for j using s nil that by (simp add: tk)
    then show ?thesis by (simp add: bridge_wait_for_def c False)
  qed
qed

lemma wait_any_exact:
  assumes "a = arrivals (now + timeout * period) now later"
  shows "bridge_wait_any timeout period rx now later = (if rx \<noteq> [] then rx else take 1 a)"
proof -
  obtain out found where c: "consume_until (\<lambda>b. b \<noteq> []) (now + timeout * period) [] rx now later = (out, found)"
    by (cases "consume_until (\<lambda>b. b \<noteq> []) (now + timeout * period) [] rx now later")
  note s = consume_spec [OF c, folded assms, simplified]
  have "out = (if rx \<noteq> [] then rx else take 1 a)"
  proof (cases found)
    case True
    then obtain k where k: "out = rx @ take k a" "rx = [] \<longrightarrow> take k a \<noteq> []" "\<forall>j < k. rx @ take j a = []"
      using s by auto
    have "k = (if rx = [] then 1 else 0)"
      using k(2) k(3) [rule_format, of 0] k(3) [rule_format, of 1] by (cases k; cases a) (auto split: if_splits)
    then show ?thesis using k(1) by simp
  next
    case False
    then have "rx @ take j a = []" for j using s by auto
    from this [of 1] show ?thesis using s False by (cases a) auto
  qed
  then show ?thesis by (simp add: bridge_wait_any_def c)
qed

text \<open>
  Waiting for a token. With \<open>all\<close> the bytes that are in the buffer or arrive by the deadline, the wait returns the
  shortest part of them that has what was in the buffer and the token, as soon as it has arrived, and raises \<open>TimeoutError\<close>
  exactly when no such part has the token. The wait for any byte returns the bytes in the buffer, or else the first to
  arrive, or nothing when none does.
\<close>

theorem bridge_waits:
  assumes "token \<noteq> []" "all = rx @ arrivals (now + timeout * period) now later"
  shows "(case bridge_wait_for token timeout period rx now later of
      Inr out \<Rightarrow> \<exists>k \<ge> length rx. k \<le> length all \<and> out = take k all \<and> occurs token out \<and> (\<forall>j \<in> {length rx..<k}. \<not> occurs token (take j all))
    | Inl e \<Rightarrow> e = TimeoutError \<and> (\<forall>j \<ge> length rx. \<not> occurs token (take j all))) \<and>
    bridge_wait_any timeout period rx now later = (if rx \<noteq> [] then rx else take 1 all)"
proof
  show "case bridge_wait_for token timeout period rx now later of
      Inr out \<Rightarrow> \<exists>k \<ge> length rx. k \<le> length all \<and> out = take k all \<and> occurs token out \<and> (\<forall>j \<in> {length rx..<k}. \<not> occurs token (take j all))
    | Inl e \<Rightarrow> e = TimeoutError \<and> (\<forall>j \<ge> length rx. \<not> occurs token (take j all))"
    by (rule wait_for_exact [OF assms(1) refl assms(2)])
  show "bridge_wait_any timeout period rx now later = (if rx \<noteq> [] then rx else take 1 all)"
    by (simp add: wait_any_exact [OF refl] assms(2))
qed

theorem bridge_waits_witness:
  "bridge_wait_for [2, 3] 10 100 [1] 0 [(50, 2), (90, 3), (120, 4)] = Inr [1, 2, 3] \<and>
   (case bridge_wait_for [2, 3] 10 100 [1] 0 [(50, 2), (90, 3), (120, 4)] of
      Inr out \<Rightarrow> \<exists>k \<ge> 1. out = take k [1, 2, 3, 4] | Inl e \<Rightarrow> False)"
proof -
  have e: "bridge_wait_for [2, 3] 10 100 [1] 0 [(50, 2), (90, 3), (120, 4)] = Inr [1, 2, 3]"
    by (simp add: bridge_wait_for_def bridge_read_def occurs_def starts_def)
  show ?thesis using bridge_waits [of "[2, 3]" "[1, 2, 3, 4]" "[1]" 0 10 100 "[(50, 2), (90, 3), (120, 4)]"] unfolding e by auto
qed

end
