(* ===== verification/Fw_Coverage.thy ===== *)
theory Fw_Coverage
  imports Serial_Text "HOL-Library.Char_ord" "HOL-Library.List_Lexorder" "HOL-Library.Multiset"
begin

text \<open>
  Line coverage of the firmware from emulator runs (\<^verbatim>\<open>src/scripts/coverage_fw.py\<close>): the recorded instructions, the
  lines of an ELF image and of a Hack assembly file they cover, the lcov records and the summary's counts. What pyelftools
  reads from an ELF file (segments, the rows of the line tables) and the sources' texts are arguments.
\<close>

section \<open>Recorded instructions\<close>

text \<open>The emulator's key of an executed instruction (\<open>cov_key\<close> of the emulator's \<^verbatim>\<open>soc.rs\<close>), in 64 bits.\<close>

definition cov_key :: "bool \<Rightarrow> 32 word \<Rightarrow> 32 word \<Rightarrow> 64 word" where
  "cov_key riscv pc instr = push_bit 33 (ucast pc) OR push_bit 32 (of_bool riscv) OR ucast instr"

text \<open>The file written at the end of a run (\<open>_write_coverage\<close> of \<^verbatim>\<open>src/sim/emu/vux9k.py\<close>).\<close>

definition write_coverage :: "64 word list \<Rightarrow> string list" where
  "write_coverage keys = map (\<lambda>k. hex_digits (unat k)) (sort (remdups keys))"

type_synonym hit = "int \<times> int"

definition split_key :: "int \<Rightarrow> int \<times> int \<times> int" where
  "split_key k = (drop_bit 33 k, drop_bit 32 k AND 1, k AND 0xFFFFFFFF)"

definition load_hits :: "string list \<Rightarrow> (hit list \<times> hit list) result" where
  "load_hits ls =
     rmap (\<lambda>ks. let hs = map split_key ks
                in (map (\<lambda>(pc, _, w). (pc, w)) (filter (\<lambda>(_, isa, _). isa \<noteq> 0) hs),
                    map (\<lambda>(pc, _, w). (pc, w)) (filter (\<lambda>(_, isa, _). isa = 0) hs)))
       (rmapM int_base16 ls)"

section \<open>ELF images\<close>

record elf_seg =
  sg_load :: bool
  sg_flags :: int
  sg_data :: "byte list"
  sg_vaddr :: int

definition seg_words :: "elf_seg \<Rightarrow> (int \<times> int) list" where
  "seg_words sg = map (\<lambda>i. (sg_vaddr sg + 4 * int i, int_of_le (slice (4 * i) (4 * i + 4) (sg_data sg)))) [0..<length (sg_data sg) div 4]"

definition elf_words :: "elf_seg list \<Rightarrow> (int \<rightharpoonup> int)" where
  "elf_words segs =
     fold (\<lambda>(a, w) m. m(a \<mapsto> w)) (concat (map seg_words (filter (\<lambda>sg. sg_load sg \<and> sg_flags sg AND 1 \<noteq> 0) segs))) Map.empty"

text \<open>\<open>os.path.join\<close>, \<open>normpath\<close> of an absolute path and \<open>relpath\<close> between two.\<close>

definition path_join :: "string \<Rightarrow> string \<Rightarrow> string" where
  "path_join a b = (if starts ''/'' b then b else if a = [] \<or> ends ''/'' a then a @ b else a @ ''/'' @ b)"

definition norm_parts :: "string \<Rightarrow> string list" where
  "norm_parts p = rev (fold (\<lambda>c ps. if c = [] \<or> c = ''.'' then ps else if c = ''..'' then tl ps else c # ps) (split_at CHR ''/'' p) [])"

fun common :: "string list \<Rightarrow> string list \<Rightarrow> nat" where
  "common (a # as) (b # bs) = (if a = b then Suc (common as bs) else 0)"
| "common _ _ = 0"

fun join_slash :: "string list \<Rightarrow> string" where
  "join_slash [] = []"
| "join_slash [p] = p"
| "join_slash (p # ps) = p @ ''/'' @ join_slash ps"

definition relpath :: "string \<Rightarrow> string \<Rightarrow> string" where
  "relpath path root =
     (let p = norm_parts path; r = norm_parts root; n = common p r;
          q = replicate (length r - n) ''..'' @ drop n p
      in if q = [] then ''.'' else join_slash q)"

record line_state =
  st_address :: int
  st_file :: int
  st_line :: int
  st_end :: bool

record line_unit =
  cu_comp_dir :: "string option"
  cu_version :: int
  cu_files :: "(string \<times> int) list"
  cu_dirs :: "string list"
  cu_entries :: "line_state option list"

text \<open>\<open>xs[i]\<close>: a negative index counts from the end, another one out of range raises.\<close>

definition py_nth :: "'a list \<Rightarrow> int \<Rightarrow> 'a result" where
  "py_nth xs i =
     (if 0 \<le> i \<and> i < int (length xs) then Inr (xs ! nat i)
      else if - int (length xs) \<le> i \<and> i < 0 then Inr (xs ! nat (int (length xs) + i))
      else Inl IndexError)"

definition path_of :: "line_unit \<Rightarrow> int \<Rightarrow> string result" where
  "path_of cu idx =
     (let v5 = cu_version cu \<ge> 5; comp = (case cu_comp_dir cu of None \<Rightarrow> [] | Some d \<Rightarrow> d)
      in rbind (py_nth (cu_files cu) (if v5 then idx else idx - 1)) (\<lambda>(name, d).
         rbind (if v5 then py_nth (cu_dirs cu) d else if 0 < d then py_nth (cu_dirs cu) (d - 1) else Inr comp) (\<lambda>base.
         Inr (path_join (path_join comp base) name))))"

type_synonym src_line = "string \<times> int"

text \<open>The rows of one unit: a row's range ends at the next row's address.\<close>

fun unit_rows :: "line_unit \<Rightarrow> (string \<Rightarrow> string option) \<Rightarrow> (int \<times> string \<times> int) option \<Rightarrow> line_state option list \<Rightarrow>
    (src_line \<times> int \<times> int) list result" where
  "unit_rows cu rel prev [] = Inr []"
| "unit_rows cu rel prev (None # es) = unit_rows cu rel prev es"
| "unit_rows cu rel prev (Some st # es) =
     (let out = (case prev of
          None \<Rightarrow> []
        | Some (a, path, l) \<Rightarrow>
            if st_address st > a \<and> l \<noteq> 0
            then (case rel path of None \<Rightarrow> [] | Some r \<Rightarrow> [((r, l), (a, st_address st))]) else [])
      in rbind (if st_end st then Inr None else rmap (\<lambda>p. Some (st_address st, p, st_line st)) (path_of cu (st_file st))) (\<lambda>prev.
         rmap (\<lambda>rs. out @ rs) (unit_rows cu rel prev es)))"

definition add_range :: "src_line \<times> int \<times> int \<Rightarrow> (src_line \<times> (int \<times> int) list) list \<Rightarrow> (src_line \<times> (int \<times> int) list) list" where
  "add_range r out = dict_set (fst r) ((case map_of out (fst r) of None \<Rightarrow> [] | Some rs \<Rightarrow> rs) @ [snd r]) out"

definition line_ranges :: "string \<Rightarrow> string list \<Rightarrow> line_unit list \<Rightarrow> (src_line \<times> (int \<times> int) list) list result" where
  "line_ranges root dirs cus =
     (let rel = (\<lambda>p. let r = relpath p root in if list_ex (\<lambda>q. starts q r) dirs then Some r else None)
      in rmap (\<lambda>rss. fold add_range (concat rss) []) (rmapM (\<lambda>cu. unit_rows cu rel None (cu_entries cu)) cus))"

text \<open>A line marked \<open>cov:exclude(reason)\<close>; a source that can't be read has no lines.\<close>

definition excluded :: "(string \<Rightarrow> string list option) \<Rightarrow> src_line \<Rightarrow> bool" where
  "excluded sources k =
     (let ls = (case sources (fst k) of None \<Rightarrow> [] | Some t \<Rightarrow> t)
      in 0 < snd k \<and> snd k \<le> int (length ls) \<and> occurs ''cov:exclude('' (ls ! nat (snd k - 1)))"

text \<open>\<open>bisect.bisect_left\<close> on a sorted list.\<close>

definition bisect_left :: "int list \<Rightarrow> int \<Rightarrow> nat" where
  "bisect_left xs x = length (takeWhile (\<lambda>a. a < x) xs)"

definition range_hit :: "int list \<Rightarrow> (int \<times> int) list \<Rightarrow> bool" where
  "range_hit addrs rs = list_ex (\<lambda>(lo, hi). let i = bisect_left addrs lo in i < length addrs \<and> addrs ! i < hi) rs"

definition add_line :: "src_line \<Rightarrow> bool \<Rightarrow> (src_line \<times> bool) list \<Rightarrow> (src_line \<times> bool) list" where
  "add_line k hit ls = dict_set k ((case map_of ls k of None \<Rightarrow> False | Some b \<Rightarrow> b) \<or> hit) ls"

definition ran_addresses :: "(int \<rightharpoonup> int) \<Rightarrow> hit list \<Rightarrow> int list" where
  "ran_addresses ws hits =
     sort (remdups (concat (map (\<lambda>(pc, w). filter (\<lambda>a. ws a = Some w) [pc, pc OR 0x80000000]) hits)))"

definition cover_elf :: "(string \<Rightarrow> string list option) \<Rightarrow> string \<Rightarrow> elf_seg list \<Rightarrow> line_unit list \<Rightarrow> string list \<Rightarrow> hit list \<Rightarrow>
    (src_line \<times> bool) list result" where
  "cover_elf sources root segs cus dirs rv_hits =
     rmap (\<lambda>ranges.
         let ranges = filter (\<lambda>(k, _). \<not> excluded sources k) ranges;
             addrs = ran_addresses (elf_words segs) rv_hits
         in fold (\<lambda>(k, rs). add_line k (range_hit addrs rs)) ranges [])
       (line_ranges root dirs cus)"

section \<open>Hack images\<close>

text \<open>
  The part of a line before a comment, stripped; whether it is a label, and the number of a numeric A-instruction. The
  sources are ASCII, as the assembler's are: other characters that Python's \<open>isdigit\<close> takes (superscripts, on which \<open>int\<close>
  raises) do not occur in them.
\<close>

definition asm_text :: "string \<Rightarrow> string" where
  "asm_text raw = strip_blank (case find_sub ''//'' raw of None \<Rightarrow> raw | Some i \<Rightarrow> take i raw)"

definition is_instruction :: "string \<Rightarrow> bool" where
  "is_instruction s \<longleftrightarrow> s \<noteq> [] \<and> \<not> (starts ''('' s \<and> ends '')'' s)"

definition all_digits :: "string \<Rightarrow> bool" where
  "all_digits s \<longleftrightarrow> s \<noteq> [] \<and> list_all (\<lambda>c. 48 \<le> (of_char c :: nat) \<and> (of_char c :: nat) \<le> 57) s"

definition a_number :: "string \<Rightarrow> int option" where
  "a_number s = (if starts ''@'' s \<and> all_digits (drop 1 s)
     then Some (fold (\<lambda>c v. 10 * v + (of_char c - 48)) (drop 1 s) 0) else None)"

definition hack_words :: "byte list \<Rightarrow> int list" where
  "hack_words bs = map (\<lambda>i. int_of_le (rev (slice (2 * i) (2 * i + 2) bs))) [0..<length bs div 2]"

text \<open>The line numbers of the instructions, with their texts.\<close>

definition asm_lines :: "string list \<Rightarrow> (nat \<times> string) list" where
  "asm_lines ls = filter (\<lambda>(_, s). is_instruction s) (map (\<lambda>(n, raw). (n, asm_text raw)) (enumerate 1 ls))"

definition cover_hack :: "string \<Rightarrow> string list \<Rightarrow> byte list \<Rightarrow> hit list \<Rightarrow> (src_line \<times> bool) list result" where
  "cover_hack rel asm bs hack_hits =
     (let ws = hack_words bs; ins = asm_lines asm;
          literals = concat (map (\<lambda>(i, (_, s)). case a_number s of None \<Rightarrow> [] | Some v \<Rightarrow> [(i, v)]) (enumerate 0 ins))
      in if length ins \<noteq> length ws then Inl SystemExit
         else if list_ex (\<lambda>(i, v). ws ! i \<noteq> v) literals \<or> literals = [] then Inl SystemExit
         else (let got = map (\<lambda>(pc, _). pc div 2)
                     (filter (\<lambda>(pc, w). pc div 2 < int (length ws) \<and> ws ! nat (pc div 2) = w) hack_hits)
               in Inr (fold (\<lambda>(i, (n, _)). add_line (rel, int n) (int i \<in> set got)) (enumerate 0 ins) [])))"

section \<open>Reports\<close>

datatype lcov_line = TN string | SF string | DA int bool | LH nat | LF nat | End_of_record

definition by_file :: "(src_line \<times> bool) list \<Rightarrow> (string \<times> (int \<times> bool) list) list" where
  "by_file ls = fold (\<lambda>((path, n), hit) d.
     dict_set path (dict_set n hit (case map_of d path of None \<Rightarrow> [] | Some e \<Rightarrow> e)) d) ls []"

definition lcov_record :: "string \<Rightarrow> string \<Rightarrow> string \<times> (int \<times> bool) list \<Rightarrow> lcov_line list" where
  "lcov_record root name f = (case f of (path, d) \<Rightarrow>
     [TN name, SF (path_join root path)] @ map (\<lambda>(n, hit). DA n hit) (sort_key fst d) @
     [LH (length (filter snd d)), LF (length d), End_of_record])"

definition lcov :: "string \<Rightarrow> (string \<times> (src_line \<times> bool) list) list \<Rightarrow> lcov_line list" where
  "lcov root results = concat (map (\<lambda>(name, ls). concat (map (lcov_record root name) (sort_key fst (by_file ls)))) results)"

definition image_counts :: "(src_line \<times> bool) list \<Rightarrow> (string \<times> nat \<times> nat) list" where
  "image_counts ls = fold (\<lambda>((path, _), hit) d.
     let (t, c) = (case map_of d path of None \<Rightarrow> (0, 0) | Some tc \<Rightarrow> tc) in dict_set path (t + 1, c + of_bool hit) d) ls []"

definition image_total :: "(src_line \<times> bool) list \<Rightarrow> nat \<times> nat" where
  "image_total ls = (sum_list (map (\<lambda>(_, t, _). t) (image_counts ls)), sum_list (map (\<lambda>(_, _, c). c) (image_counts ls)))"

text \<open>
  An image is below its minimum: \<open>100 * covered / max(total, 1) + 1e-9 < want\<close>, with the minimum in units of \<open>1e-9\<close> percent.
\<close>

definition below :: "nat \<times> nat \<Rightarrow> int \<Rightarrow> bool" where
  "below tc want = (case tc of (t, c) \<Rightarrow> let t = int (max t 1) in 100 * int c * 1000000000 + t < want * t)"

definition check_minimums :: "(string \<rightharpoonup> int) \<Rightarrow> (string \<times> (src_line \<times> bool) list) list \<Rightarrow> unit result" where
  "check_minimums thresholds results =
     (if list_ex (\<lambda>(name, ls). case thresholds name of None \<Rightarrow> False | Some want \<Rightarrow> below (image_total ls) want) results
      then Inl SystemExit else Inr ())"

section \<open>Keys\<close>

text \<open>The key keeps the instruction word, the instruction set and all bits of the address but the last.\<close>

lemma split_cov_key: "split_key (uint (cov_key riscv pc w)) = (take_bit 31 (uint pc), of_bool riscv, uint w)"
proof -
  have b: "bit (cov_key riscv pc w) n \<longleftrightarrow>
      n < 64 \<and> (33 \<le> n \<and> bit pc (n - 33) \<or> n = 32 \<and> riscv \<or> bit w n)" for n
    by (auto simp: cov_key_def bit_simps)
  have w: "\<not> bit w n" if "32 \<le> n" for n using that bit_imp_le_length [of w n] by force
  have "drop_bit 33 (uint (cov_key riscv pc w)) = take_bit 31 (uint pc)"
    by (rule bit_eqI) (auto simp: bit_drop_bit_eq b bit_simps w)
  moreover have "drop_bit 32 (uint (cov_key riscv pc w)) AND 1 = of_bool riscv"
    by (rule bit_eqI) (auto simp: bit_drop_bit_eq b bit_simps w)
  moreover have "uint (cov_key riscv pc w) AND mask 32 = uint w"
    by (rule bit_eqI) (auto simp: b bit_simps dest: bit_imp_le_length)
  ultimately show ?thesis by (simp add: split_key_def mask_eq_exp_minus_1)
qed

lemma load_written:
  "load_hits (write_coverage ks) = Inr (let hs = map (split_key \<circ> uint) (sort (remdups ks))
     in (map (\<lambda>(pc, _, w). (pc, w)) (filter (\<lambda>(_, isa, _). isa \<noteq> 0) hs),
         map (\<lambda>(pc, _, w). (pc, w)) (filter (\<lambda>(_, isa, _). isa = 0) hs)))"
proof -
  have "int_base16 (hex_digits (unat k)) = Inr (uint k)" for k :: "64 word"
    using hex_digits_only [of "unat k"] by (simp add: int_base16_digits read_hex_digits)
  then have "rmapM int_base16 (map (\<lambda>k. hex_digits (unat k)) xs) = Inr (map uint xs)" for xs :: "64 word list"
    by (induction xs) simp_all
  then show ?thesis by (simp add: load_hits_def write_coverage_def Let_def comp_def)
qed

lemma loaded_rv:
  assumes "load_hits (write_coverage (map (\<lambda>(r, pc, w). cov_key r pc w) runs)) = Inr (rv, hack)"
  shows "(p, v) \<in> set rv \<longleftrightarrow> (\<exists>(r, pc, w) \<in> set runs. r \<and> p = take_bit 31 (uint pc) \<and> v = uint w)"
proof -
  let ?h = "\<lambda>(r, pc, w). (take_bit 31 (uint pc), of_bool r :: int, uint w)"
  have h: "(\<lambda>k. split_key (uint k)) ` (\<lambda>(r, pc, w). cov_key r pc w) ` set runs = ?h ` set runs"
    by (simp add: image_image split_def split_cov_key)
  have "rv = map (\<lambda>(pc, _, w). (pc, w)) (filter (\<lambda>(_, isa, _). isa \<noteq> 0)
      (map (\<lambda>k. split_key (uint k)) (sort (remdups (map (\<lambda>(r, pc, w). cov_key r pc w) runs)))))"
    using assms by (simp add: load_written Let_def comp_def)
  then have "set rv = (\<lambda>(pc, _, w). (pc, w)) ` {x \<in> (\<lambda>k. split_key (uint k)) ` (\<lambda>(r, pc, w). cov_key r pc w) ` set runs.
      case x of (_, isa, _) \<Rightarrow> isa \<noteq> 0}"
    by (simp only: set_map set_filter set_sort set_remdups)
  then have "set rv = (\<lambda>(pc, _, w). (pc, w)) ` {x \<in> ?h ` set runs. case x of (_, isa, _) \<Rightarrow> isa \<noteq> 0}" unfolding h .
  moreover have "z \<in> f ` {x \<in> g ` R. P x} \<longleftrightarrow> (\<exists>x \<in> R. P (g x) \<and> z = f (g x))"
    for z :: hit and f and g :: "bool \<times> 32 word \<times> 32 word \<Rightarrow> int \<times> int \<times> int" and R P by auto
  ultimately show ?thesis by (simp add: split_def)
qed

section \<open>Lines\<close>

lemma map_of_add_line: "map_of (add_line k hit ls) = (map_of ls)(k \<mapsto> (map_of ls k = Some True \<or> hit))"
  by (cases "map_of ls k") (auto simp: add_line_def)

lemma add_lines:
  "map_of (fold (\<lambda>x. add_line (key x) (f x)) xs d) k =
     (if k \<in> key ` set xs then Some (map_of d k = Some True \<or> (\<exists>x \<in> set xs. key x = k \<and> f x)) else map_of d k)"
proof (induction xs arbitrary: d)
  case (Cons x xs)
  show ?case by (auto simp: Cons.IH map_of_add_line image_iff)
qed simp

lemma one_entry:
  assumes "\<And>r. (k, r) \<in> set xs \<longleftrightarrow> r = rs"
  shows "k \<in> fst ` set (filter (\<lambda>(k, _). \<not> E k) xs) \<longleftrightarrow> \<not> E k"
    "(\<exists>x \<in> set (filter (\<lambda>(k, _). \<not> E k) xs). fst x = k \<and> f (snd x)) \<longleftrightarrow> \<not> E k \<and> f rs"
  using assms by (auto simp: image_iff Bex_def split_def)

lemma bisect_hit:
  assumes "sorted addrs"
  shows "(bisect_left addrs lo < length addrs \<and> addrs ! bisect_left addrs lo < hi) \<longleftrightarrow> (\<exists>a \<in> set addrs. lo \<le> a \<and> a < hi)"
  using assms
proof (induction addrs)
  case (Cons a as)
  then show ?case by (auto simp: bisect_left_def)
qed (simp add: bisect_left_def)

lemma range_hit_iff: "sorted addrs \<Longrightarrow> range_hit addrs rs \<longleftrightarrow> (\<exists>(lo, hi) \<in> set rs. \<exists>a \<in> set addrs. lo \<le> a \<and> a < hi)"
  using bisect_hit [of addrs] by (auto simp: range_hit_def list_ex_iff Let_def)

lemma ran_addresses_props:
  "sorted (ran_addresses ws hits)"
  "a \<in> set (ran_addresses ws hits) \<longleftrightarrow> (\<exists>(pc, w) \<in> set hits. (a = pc \<or> a = pc OR 0x80000000) \<and> ws a = Some w)"
  by (auto simp: ran_addresses_def)

lemma ranges_distinct: "line_ranges root dirs cus = Inr ranges \<Longrightarrow> distinct (map fst ranges)"
proof -
  have "distinct (map fst d) \<Longrightarrow> distinct (map fst (fold add_range rs d))" for rs d
    by (induction rs arbitrary: d) (simp_all add: add_range_def dict_set_distinct)
  then show "line_ranges root dirs cus = Inr ranges \<Longrightarrow> ?thesis" by (auto simp: line_ranges_def Let_def rmap_eq_Inr)
qed

text \<open>The two addresses that a key stands for.\<close>

lemma key_addresses:
  assumes "t = take_bit 31 (p :: int)"
  shows "(a = t \<or> a = t OR 0x80000000) \<longleftrightarrow> take_bit 31 a = t \<and> 0 \<le> a \<and> a < 2 ^ 32"
proof -
  have t: "0 \<le> t" "t < 2 ^ 31" "\<not> bit t 31" using assms take_bit_int_less_exp [of 31 p] by (simp_all add: bit_simps)
  have "t OR 0x80000000 = set_bit 31 t" by (simp add: set_bit_eq_or)
  then have o: "t OR 0x80000000 = t + 2 ^ 31" using t(3) by (simp add: set_bit_eq)
  have "take_bit 31 a = t \<and> 0 \<le> a \<and> a < 2 ^ 32 \<longrightarrow> a = t \<or> a = t + 2 ^ 31"
  proof
    assume a: "take_bit 31 a = t \<and> 0 \<le> a \<and> a < 2 ^ 32"
    have "a = 2 ^ 31 * (a div 2 ^ 31) + a mod 2 ^ 31" by simp
    then have "a = 2 ^ 31 * (a div 2 ^ 31) + t" using a by (simp only: take_bit_eq_mod)
    moreover have "a div 2 ^ 31 = 0 \<or> a div 2 ^ 31 = 1" using a by (auto simp: div_eq_minus1)
    ultimately show "a = t \<or> a = t + 2 ^ 31" by auto
  qed
  then show ?thesis unfolding o using t(1,2) by (auto simp: take_bit_eq_mod)
qed

lemma ran_addresses_runs:
  assumes "load_hits (write_coverage (map (\<lambda>(r, pc, w). cov_key r pc w) runs)) = Inr (rv, hack)"
  shows "a \<in> set (ran_addresses ws rv) \<longleftrightarrow> (\<exists>(r, pc, w) \<in> set runs. r \<and> take_bit 31 a = take_bit 31 (uint pc) \<and>
    0 \<le> a \<and> a < 2 ^ 32 \<and> ws a = Some (uint w))"
proof -
  have "a \<in> set (ran_addresses ws rv) \<longleftrightarrow> (\<exists>p w. (p, w) \<in> set rv \<and> (a = p \<or> a = p OR 0x80000000) \<and> ws a = Some w)"
    unfolding ran_addresses_props(2) by blast
  also have "\<dots> \<longleftrightarrow> (\<exists>(r, pc, w) \<in> set runs. r \<and>
      (a = take_bit 31 (uint pc) \<or> a = take_bit 31 (uint pc) OR 0x80000000) \<and> ws a = Some (uint w))"
    unfolding loaded_rv [OF assms] by blast
  finally show ?thesis by (simp only: key_addresses [OF refl] conj_assoc)
qed

text \<open>
  C33: line coverage is exact. From the file that a run writes, a line of an ELF image that has instructions in its line
  table (in a file under the prefixes, not excluded) is covered exactly when the run executed an RV32 instruction at an
  address of the line, with the word that the image has there; the address is known up to its top bit, so the line also
  counts when the same word ran at the address 2 GB away. A line that the tables do not have is not reported.
\<close>

theorem coverage_exact:
  assumes "line_ranges root dirs cus = Inr ranges"
  shows "\<exists>rv hack cov. load_hits (write_coverage (map (\<lambda>(r, pc, w). cov_key r pc w) runs)) = Inr (rv, hack) \<and>
    cover_elf sources root segs cus dirs rv = Inr cov \<and>
    (\<forall>k. map_of cov k = (case map_of ranges k of
        Some rs \<Rightarrow> if excluded sources k then None
          else Some (\<exists>(r, pc, w) \<in> set runs. r \<and> (\<exists>a. take_bit 31 a = take_bit 31 (uint pc) \<and> 0 \<le> a \<and> a < 2 ^ 32 \<and>
            elf_words segs a = Some (uint w) \<and> (\<exists>(lo, hi) \<in> set rs. lo \<le> a \<and> a < hi)))
      | None \<Rightarrow> None))"
proof -
  let ?ks = "map (\<lambda>(r, pc, w). cov_key r pc w) runs" and ?ws = "elf_words segs"
  obtain rv hack where h: "load_hits (write_coverage ?ks) = Inr (rv, hack)" using load_written by (auto simp: Let_def)
  note addr = ran_addresses_runs [OF h, of _ ?ws]
  let ?cov = "fold (\<lambda>x. add_line (fst x) (range_hit (ran_addresses ?ws rv) (snd x))) (filter (\<lambda>(k, _). \<not> excluded sources k) ranges) []"
  have c: "cover_elf sources root segs cus dirs rv = Inr ?cov"
    using assms by (simp add: cover_elf_def Let_def split_def)
  have "map_of ?cov k = (case map_of ranges k of
        Some rs \<Rightarrow> if excluded sources k then None
          else Some (\<exists>(lo, hi) \<in> set rs. \<exists>a \<in> set (ran_addresses ?ws rv). lo \<le> a \<and> a < hi)
      | None \<Rightarrow> None)" for k
  proof (cases "map_of ranges k")
    case None
    then have "k \<notin> fst ` set ranges" by (simp add: map_of_eq_None_iff)
    then show ?thesis using None by (auto simp: add_lines)
  next
    case (Some rs)
    then have "(k, rs') \<in> set ranges \<longleftrightarrow> rs' = rs" for rs'
      unfolding map_of_eq_Some_iff [OF ranges_distinct [OF assms], symmetric] by auto
    note o = one_entry [of k ranges rs "excluded sources", OF this]
    show ?thesis unfolding add_lines o using Some by (simp add: range_hit_iff [OF ran_addresses_props(1)])
  qed
  moreover have "(\<exists>(lo, hi) \<in> set rs. \<exists>a \<in> set (ran_addresses ?ws rv). lo \<le> a \<and> a < hi) \<longleftrightarrow>
      (\<exists>(r, pc, w) \<in> set runs. r \<and> (\<exists>a. take_bit 31 a = take_bit 31 (uint pc) \<and> 0 \<le> a \<and> a < 2 ^ 32 \<and>
        ?ws a = Some (uint w) \<and> (\<exists>(lo, hi) \<in> set rs. lo \<le> a \<and> a < hi)))" for rs
  proof -
    have "(\<exists>(lo, hi) \<in> set rs. \<exists>a \<in> set (ran_addresses ?ws rv). lo \<le> a \<and> a < hi) \<longleftrightarrow>
        (\<exists>a. a \<in> set (ran_addresses ?ws rv) \<and> (\<exists>(lo, hi) \<in> set rs. lo \<le> a \<and> a < hi))" by blast
    then show ?thesis unfolding addr split_def by blast
  qed
  ultimately show ?thesis using h c by (intro exI [of _ rv] exI [of _ hack] exI [of _ ?cov]) (simp only: conj_assoc simp_thms)
qed

definition test_unit :: line_unit where
  "test_unit = \<lparr>cu_comp_dir = Some ''/r/fw'', cu_version = 4, cu_files = [(''a.rs'', 1)], cu_dirs = [''src''],
     cu_entries = [Some \<lparr>st_address = 0, st_file = 1, st_line = 7, st_end = False\<rparr>,
       Some \<lparr>st_address = 4, st_file = 1, st_line = 8, st_end = False\<rparr>, Some \<lparr>st_address = 8, st_file = 1, st_line = 8, st_end = True\<rparr>]\<rparr>"

lemma test_ranges: "line_ranges ''/r'' [''fw/''] [test_unit] = Inr [((''fw/src/a.rs'', 7), [(0, 4)]), ((''fw/src/a.rs'', 8), [(4, 8)])]"
  by (simp add: line_ranges_def test_unit_def path_of_def py_nth_def path_join_def relpath_def norm_parts_def add_range_def
      starts_def ends_def Let_def del: rbind_eq_Inr rmap_eq_Inr)

theorem coverage_exact_witness:
  "\<exists>rv hack cov. load_hits (write_coverage [cov_key True 0 0x13, cov_key False 4 0x93]) = Inr (rv, hack) \<and>
     cover_elf (\<lambda>_. None) ''/r'' [\<lparr>sg_load = True, sg_flags = 5, sg_data = [0x13, 0, 0, 0, 0x93, 0, 0, 0], sg_vaddr = 0\<rparr>]
       [test_unit] [''fw/''] rv = Inr cov \<and> map_of cov (''fw/src/a.rs'', 8) = Some False"
proof -
  let ?segs = "[\<lparr>sg_load = True, sg_flags = 5, sg_data = [0x13, 0, 0, 0, 0x93, 0, 0, 0], sg_vaddr = 0\<rparr>]"
  have no: "\<not> (take_bit 31 a = 0 \<and> 4 \<le> a \<and> a < 8)" for a :: int by (auto simp: take_bit_eq_mod)
  obtain rv hack cov where c: "load_hits (write_coverage [cov_key True 0 0x13, cov_key False 4 0x93]) = Inr (rv, hack)"
    "cover_elf (\<lambda>_. None) ''/r'' ?segs [test_unit] [''fw/''] rv = Inr cov"
    "map_of cov (''fw/src/a.rs'', 8) = Some (\<exists>a. take_bit 31 a = 0 \<and> 0 \<le> a \<and> a < 2 ^ 32 \<and> elf_words ?segs a = Some 0x13 \<and> 4 \<le> a \<and> a < 8)"
    using coverage_exact [OF test_ranges, of "[(True, 0, 0x13), (False, 4, 0x93)]" "\<lambda>_. None" ?segs] by (auto simp: excluded_def)
  then show ?thesis using no by auto
qed

section \<open>Hack lines\<close>

lemma asm_lines_distinct: "distinct (map fst (asm_lines ls))"
proof -
  have "fst \<circ> (\<lambda>(n, raw). (n, asm_text raw)) = (fst :: nat \<times> string \<Rightarrow> nat)" by auto
  then have "distinct (map fst (map (\<lambda>(n, raw). (n, asm_text raw)) (enumerate 1 ls)))" by (simp only: map_map map_fst_enumerate distinct_upt)
  then show ?thesis unfolding asm_lines_def by (rule distinct_map_filter)
qed

lemma list_ex_pair: "list_ex (\<lambda>(i, v). P i v) xs \<longleftrightarrow> (\<exists>i v. (i, v) \<in> set xs \<and> P i v)"
  by (auto simp: list_ex_iff)

lemma no_pairs: "xs = [] \<longleftrightarrow> (\<forall>i v. (i, v) \<notin> set xs)"
  by (cases xs) auto

lemma enumerate_mem: "(i, x) \<in> set (enumerate 0 xs) \<longleftrightarrow> i < length xs \<and> x = xs ! i"
  by (auto simp: in_set_enumerate_eq)

lemma ran_index:
  assumes "i < n"
  shows "int i \<in> set (map (\<lambda>(pc, _). pc div 2) (filter (\<lambda>(pc, w). pc div 2 < int n \<and> ws ! nat (pc div 2) = w) hits)) \<longleftrightarrow>
    (\<exists>pc. (pc, ws ! i) \<in> set hits \<and> pc div 2 = int i)"
proof
  assume "int i \<in> set (map (\<lambda>(pc, _). pc div 2) (filter (\<lambda>(pc, w). pc div 2 < int n \<and> ws ! nat (pc div 2) = w) hits))"
  then obtain pc w where "(pc, w) \<in> set hits" "ws ! nat (pc div 2) = w" "int i = pc div 2" by auto
  then show "\<exists>pc. (pc, ws ! i) \<in> set hits \<and> pc div 2 = int i" by (metis nat_int)
next
  assume "\<exists>pc. (pc, ws ! i) \<in> set hits \<and> pc div 2 = int i"
  then obtain pc where "(pc, ws ! i) \<in> set hits" "pc div 2 = int i" by blast
  then show "int i \<in> set (map (\<lambda>(pc, _). pc div 2) (filter (\<lambda>(pc, w). pc div 2 < int n \<and> ws ! nat (pc div 2) = w) hits))"
    using assms unfolding set_map set_filter by (intro image_eqI [of _ _ "(pc, ws ! i)"]) auto
qed

lemma one_index:
  assumes "i < length xs" "\<And>j. j < length xs \<Longrightarrow> key (xs ! j) = key (xs ! i) \<Longrightarrow> j = i"
  shows "(\<exists>x \<in> set (enumerate 0 xs). key (snd x) = key (xs ! i) \<and> P (fst x)) \<longleftrightarrow> P i"
proof
  assume "\<exists>x \<in> set (enumerate 0 xs). key (snd x) = key (xs ! i) \<and> P (fst x)"
  then show "P i" using assms(2) enumerate_mem [of _ _ xs] by fastforce
next
  assume "P i"
  then show "\<exists>x \<in> set (enumerate 0 xs). key (snd x) = key (xs ! i) \<and> P (fst x)"
    using assms(1) enumerate_mem [of i "xs ! i" xs] by (intro bexI [of _ "(i, xs ! i)"]) simp_all
qed

lemma literals_mem:
  "(i, v) \<in> set (concat (map (\<lambda>(i, (_, s)). case a_number s of None \<Rightarrow> [] | Some v \<Rightarrow> [(i, v)]) (enumerate 0 ins))) \<longleftrightarrow>
    i < length ins \<and> a_number (snd (ins ! i)) = Some v" (is "(i, v) \<in> set ?lit \<longleftrightarrow> _")
proof
  assume "(i, v) \<in> set ?lit"
  then obtain n t where "(i, n, t) \<in> set (enumerate 0 ins)" "a_number t = Some v" by (auto split: option.splits)
  then show "i < length ins \<and> a_number (snd (ins ! i)) = Some v" unfolding enumerate_mem by (metis snd_conv)
next
  assume a: "i < length ins \<and> a_number (snd (ins ! i)) = Some v"
  obtain n t where t: "ins ! i = (n, t)" by (cases "ins ! i")
  then have "(i, n, t) \<in> set (enumerate 0 ins)" using a unfolding enumerate_mem by simp
  then show "(i, v) \<in> set ?lit" using a t by (auto intro!: bexI [of _ "(i, n, t)"])
qed

text \<open>
  C34: coverage of Hack code is exact. The listing is accepted exactly when it has as many instructions as the binary has
  words and its numeric A-instructions, of which there is one at least, are the words at their places; then every line
  with an instruction is reported, covered exactly when that instruction's word ran at its address.
\<close>

theorem cover_hack_exact:
  "let ins = asm_lines asm; ws = hack_words bs;
       ok = (length ins = length ws \<and> (\<forall>i < length ins. \<forall>v. a_number (snd (ins ! i)) = Some v \<longrightarrow> ws ! i = v) \<and>
         (\<exists>i < length ins. a_number (snd (ins ! i)) \<noteq> None))
   in case cover_hack rel asm bs hits of
        Inl e \<Rightarrow> e = SystemExit \<and> \<not> ok
      | Inr cov \<Rightarrow> ok \<and> dom (map_of cov) = (\<lambda>x. (rel, int (fst x))) ` set ins \<and>
          (\<forall>i < length ins. map_of cov (rel, int (fst (ins ! i))) = Some (\<exists>pc. (pc, ws ! i) \<in> set hits \<and> pc div 2 = int i))"
proof -
  let ?ins = "asm_lines asm" and ?ws = "hack_words bs"
  let ?lit = "concat (map (\<lambda>(i, (_, s)). case a_number s of None \<Rightarrow> [] | Some v \<Rightarrow> [(i, v)]) (enumerate 0 ?ins))"
  let ?got = "map (\<lambda>(pc, _). pc div 2) (filter (\<lambda>(pc, w). pc div 2 < int (length ?ws) \<and> ?ws ! nat (pc div 2) = w) hits)"
  let ?cov = "fold (\<lambda>x. add_line (rel, int (fst (snd x))) (int (fst x) \<in> set ?got)) (enumerate 0 ?ins) []"
  note lit = literals_mem [of _ _ ?ins]
  have bad: "list_ex (\<lambda>(i, v). ?ws ! i \<noteq> v) ?lit \<longleftrightarrow> \<not> (\<forall>i < length ?ins. \<forall>v. a_number (snd (?ins ! i)) = Some v \<longrightarrow> ?ws ! i = v)"
    unfolding list_ex_pair lit by blast
  have none: "?lit = [] \<longleftrightarrow> \<not> (\<exists>i < length ?ins. a_number (snd (?ins ! i)) \<noteq> None)"
    unfolding no_pairs lit by auto
  have def': "cover_hack rel asm bs hits = (if length ?ins \<noteq> length ?ws then Inl SystemExit
      else if list_ex (\<lambda>(i, v). ?ws ! i \<noteq> v) ?lit \<or> ?lit = [] then Inl SystemExit else Inr ?cov)"
    by (simp add: cover_hack_def Let_def split_def)
  have cov: "map_of ?cov (rel, int (fst (?ins ! i))) = Some (\<exists>pc. (pc, ?ws ! i) \<in> set hits \<and> pc div 2 = int i)"
    if "i < length ?ins" "length ?ins = length ?ws" for i
  proof -
    have i: "j = i" if "j < length ?ins" "fst (?ins ! j) = fst (?ins ! i)" for j
      using that \<open>i < length ?ins\<close> asm_lines_distinct [of asm] by (simp add: distinct_conv_nth) metis
    have "int i \<in> set ?got \<longleftrightarrow> (\<exists>pc. (pc, ?ws ! i) \<in> set hits \<and> pc div 2 = int i)" using that by (intro ran_index) simp
    moreover have "(\<exists>x \<in> set (enumerate 0 ?ins). (rel, int (fst (snd x))) = (rel, int (fst (?ins ! i))) \<and> int (fst x) \<in> set ?got) \<longleftrightarrow>
        int i \<in> set ?got"
      using one_index [of i ?ins fst "\<lambda>j. int j \<in> set ?got"] that(1) i by simp
    moreover have "(rel, int (fst (?ins ! i))) \<in> (\<lambda>x. (rel, int (fst (snd x)))) ` set (enumerate 0 ?ins)"
      using that(1) enumerate_mem [of i "?ins ! i" ?ins] by force
    ultimately show ?thesis unfolding add_lines by simp
  qed
  have dom: "dom (map_of ?cov) = (\<lambda>x. (rel, int (fst x))) ` set ?ins"
  proof -
    have "set ?ins = snd ` set (enumerate 0 ?ins)" by (metis list.set_map map_snd_enumerate)
    then have "(\<lambda>x. (rel, int (fst x))) ` set ?ins = (\<lambda>x. (rel, int (fst (snd x)))) ` set (enumerate 0 ?ins)" by (simp add: image_image)
    then show ?thesis by (auto simp: dom_def add_lines)
  qed
  show ?thesis unfolding Let_def def' bad none using cov dom by auto
qed

lemma test_listing:
  "asm_lines [''@5 // five'', ''(LOOP)'', ''  D=A'', []] = [(1, ''@5''), (3, ''D=A'')]" "hack_words [0, 5, 0xEC, 0x10] = [5, 0xEC10]"
  "a_number ''@5'' = Some 5" "a_number ''D=A'' = None"
  by code_simp+

theorem cover_hack_exact_witness:
  "\<exists>cov. cover_hack ''a.asm'' [''@5 // five'', ''(LOOP)'', ''  D=A'', []] [0, 5, 0xEC, 0x10] [(2, 0xEC10), (0, 7)] = Inr cov \<and>
     map_of cov (''a.asm'', 3) = Some True \<and> map_of cov (''a.asm'', 1) = Some False"
proof -
  let ?h = "[(2, 0xEC10), (0, 7)] :: hit list" and ?c = "cover_hack ''a.asm'' [''@5 // five'', ''(LOOP)'', ''  D=A'', []] [0, 5, 0xEC, 0x10]"
  have t: "(\<forall>i < Suc (Suc 0). Q i) \<longleftrightarrow> Q 0 \<and> Q 1" "(\<exists>i < Suc (Suc 0). Q i) \<longleftrightarrow> Q 0 \<or> Q 1" for Q :: "nat \<Rightarrow> bool"
    using less_2_cases by (force simp: numeral_2_eq_2)+
  have r: "\<not> (\<exists>pc. (pc, 5) \<in> set ?h \<and> pc div 2 = 0)" "\<exists>pc. (pc, 0xEC10) \<in> set ?h \<and> pc div 2 = 1" by auto
  show ?thesis
    using cover_hack_exact [of "[''@5 // five'', ''(LOOP)'', ''  D=A'', []]" "[0, 5, 0xEC, 0x10]" "''a.asm''" ?h] r
    unfolding test_listing Let_def by (cases "?c ?h") (simp_all add: t test_listing)
qed

section \<open>Reports agree\<close>

lemma sum_dict_set:
  "sum_list (map (\<lambda>x. f (snd x)) (dict_set k v d)) + (case map_of d k of None \<Rightarrow> 0 | Some e \<Rightarrow> f e) =
   sum_list (map (\<lambda>x. f (snd x)) d) + (f v :: nat)"
  by (induction d) (auto split: option.split)

lemma counts_snoc: "image_counts (ls @ [((path, n), hit)]) =
    (let (t, c) = (case map_of (image_counts ls) path of None \<Rightarrow> (0, 0) | Some tc \<Rightarrow> tc)
     in dict_set path (t + 1, c + of_bool hit) (image_counts ls))"
  by (simp add: image_counts_def)

lemma image_total_eq: "image_total ls = (length ls, length (filter snd ls))"
proof (induction ls rule: rev_induct)
  case (snoc x ls)
  obtain path n hit where x: "x = ((path, n), hit)" by (metis surj_pair)
  obtain t c where tc: "(case map_of (image_counts ls) path of None \<Rightarrow> (0, 0) | Some tc \<Rightarrow> tc) = (t, c)" by (metis surj_pair)
  have "image_counts (ls @ [x]) = dict_set path (t + 1, c + of_bool hit) (image_counts ls)"
    by (simp only: counts_snoc x tc Let_def split_conv)
  then show ?case
    using snoc tc sum_dict_set [of fst path "(t + 1, c + of_bool hit)" "image_counts ls"]
      sum_dict_set [of snd path "(t + 1, c + of_bool hit)" "image_counts ls"]
    by (auto simp: image_total_def split_def x split: option.splits)
qed (simp add: image_total_def image_counts_def)

abbreviation file_lines :: "(src_line \<times> bool) list \<Rightarrow> string \<Rightarrow> (int \<times> bool) list" where
  "file_lines ls path \<equiv> (case map_of (by_file ls) path of None \<Rightarrow> [] | Some e \<Rightarrow> e)"

lemma by_file_snoc: "by_file (ls @ [((path, n), hit)]) = dict_set path (dict_set n hit (file_lines ls path)) (by_file ls)"
  by (simp add: by_file_def)

lemma file_lines_map: "map_of (file_lines ls path) n = map_of (rev ls) (path, n)"
proof (induction ls rule: rev_induct)
  case (snoc x ls)
  obtain q m hit where x: "x = ((q, m), hit)" by (metis surj_pair)
  show ?case using snoc by (auto simp: x by_file_snoc)
qed (simp add: by_file_def)

lemma dict_set_new:
  "map_of e n = None \<Longrightarrow> length (dict_set n hit e) = Suc (length e)"
  "map_of e n = None \<Longrightarrow> length (filter snd (dict_set n hit e)) = length (filter snd e) + of_bool hit"
  by (induction e) auto

lemma by_file_sums:
  "distinct (map fst ls) \<Longrightarrow>
     sum_list (map (\<lambda>x. length (snd x)) (by_file ls)) = length ls \<and>
     sum_list (map (\<lambda>x. length (filter snd (snd x))) (by_file ls)) = length (filter snd ls)"
proof (induction ls rule: rev_induct)
  case (snoc x ls)
  obtain path n hit where x: "x = ((path, n), hit)" by (metis surj_pair)
  have "map_of (file_lines ls path) n = None" using snoc.prems by (auto simp: file_lines_map x map_of_eq_None_iff)
  note new = dict_set_new [OF this, of hit]
  show ?case
    using snoc new sum_dict_set [of length path "dict_set n hit (file_lines ls path)" "by_file ls"]
      sum_dict_set [of "\<lambda>d. length (filter snd d)" path "dict_set n hit (file_lines ls path)" "by_file ls"]
    by (auto simp: x by_file_snoc split: option.splits)
qed (simp add: by_file_def)

text \<open>What a report's records say: the lines found and hit in them.\<close>

fun lines_found :: "lcov_line list \<Rightarrow> nat" where
  "lines_found [] = 0"
| "lines_found (LF n # ls) = n + lines_found ls"
| "lines_found (_ # ls) = lines_found ls"

fun lines_hit :: "lcov_line list \<Rightarrow> nat" where
  "lines_hit [] = 0"
| "lines_hit (LH n # ls) = n + lines_hit ls"
| "lines_hit (_ # ls) = lines_hit ls"

lemma found_append: "lines_found (a @ b) = lines_found a + lines_found b" "lines_hit (a @ b) = lines_hit a + lines_hit b"
proof -
  show "lines_found (a @ b) = lines_found a + lines_found b" by (induction a rule: lines_found.induct) simp_all
  show "lines_hit (a @ b) = lines_hit a + lines_hit b" by (induction a rule: lines_hit.induct) simp_all
qed

lemma found_DA: "lines_found (map (\<lambda>(n, h). DA n h) d) = 0" "lines_hit (map (\<lambda>(n, h). DA n h) d) = 0"
  by (induction d) auto

lemma record_found:
  "lines_found (lcov_record root name f) = length (snd f)" "lines_hit (lcov_record root name f) = length (filter snd (snd f))"
  by (cases f; simp add: lcov_record_def found_append found_DA)+

lemma records_found:
  "lines_found (concat (map (lcov_record root name) fs)) = sum_list (map (\<lambda>x. length (snd x)) fs)"
  "lines_hit (concat (map (lcov_record root name) fs)) = sum_list (map (\<lambda>x. length (filter snd (snd x))) fs)"
  by (induction fs) (simp_all add: found_append record_found)

lemma map_of_rev: "distinct (map fst xs) \<Longrightarrow> map_of (rev xs) k = map_of xs k"
proof (cases "map_of xs k")
  case None
  then show ?thesis using map_of_eq_None_iff [of "rev xs" k] map_of_eq_None_iff [of xs k] by simp
next
  case (Some v)
  moreover assume "distinct (map fst xs)"
  ultimately show ?thesis by (simp add: map_of_eq_Some_iff flip: rev_map)
qed

lemma sum_sort_key: "sum_list (map f (sort_key g xs)) = (sum_list (map f xs) :: nat)"
  by (metis mset_map mset_sort sum_mset_sum_list)

text \<open>
  The reports agree. For an image's lines the summary's total and covered counts are the numbers of lines and of
  covered lines, the lcov records' \<open>LF\<close> and \<open>LH\<close> add up to the same, each record's lines are the image's lines of its
  file, and the run fails exactly when some image is below its minimum.
\<close>

theorem reports_agree:
  assumes "distinct (map fst ls)"
  shows "image_total ls = (length ls, length (filter snd ls)) \<and>
    lines_found (lcov root [(name, ls)]) = length ls \<and> lines_hit (lcov root [(name, ls)]) = length (filter snd ls) \<and>
    (\<forall>path n. map_of (file_lines ls path) n = map_of ls (path, n)) \<and>
    (check_minimums thresholds results = Inl SystemExit \<longleftrightarrow>
      (\<exists>(img, xs) \<in> set results. \<exists>want. thresholds img = Some want \<and>
        100 * int (length (filter snd xs)) * 1000000000 + int (max (length xs) 1) < want * int (max (length xs) 1)))"
proof -
  have s: "lines_found (lcov root [(name, ls)]) = length ls" "lines_hit (lcov root [(name, ls)]) = length (filter snd ls)"
    using by_file_sums [OF assms] by (simp_all add: lcov_def records_found sum_sort_key)
  have m: "map_of (file_lines ls path) n = map_of ls (path, n)" for path n
    unfolding file_lines_map map_of_rev [OF assms] ..
  have c: "check_minimums thresholds results = Inl SystemExit \<longleftrightarrow>
      (\<exists>(img, xs) \<in> set results. \<exists>want. thresholds img = Some want \<and>
        100 * int (length (filter snd xs)) * 1000000000 + int (max (length xs) 1) < want * int (max (length xs) 1))"
    unfolding check_minimums_def list_ex_pair by (auto simp: below_def image_total_eq Let_def split: option.splits)
  show ?thesis using s m c image_total_eq by blast
qed

theorem reports_agree_witness:
  "image_total [((''a.rs'', 1), True), ((''a.rs'', 2), False), ((''b.rs'', 1), True)] = (3, 2) \<and>
   lines_hit (lcov ''/r'' [(''stage1'', [((''a.rs'', 1), True), ((''a.rs'', 2), False), ((''b.rs'', 1), True)])]) = 2"
  using reports_agree [of "[((''a.rs'', 1), True), ((''a.rs'', 2), False), ((''b.rs'', 1), True)]" "''/r''" "''stage1''"] by simp

end
