(* ===== verification/Isa_Report.thy ===== *)
theory Isa_Report
  imports Fw_Coverage Upload_Device
begin

text \<open>
  The ISA test harness (\<^verbatim>\<open>src/scripts/run_riscv_tests.py\<close>): the image files that the simulators load, the verdict of
  an emulator run and the result of a suite against its expected failures. Compiling the tests, running the simulators
  and printing are not modelled; a run's outcome is an argument.
\<close>

section \<open>Images\<close>

definition RAM_WORDS :: nat where "RAM_WORDS = 65536"

text \<open>\<open>f"{w:08X}"\<close>.\<close>

definition hex_up :: "nat \<Rightarrow> char" where
  "hex_up d = char_of (if d < 10 then 48 + d else 55 + d)"

definition hex08_up :: "nat \<Rightarrow> string" where
  "hex08_up w = (let h = map (\<lambda>c. case digit_value c of Some d \<Rightarrow> hex_up d | None \<Rightarrow> c) (hex_digits w)
     in replicate (8 - length h) CHR ''0'' @ h)"

text \<open>The hex file's lines, or the error \<open>None\<close>.\<close>

definition bin_to_hex :: "byte list \<Rightarrow> string list option" where
  "bin_to_hex data =
     (let data = data @ replicate (nat (- int (length data) mod 4)) 0
      in if length data > RAM_WORDS * 4 then None
         else Some (map (\<lambda>w. hex08_up (nat (int_of_le w))) (pieces 4 data)))"

text \<open>What the emulator backend loads from the file: \<open>int(line, 16).to_bytes(4, "little")\<close>, which raises for larger values.\<close>

definition emu_image :: "string list \<Rightarrow> byte list result" where
  "emu_image ls =
     rbind (rmapM int_base16 (filter (\<lambda>l. strip_blank l \<noteq> []) ls)) (\<lambda>ws.
       if list_all (\<lambda>w. 0 \<le> w \<and> w < 2 ^ 32) ws then Inr (concat (map (le_bytes 4) ws)) else Inl OverflowError)"

section \<open>Verdicts\<close>

text \<open>A run of the testbench: what the coroutine of \<^verbatim>\<open>hex_runner.py\<close> finds when it ends; \<open>PC\<close> is the text it logs.\<close>

record isa_run =
  ir_halted :: bool
  ir_code :: nat
  ir_cycles :: nat
  ir_pc :: utext
  ir_instr_waits :: nat
  ir_data_waits :: nat
  ir_console :: "byte list"

definition hex08_text :: "nat \<Rightarrow> utext" where
  "hex08_text w = map of_char (hex08 w)"

definition tohost_verdict :: "nat \<Rightarrow> nat \<Rightarrow> utext" where
  "tohost_verdict code cycles =
     (if code = 1 then codes ''[PASS] tohost=1 at cycle '' @ dec cycles
      else codes ''[FAIL] tohost=0x'' @ hex08_text code @ codes '' (TESTNUM='' @ dec (drop_bit 1 code) @ codes '') at cycle '' @ dec cycles)"

definition timeout_verdict :: "nat \<Rightarrow> utext \<Rightarrow> utext" where
  "timeout_verdict max_cycles pc = codes ''[FAIL] Simulation timeout after '' @ dec max_cycles @ codes '' cycles at PC='' @ pc"

definition run_program :: "nat \<Rightarrow> bool \<Rightarrow> isa_run \<Rightarrow> utext" where
  "run_program max_cycles waits r =
     (let verdict = (if ir_halted r then tohost_verdict (ir_code r) (ir_cycles r) else timeout_verdict max_cycles (ir_pc r))
      in if waits
         then (let verdict = (if ir_instr_waits r = 0 then codes ''[FAIL] wait_mode set but no FETCH waited (tohost not looked at)'' else verdict)
               in verdict @ codes '' waits: instr='' @ dec (ir_instr_waits r) @ codes '' data='' @ dec (ir_data_waits r))
         else verdict)"

text \<open>
  What the harness makes of a run that wrote its verdict file, and of the console file that the same run wrote when it
  printed anything. A run that raises or leaves no verdict is reported as failed before this point and is not
  modelled; nor is a console file left by an earlier run.
\<close>

definition spaced :: "utext \<Rightarrow> utext" where
  "spaced t = concat (map (\<lambda>c. if c = 10 then codes '' / '' else [c]) t)"

definition simulate_rtl :: "utext \<Rightarrow> byte list \<Rightarrow> bool \<times> utext" where
  "simulate_rtl verdict console =
     (let detail = strip verdict;
          detail = (if \<not> starts (codes ''[PASS]'') detail \<and> console \<noteq> []
                    then (let printed = spaced (strip (text_mode (decode_utf8 console)))
                          in detail @ codes '' | console: '' @ drop (length printed - 300) printed)
                    else detail)
      in (starts (codes ''[PASS]'') detail, detail))"

text \<open>A run on the emulator: the code its run stopped with, if it did.\<close>

definition simulate_emu :: "nat \<Rightarrow> nat option \<Rightarrow> nat \<Rightarrow> nat \<Rightarrow> bool \<times> utext" where
  "simulate_emu max_cycles code cycle pc =
     (case code of
        None \<Rightarrow> (False, timeout_verdict max_cycles (hex08_text pc))
      | Some c \<Rightarrow> (c = 1, tohost_verdict c cycle))"

section \<open>The suite's result\<close>

definition digit :: "nat \<Rightarrow> bool" where "digit c \<longleftrightarrow> 48 \<le> c \<and> c \<le> 57"

definition dec_value :: "utext \<Rightarrow> nat" where
  "dec_value t = fold (\<lambda>c v. 10 * v + (c - 48)) t 0"

text \<open>\<open>waits: instr=\d+ data=(\d+)\<close> at the start of a text, and its first place in it.\<close>

definition match_waits :: "utext \<Rightarrow> nat option" where
  "match_waits t =
     (if \<not> starts (codes ''waits: instr='') t then None
      else (let t = drop 13 t; i = takeWhile digit t; t = dropWhile digit t
            in if i = [] \<or> \<not> starts (codes '' data='') t then None
               else (let d = takeWhile digit (drop 6 t) in if d = [] then None else Some (dec_value d))))"

fun search_waits :: "utext \<Rightarrow> nat option" where
  "search_waits [] = match_waits []"
| "search_waits (c # t) = (case match_waits (c # t) of Some v \<Rightarrow> Some v | None \<Rightarrow> search_waits t)"

definition data_waits :: "(bool \<times> utext) list \<Rightarrow> nat" where
  "data_waits results = sum_list (map (\<lambda>(_, detail). case search_waits detail of None \<Rightarrow> 0 | Some v \<Rightarrow> v) results)"

datatype status = PASS | FAIL | XFAIL | XPASS

definition test_status :: "bool \<Rightarrow> bool \<Rightarrow> status" where
  "test_status passed expected_fail =
     (if passed \<and> expected_fail then XPASS else if passed then PASS else if expected_fail then XFAIL else FAIL)"

definition report :: "string list \<Rightarrow> (bool \<times> utext) list \<Rightarrow> string list \<Rightarrow> string set option \<Rightarrow> bool \<Rightarrow> bool result" where
  "report names results expected all_names waits =
     (if length names \<noteq> length results then Inl ValueError
      else (let sts = map (\<lambda>(name, (passed, _)). test_status passed (name \<in> set expected)) (zip names results);
                stale = filter (\<lambda>n. case all_names of None \<Rightarrow> False | Some a \<Rightarrow> n \<notin> a) expected;
                no_data_waits = (waits \<and> data_waits results = 0)
            in Inr (sts \<noteq> [] \<and> FAIL \<notin> set sts \<and> XPASS \<notin> set sts \<and> stale = [] \<and> \<not> no_data_waits)))"

section \<open>The verdict's counters are found\<close>

lemma dec_value_dec: "dec_value (dec n) = n"
proof -
  have "fold (\<lambda>c v. 10 * v + (c - 48)) (dec n) 0 = n"
  proof (induction n rule: dec.induct)
    case (1 n)
    then show ?case by (subst dec.simps) auto
  qed
  then show ?thesis by (simp add: dec_value_def)
qed

lemma take_digits: "\<not> digit c \<Longrightarrow> takeWhile digit (dec n @ c # t) = dec n" "\<not> digit c \<Longrightarrow> dropWhile digit (dec n @ c # t) = c # t"
  "takeWhile digit (dec n) = dec n"
  using dec_digits(1) [of n] by (auto simp: takeWhile_append dropWhile_append digit_def list_all_iff)

lemma match_here:
  assumes "rest = [] \<or> \<not> digit (hd rest)"
  shows "match_waits (codes ''waits: instr='' @ dec i @ codes '' data='' @ dec d @ rest) = Some d"
proof -
  have s: "\<not> digit 32" by (simp add: digit_def)
  have "takeWhile digit (dec d @ rest) = dec d" using assms by (cases rest) (simp_all add: take_digits)
  then show ?thesis using dec_digits(2) take_digits(1,2) [OF s, of i]
    by (simp add: match_waits_def codes_def starts_def dec_value_dec)
qed

lemma match_other: "c \<noteq> 119 \<Longrightarrow> match_waits (c # t) = None" "match_waits [] = None"
  by (simp_all add: match_waits_def codes_def starts_def)

lemma search_skip: "119 \<notin> set p \<Longrightarrow> search_waits (p @ t) = search_waits t"
  by (induction p) (auto simp: match_other)

lemma search_here:
  assumes "rest = [] \<or> \<not> digit (hd rest)"
  shows "search_waits (codes ''waits: instr='' @ dec i @ codes '' data='' @ dec d @ rest) = Some d"
proof -
  have "codes ''waits: instr='' @ t = 119 # drop 1 (codes ''waits: instr'') @ codes ''='' @ t" for t by (simp add: codes_def)
  then show ?thesis using match_here [OF assms, of i d] by simp
qed

lemma search_no_fetch:
  "search_waits (codes ''[FAIL] wait_mode set but no FETCH waited (tohost not looked at)'' @ t) = search_waits t"
proof -
  have m: "match_waits (codes ''wait_mode set but no FETCH waited (tohost not looked at)'' @ t) = None"
    "match_waits (codes ''waited (tohost not looked at)'' @ t) = None"
    by (simp_all add: match_waits_def codes_def starts_def)
  have 1: "search_waits (119 # u) = search_waits u" if "match_waits (119 # u) = None" for u using that by simp
  have "search_waits (codes ''[FAIL] wait_mode set but no FETCH waited (tohost not looked at)'' @ t) =
      search_waits (codes ''wait_mode set but no FETCH waited (tohost not looked at)'' @ t)"
    using search_skip [of "codes ''[FAIL] ''"] by (simp add: codes_def del: search_waits.simps)
  also have "\<dots> = search_waits (codes ''ait_mode set but no FETCH '' @ codes ''waited (tohost not looked at)'' @ t)"
    using m(1) 1 by (simp add: codes_def del: search_waits.simps)
  also have "\<dots> = search_waits (codes ''waited (tohost not looked at)'' @ t)"
    by (rule search_skip) (simp add: codes_def)
  also have "\<dots> = search_waits (codes ''aited (tohost not looked at)'' @ t)"
    using m(2) 1 by (simp add: codes_def del: search_waits.simps)
  also have "\<dots> = search_waits t" by (rule search_skip) (simp add: codes_def)
  finally show ?thesis .
qed

lemma no_w: "119 \<notin> set (dec n)" "119 \<notin> set (hex08_text w)"
proof -
  show "119 \<notin> set (dec n)" using dec_digits(1) [of n] by (auto simp: list_all_iff)
  have "digit_value CHR ''w'' = None" by (simp add: digit_value_def)
  then have "CHR ''w'' \<notin> set (hex08 w)" using hex08_only [of w] by (fastforce simp: digits_only_def list_all_iff)
  moreover have "c = CHR ''w''" if "(of_char c :: nat) = 119" for c
  proof -
    have "c = char_of (119 :: nat)" using char_of_char [of c] that by metis
    moreover have "char_of (119 :: nat) = CHR ''w''" by code_simp
    ultimately show ?thesis by simp
  qed
  ultimately show "119 \<notin> set (hex08_text w)" by (auto simp: hex08_text_def)
qed

text \<open>A verdict without its counters.\<close>

definition base_verdict :: "nat \<Rightarrow> bool \<Rightarrow> isa_run \<Rightarrow> utext" where
  "base_verdict max_cycles waits r =
     (if waits \<and> ir_instr_waits r = 0 then codes ''[FAIL] wait_mode set but no FETCH waited (tohost not looked at)''
      else if ir_halted r then tohost_verdict (ir_code r) (ir_cycles r) else timeout_verdict max_cycles (ir_pc r))"

definition isa_ok :: "bool \<Rightarrow> isa_run \<Rightarrow> bool" where
  "isa_ok waits r \<longleftrightarrow> ir_halted r \<and> ir_code r = 1 \<and> (waits \<longrightarrow> ir_instr_waits r \<noteq> 0)"

lemma run_program_parts:
  "run_program mc waits r = base_verdict mc waits r @
     (if waits then codes '' waits: instr='' @ dec (ir_instr_waits r) @ codes '' data='' @ dec (ir_data_waits r) else [])"
  by (simp add: run_program_def base_verdict_def Let_def)

lemma search_base:
  assumes "119 \<notin> set (ir_pc r)"
  shows "search_waits (base_verdict mc waits r @ t) = search_waits t"
proof (cases "waits \<and> ir_instr_waits r = 0")
  case True
  then show ?thesis by (simp add: base_verdict_def search_no_fetch del: search_waits.simps)
next
  case False
  have "119 \<notin> set (tohost_verdict c n)" "119 \<notin> set (timeout_verdict mc (ir_pc r))" for c n
    using assms no_w by (simp_all add: tohost_verdict_def timeout_verdict_def codes_def)
  then show ?thesis using False by (auto simp: base_verdict_def intro!: search_skip)
qed

lemma base_head: "\<exists>q. base_verdict mc waits r = codes (if isa_ok waits r then ''[PASS]'' else ''[FAIL]'') @ q"
  by (auto simp: base_verdict_def isa_ok_def tohost_verdict_def timeout_verdict_def codes_def)

lemma strip_keeps:
  assumes "p \<noteq> []" "\<not> white (hd p)" "\<not> white (last p)"
  shows "\<exists>q'. strip (p @ q) = p @ q'"
proof -
  have d: "dropWhile white (p @ q) = p @ q" using assms(1,2) by (cases p) simp_all
  have r: "dropWhile white (rev p) = rev p" using assms(1,3) by (cases p rule: rev_cases) simp_all
  show ?thesis
  proof (cases "\<exists>x \<in> set q. \<not> white x")
    case True
    then have "dropWhile white (rev q @ rev p) = dropWhile white (rev q) @ rev p" by (auto intro: dropWhile_append1)
    then show ?thesis by (simp add: strip_def d)
  next
    case False
    then have "dropWhile white (rev q @ rev p) = rev p" using r dropWhile_append2 [of "rev q" white "rev p"] by simp
    then show ?thesis by (simp add: strip_def d)
  qed
qed

lemma strip_exact: "p \<noteq> [] \<Longrightarrow> \<not> white (hd p) \<Longrightarrow> \<not> white (last p) \<Longrightarrow> strip (p @ [10]) = p"
proof -
  assume a: "p \<noteq> []" "\<not> white (hd p)" "\<not> white (last p)"
  have "dropWhile white (p @ [10]) = p @ [10]" using a by (cases p) simp_all
  moreover have "white 10" by (simp add: white_def)
  then have "dropWhile white (10 # rev p) = rev p" using a by (cases p rule: rev_cases) simp_all
  ultimately show ?thesis by (simp add: strip_def)
qed

lemma rtl_passed: "fst (simulate_rtl (run_program mc waits r @ [10]) console) \<longleftrightarrow> isa_ok waits r"
proof -
  let ?p = "codes (if isa_ok waits r then ''[PASS]'' else ''[FAIL]'')"
  obtain q where "run_program mc waits r = ?p @ q" using base_head [of mc waits r] by (auto simp: run_program_parts)
  moreover have "?p \<noteq> []" "\<not> white (hd ?p)" "\<not> white (last ?p)" by (simp_all add: codes_def white_def)
  ultimately obtain q' where "strip (run_program mc waits r @ [10]) = ?p @ q'"
    using strip_keeps [of ?p "q @ [10]"] by auto
  then show ?thesis by (simp add: simulate_rtl_def Let_def codes_def starts_def)
qed

lemma rtl_waits:
  assumes "119 \<notin> set (ir_pc r)"
  shows "search_waits (snd (simulate_rtl (run_program mc True r @ [10]) console)) = Some (ir_data_waits r)"
proof -
  let ?w = "codes ''waits: instr='' @ dec (ir_instr_waits r) @ codes '' data='' @ dec (ir_data_waits r)"
  have t: "run_program mc True r = base_verdict mc True r @ codes '' '' @ ?w" by (simp add: run_program_parts codes_def)
  have "strip (run_program mc True r @ [10]) = run_program mc True r"
  proof (rule strip_exact)
    obtain q where "run_program mc True r = codes (if isa_ok True r then ''[PASS]'' else ''[FAIL]'') @ q"
      using base_head [of mc True r] by (auto simp: run_program_parts)
    then show "run_program mc True r \<noteq> []" "\<not> white (hd (run_program mc True r))" by (simp_all add: codes_def white_def)
    show "\<not> white (last (run_program mc True r))" using last_dec dec_digits(2) by (simp add: t)
  qed
  then have "\<exists>rest. snd (simulate_rtl (run_program mc True r @ [10]) console) = run_program mc True r @ rest \<and>
      (rest = [] \<or> \<not> digit (hd rest))"
    by (simp add: simulate_rtl_def Let_def) (simp add: codes_def digit_def)
  then obtain rest where "snd (simulate_rtl (run_program mc True r @ [10]) console) = run_program mc True r @ rest"
    "rest = [] \<or> \<not> digit (hd rest)"
    by blast
  moreover have "search_waits (codes '' '' @ ?w @ rest) = Some (ir_data_waits r)" if "rest = [] \<or> \<not> digit (hd rest)" for rest
    using search_here [OF that] search_skip [of "codes '' ''"] by (simp add: codes_def del: search_waits.simps)
  ultimately show ?thesis unfolding t using search_base [OF assms] by (simp del: search_waits.simps)
qed

section \<open>The suite passes exactly when it should\<close>

lemma status_ok: "test_status p e \<notin> {FAIL, XPASS} \<longleftrightarrow> (p \<longleftrightarrow> \<not> e)"
  by (simp add: test_status_def)

text \<open>
  C35: a suite's result. For the outcomes of the testbench's runs, the suite passes exactly when there is a test, every
  test passed that is not an expected failure and every expected failure failed, no expected failure is unknown to a full
  suite, and with wait cycles some data access waited in some test. A test passed when it halted with the code 1 and, with
  wait cycles, a fetch waited.
\<close>

theorem isa_suite_exact:
  assumes "length names = length runs" "\<forall>r \<in> set runs. 119 \<notin> set (ir_pc r)"
  shows "report names (map (\<lambda>r. simulate_rtl (run_program mc waits r @ [10]) (ir_console r)) runs) expected all_names waits =
    Inr (names \<noteq> [] \<and> (\<forall>(n, r) \<in> set (zip names runs). isa_ok waits r \<longleftrightarrow> n \<notin> set expected) \<and>
      (case all_names of None \<Rightarrow> True | Some a \<Rightarrow> set expected \<subseteq> a) \<and> (waits \<longrightarrow> 0 < sum_list (map ir_data_waits runs)))"
proof -
  let ?res = "map (\<lambda>r. simulate_rtl (run_program mc waits r @ [10]) (ir_console r)) runs"
  let ?sts = "map (\<lambda>(name, (passed, _)). test_status passed (name \<in> set expected)) (zip names ?res)"
  have sts: "?sts = map (\<lambda>(n, r). test_status (isa_ok waits r) (n \<in> set expected)) (zip names runs)"
    using rtl_passed by (simp add: zip_map2 split_def)
  have g: "FAIL \<notin> X \<and> XPASS \<notin> X \<longleftrightarrow> (\<forall>x \<in> X. x \<notin> {FAIL, XPASS})" for X by auto
  have "FAIL \<notin> set ?sts \<and> XPASS \<notin> set ?sts \<longleftrightarrow> (\<forall>x \<in> set ?sts. x \<notin> {FAIL, XPASS})" by (rule g)
  also have "\<dots> \<longleftrightarrow> (\<forall>(n, r) \<in> set (zip names runs). isa_ok waits r \<longleftrightarrow> n \<notin> set expected)"
    unfolding sts using status_ok by (auto simp: split_def)
  finally have ok: "FAIL \<notin> set ?sts \<and> XPASS \<notin> set ?sts \<longleftrightarrow> (\<forall>(n, r) \<in> set (zip names runs). isa_ok waits r \<longleftrightarrow> n \<notin> set expected)" .
  have w: "data_waits ?res = sum_list (map ir_data_waits runs)" if waits
  proof -
    have "data_waits ?res = sum_list (map (\<lambda>r. case search_waits (snd (simulate_rtl (run_program mc waits r @ [10]) (ir_console r))) of
        None \<Rightarrow> 0 | Some v \<Rightarrow> v) runs)"
      by (simp add: data_waits_def comp_def split_def)
    also have "\<dots> = sum_list (map ir_data_waits runs)"
      using assms(2) rtl_waits that by (intro arg_cong [of _ _ sum_list] map_cong) simp_all
    finally show ?thesis .
  qed
  have st: "filter (\<lambda>n. case all_names of None \<Rightarrow> False | Some a \<Rightarrow> n \<notin> a) expected = [] \<longleftrightarrow>
      (case all_names of None \<Rightarrow> True | Some a \<Rightarrow> set expected \<subseteq> a)"
    by (auto simp: filter_empty_conv split: option.split)
  have ne: "?sts \<noteq> [] \<longleftrightarrow> names \<noteq> []" using assms(1) by (cases names; cases runs) simp_all
  have nw: "\<not> (waits \<and> data_waits ?res = 0) \<longleftrightarrow> (waits \<longrightarrow> 0 < sum_list (map ir_data_waits runs))" using w by auto
  have l: "(length names \<noteq> length ?res) = False" using assms(1) by simp
  have "report names ?res expected all_names waits = Inr (?sts \<noteq> [] \<and> (FAIL \<notin> set ?sts \<and> XPASS \<notin> set ?sts) \<and>
      filter (\<lambda>n. case all_names of None \<Rightarrow> False | Some a \<Rightarrow> n \<notin> a) expected = [] \<and> \<not> (waits \<and> data_waits ?res = 0))"
    by (simp only: report_def Let_def l if_False conj_assoc)
  then show ?thesis by (simp only: ne ok st nw)
qed

theorem isa_suite_exact_witness:
  "report [''a'', ''b''] (map (\<lambda>r. simulate_rtl (run_program 100 True r @ [10]) (ir_console r))
     [\<lparr>ir_halted = True, ir_code = 1, ir_cycles = 9, ir_pc = [], ir_instr_waits = 3, ir_data_waits = 2, ir_console = []\<rparr>,
      \<lparr>ir_halted = True, ir_code = 5, ir_cycles = 9, ir_pc = [], ir_instr_waits = 3, ir_data_waits = 0, ir_console = [65]\<rparr>])
     [''b''] (Some {''a'', ''b''}) True = Inr True"
proof -
  let ?r = "[\<lparr>ir_halted = True, ir_code = 1, ir_cycles = 9, ir_pc = [], ir_instr_waits = 3, ir_data_waits = 2, ir_console = []\<rparr>,
      \<lparr>ir_halted = True, ir_code = 5, ir_cycles = 9, ir_pc = [], ir_instr_waits = 3, ir_data_waits = 0, ir_console = [65]\<rparr>]"
  show ?thesis using isa_suite_exact [of "[''a'', ''b'']" ?r 100 True "[''b'']" "Some {''a'', ''b''}"] by (simp add: isa_ok_def)
qed

section \<open>Images are read back\<close>

definition upper :: "char \<Rightarrow> char" where
  "upper c = (case digit_value c of Some d \<Rightarrow> hex_up d | None \<Rightarrow> c)"

lemma digit_hex_up: "d < 16 \<Longrightarrow> digit_value (hex_up d) = Some d"
  by (simp add: digit_value_def hex_up_def Let_def)

lemma digit_value_less: "digit_value c = Some d \<Longrightarrow> d < 16"
  by (auto simp: digit_value_def Let_def split: if_splits)

lemma digit_upper: "digit_value (upper c) = digit_value c"
  using digit_hex_up digit_value_less by (cases "digit_value c") (simp_all add: upper_def)

lemma read_upper: "read_hex acc (map upper s) = read_hex acc s"
  by (induction acc s rule: read_hex.induct) (auto simp: digit_upper split: option.split)

lemma hex08_up_eq: "hex08_up w = map upper (hex08 w)"
proof -
  have "upper CHR ''0'' = CHR ''0''" by code_simp
  then show ?thesis by (simp add: hex08_up_def hex08_def Let_def upper_def [abs_def] map_replicate)
qed

lemma hex08_up_read: "int_base16 (hex08_up w) = Inr (int w)" "strip_blank (hex08_up w) \<noteq> []"
proof -
  have d: "digits_only (hex08_up w)" "hex08_up w \<noteq> []"
    using hex08_only [of w] by (simp_all add: hex08_up_eq digits_only_def list_all_iff digit_upper)
  show "int_base16 (hex08_up w) = Inr (int w)" using d by (simp add: int_base16_digits) (simp add: hex08_up_eq read_upper read_hex08)
  show "strip_blank (hex08_up w) \<noteq> []" using d by (simp add: strip_digits)
qed

text \<open>
  The emulator backend loads the binary. The hex file of a binary that fits the testbench's RAM is read back as the
  binary's bytes, padded with zeros to whole words; a larger one has no file.
\<close>

theorem isa_image_roundtrip:
  "case bin_to_hex data of
     None \<Rightarrow> 4 * RAM_WORDS < length data
   | Some ls \<Rightarrow> length data \<le> 4 * RAM_WORDS \<and> length ls = (length data + 3) div 4 \<and>
       emu_image ls = Inr (data @ replicate (4 * ((length data + 3) div 4) - length data) 0)"
proof -
  let ?n = "nat (- int (length data) mod 4)"
  let ?d = "data @ replicate ?n 0"
  have le: "length data \<le> 4 * ((length data + 3) div 4)" by presburger
  then have "- int (length data) mod 4 = int (4 * ((length data + 3) div 4) - length data)"
    by (simp add: of_nat_diff zdiv_int) presburger
  then have n: "length data + ?n = 4 * ((length data + 3) div 4)" using le by simp
  have l: "length ?d = 4 * ((length data + 3) div 4)" using n by simp
  have big: "length ?d > RAM_WORDS * 4 \<longleftrightarrow> 4 * RAM_WORDS < length data" unfolding l RAM_WORDS_def by presburger
  have w: "rmapM int_base16 (filter (\<lambda>l. strip_blank l \<noteq> []) (map (\<lambda>w. hex08_up (nat (int_of_le w))) ws)) = Inr (map int_of_le ws)" for ws
    using int_of_le_range by (induction ws) (simp_all add: hex08_up_read)
  have p: "x \<in> set (pieces 4 ?d) \<Longrightarrow> length x = 4" for x using pieces_exact [OF l] .
  have "list_all (\<lambda>w. 0 \<le> w \<and> w < 2 ^ 32) (map int_of_le (pieces 4 ?d))"
  proof -
    have "0 \<le> int_of_le x \<and> int_of_le x < 2 ^ 32" if "x \<in> set (pieces 4 ?d)" for x
      using int_of_le_range [of x] unfolding p [OF that] by simp
    then show ?thesis by (simp add: list_all_iff)
  qed
  moreover have "concat (map (le_bytes 4) (map int_of_le (pieces 4 ?d))) = ?d"
  proof -
    have "(le_bytes 4 \<circ> int_of_le) x = x" if "x \<in> set (pieces 4 ?d)" for x
      using le_bytes_of_le [of x] unfolding p [OF that] comp_apply .
    then have "map (le_bytes 4 \<circ> int_of_le) (pieces 4 ?d) = pieces 4 ?d" by (rule map_idI)
    then show ?thesis using concat_pieces [of 4 ?d] by (simp only: map_map zero_less_numeral)
  qed
  ultimately have "emu_image (map (\<lambda>w. hex08_up (nat (int_of_le w))) (pieces 4 ?d)) = Inr ?d"
    by (simp add: emu_image_def w)
  moreover have "length (pieces 4 ?d) = (length data + 3) div 4" using length_pieces [of 4 ?d] l by simp
  moreover have "4 * ((length data + 3) div 4) - length data = ?n" using n by linarith
  ultimately show ?thesis using big by (simp add: bin_to_hex_def Let_def)
qed

end
