(* ===== verification/Dist_Crates.thy ===== *)
theory Dist_Crates
  imports Isa_Report Board_Port "HOL-Library.Multiset"
begin

text \<open>
  The crates whose licences the distribution has to carry (\<^verbatim>\<open>src/scripts/make_dist.py\<close>): the walk over the dependencies that
  cargo reports, and the reading of a crate's licence expression. What cargo reports is a parameter; the order in which
  Python iterates over a set is one too.
\<close>

section \<open>Cargo's metadata\<close>

record crate_pkg =
  pk_id :: utext
  pk_name :: utext
  pk_version :: utext
  pk_license :: "utext option"
  pk_source :: "utext option"
  pk_manifest_path :: utext
  pk_kinds :: "utext list list"

record crate_dep =
  cd_pkg :: utext
  cd_kinds :: "utext option list"

record cargo_meta =
  cm_packages :: "crate_pkg list"
  cm_nodes :: "(utext \<times> crate_dep list) list"

definition dict_of :: "('k \<times> 'v) list \<Rightarrow> ('k \<times> 'v) list" where
  "dict_of kvs = fold (\<lambda>(k, v) d. dict_set k v d) kvs []"

definition proc_macro :: "crate_pkg \<Rightarrow> bool" where
  "proc_macro p \<longleftrightarrow> list_ex (\<lambda>kind. codes ''proc-macro'' \<in> set kind) (pk_kinds p)"

definition normal_deps :: "crate_dep list \<Rightarrow> utext list" where
  "normal_deps ds = map cd_pkg (filter (\<lambda>d. None \<in> set (cd_kinds d)) ds)"

definition registry :: "crate_pkg \<Rightarrow> bool" where
  "registry p \<longleftrightarrow> (case pk_source p of None \<Rightarrow> False | Some s \<Rightarrow> s \<noteq> [])"

section \<open>The walk\<close>

function link_loop :: "(utext \<times> crate_pkg) list \<Rightarrow> (utext \<times> crate_dep list) list \<Rightarrow> utext list \<Rightarrow> utext set \<Rightarrow> utext set result" where
  "link_loop pkgs nodes todo seen =
     (if todo = [] then Inr seen
      else if last todo \<in> seen then link_loop pkgs nodes (butlast todo) seen
      else (case map_of pkgs (last todo) of
          None \<Rightarrow> Inl KeyError
        | Some p \<Rightarrow>
            if proc_macro p then link_loop pkgs nodes (butlast todo) seen
            else (case map_of nodes (last todo) of
                None \<Rightarrow> Inl KeyError
              | Some ds \<Rightarrow> link_loop pkgs nodes (butlast todo @ normal_deps ds) (insert (last todo) seen))))"
  by pat_completeness auto
termination
proof (relation "inv_image (less_than <*lex*> less_than)
    (\<lambda>(pkgs :: (utext \<times> crate_pkg) list, nodes :: (utext \<times> crate_dep list) list, todo :: utext list, seen). (card (dom (map_of pkgs) - seen), length todo))")
  fix pkgs :: "(utext \<times> crate_pkg) list" and todo :: "utext list" and seen p
  assume new: "last todo \<notin> seen" "map_of pkgs (last todo) = Some p"
  have "card (dom (map_of pkgs) - insert (last todo) seen) < card (dom (map_of pkgs) - seen)"
    using new by (intro psubset_card_mono) (auto simp: finite_dom_map_of)
  then show "((pkgs, nodes, t, insert (last todo) seen), pkgs, nodes', todo, seen) \<in> inv_image (less_than <*lex*> less_than)
      (\<lambda>(pkgs :: (utext \<times> crate_pkg) list, nodes :: (utext \<times> crate_dep list) list, todo :: utext list, seen). (card (dom (map_of pkgs) - seen), length todo))"
    for nodes nodes' t by simp
qed auto

declare link_loop.simps [simp del]

text \<open>\<open>iter\<close> lists the elements of a set in the order Python happens to iterate over them.\<close>

definition linked_into :: "(utext set \<Rightarrow> utext list) \<Rightarrow> cargo_meta \<Rightarrow> utext \<Rightarrow> crate_pkg list result" where
  "linked_into iter meta crate =
     (let pkgs = dict_of (map (\<lambda>p. (pk_id p, p)) (cm_packages meta));
          nodes = dict_of (cm_nodes meta);
          todo = map fst (filter (\<lambda>(pid, p). pk_name p = crate) pkgs)
      in rbind (link_loop pkgs nodes todo {}) (\<lambda>seen.
         rmap (\<lambda>ps. sort_key pk_name (filter registry ps)) (rmapM (rlookup pkgs) (iter seen))))"

section \<open>What is linked\<close>

text \<open>The packages that the loop asks for, and those of them that are linked: neither mentions the order of the walk.\<close>

definition pkg_of :: "cargo_meta \<Rightarrow> utext \<Rightarrow> crate_pkg option" where
  "pkg_of meta = map_of (rev (map (\<lambda>p. (pk_id p, p)) (cm_packages meta)))"

definition deps_of :: "cargo_meta \<Rightarrow> utext \<Rightarrow> crate_dep list option" where
  "deps_of meta = map_of (rev (cm_nodes meta))"

definition is_macro :: "cargo_meta \<Rightarrow> utext \<Rightarrow> bool" where
  "is_macro meta pid \<longleftrightarrow> (\<exists>p. pkg_of meta pid = Some p \<and> proc_macro p)"

inductive needed :: "cargo_meta \<Rightarrow> utext \<Rightarrow> utext \<Rightarrow> bool" for meta crate where
  named: "pkg_of meta pid = Some p \<Longrightarrow> pk_name p = crate \<Longrightarrow> needed meta crate pid"
| dep: "needed meta crate pid \<Longrightarrow> pkg_of meta pid = Some p \<Longrightarrow> \<not> proc_macro p \<Longrightarrow> deps_of meta pid = Some ds \<Longrightarrow>
    d \<in> set ds \<Longrightarrow> None \<in> set (cd_kinds d) \<Longrightarrow> needed meta crate (cd_pkg d)"

text \<open>A package that cargo's output should describe and does not.\<close>

definition undescribed :: "cargo_meta \<Rightarrow> utext \<Rightarrow> bool" where
  "undescribed meta pid \<longleftrightarrow> (case pkg_of meta pid of None \<Rightarrow> True | Some p \<Rightarrow> \<not> proc_macro p \<and> deps_of meta pid = None)"

definition linked_ids :: "cargo_meta \<Rightarrow> utext \<Rightarrow> utext set" where
  "linked_ids meta crate = {pid. needed meta crate pid \<and> \<not> is_macro meta pid}"

lemma map_of_dict_of: "map_of (dict_of kvs) = map_of (rev kvs)"
proof -
  have "map_of (fold (\<lambda>(k, v) d. dict_set k v d) kvs d) = map_of d ++ map_of (rev kvs)" for d
    by (induction kvs arbitrary: d) (auto simp: map_add_def fun_eq_iff split: option.split)
  then show ?thesis by (simp add: dict_of_def)
qed

lemma dict_of_distinct: "distinct (map fst (dict_of kvs))"
proof -
  have "distinct (map fst d) \<Longrightarrow> distinct (map fst (fold (\<lambda>(k, v) d. dict_set k v d) kvs d))" for d
    by (induction kvs arbitrary: d) (auto intro: dict_set_distinct)
  then show ?thesis by (simp add: dict_of_def)
qed

lemma snoc_cases: "todo \<noteq> [] \<Longrightarrow> (\<And>ts pid. todo = ts @ [pid] \<Longrightarrow> P) \<Longrightarrow> P"
  by (metis append_butlast_last_id)

text \<open>
  What the walk keeps: everything noted or waiting is needed; what a noted package depends on is noted, waiting or a
  macro.
\<close>

definition walk_ok :: "cargo_meta \<Rightarrow> utext \<Rightarrow> utext list \<Rightarrow> utext set \<Rightarrow> bool" where
  "walk_ok meta crate todo seen \<longleftrightarrow>
     (\<forall>pid \<in> set todo. needed meta crate pid) \<and>
     (\<forall>pid \<in> seen. needed meta crate pid \<and> \<not> is_macro meta pid \<and> \<not> undescribed meta pid) \<and>
     (\<forall>pid. needed meta crate pid \<longrightarrow> (\<exists>p. pkg_of meta pid = Some p \<and> pk_name p = crate) \<longrightarrow> pid \<in> seen \<or> pid \<in> set todo \<or> is_macro meta pid) \<and>
     (\<forall>pid \<in> seen. \<forall>ds. deps_of meta pid = Some ds \<longrightarrow> (\<forall>d \<in> set (normal_deps ds). d \<in> seen \<or> d \<in> set todo \<or> is_macro meta d))"

lemma walk_end:
  assumes "walk_ok meta crate [] seen"
  shows "seen = linked_ids meta crate \<and> (\<forall>pid. needed meta crate pid \<longrightarrow> \<not> undescribed meta pid)"
proof -
  have in_seen: "pid \<in> seen \<or> is_macro meta pid" if "needed meta crate pid" for pid
    using that
  proof induction
    case (named pid p)
    then show ?case using assms needed.named [of meta pid p crate] by (auto simp: walk_ok_def)
  next
    case (dep pid p ds d)
    then have "pid \<in> seen" by (auto simp: is_macro_def)
    moreover have "cd_pkg d \<in> set (normal_deps ds)" using dep by (auto simp: normal_deps_def)
    ultimately show ?case using assms dep by (auto simp: walk_ok_def)
  qed
  have "\<not> undescribed meta pid" if "needed meta crate pid" for pid
    using in_seen [OF that] assms by (auto simp: walk_ok_def undescribed_def is_macro_def split: option.splits)
  moreover have "seen = linked_ids meta crate"
    using in_seen assms by (auto simp: walk_ok_def linked_ids_def)
  ultimately show ?thesis by blast
qed

lemma walk_skip: "walk_ok meta crate (todo @ [pid]) seen \<Longrightarrow> pid \<in> seen \<or> is_macro meta pid \<Longrightarrow> walk_ok meta crate todo seen"
  unfolding walk_ok_def set_append by simp blast

lemma walk_note:
  assumes "walk_ok meta crate (todo @ [pid]) seen" "pkg_of meta pid = Some p" "\<not> proc_macro p" "deps_of meta pid = Some ds"
  shows "walk_ok meta crate (todo @ normal_deps ds) (insert pid seen)"
proof -
  have n: "needed meta crate pid" using assms(1) by (simp add: walk_ok_def)
  have "\<forall>d \<in> set (normal_deps ds). needed meta crate d"
    using needed.dep [OF n assms(2-4)] by (auto simp: normal_deps_def)
  moreover have "\<not> is_macro meta pid" "\<not> undescribed meta pid" using assms(2-4) by (auto simp: is_macro_def undescribed_def)
  ultimately show ?thesis using n assms(1,4) unfolding walk_ok_def by (simp add: ball_Un) blast
qed

definition walked :: "cargo_meta \<Rightarrow> utext \<Rightarrow> utext set result \<Rightarrow> bool" where
  "walked meta crate r \<longleftrightarrow> (case r of
      Inl e \<Rightarrow> e = KeyError \<and> (\<exists>pid. needed meta crate pid \<and> undescribed meta pid)
    | Inr ids \<Rightarrow> ids = linked_ids meta crate \<and> (\<forall>pid. needed meta crate pid \<longrightarrow> \<not> undescribed meta pid))"

lemma walk_stuck:
  "walk_ok meta crate (todo @ [pid]) seen \<Longrightarrow> undescribed meta pid \<Longrightarrow> walked meta crate (Inl KeyError)"
  by (auto simp: walk_ok_def walked_def)

lemma walk_result:
  assumes "walk_ok meta crate todo seen" "map_of pkgs = pkg_of meta" "map_of nodes = deps_of meta"
  shows "walked meta crate (link_loop pkgs nodes todo seen)"
  using assms
proof (induction pkgs nodes todo seen rule: link_loop.induct)
  case (1 pkgs nodes todo seen)
  show ?case
  proof (cases "todo = []")
    case True
    then show ?thesis using walk_end 1(4) by (subst link_loop.simps) (simp add: walked_def)
  next
    case False
    define ts where "ts = butlast todo"
    define pid where "pid = last todo"
    have todo: "todo = ts @ [pid]" using False by (simp add: ts_def pid_def)
    note ih = "1.IH" [OF False, folded ts_def pid_def] and ok = "1.prems"(1) [unfolded todo] and maps = "1.prems"(2,3)
    have step: "link_loop pkgs nodes todo seen =
      (if pid \<in> seen then link_loop pkgs nodes ts seen
       else case pkg_of meta pid of None \<Rightarrow> Inl KeyError
        | Some p \<Rightarrow> if proc_macro p then link_loop pkgs nodes ts seen
            else (case deps_of meta pid of None \<Rightarrow> Inl KeyError | Some ds \<Rightarrow> link_loop pkgs nodes (ts @ normal_deps ds) (insert pid seen)))"
      using maps by (subst link_loop.simps) (auto simp: todo split: option.split)
    consider "pid \<in> seen" | "pid \<notin> seen" "undescribed meta pid"
      | p where "pid \<notin> seen" "pkg_of meta pid = Some p" "proc_macro p"
      | p ds where "pid \<notin> seen" "pkg_of meta pid = Some p" "\<not> proc_macro p" "deps_of meta pid = Some ds"
      by (fastforce simp: undescribed_def split: option.splits)
    then show ?thesis
    proof cases
      case 1
      then show ?thesis using ih(1) walk_skip [OF ok] maps by (simp add: step)
    next
      case 2
      then show ?thesis using walk_stuck [OF ok] by (auto simp: step undescribed_def split: option.splits)
    next
      case 3
      then show ?thesis using ih(2) [of p] walk_skip [OF ok] maps by (simp add: step is_macro_def)
    next
      case 4
      then show ?thesis using ih(3) [of p ds] walk_note [OF ok] maps by (simp add: step)
    qed
  qed
qed

lemma walk_start:
  assumes "pkgs = dict_of (map (\<lambda>p. (pk_id p, p)) (cm_packages meta))"
  shows "walk_ok meta crate (map fst (filter (\<lambda>(pid, p). pk_name p = crate) pkgs)) {}"
proof -
  have m: "map_of pkgs = pkg_of meta" by (simp add: assms map_of_dict_of pkg_of_def)
  have "(pid, p) \<in> set pkgs \<longleftrightarrow> pkg_of meta pid = Some p" for pid p
    using dict_of_distinct [of "map (\<lambda>p. (pk_id p, p)) (cm_packages meta)"] m by (simp add: assms flip: m)
  then have "set (map fst (filter (\<lambda>(pid, p). pk_name p = crate) pkgs)) = {pid. \<exists>p. pkg_of meta pid = Some p \<and> pk_name p = crate}"
    by force
  then show ?thesis by (auto simp: walk_ok_def intro: needed.named)
qed

text \<open>
  C39: The walk ends, and with the registry packages that the named crate reaches through normal dependencies, macros and
  what only they need left out, each once and in the order of their names; it raises when cargo's output does not
  describe one of the packages it asks for, and only then.
\<close>

theorem linked_exact:
  assumes iter: "\<And>S. finite S \<Longrightarrow> distinct (iter S) \<and> set (iter S) = S"
  shows "if \<exists>pid. needed meta crate pid \<and> undescribed meta pid then linked_into iter meta crate = Inl KeyError
    else \<exists>ps. linked_into iter meta crate = Inr ps \<and> sorted (map pk_name ps) \<and>
      mset ps = {#p \<in># image_mset (\<lambda>pid. the (pkg_of meta pid)) (mset_set (linked_ids meta crate)). registry p#}"
proof -
  define pkgs where "pkgs = dict_of (map (\<lambda>p. (pk_id p, p)) (cm_packages meta))"
  define nodes where "nodes = dict_of (cm_nodes meta)"
  define todo where "todo = map fst (filter (\<lambda>(pid, p). pk_name p = crate) pkgs)"
  have maps: "map_of pkgs = pkg_of meta" "map_of nodes = deps_of meta"
    by (simp_all add: pkgs_def nodes_def map_of_dict_of pkg_of_def deps_of_def)
  have w: "walked meta crate (link_loop pkgs nodes todo {})"
    using walk_result [OF walk_start [OF pkgs_def] maps] by (simp add: todo_def)
  have l: "linked_into iter meta crate = rbind (link_loop pkgs nodes todo {}) (\<lambda>seen.
         rmap (\<lambda>ps. sort_key pk_name (filter registry ps)) (rmapM (rlookup pkgs) (iter seen)))"
    by (simp add: linked_into_def pkgs_def nodes_def todo_def Let_def)
  show ?thesis
  proof (cases "\<exists>pid. needed meta crate pid \<and> undescribed meta pid")
    case True
    then show ?thesis using w l by (auto simp: walked_def split: sum.splits)
  next
    case False
    then have s: "link_loop pkgs nodes todo {} = Inr (linked_ids meta crate)"
      using w by (auto simp: walked_def split: sum.splits)
    have described: "\<exists>p. pkg_of meta pid = Some p" if "pid \<in> linked_ids meta crate" for pid
      using that False by (auto simp: linked_ids_def undescribed_def split: option.splits)
    then have "linked_ids meta crate \<subseteq> dom (map_of pkgs)" by (auto simp: maps)
    then have fin: "finite (linked_ids meta crate)" by (rule finite_subset) (rule finite_dom_map_of)
    let ?ids = "iter (linked_ids meta crate)"
    have ids: "mset ?ids = mset_set (linked_ids meta crate)" "set ?ids = linked_ids meta crate"
      using iter [OF fin] by (simp_all add: mset_set_set [symmetric])
    have "rmapM (rlookup pkgs) ?ids = Inr (map (\<lambda>pid. the (pkg_of meta pid)) ?ids)"
      using described ids(2) by (auto simp: rmapM_Inr_iff list_all2_conv_all_nth rlookup_def maps split: option.split) (metis nth_mem option.distinct(1))
    then show ?thesis using False s l ids(1) by (simp add: ids(1))
  qed
qed

text \<open>A crate that needs a library, which needs a macro; the macro's own needs are not followed.\<close>

definition test_pkg :: "nat \<Rightarrow> crate_pkg" where
  "test_pkg n = \<lparr>pk_id = [n], pk_name = [n], pk_version = [49], pk_license = None, pk_source = (if n = 11 then None else Some [7]),
     pk_manifest_path = [], pk_kinds = (if n = 13 then [[codes ''proc-macro'']] else [])\<rparr>"

definition test_meta :: cargo_meta where
  "test_meta =
     \<lparr>cm_packages = map test_pkg [11, 12, 13],
      cm_nodes = [([11], [\<lparr>cd_pkg = [12], cd_kinds = [None]\<rparr>, \<lparr>cd_pkg = [15], cd_kinds = [Some [6]]\<rparr>]), ([12], [\<lparr>cd_pkg = [13], cd_kinds = [None]\<rparr>]),
                  ([13], [\<lparr>cd_pkg = [14], cd_kinds = [None]\<rparr>])]\<rparr>"

lemma test_meta_facts:
  "pkg_of test_meta pid = (if pid \<in> {[11], [12], [13]} then Some (test_pkg (hd pid)) else None)"
  "deps_of test_meta pid = (if pid = [11] then Some [\<lparr>cd_pkg = [12], cd_kinds = [None]\<rparr>, \<lparr>cd_pkg = [15], cd_kinds = [Some [6]]\<rparr>]
     else if pid = [12] then Some [\<lparr>cd_pkg = [13], cd_kinds = [None]\<rparr>] else if pid = [13] then Some [\<lparr>cd_pkg = [14], cd_kinds = [None]\<rparr>] else None)"
  by (simp_all add: pkg_of_def deps_of_def test_meta_def test_pkg_def)

lemmas test_meta_simps = test_meta_facts test_pkg_def proc_macro_def

lemma test_meta_needed: "needed test_meta [11] pid \<longleftrightarrow> pid \<in> {[11], [12], [13]}"
proof
  show "pid \<in> {[11], [12], [13]}" if "needed test_meta [11] pid"
    using that by induction (auto simp: test_meta_simps split: if_splits)
  have a: "needed test_meta [11] [11]" by (rule needed.named [of _ _ "test_pkg 11"]) (simp_all add: test_meta_simps)
  have b: "needed test_meta [11] [12]"
    using needed.dep [OF a, of "test_pkg 11" _ "\<lparr>cd_pkg = [12], cd_kinds = [None]\<rparr>"] by (simp add: test_meta_simps)
  have "needed test_meta [11] [13]"
    using needed.dep [OF b, of "test_pkg 12" _ "\<lparr>cd_pkg = [13], cd_kinds = [None]\<rparr>"] by (simp add: test_meta_simps)
  with a b show "needed test_meta [11] pid" if "pid \<in> {[11], [12], [13]}" using that by auto
qed

theorem linked_exact_witness:
  "\<exists>ps. linked_into sorted_list_of_set test_meta [11] = Inr ps \<and> map pk_name ps = [[12]]"
proof -
  have n: "\<not> (\<exists>pid. needed test_meta [11] pid \<and> undescribed test_meta pid)"
    by (auto simp: test_meta_needed undescribed_def test_meta_simps)
  have l: "linked_ids test_meta [11] = {[11], [12]}"
    by (auto simp: linked_ids_def test_meta_needed is_macro_def test_meta_simps)
  obtain ps where ps: "linked_into sorted_list_of_set test_meta [11] = Inr ps"
    "mset ps = {#p \<in># image_mset (\<lambda>pid. the (pkg_of test_meta pid)) (mset_set (linked_ids test_meta [11])). registry p#}"
    using linked_exact [of sorted_list_of_set test_meta "[11]"] n by auto
  then have "mset ps = {#test_pkg 12#}"
    by (simp add: l test_meta_simps registry_def)
  then have "ps = [test_pkg 12]" by simp
  then show ?thesis using ps(1) by (simp add: test_pkg_def)
qed

section \<open>Licence expressions\<close>

text \<open>\<open>re.split(r"\s+OR\s+|/", expr)\<close>: what is left after a separator at the start of a text, and the parts.\<close>

definition or_sep :: "utext \<Rightarrow> utext option" where
  "or_sep t =
     (let r = dropWhile white t; q = drop 2 r
      in if takeWhile white t \<noteq> [] \<and> starts (codes ''OR'') r \<and> takeWhile white q \<noteq> [] then Some (dropWhile white q)
         else if starts [slash] t then Some (tl t) else None)"

lemma or_sep_shorter: "or_sep t = Some r \<Longrightarrow> length r < length t"
proof -
  assume "or_sep t = Some r"
  then consider "takeWhile white t \<noteq> []" "r = dropWhile white (drop 2 (dropWhile white t))" | "starts [slash] t" "r = tl t"
    by (auto simp: or_sep_def Let_def split: if_splits)
  then show "length r < length t"
  proof cases
    case 1
    have "length r \<le> length (dropWhile white t)" using length_dropWhile_le [of white "drop 2 (dropWhile white t)"] 1(2) by simp
    moreover have "length t = length (takeWhile white t) + length (dropWhile white t)" by (metis length_append takeWhile_dropWhile_id)
    moreover have "0 < length (takeWhile white t)" using 1(1) by (simp only: length_greater_0_conv not_False_eq_True)
    ultimately show ?thesis by linarith
  next
    case 2
    then show ?thesis by (cases t) (simp_all add: starts_def)
  qed
qed

function split_or :: "utext \<Rightarrow> utext list" where
  "split_or [] = [[]]"
| "split_or (c # t) =
     (case or_sep (c # t) of
        Some r \<Rightarrow> [] # split_or r
      | None \<Rightarrow> (case split_or t of [] \<Rightarrow> [[c]] | w # ws \<Rightarrow> (c # w) # ws))"
  by pat_completeness auto
termination
  by (relation "measure length") (auto dest!: or_sep_shorter simp del: One_nat_def)

declare split_or.simps(2) [simp del]

definition strip_parens :: "utext \<Rightarrow> utext" where
  "strip_parens t = rev (dropWhile (\<lambda>c. c \<in> set (codes '' ()'')) (rev (dropWhile (\<lambda>c. c \<in> set (codes '' ()'')) t)))"

definition offers_apache :: "utext option \<Rightarrow> bool" where
  "offers_apache expr \<longleftrightarrow>
     codes ''Apache-2.0'' \<in> set (map strip_parens (split_or (case expr of None \<Rightarrow> [] | Some e \<Rightarrow> e)))"

text \<open>
  SPDX expressions, as they are written and what they allow: \<open>enough l e\<close> says that a use under licence \<open>l\<close> alone satisfies
  \<open>e\<close>. \<open>A/B\<close> is the older spelling of a choice.
\<close>

datatype spdx = License utext | Or spdx spdx | Slash spdx spdx | And spdx spdx

fun spdx_text :: "spdx \<Rightarrow> utext" where
  "spdx_text (License n) = n"
| "spdx_text (Or a b) = spdx_text a @ codes '' OR '' @ spdx_text b"
| "spdx_text (Slash a b) = spdx_text a @ [slash] @ spdx_text b"
| "spdx_text (And a b) =
     (let part = (\<lambda>e t. case e of Or _ _ \<Rightarrow> codes ''('' @ t @ codes '')'' | Slash _ _ \<Rightarrow> codes ''('' @ t @ codes '')'' | _ \<Rightarrow> t)
      in part a (spdx_text a) @ codes '' AND '' @ part b (spdx_text b))"

fun enough :: "utext \<Rightarrow> spdx \<Rightarrow> bool" where
  "enough l (License n) \<longleftrightarrow> n = l"
| "enough l (Or a b) \<longleftrightarrow> enough l a \<or> enough l b"
| "enough l (Slash a b) \<longleftrightarrow> enough l a \<or> enough l b"
| "enough l (And a b) \<longleftrightarrow> enough l a \<and> enough l b"

definition idstring :: "utext \<Rightarrow> bool" where
  "idstring n \<longleftrightarrow> n \<noteq> [] \<and> list_all (\<lambda>c. 48 \<le> c \<and> c \<le> 57 \<or> 65 \<le> c \<and> c \<le> 90 \<or> 97 \<le> c \<and> c \<le> 122 \<or> c \<in> set (codes ''-.+'')) n"

fun choice_of :: "spdx \<Rightarrow> bool" where
  "choice_of (License n) \<longleftrightarrow> idstring n"
| "choice_of (Or a b) \<longleftrightarrow> choice_of a \<and> choice_of b"
| "choice_of (Slash a b) \<longleftrightarrow> choice_of a \<and> choice_of b"
| "choice_of (And a b) \<longleftrightarrow> False"

lemma idstring_chars: "idstring n \<Longrightarrow> c \<in> set n \<Longrightarrow> \<not> white c \<and> c \<noteq> slash \<and> c \<notin> {32, 40, 41}"
  by (auto simp: idstring_def list_all_iff white_def codes_def)

lemma split_plain:
  assumes "\<And>c. c \<in> set n \<Longrightarrow> \<not> white c \<and> c \<noteq> slash"
  shows "split_or (n @ t) = (n @ hd (split_or t)) # tl (split_or t)"
  using assms
proof (induction n)
  case Nil
  then show ?case by (cases t) (auto simp: split_or.simps split: option.split list.split)
next
  case (Cons c n)
  have "or_sep (c # n @ t) = None" using Cons.prems [of c] by (simp add: or_sep_def starts_def)
  then show ?case using Cons by (simp add: split_or.simps)
qed

fun leaves :: "spdx \<Rightarrow> utext list" where
  "leaves (License n) = [n]"
| "leaves (Or a b) = leaves a @ leaves b"
| "leaves (Slash a b) = leaves a @ leaves b"
| "leaves (And a b) = leaves a @ leaves b"

lemma leaves_nonempty: "leaves e \<noteq> []"
  by (induction e) simp_all

lemma choice_head: "choice_of e \<Longrightarrow> \<exists>c r. spdx_text e = c # r \<and> \<not> white c"
proof (induction e)
  case (License n)
  then have "n \<noteq> []" by (simp add: idstring_def)
  then obtain c r where "n = c # r" by (cases n) auto
  then show ?case using License idstring_chars [of n c] by simp
qed auto

lemma or_here:
  assumes "choice_of e"
  shows "split_or (codes '' OR '' @ spdx_text e @ t) = [] # split_or (spdx_text e @ t)"
proof -
  obtain c r where "spdx_text e = c # r" "\<not> white c" using choice_head [OF assms] by blast
  moreover have "white 32" "\<not> white 79" by (simp_all add: white_def)
  ultimately have "or_sep (codes '' OR '' @ spdx_text e @ t) = Some (spdx_text e @ t)"
    by (simp add: or_sep_def codes_def starts_def)
  then show ?thesis by (simp add: split_or.simps(2) codes_def)
qed

lemma slash_here: "split_or (slash # t) = [] # split_or t"
  by (simp add: split_or.simps(2) or_sep_def starts_def white_def Let_def)

lemma split_choice:
  "choice_of e \<Longrightarrow> split_or (spdx_text e @ t) = butlast (leaves e) @ (last (leaves e) @ hd (split_or t)) # tl (split_or t)"
proof (induction e arbitrary: t)
  case (License n)
  then show ?case using split_plain [of n t] idstring_chars [of n] by auto
next
  case (Or a b)
  then have "split_or (spdx_text (Or a b) @ t) = leaves a @ split_or (spdx_text b @ t)"
    using or_here [of b t] append_butlast_last_id [OF leaves_nonempty, of a] by simp
  then show ?case using Or leaves_nonempty [of b] by (simp add: butlast_append)
next
  case (Slash a b)
  then have "split_or (spdx_text (Slash a b) @ t) = leaves a @ split_or (spdx_text b @ t)"
    using slash_here [of "spdx_text b @ t"] append_butlast_last_id [OF leaves_nonempty, of a] by simp
  then show ?case using Slash leaves_nonempty [of b] by (simp add: butlast_append)
qed simp

lemma choice_parts: "choice_of e \<Longrightarrow> split_or (spdx_text e) = leaves e"
  using split_choice [of e "[]"] append_butlast_last_id [OF leaves_nonempty, of e] by simp

lemma dropWhile_none: "(\<And>c. c \<in> set n \<Longrightarrow> \<not> P c) \<Longrightarrow> dropWhile P n = n"
  by (cases n) auto

lemma strip_idstring: "idstring n \<Longrightarrow> strip_parens n = n"
proof -
  assume "idstring n"
  then have n: "c \<in> set n \<Longrightarrow> c \<notin> set (codes '' ()'')" for c using idstring_chars [of n c] by (simp add: codes_def)
  have a: "dropWhile (\<lambda>c. c \<in> set (codes '' ()'')) n = n" by (rule dropWhile_none) (erule n)
  have b: "dropWhile (\<lambda>c. c \<in> set (codes '' ()'')) (rev n) = rev n" by (rule dropWhile_none) (simp only: set_rev, erule n)
  show ?thesis unfolding strip_parens_def a b by simp
qed

lemma choice_leaves: "choice_of e \<Longrightarrow> (\<forall>n \<in> set (leaves e). idstring n) \<and> (enough l e \<longleftrightarrow> l \<in> set (leaves e))"
  by (induction e) auto

lemma offers_choice:
  assumes "choice_of e"
  shows "offers_apache (Some (spdx_text e)) \<longleftrightarrow> enough (codes ''Apache-2.0'') e"
proof -
  have "map strip_parens (leaves e) = leaves e" using choice_leaves [OF assms] strip_idstring by (simp add: map_idI)
  then show ?thesis using choice_leaves [OF assms, of "codes ''Apache-2.0''"] by (simp add: offers_apache_def choice_parts [OF assms])
qed

text \<open>What a crate's manifest says of its licence, for all but expressions with \<open>AND\<close> or \<open>WITH\<close>: whether Apache-2.0 alone is enough.\<close>

definition choice_only :: "utext option \<Rightarrow> bool" where
  "choice_only l \<longleftrightarrow> (case l of None \<Rightarrow> True | Some t \<Rightarrow> \<exists>e. t = spdx_text e \<and> choice_of e)"

definition apache_enough :: "utext option \<Rightarrow> bool" where
  "apache_enough l \<longleftrightarrow> (case l of None \<Rightarrow> False | Some t \<Rightarrow> \<exists>e. t = spdx_text e \<and> choice_of e \<and> enough (codes ''Apache-2.0'') e)"

lemma offers_none: "\<not> offers_apache None"
  by (simp add: offers_apache_def strip_parens_def codes_def)

lemma offers_apache_enough: "choice_only l \<Longrightarrow> offers_apache l \<longleftrightarrow> apache_enough l"
  using offers_none by (auto simp: choice_only_def apache_enough_def offers_choice split: option.splits)

text \<open>
  Of a crate that offers a choice of licences, written \<open>A OR B\<close> or \<open>A/B\<close>, the script accepts exactly those where Apache-2.0
  is one of them.
\<close>

theorem offers_apache_choice:
  assumes "choice_of e"
  shows "offers_apache (Some (spdx_text e)) \<longleftrightarrow> enough (codes ''Apache-2.0'') e"
  by (rule offers_choice [OF assms])

theorem offers_apache_choice_witness:
  "offers_apache (Some (codes ''MIT OR Apache-2.0'')) \<and> offers_apache (Some (codes ''MIT/Apache-2.0'')) \<and>
   \<not> offers_apache (Some (codes ''MIT OR BSD-2-Clause''))"
  using offers_apache_choice [of "Or (License (codes ''MIT'')) (License (codes ''Apache-2.0''))"]
    offers_apache_choice [of "Slash (License (codes ''MIT'')) (License (codes ''Apache-2.0''))"]
    offers_apache_choice [of "Or (License (codes ''MIT'')) (License (codes ''BSD-2-Clause''))"]
  by (simp add: idstring_def codes_def)

text \<open>
  Where a further licence applies as well, the script can still accept the expression, though Apache-2.0 alone does
  not satisfy it.
\<close>

theorem offers_apache_conjunction:
  "let e = And (License (codes ''Unicode-3.0'')) (Or (License (codes ''MIT'')) (License (codes ''Apache-2.0'')))
   in offers_apache (Some (spdx_text e)) \<and> \<not> enough (codes ''Apache-2.0'') e"
  by (simp add: offers_apache_def codes_def split_or.simps or_sep_def starts_def white_def strip_parens_def Let_def)

end
