(* ===== verification/Dist_Licenses.thy ===== *)
theory Dist_Licenses
  imports Dist_Crates Utf8_Text "HOL-Library.Sublist"
begin

text \<open>
  The notices file of the distribution, \<open>third_party_licenses\<close> of \<^verbatim>\<open>src/scripts/make_dist.py\<close>: the crates linked into each
  binary and the licence texts that they ship. The file system and cargo are parameters.
\<close>

section \<open>Reading files\<close>

record dist_os =
  ds_cargo :: "utext \<Rightarrow> utext \<Rightarrow> utext list \<Rightarrow> cargo_meta"
  ds_iter :: "utext set \<Rightarrow> utext list"
  ds_listdir :: "utext \<Rightarrow> utext list result"
  ds_file :: "utext \<Rightarrow> byte list option"

text \<open>A text file, with \<open>errors="replace"\<close> and without: text that is not UTF-8 raises.\<close>

definition read_replace :: "dist_os \<Rightarrow> utext \<Rightarrow> utext result" where
  "read_replace os path = (case ds_file os path of None \<Rightarrow> Inl FileNotFoundError | Some bs \<Rightarrow> Inr (text_mode (decode_utf8 bs)))"

definition read_strict :: "dist_os \<Rightarrow> utext \<Rightarrow> utext result" where
  "read_strict os path = (case ds_file os path of None \<Rightarrow> Inl FileNotFoundError | Some bs \<Rightarrow> rmap text_mode (decode_strict bs))"

definition rstrip :: "utext \<Rightarrow> utext" where
  "rstrip t = rev (dropWhile white (rev t))"

text \<open>\<open>re.match(r"(LICEN[CS]E|COPYING)", name, re.I)\<close>: letters are compared by their folded forms.\<close>

definition re_fold :: "nat \<Rightarrow> nat" where
  "re_fold c = (if 65 \<le> c \<and> c \<le> 90 then c + 32 else if c \<in> {0x130, 0x131} then 105 else if c = 0x17F then 115 else c)"

definition license_name :: "utext \<Rightarrow> bool" where
  "license_name n \<longleftrightarrow> list_ex (\<lambda>w. starts (codes w) (map re_fold n)) [''license'', ''licence'', ''copying'']"

fun rfold :: "('a \<Rightarrow> 's \<Rightarrow> 's result) \<Rightarrow> 'a list \<Rightarrow> 's \<Rightarrow> 's result" where
  "rfold f [] s = Inr s"
| "rfold f (x # xs) s = rbind (f x s) (rfold f xs)"

fun join_with :: "utext \<Rightarrow> utext list \<Rightarrow> utext" where
  "join_with sep [] = []"
| "join_with sep [t] = t"
| "join_with sep (t # u # ts) = t @ sep @ join_with sep (u # ts)"

section \<open>The notices\<close>

definition LINKED_CRATES :: "(string \<times> string \<times> string \<times> string list \<times> string) list" where
  "LINKED_CRATES =
     [(''emu/vux9k-emu'', ''emu/Cargo.toml'', ''x86_64-unknown-linux-gnu'', [], ''vux9k_emu_cli''),
      (''emu/vux9k_emu.abi3.so'', ''emu/Cargo.toml'', ''x86_64-unknown-linux-gnu'', [], ''vux9k_emu_py''),
      (''sd/VUX9K/APPS/BC.BIN'', ''vendor/bc_clone_rs/Cargo.toml'', ''riscv32im-unknown-none-elf'', [''--no-default-features''], ''bc_zephyr'')]"

definition notices_head :: "utext \<Rightarrow> utext list" where
  "notices_head micropython_dir =
     map codes
      [''Third-party software in this distribution'',
       '''',
       ''demos/zephyr-demo.bin and sd/VUX9K/APPS/ZEPHYR.BIN, IRQECHO.BIN, BC.BIN and MPY.BIN contain'',
       ''the Zephyr RTOS (https://zephyrproject.org), licensed under the Apache License 2.0;'',
       ''its text is the LICENSE file in zephyr/vux9k-zephyr-bsp.tar.gz. The Zephyr demo's'',
       ''Rust part, sd/VUX9K/STAGE2.BIN and sd/VUX9K/APPS/HELLO.BIN are built with Rust's'',
       ''core library (MIT OR Apache-2.0, https://github.com/rust-lang/rust). BC.BIN's Rust'',
       ''part is bc_clone_rs (MIT, the same author), built with Rust's core and alloc'',
       ''libraries and the crates listed below. MPY.BIN's Python part is''] @
     [basename micropython_dir @ codes '' (MIT, https://micropython.org; its port to''] @
     map codes
      [''Zephyr, built with no lib/ component), whose LICENSE file is below; its frozen modules'',
       ''are bc_clone_py (MIT, the same author; https://github.com/takayuki-nagata/bc_clone_py),'',
       ''whose LICENSE file is below too.'']"

definition title :: "crate_pkg \<Rightarrow> utext" where
  "title p = pk_name p @ [32] @ pk_version p"

text \<open>\<open>{p['license']}\<close> in a formatted string.\<close>

definition license_shown :: "crate_pkg \<Rightarrow> utext" where
  "license_shown p = (case pk_license p of None \<Rightarrow> codes ''None'' | Some l \<Rightarrow> l)"

definition link_section :: "utext \<Rightarrow> crate_pkg list \<Rightarrow> utext list" where
  "link_section binary crates =
     [[], binary @ codes '' links '' @ (if crates \<noteq> [] then codes ''these Rust crates:'' else codes ''no third-party Rust crates.'')] @
     map (\<lambda>p. codes ''  '' @ title p @ codes ''  ('' @ license_shown p @ codes '')'') crates"

definition link_binary :: "dist_os \<Rightarrow> string \<times> string \<times> string \<times> string list \<times> string \<Rightarrow>
    utext list \<times> (utext \<times> crate_pkg) list \<Rightarrow> (utext list \<times> (utext \<times> crate_pkg) list) result" where
  "link_binary os e s =
     (case e of (binary, manifest, platform, flags, crate) \<Rightarrow>
        rmap (\<lambda>crates. (fst s @ link_section (codes binary) crates, fold (\<lambda>p. dict_set (pk_id p) p) crates (snd s)))
          (linked_into (ds_iter os) (ds_cargo os (codes manifest) (codes platform) (map codes flags)) (codes crate)))"

record notices =
  nt_out :: "utext list"
  nt_unshipped :: "crate_pkg list"
  nt_apache :: "(utext \<times> utext) option"

definition bar :: utext where "bar = replicate 78 61"

definition text_block :: "utext \<Rightarrow> utext \<Rightarrow> utext list" where
  "text_block heading body = [[], bar, heading, bar, [], body]"

definition apache_file :: "utext \<Rightarrow> utext \<Rightarrow> bool" where
  "apache_file name body \<longleftrightarrow> occurs (codes ''apache'') (lower_case name) \<and> starts (codes ''Apache License'') (dropWhile white body)"

definition add_text :: "dist_os \<Rightarrow> crate_pkg \<Rightarrow> utext \<Rightarrow> notices \<Rightarrow> notices result" where
  "add_text os p name st =
     rmap (\<lambda>raw. let body = rstrip raw in
         st\<lparr>nt_out := nt_out st @ text_block (title p @ codes '': '' @ name) body,
            nt_apache := (if nt_apache st = None \<and> apache_file name body then Some (title p, name) else nt_apache st)\<rparr>)
       (read_replace os (join_path (dirname (pk_manifest_path p)) name))"

definition add_crate :: "dist_os \<Rightarrow> crate_pkg \<Rightarrow> notices \<Rightarrow> notices result" where
  "add_crate os p st =
     rbind (ds_listdir os (dirname (pk_manifest_path p))) (\<lambda>names.
       let texts = sort (filter license_name names)
       in if texts = []
          then if \<not> offers_apache (pk_license p) then Inl SystemExit else Inr (st\<lparr>nt_unshipped := nt_unshipped st @ [p]\<rparr>)
          else rfold (add_text os p) texts st)"

definition unshipped_line :: "utext \<times> utext \<Rightarrow> crate_pkg \<Rightarrow> utext" where
  "unshipped_line apache p =
     title p @ codes '' ships no license file; it is offered under '' @ license_shown p @
     codes '' (Cargo.toml) and is distributed here under Apache-2.0, whose text is above under '' @ fst apache @ codes '': '' @ snd apache @ codes ''.''"

definition unshipped_section :: "notices \<Rightarrow> utext list result" where
  "unshipped_section st =
     (if nt_unshipped st = [] then Inr []
      else case nt_apache st of
          None \<Rightarrow> Inl SystemExit
        | Some a \<Rightarrow> Inr ([[], bar, codes ''Crates without a license file'', bar, []] @ map (unshipped_line a) (nt_unshipped st)))"

definition notices_lines :: "dist_os \<Rightarrow> utext \<Rightarrow> utext \<Rightarrow> utext \<Rightarrow> utext list result" where
  "notices_lines os repo micropython_dir bc_clone_py_dir =
     rbind (rfold (link_binary os) LINKED_CRATES (notices_head micropython_dir, [])) (\<lambda>(out, linked).
     rbind (rfold (add_crate os) (sort_key pk_name (map snd linked)) \<lparr>nt_out = out, nt_unshipped = [], nt_apache = None\<rparr>) (\<lambda>st.
     rbind (read_strict os (join_all repo [micropython_dir, codes ''LICENSE''])) (\<lambda>mpy.
     rbind (read_strict os (join_all repo [bc_clone_py_dir, codes ''LICENSE''])) (\<lambda>bc.
     rmap (\<lambda>rest. nt_out st @ text_block (basename micropython_dir @ codes '': LICENSE'') (rstrip mpy) @
             text_block (codes ''bc_clone_py: LICENSE'') (rstrip bc) @ rest)
       (unshipped_section st)))))"

definition third_party_licenses :: "dist_os \<Rightarrow> utext \<Rightarrow> utext \<Rightarrow> utext \<Rightarrow> utext result" where
  "third_party_licenses os repo micropython_dir bc_clone_py_dir =
     rmap (\<lambda>out. join_with [10] out @ [10]) (notices_lines os repo micropython_dir bc_clone_py_dir)"

section \<open>Every crate is accounted for\<close>

definition crate_texts :: "dist_os \<Rightarrow> crate_pkg \<Rightarrow> utext list" where
  "crate_texts os p = (case ds_listdir os (dirname (pk_manifest_path p)) of Inl e \<Rightarrow> [] | Inr names \<Rightarrow> sort (filter license_name names))"

definition text_of :: "dist_os \<Rightarrow> crate_pkg \<Rightarrow> utext \<Rightarrow> utext" where
  "text_of os p name = (case read_replace os (join_path (dirname (pk_manifest_path p)) name) of Inl e \<Rightarrow> [] | Inr raw \<Rightarrow> rstrip raw)"

definition crate_block :: "dist_os \<Rightarrow> crate_pkg \<Rightarrow> utext \<Rightarrow> utext list" where
  "crate_block os p name = text_block (title p @ codes '': '' @ name) (text_of os p name)"

definition apache_text :: "dist_os \<Rightarrow> crate_pkg \<times> utext \<Rightarrow> bool" where
  "apache_text os pn \<longleftrightarrow> apache_file (snd pn) (text_of os (fst pn) (snd pn))"

definition readable :: "dist_os \<Rightarrow> crate_pkg \<Rightarrow> bool" where
  "readable os p \<longleftrightarrow> \<not> isl (ds_listdir os (dirname (pk_manifest_path p))) \<and>
     list_all (\<lambda>n. \<not> isl (read_replace os (join_path (dirname (pk_manifest_path p)) n))) (crate_texts os p)"

text \<open>The crate and file whose text the notices refer to as the Apache License: the first of them.\<close>

definition first_apache :: "dist_os \<Rightarrow> (crate_pkg \<times> utext) list \<Rightarrow> (utext \<times> utext) option \<Rightarrow> (utext \<times> utext) option" where
  "first_apache os pns a = (case a of Some _ \<Rightarrow> a | None \<Rightarrow> map_option (\<lambda>(p, n). (title p, n)) (List.find (apache_text os) pns))"

lemma first_apache_Nil [simp]: "first_apache os [] a = a"
  by (cases a) (simp_all add: first_apache_def)

lemma first_apache_append: "first_apache os (xs @ ys) a = first_apache os ys (first_apache os xs a)"
  by (induction xs) (auto simp: first_apache_def split: option.split)

lemma text_fold:
  assumes "list_all (\<lambda>n. \<not> isl (read_replace os (join_path (dirname (pk_manifest_path p)) n))) ns"
  shows "rfold (add_text os p) ns st = Inr (st\<lparr>nt_out := nt_out st @ concat (map (crate_block os p) ns),
    nt_apache := first_apache os (map (Pair p) ns) (nt_apache st)\<rparr>)"
  using assms
proof (induction ns arbitrary: st)
  case (Cons n ns)
  then obtain raw where r: "read_replace os (join_path (dirname (pk_manifest_path p)) n) = Inr raw"
    by (auto simp: isl_def) (metis sum.exhaust)
  have t: "text_of os p n = rstrip raw" by (simp add: text_of_def r)
  have "add_text os p n st = Inr (st\<lparr>nt_out := nt_out st @ crate_block os p n, nt_apache := first_apache os [(p, n)] (nt_apache st)\<rparr>)"
    by (auto simp: add_text_def r Let_def crate_block_def first_apache_def apache_text_def t split: option.split)
  then show ?case using Cons by (simp flip: first_apache_append)
qed simp

definition all_texts :: "dist_os \<Rightarrow> crate_pkg list \<Rightarrow> (crate_pkg \<times> utext) list" where
  "all_texts os ps = concat (map (\<lambda>p. map (Pair p) (crate_texts os p)) ps)"

lemma crate_step:
  assumes "readable os p"
  shows "add_crate os p st =
    (if crate_texts os p = [] \<and> \<not> offers_apache (pk_license p) then Inl SystemExit
     else Inr \<lparr>nt_out = nt_out st @ concat (map (crate_block os p) (crate_texts os p)),
       nt_unshipped = nt_unshipped st @ (if crate_texts os p = [] then [p] else []),
       nt_apache = first_apache os (map (Pair p) (crate_texts os p)) (nt_apache st)\<rparr>)"
proof -
  obtain names where n: "ds_listdir os (dirname (pk_manifest_path p)) = Inr names"
    using assms by (cases "ds_listdir os (dirname (pk_manifest_path p))") (auto simp: readable_def)
  have t: "crate_texts os p = sort (filter license_name names)" by (simp add: crate_texts_def n)
  have "add_crate os p st = (if crate_texts os p = []
      then if \<not> offers_apache (pk_license p) then Inl SystemExit else Inr (st\<lparr>nt_unshipped := nt_unshipped st @ [p]\<rparr>)
      else rfold (add_text os p) (crate_texts os p) st)"
    by (simp add: add_crate_def n t Let_def)
  then show ?thesis using text_fold [of os p "crate_texts os p" st] assms by (auto simp: readable_def)
qed

lemma crates_fold:
  assumes "list_all (readable os) ps"
  shows "rfold (add_crate os) ps st =
    (if list_ex (\<lambda>p. crate_texts os p = [] \<and> \<not> offers_apache (pk_license p)) ps then Inl SystemExit
     else Inr \<lparr>nt_out = nt_out st @ concat (map (\<lambda>(p, n). crate_block os p n) (all_texts os ps)),
       nt_unshipped = nt_unshipped st @ filter (\<lambda>p. crate_texts os p = []) ps,
       nt_apache = first_apache os (all_texts os ps) (nt_apache st)\<rparr>)"
  using assms
proof (induction ps arbitrary: st)
  case (Cons p ps)
  then show ?case by (simp add: crate_step all_texts_def first_apache_append comp_def)
qed (simp add: all_texts_def)

lemma dict_set_same: "map_of d k = Some v \<Longrightarrow> dict_set k v d = d"
  by (induction d) (auto split: if_splits)

lemma dict_set_fresh: "map_of d k = None \<Longrightarrow> dict_set k v d = d @ [(k, v)]"
  by (induction d) (auto split: if_splits)

lemma links_dict:
  assumes "\<And>p q. p \<in> set ps \<union> snd ` set d \<Longrightarrow> q \<in> set ps \<union> snd ` set d \<Longrightarrow> pk_id p = pk_id q \<Longrightarrow> p = q"
    "\<And>k p. (k, p) \<in> set d \<Longrightarrow> k = pk_id p"
  shows "snd ` set (fold (\<lambda>p. dict_set (pk_id p) p) ps d) = set ps \<union> snd ` set d"
  using assms
proof (induction ps arbitrary: d)
  case (Cons p ps)
  show ?case
  proof (cases "map_of d (pk_id p)")
    case None
    then have d': "dict_set (pk_id p) p d = d @ [(pk_id p, p)]" by (rule dict_set_fresh)
    have "snd ` set (fold (\<lambda>p. dict_set (pk_id p) p) ps (d @ [(pk_id p, p)])) = set ps \<union> snd ` set (d @ [(pk_id p, p)])"
    proof (rule Cons.IH)
      show "q = r" if "q \<in> set ps \<union> snd ` set (d @ [(pk_id p, p)])" "r \<in> set ps \<union> snd ` set (d @ [(pk_id p, p)])" "pk_id q = pk_id r" for q r
        using that by (intro Cons.prems(1)) simp_all
      show "k = pk_id q" if "(k, q) \<in> set (d @ [(pk_id p, p)])" for k q using that Cons.prems(2) by auto
    qed
    then show ?thesis by (simp add: d')
  next
    case (Some q)
    then have "(pk_id p, q) \<in> set d" by (rule map_of_SomeD)
    then have "q = p" using Cons.prems(1) [of q p] Cons.prems(2) [of "pk_id p" q] by force
    then have "dict_set (pk_id p) p d = d" "p \<in> snd ` set d" using Some dict_set_same \<open>(pk_id p, q) \<in> set d\<close> by (auto intro: rev_image_eqI)
    moreover have "snd ` set (fold (\<lambda>p. dict_set (pk_id p) p) ps d) = set ps \<union> snd ` set d"
    proof (rule Cons.IH)
      show "q = r" if "q \<in> set ps \<union> snd ` set d" "r \<in> set ps \<union> snd ` set d" "pk_id q = pk_id r" for q r
        using that by (intro Cons.prems(1)) simp_all
    qed (rule Cons.prems(2))
    ultimately show ?thesis by auto
  qed
qed simp

definition crates_of :: "dist_os \<Rightarrow> string \<times> string \<times> string \<times> string list \<times> string \<Rightarrow> crate_pkg list result" where
  "crates_of os e = (case e of (binary, manifest, platform, flags, crate) \<Rightarrow>
     linked_into (ds_iter os) (ds_cargo os (codes manifest) (codes platform) (map codes flags)) (codes crate))"

lemma links_fold:
  assumes "rmapM (crates_of os) es = Inr css"
  shows "\<exists>out'. rfold (link_binary os) es (out, d) = Inr (out @ out', fold (\<lambda>p. dict_set (pk_id p) p) (concat css) d)"
  using assms
proof (induction es arbitrary: css out d)
  case (Cons e es)
  then obtain cs rest where c: "crates_of os e = Inr cs" "rmapM (crates_of os) es = Inr rest" "css = cs # rest" by auto
  have "link_binary os e (out, d) = Inr (out @ link_section (codes (fst e)) cs, fold (\<lambda>p. dict_set (pk_id p) p) cs d)"
    using c(1) by (cases e) (simp add: link_binary_def crates_of_def)
  then show ?case using Cons.IH [OF c(2), of "out @ link_section (codes (fst e)) cs" "fold (\<lambda>p. dict_set (pk_id p) p) cs d"] c(3)
    by auto
qed simp

lemma block_sublist: "x \<in> set xs \<Longrightarrow> sublist (f x) (pre @ concat (map f xs) @ post)"
proof -
  assume "x \<in> set xs"
  then obtain ys zs where "xs = ys @ x # zs" by (auto dest: split_list)
  then have "pre @ concat (map f xs) @ post = (pre @ concat (map f ys)) @ f x @ concat (map f zs) @ post" by simp
  then show ?thesis unfolding sublist_def by blast
qed

text \<open>What the notices have to say of the linked crates \<open>ps\<close>.\<close>

definition accounted :: "dist_os \<Rightarrow> crate_pkg set \<Rightarrow> utext list \<Rightarrow> crate_pkg \<Rightarrow> bool" where
  "accounted os ps out p \<longleftrightarrow>
     (\<forall>n \<in> set (crate_texts os p). sublist (crate_block os p n) out) \<and>
     (crate_texts os p = [] \<longrightarrow>
       apache_enough (pk_license p) \<and>
       (\<exists>q \<in> ps. \<exists>n \<in> set (crate_texts os q). apache_text os (q, n) \<and> sublist (crate_block os q n) out \<and>
          unshipped_line (title q, n) p \<in> set out))"

lemma all_texts_mem [simp]: "(q, n) \<in> set (all_texts os ps) \<longleftrightarrow> q \<in> set ps \<and> n \<in> set (crate_texts os q)"
  by (auto simp: all_texts_def)

text \<open>The notices after the crates \<open>ps\<close>.\<close>

definition notices_of :: "dist_os \<Rightarrow> utext list \<Rightarrow> crate_pkg list \<Rightarrow> notices" where
  "notices_of os out ps = \<lparr>nt_out = out @ concat (map (\<lambda>(p, n). crate_block os p n) (all_texts os ps)),
     nt_unshipped = filter (\<lambda>p. crate_texts os p = []) ps, nt_apache = first_apache os (all_texts os ps) None\<rparr>"

lemma notices_show:
  "q \<in> set ps \<Longrightarrow> n \<in> set (crate_texts os q) \<Longrightarrow> sublist (crate_block os q n) (nt_out (notices_of os out ps) @ x)"
  using block_sublist [of "(q, n)" "all_texts os ps" "\<lambda>(p, n). crate_block os p n" out x] by (simp add: notices_of_def)

lemma notices_apache:
  "case nt_apache (notices_of os out ps) of
      None \<Rightarrow> \<not> (\<exists>q \<in> set ps. \<exists>n \<in> set (crate_texts os q). apache_text os (q, n))
    | Some a \<Rightarrow> \<exists>q \<in> set ps. \<exists>n \<in> set (crate_texts os q). apache_text os (q, n) \<and> a = (title q, n)"
proof (cases "List.find (apache_text os) (all_texts os ps)")
  case None
  then show ?thesis using find_None_iff [of "apache_text os" "all_texts os ps"] by (auto simp: notices_of_def first_apache_def)
next
  case (Some qn)
  then have "qn \<in> set (all_texts os ps) \<and> apache_text os qn" by (auto simp: find_Some_iff)
  then show ?thesis using Some by (cases qn) (auto simp: notices_of_def first_apache_def)
qed

lemma section_accounts:
  fixes tail :: "utext list"
  assumes offers: "\<And>p. p \<in> set ps \<Longrightarrow> crate_texts os p = [] \<Longrightarrow> apache_enough (pk_license p)"
  shows "if \<forall>p \<in> set ps. crate_texts os p = [] \<longrightarrow> (\<exists>q \<in> set ps. \<exists>n \<in> set (crate_texts os q). apache_text os (q, n))
    then \<exists>rest. unshipped_section (notices_of os out ps) = Inr rest \<and>
      (\<forall>p \<in> set ps. accounted os (set ps) (nt_out (notices_of os out ps) @ tail @ rest) p)
    else unshipped_section (notices_of os out ps) = Inl SystemExit"
proof (cases "\<exists>p \<in> set ps. crate_texts os p = []")
  case False
  then have "unshipped_section (notices_of os out ps) = Inr []" by (simp add: unshipped_section_def notices_of_def filter_empty_conv)
  then show ?thesis using False by (auto simp: accounted_def intro!: notices_show)
next
  case True
  then have some: "nt_unshipped (notices_of os out ps) \<noteq> []" by (auto simp: notices_of_def filter_empty_conv)
  show ?thesis
  proof (cases "nt_apache (notices_of os out ps)")
    case None
    then show ?thesis using True some notices_apache [where os = os and out = out and ps = ps] by (auto simp: unshipped_section_def)
  next
    case (Some a)
    then obtain q n where q: "q \<in> set ps" "n \<in> set (crate_texts os q)" "apache_text os (q, n)" "a = (title q, n)"
      using notices_apache [where os = os and out = out and ps = ps] by auto
    then have acc: "accounted os (set ps) (nt_out (notices_of os out ps) @ tail @ x @ map (unshipped_line a) (nt_unshipped (notices_of os out ps))) p"
      if "p \<in> set ps" for p x
      using that offers [of p] notices_show [OF q(1,2)] unfolding accounted_def
      by (intro conjI impI ballI notices_show bexI [of _ q] bexI [of _ n]) (auto simp: notices_of_def)
    show ?thesis using some Some q acc [of _ "[[], bar, codes ''Crates without a license file'', bar, []]"] by (auto simp: unshipped_section_def)
  qed
qed


text \<open>A program that links two crates: one ships the Apache License, the other no text.\<close>

definition lib_pkg :: "nat \<Rightarrow> crate_pkg" where
  "lib_pkg n = \<lparr>pk_id = [n], pk_name = (if n = 11 then codes ''vux9k_emu_cli'' else [n]), pk_version = [49],
     pk_license = Some (codes ''MIT OR Apache-2.0''), pk_source = (if n = 11 then None else Some [7]),
     pk_manifest_path = [slash, n, slash, 1], pk_kinds = []\<rparr>"

definition lib_meta :: cargo_meta where
  "lib_meta =
     \<lparr>cm_packages = map lib_pkg [11, 12, 13],
      cm_nodes = [([11], [\<lparr>cd_pkg = [12], cd_kinds = [None]\<rparr>, \<lparr>cd_pkg = [13], cd_kinds = [None]\<rparr>]), ([12], []), ([13], [])]\<rparr>"

definition lib_os :: dist_os where
  "lib_os = \<lparr>ds_cargo = (\<lambda>m p f. lib_meta), ds_iter = sorted_list_of_set,
     ds_listdir = (\<lambda>dir. Inr (if dir = [slash, 13] then map codes [''src'', ''LICENSE-APACHE''] else [codes ''src''])),
     ds_file = (\<lambda>path. Some (map (\<lambda>c. of_nat (of_char c)) ''Apache License''))\<rparr>"

lemma lib_crates: "rmapM (crates_of lib_os) LINKED_CRATES = Inr [[lib_pkg 12, lib_pkg 13], [], []]"
proof -
  have d: "dict_of (map (\<lambda>p. (pk_id p, p)) (cm_packages lib_meta)) = [([11], lib_pkg 11), ([12], lib_pkg 12), ([13], lib_pkg 13)]"
    "dict_of (cm_nodes lib_meta) = cm_nodes lib_meta"
    by (simp_all add: lib_meta_def dict_of_def lib_pkg_def)
  have n: "pk_name (lib_pkg 11) = codes ''vux9k_emu_cli''" "pk_name (lib_pkg 12) = [12]" "pk_name (lib_pkg 13) = [13]"
    by (simp_all add: lib_pkg_def)
  have p: "\<not> proc_macro (lib_pkg k)" "registry (lib_pkg k) \<longleftrightarrow> k \<noteq> 11" for k by (simp_all add: proc_macro_def lib_pkg_def registry_def)
  have c: "codes ''vux9k_emu_cli'' \<noteq> codes ''vux9k_emu_py''" "codes ''vux9k_emu_cli'' \<noteq> codes ''bc_zephyr''"
    "[k] \<noteq> codes ''vux9k_emu_py''" "[k] \<noteq> codes ''bc_zephyr''" "[k] \<noteq> codes ''vux9k_emu_cli''" for k by (simp_all add: codes_def)
  have l: "link_loop [([11], lib_pkg 11), ([12], lib_pkg 12), ([13], lib_pkg 13)] (cm_nodes lib_meta) [[11]] {} = Inr {[11], [12], [13]}"
    by (simp add: link_loop.simps lib_meta_def p normal_deps_def insert_commute)
  have e: "link_loop ps ns [] {} = Inr {}" for ps ns by (simp add: link_loop.simps)
  show ?thesis
    by (simp add: LINKED_CRATES_def crates_of_def lib_os_def linked_into_def Let_def d n c l e p rlookup_def)
qed

lemma lib_texts: "crate_texts lib_os (lib_pkg 12) = []" "crate_texts lib_os (lib_pkg 13) = [codes ''LICENSE-APACHE'']"
  by (simp_all add: crate_texts_def lib_os_def lib_pkg_def dirname_def license_name_def re_fold_def starts_def codes_def)

lemma lib_read: "read_replace lib_os path = Inr (codes ''Apache License'')" "read_strict lib_os path = Inr (codes ''Apache License'')"
  by (simp_all add: read_replace_def read_strict_def decode_strict_def lib_os_def decode_utf8_def encode_utf8_def utf8_char_def codes_def)


end
