(* ===== verification/Dist_Sums.thy ===== *)
theory Dist_Sums
  imports Dist_Licenses
begin

text \<open>
  The checksums of the distribution: \<open>SHA256SUMS\<close> as \<^verbatim>\<open>src/scripts/make_dist.py\<close> writes it, and \<open>check_sums\<close> of
  \<^verbatim>\<open>src/scripts/check_dist.py\<close>, which compares a tree with it. A tree is a list of paths with their contents; the order in
  which \<open>os.walk\<close> finds the files is a parameter.
\<close>

section \<open>SHA-256\<close>

definition SHA_K :: "32 word list" where
  "SHA_K =
     [0x428A2F98, 0x71374491, 0xB5C0FBCF, 0xE9B5DBA5, 0x3956C25B, 0x59F111F1, 0x923F82A4, 0xAB1C5ED5,
      0xD807AA98, 0x12835B01, 0x243185BE, 0x550C7DC3, 0x72BE5D74, 0x80DEB1FE, 0x9BDC06A7, 0xC19BF174,
      0xE49B69C1, 0xEFBE4786, 0x0FC19DC6, 0x240CA1CC, 0x2DE92C6F, 0x4A7484AA, 0x5CB0A9DC, 0x76F988DA,
      0x983E5152, 0xA831C66D, 0xB00327C8, 0xBF597FC7, 0xC6E00BF3, 0xD5A79147, 0x06CA6351, 0x14292967,
      0x27B70A85, 0x2E1B2138, 0x4D2C6DFC, 0x53380D13, 0x650A7354, 0x766A0ABB, 0x81C2C92E, 0x92722C85,
      0xA2BFE8A1, 0xA81A664B, 0xC24B8B70, 0xC76C51A3, 0xD192E819, 0xD6990624, 0xF40E3585, 0x106AA070,
      0x19A4C116, 0x1E376C08, 0x2748774C, 0x34B0BCB5, 0x391C0CB3, 0x4ED8AA4A, 0x5B9CCA4F, 0x682E6FF3,
      0x748F82EE, 0x78A5636F, 0x84C87814, 0x8CC70208, 0x90BEFFFA, 0xA4506CEB, 0xBEF9A3F7, 0xC67178F2]"

definition SHA_H :: "32 word list" where
  "SHA_H = [0x6A09E667, 0xBB67AE85, 0x3C6EF372, 0xA54FF53A, 0x510E527F, 0x9B05688C, 0x1F83D9AB, 0x5BE0CD19]"

definition sha_pad :: "byte list \<Rightarrow> byte list" where
  "sha_pad bs = bs @ [0x80] @ replicate ((119 - length bs mod 64) mod 64) 0 @ rev (le_bytes 8 (8 * int (length bs)))"

definition be_word :: "byte list \<Rightarrow> 32 word" where
  "be_word bs = word_of_int (int_of_le (rev bs))"

text \<open>The message schedule, newest word first.\<close>

fun sha_more :: "nat \<Rightarrow> 32 word list \<Rightarrow> 32 word list" where
  "sha_more 0 ws = ws"
| "sha_more (Suc n) ws =
     (let a = ws ! 14; b = ws ! 1;
          s0 = word_rotr 7 a XOR word_rotr 18 a XOR drop_bit 3 a;
          s1 = word_rotr 17 b XOR word_rotr 19 b XOR drop_bit 10 b
      in sha_more n ((ws ! 15 + s0 + ws ! 6 + s1) # ws))"

definition sha_round :: "32 word list \<Rightarrow> 32 word \<times> 32 word \<Rightarrow> 32 word list" where
  "sha_round v kw =
     (case v of [a, b, c, d, e, f, g, h] \<Rightarrow>
        let t1 = h + (word_rotr 6 e XOR word_rotr 11 e XOR word_rotr 25 e) + ((e AND f) XOR (NOT e AND g)) + fst kw + snd kw;
            t2 = (word_rotr 2 a XOR word_rotr 13 a XOR word_rotr 22 a) + ((a AND b) XOR (a AND c) XOR (b AND c))
        in [t1 + t2, a, b, c, d + t1, e, f, g]
      | _ \<Rightarrow> v)"

definition sha_block :: "32 word list \<Rightarrow> byte list \<Rightarrow> 32 word list" where
  "sha_block h block = map2 (+) h (foldl sha_round h (zip SHA_K (rev (sha_more 48 (rev (map be_word (pieces 4 block)))))))"

definition hexdigest :: "byte list \<Rightarrow> utext" where
  "hexdigest bs = codes (concat (map (\<lambda>w. hex08 (unat w)) (foldl sha_block SHA_H (pieces 64 (sha_pad bs)))))"

text \<open>\<open>sha256\<close> of \<^verbatim>\<open>make_dist.py\<close>: the hash object is given the file in pieces.\<close>

definition sha256 :: "byte list \<Rightarrow> utext" where
  "sha256 contents = hexdigest (foldl (@) [] (pieces (2 ^ 20) contents))"

lemma sha256_eq: "sha256 bs = hexdigest bs"
proof -
  have "foldl (@) acc xss = acc @ concat xss" for acc :: "byte list" and xss by (induction xss arbitrary: acc) simp_all
  then show ?thesis by (simp add: sha256_def concat_pieces)
qed

lemma hexdigest_shape: "length (hexdigest bs) = 64 \<and> list_all (\<lambda>c. 48 \<le> c \<and> c \<le> 102) (hexdigest bs)"
proof -
  have round: "length v = 8 \<Longrightarrow> length (sha_round v kw) = 8" for v kw
    by (auto simp: sha_round_def Let_def split: list.splits)
  have rounds: "length v = 8 \<Longrightarrow> length (foldl sha_round v kws) = 8" for v kws
    using round by (induction kws arbitrary: v) simp_all
  have blocks: "length v = 8 \<Longrightarrow> length (foldl sha_block v bss) = 8" for v bss
    using rounds by (induction bss arbitrary: v) (simp_all add: sha_block_def)
  have hex: "length (hex08 (unat (w :: 32 word))) = 8" for w
  proof (rule length_hex08)
    have "unat w < 2 ^ LENGTH(32)" by (rule unsigned_less)
    then show "unat w < 2 ^ 32" by simp
  qed
  have chars: "c \<in> set (hex08 n) \<Longrightarrow> 48 \<le> (of_char c :: nat) \<and> of_char c \<le> (102 :: nat)" for c n
    using hex08_only [of n] by (auto simp: digits_only_def list_all_iff digit_value_def Let_def split: if_splits)
  have len: "(\<And>x. x \<in> set xs \<Longrightarrow> length (f x) = 8) \<Longrightarrow> length (concat (map f xs)) = 8 * length xs" for f :: "32 word \<Rightarrow> string" and xs
    by (induction xs) simp_all
  show ?thesis using len [of _ "\<lambda>w. hex08 (unat w)"] hex blocks [of SHA_H] chars
    by (auto simp: hexdigest_def codes_def list_all_iff SHA_H_def)
qed

section \<open>The sums\<close>

type_synonym tree = "(utext \<times> byte list) list"

definition SUMS :: utext where "SUMS = codes ''SHA256SUMS''"

definition sum_line :: "utext \<times> byte list \<Rightarrow> utext" where
  "sum_line f = sha256 (snd f) @ codes ''  '' @ fst f"

text \<open>\<open>found\<close> is the tree in the order \<open>os.walk\<close> finds it.\<close>

definition sums_text :: "tree \<Rightarrow> utext" where
  "sums_text found = join_with [10] (sort_key (drop 66) (map sum_line (filter (\<lambda>f. fst f \<noteq> SUMS) found))) @ [10]"

section \<open>Checking them\<close>

definition REQUIRED :: "string list" where
  "REQUIRED =
     [''README.md'', ''LICENSE'', ''THIRD_PARTY_LICENSES.txt'', ''docs/APP_DEVELOPMENT.md'', ''bitstream/pack.fs'', ''sd/VUX9K/STAGE2.BIN'',
      ''sd/VUX9K/APPS/HELLO.BIN'', ''sd/VUX9K/APPS/ZEPHYR.BIN'', ''sd/VUX9K/APPS/IRQECHO.BIN'', ''sd/VUX9K/APPS/BC.BIN'', ''sd/VUX9K/APPS/MPY.BIN'',
      ''sd/VUX9K/APPS/HACK.BIN'', ''demos/zephyr-demo.bin'', ''demos/hack-demo.bin'', ''tools/vux_tool.py'', ''tools/requirements.txt'',
      ''tools/70-vux9k-board.rules'', ''hack/main.c'', ''hack/uart.c'', ''hack/uart.h'', ''emu/vux9k-emu'', ''emu/vux9k_emu.abi3.so'',
      ''emu/firmware/firmware.hex'', ''zephyr/vux9k-zephyr-bsp.tar.gz'']"

text \<open>The lines of a text file, without their newlines.\<close>

fun text_lines :: "utext \<Rightarrow> utext list" where
  "text_lines [] = []"
| "text_lines (c # t) = (if c = 10 then [] # text_lines t else case text_lines t of [] \<Rightarrow> [[c]] | l # ls \<Rightarrow> (c # l) # ls)"

definition list_sum :: "utext \<Rightarrow> (utext \<times> utext) list \<Rightarrow> (utext \<times> utext) list result" where
  "list_sum line listed =
     (if strip line = [] then Inr listed
      else case find_sub (codes ''  '') line of
          None \<Rightarrow> Inl ValueError
        | Some k \<Rightarrow> Inr (dict_set (drop (k + 2) line) (take k line) listed))"

definition check_hash :: "tree \<Rightarrow> utext \<times> utext \<Rightarrow> unit \<Rightarrow> unit result" where
  "check_hash tree entry u =
     (case map_of tree (fst entry) of
        None \<Rightarrow> Inl FileNotFoundError
      | Some bs \<Rightarrow> if hexdigest bs \<noteq> snd entry then Inl SystemExit else Inr ())"

definition read_tree :: "tree \<Rightarrow> utext \<Rightarrow> utext result" where
  "read_tree tree path = (case map_of tree path of None \<Rightarrow> Inl FileNotFoundError | Some bs \<Rightarrow> rmap text_mode (decode_strict bs))"

definition check_sums :: "tree \<Rightarrow> unit result" where
  "check_sums tree =
     rbind (read_tree tree SUMS) (\<lambda>text.
     rbind (rfold list_sum (text_lines text) []) (\<lambda>listed.
       let present = set (map fst tree) - {SUMS}
       in if set (map fst listed) \<noteq> present then Inl SystemExit
          else rbind (rfold (check_hash tree) listed ()) (\<lambda>_.
            if list_all (\<lambda>rel. codes rel \<in> present) (REQUIRED @ [''MANIFEST.json'']) then Inr () else Inl SystemExit)))"

section \<open>What passes\<close>

lemma text_lines_more: "10 \<notin> set l \<Longrightarrow> text_lines (l @ 10 # t) = l # text_lines t"
  by (induction l) simp_all

lemma lines_joined: "ls \<noteq> [] \<Longrightarrow> (\<And>l. l \<in> set ls \<Longrightarrow> 10 \<notin> set l) \<Longrightarrow> text_lines (join_with [10] ls @ [10]) = ls"
proof (induction ls)
  case (Cons l ls)
  then show ?case
    using text_lines_more [of l "[]"] text_lines_more [of l "join_with [10] ls @ [10]"] by (cases ls) simp_all
qed simp

text \<open>Paths as the distribution has them: printable ASCII.\<close>

definition plain_path :: "utext \<Rightarrow> bool" where
  "plain_path p \<longleftrightarrow> list_all (\<lambda>c. 32 \<le> c \<and> c < 127) p"

lemma find_after: "(\<And>c. c \<in> set d \<Longrightarrow> c \<noteq> 32) \<Longrightarrow> find_sub (codes ''  '') (d @ codes ''  '' @ p) = Some (length d)"
  by (induction d) (auto simp: starts_def codes_def)

lemma list_sum_line:
  "list_sum (sum_line f) listed = Inr (dict_set (fst f) (hexdigest (snd f)) listed)"
proof -
  have d: "length (hexdigest (snd f)) = 64" "\<And>c. c \<in> set (hexdigest (snd f)) \<Longrightarrow> 48 \<le> c \<and> c \<le> 102"
    using hexdigest_shape [of "snd f"] by (auto simp: list_all_iff)
  then have k: "find_sub (codes ''  '') (sum_line f) = Some 64"
    using find_after [of "hexdigest (snd f)" "fst f"] by (force simp: sum_line_def sha256_eq)
  obtain c r where c: "hexdigest (snd f) = c # r" using d(1) by (cases "hexdigest (snd f)") auto
  then have "\<not> white c" using d(2) [of c] by (auto simp: white_def)
  then have "strip (sum_line f) \<noteq> []" using c by (auto simp: strip_def sum_line_def sha256_eq dropWhile_eq_Nil_conv)
  then show ?thesis using k d(1) by (simp add: list_sum_def sum_line_def sha256_eq codes_def)
qed

lemma list_sums:
  "rfold list_sum (map sum_line fs) d = Inr (fold (\<lambda>f. dict_set (fst f) (hexdigest (snd f))) fs d)"
  by (induction fs arbitrary: d) (simp_all add: list_sum_line)

text \<open>The dictionary of a list of files with different paths.\<close>

lemma dict_files:
  assumes "distinct (map fst fs)"
  shows "fold (\<lambda>f. dict_set (fst f) (h (snd f))) fs [] = map (\<lambda>f. (fst f, h (snd f))) fs"
proof -
  have "fold (\<lambda>f. dict_set (fst f) (h (snd f))) fs d = d @ map (\<lambda>f. (fst f, h (snd f))) fs" if "fst ` set d \<inter> fst ` set fs = {}" for d
    using assms that
  proof (induction fs arbitrary: d)
    case (Cons f fs)
    have "map_of d (fst f) = None" using Cons.prems by (auto simp: map_of_eq_None_iff)
    then have "dict_set (fst f) (h (snd f)) d = d @ [(fst f, h (snd f))]" by (rule dict_set_fresh)
    then show ?case using Cons by auto
  qed simp
  then show ?thesis by simp
qed

lemma plain_text:
  assumes "list_all (\<lambda>c. c = 10 \<or> 32 \<le> c \<and> c < 127) t"
  shows "rmap text_mode (decode_strict (encode_utf8 t)) = Inr t"
proof -
  have "text_mode t = t" if "13 \<notin> set t" for t using that by (induction t rule: text_mode.induct) auto
  moreover have "13 \<notin> set t" "list_all scalar t" using assms by (auto simp: list_all_iff scalar_def)
  ultimately show ?thesis by (simp add: decode_encode)
qed

lemma join_chars: "list_all (list_all P) ls \<Longrightarrow> P 10 \<Longrightarrow> list_all P (join_with [10] ls)"
  by (induction "[10 :: nat]" ls rule: join_with.induct) simp_all

lemma sum_line_plain: "plain_path (fst f) \<Longrightarrow> plain_path (sum_line f)"
  using hexdigest_shape [of "snd f"] by (auto simp: plain_path_def sum_line_def sha256_eq list_all_iff codes_def)

lemma sums_sorted: "sort_key (drop 66) (map sum_line fs) = map sum_line (sort_key fst fs)"
proof -
  have "drop 66 (sum_line f) = fst f" for f using hexdigest_shape [of "snd f"] by (simp add: sum_line_def sha256_eq codes_def)
  then have "insort_key (drop 66) (sum_line f) (map sum_line gs) = map sum_line (insort_key fst f gs)" for f gs by (induction gs) simp_all
  then show ?thesis by (induction fs) simp_all
qed

lemma sort_key_Nil: "sort_key f xs = [] \<longleftrightarrow> xs = []"
  using length_sort [of f xs] by (cases xs) auto

lemma sums_listed:
  assumes "distinct (map fst found)" "\<And>f. f \<in> set found \<Longrightarrow> plain_path (fst f)" "filter (\<lambda>f. fst f \<noteq> SUMS) found \<noteq> []"
  shows "\<exists>ls. rmap text_mode (decode_strict (encode_utf8 (sums_text found))) = Inr (sums_text found) \<and>
    rfold list_sum (text_lines (sums_text found)) [] = Inr (map (\<lambda>f. (fst f, hexdigest (snd f))) ls) \<and>
    set ls = {f \<in> set found. fst f \<noteq> SUMS}"
proof -
  let ?fs = "sort_key fst (filter (\<lambda>f. fst f \<noteq> SUMS) found)"
  have t: "sums_text found = join_with [10] (map sum_line ?fs) @ [10]" by (simp add: sums_text_def sums_sorted)
  have p: "plain_path l" if "l \<in> set (map sum_line ?fs)" for l using that assms(2) sum_line_plain by auto
  then have "list_all (\<lambda>c. c = 10 \<or> 32 \<le> c \<and> c < 127) (sums_text found)"
    unfolding t list_all_append by (intro conjI join_chars) (auto simp: plain_path_def list_all_iff)
  moreover have "text_lines (sums_text found) = map sum_line ?fs"
    unfolding t
  proof (rule lines_joined)
    show "map sum_line ?fs \<noteq> []" using assms(3) by (simp add: sort_key_Nil)
    show "10 \<notin> set l" if "l \<in> set (map sum_line ?fs)" for l using p [OF that] by (auto simp: plain_path_def list_all_iff)
  qed
  moreover have "distinct (map fst ?fs)"
    using assms(1) by (auto simp: distinct_map inj_on_def)
  ultimately show ?thesis using plain_text list_sums [of ?fs "[]"] dict_files [of ?fs hexdigest] by (intro exI [of _ ?fs]) auto
qed

lemma rbind_checks: "rbind (if P then Inr () else Inl e) (\<lambda>_. if Q then Inr () else Inl e) = (if P \<and> Q then Inr () else Inl e)"
  by simp

lemma check_hashes:
  assumes "\<And>e. e \<in> set es \<Longrightarrow> map_of tree (fst e) \<noteq> None"
  shows "rfold (check_hash tree) es () =
    (if \<forall>e \<in> set es. map_option hexdigest (map_of tree (fst e)) = Some (snd e) then Inr () else Inl SystemExit)"
  using assms
proof (induction es)
  case (Cons e es)
  then have "map_of tree (fst e) \<noteq> None" by simp
  then obtain bs where "map_of tree (fst e) = Some bs" by blast
  then show ?case using Cons by (simp add: check_hash_def)
qed simp

lemma hashes_agree:
  assumes "distinct (map fst found)" "set ls = {f \<in> set found. fst f \<noteq> SUMS}"
    and none: "\<And>path. path \<noteq> SUMS \<Longrightarrow> map_of found path = None \<longleftrightarrow> map_of tree path = None"
  shows "(\<forall>e \<in> set (map (\<lambda>f. (fst f, hexdigest (snd f))) ls). map_option hexdigest (map_of tree (fst e)) = Some (snd e)) \<longleftrightarrow>
    (\<forall>path. path \<noteq> SUMS \<longrightarrow> map_option hexdigest (map_of found path) = map_option hexdigest (map_of tree path))"
proof -
  have found: "f \<in> set found \<longleftrightarrow> map_of found (fst f) = Some (snd f)" for f using assms(1) by (cases f) simp
  have "(\<forall>f. map_of found (fst f) = Some (snd f) \<and> fst f \<noteq> SUMS \<longrightarrow> map_option hexdigest (map_of tree (fst f)) = Some (hexdigest (snd f))) \<longleftrightarrow>
    (\<forall>path. path \<noteq> SUMS \<longrightarrow> map_option hexdigest (map_of found path) = map_option hexdigest (map_of tree path))"
  proof (intro iffI allI impI)
    fix path
    assume h: "\<forall>f. map_of found (fst f) = Some (snd f) \<and> fst f \<noteq> SUMS \<longrightarrow> map_option hexdigest (map_of tree (fst f)) = Some (hexdigest (snd f))"
      and path: "path \<noteq> SUMS"
    show "map_option hexdigest (map_of found path) = map_option hexdigest (map_of tree path)"
      using none [OF path] h path by (cases "map_of found path") fastforce+
  qed (metis option.simps(9))
  then show ?thesis using found by (simp add: assms(2))
qed

text \<open>
  The sums of one tree, found in another, are accepted exactly when the two trees have the same files, apart from the sums
  themselves, with the same hashes, and all the files that a distribution needs; otherwise the script fails with its
  message.
\<close>

theorem sums_exact:
  assumes "distinct (map fst found)" "\<And>f. f \<in> set found \<Longrightarrow> plain_path (fst f)" "\<exists>f \<in> set found. fst f \<noteq> SUMS"
    and sums: "map_of tree SUMS = Some (encode_utf8 (sums_text found))"
  shows "check_sums tree =
    (if (\<forall>path. path \<noteq> SUMS \<longrightarrow> map_option hexdigest (map_of found path) = map_option hexdigest (map_of tree path)) \<and>
        (\<forall>rel \<in> set (REQUIRED @ [''MANIFEST.json'']). codes rel \<noteq> SUMS \<and> map_of tree (codes rel) \<noteq> None)
     then Inr () else Inl SystemExit)"
proof -
  obtain ls where ls: "rmap text_mode (decode_strict (encode_utf8 (sums_text found))) = Inr (sums_text found)"
    "rfold list_sum (text_lines (sums_text found)) [] = Inr (map (\<lambda>f. (fst f, hexdigest (snd f))) ls)"
    "set ls = {f \<in> set found. fst f \<noteq> SUMS}"
    using sums_listed [OF assms(1,2)] assms(3) by (auto simp: filter_empty_conv)
  let ?es = "map (\<lambda>f. (fst f, hexdigest (snd f))) ls" and ?present = "set (map fst tree) - {SUMS}"
  have dom: "map_of d path \<noteq> None \<longleftrightarrow> path \<in> set (map fst d)" for d :: tree and path by (auto simp: map_of_eq_None_iff)
  have found: "f \<in> set found \<longleftrightarrow> map_of found (fst f) = Some (snd f)" for f using assms(1) by (cases f) simp
  have keys: "set (map fst ?es) = set (map fst found) - {SUMS}" using ls(3) by (auto simp: image_iff)
  have required: "list_all (\<lambda>rel. codes rel \<in> ?present) (REQUIRED @ [''MANIFEST.json'']) \<longleftrightarrow>
    (\<forall>rel \<in> set (REQUIRED @ [''MANIFEST.json'']). codes rel \<noteq> SUMS \<and> map_of tree (codes rel) \<noteq> None)"
    unfolding list_all_iff dom by blast
  have step: "check_sums tree = (if set (map fst ?es) \<noteq> ?present then Inl SystemExit
          else rbind (rfold (check_hash tree) ?es ()) (\<lambda>_. if list_all (\<lambda>rel. codes rel \<in> ?present) (REQUIRED @ [''MANIFEST.json'']) then Inr () else Inl SystemExit))"
    by (simp only: check_sums_def read_tree_def sums option.case ls(1,2) rbind_simps Let_def)
  show ?thesis
  proof (cases "set (map fst ?es) = ?present")
    case False
    then obtain path where "path \<noteq> SUMS" "map_of found path = None \<longleftrightarrow> map_of tree path \<noteq> None" unfolding keys using dom by blast
    then have "map_option hexdigest (map_of found path) \<noteq> map_option hexdigest (map_of tree path)" by auto
    then show ?thesis unfolding step using False \<open>path \<noteq> SUMS\<close> by auto
  next
    case True
    have all: "map_of tree (fst e) \<noteq> None" if "e \<in> set ?es" for e
      using that True unfolding dom by (metis (no_types, lifting) DiffD1 image_eqI set_map)
    have none: "map_of found path = None \<longleftrightarrow> map_of tree path = None" if "path \<noteq> SUMS" for path using True dom that unfolding keys by blast
    let ?H = "\<forall>path. path \<noteq> SUMS \<longrightarrow> map_option hexdigest (map_of found path) = map_option hexdigest (map_of tree path)"
      and ?R = "\<forall>rel \<in> set (REQUIRED @ [''MANIFEST.json'']). codes rel \<noteq> SUMS \<and> map_of tree (codes rel) \<noteq> None"
    have agree: "(\<forall>e \<in> set ?es. map_option hexdigest (map_of tree (fst e)) = Some (snd e)) \<longleftrightarrow> ?H"
      using assms(1) ls(3) none by (rule hashes_agree)
    have "rfold (check_hash tree) ?es () = (if ?H then Inr () else Inl SystemExit)"
      unfolding agree [symmetric] by (rule check_hashes) (erule all)
    then have "check_sums tree = rbind (if ?H then Inr () else Inl SystemExit) (\<lambda>_. if ?R then Inr () else Inl SystemExit)"
      unfolding step required using True by (simp only: simp_thms if_False)
    then show ?thesis by (simp only: rbind_checks)
  qed
qed

lemma codes_eq: "codes a = codes b \<longleftrightarrow> a = b"
proof -
  have "inj (of_char :: char \<Rightarrow> nat)" by (rule inj_of_char)
  then show ?thesis unfolding codes_def by (rule inj_map_eq_map)
qed

definition empty_files :: tree where
  "empty_files = map (\<lambda>rel. (codes rel, [])) (REQUIRED @ [''MANIFEST.json''])"

lemma empty_files_facts:
  "distinct (map fst empty_files)" "f \<in> set empty_files \<Longrightarrow> plain_path (fst f)" "f \<in> set empty_files \<Longrightarrow> fst f \<noteq> SUMS"
  "rel \<in> set (REQUIRED @ [''MANIFEST.json'']) \<Longrightarrow> map_of empty_files (codes rel) = Some []"
proof -
  have "distinct (map codes (REQUIRED @ [''MANIFEST.json'']))"
    unfolding distinct_map by (intro conjI inj_onI) (simp add: REQUIRED_def, simp add: codes_eq)
  then show d: "distinct (map fst empty_files)" by (simp add: empty_files_def comp_def)
  have "list_all (\<lambda>rel. plain_path (codes rel)) (REQUIRED @ [''MANIFEST.json''])"
    by (simp add: REQUIRED_def plain_path_def codes_def)
  then show "f \<in> set empty_files \<Longrightarrow> plain_path (fst f)" by (auto simp: empty_files_def list_all_iff)
  have "''SHA256SUMS'' \<notin> set (REQUIRED @ [''MANIFEST.json''])" by (simp add: REQUIRED_def)
  then show "f \<in> set empty_files \<Longrightarrow> fst f \<noteq> SUMS" by (auto simp: empty_files_def SUMS_def codes_eq)
  show "rel \<in> set (REQUIRED @ [''MANIFEST.json'']) \<Longrightarrow> map_of empty_files (codes rel) = Some []"
    using d by (intro map_of_is_SomeI) (auto simp: empty_files_def)
qed

theorem sums_exact_witness:
  "check_sums (empty_files @ [(SUMS, encode_utf8 (sums_text empty_files))]) = Inr () \<and>
   check_sums (tl empty_files @ [(SUMS, encode_utf8 (sums_text empty_files))]) = Inl SystemExit"
proof -
  have some: "\<exists>f \<in> set empty_files. fst f \<noteq> SUMS" using empty_files_facts(3) by (auto simp: empty_files_def)
  have "SUMS \<notin> fst ` set empty_files"
  proof
    assume "SUMS \<in> fst ` set empty_files"
    then obtain f where "f \<in> set empty_files" "fst f = SUMS" by (metis imageE)
    then show False using empty_files_facts(3) [of f] by simp
  qed
  moreover from this have "SUMS \<notin> fst ` set (tl empty_files)" using image_mono [OF set_mono_suffix [OF suffix_tl, of empty_files], of fst] by blast
  ultimately have no: "map_of empty_files SUMS = None" "map_of (tl empty_files) SUMS = None" by (simp_all only: map_of_eq_None_iff not_False_eq_True)
  have last: "map_of (d @ [(SUMS, x)]) path = (if path = SUMS then (case map_of d SUMS of None \<Rightarrow> Some x | r \<Rightarrow> r) else map_of d path)" for d :: tree and x path
    by (auto simp: map_add_def split: option.split)
  have required: "codes rel \<noteq> SUMS \<and> map_of empty_files (codes rel) \<noteq> None" if "rel \<in> set (REQUIRED @ [''MANIFEST.json''])" for rel
    using empty_files_facts(4) [OF that] no by auto
  let ?whole = "empty_files @ [(SUMS, encode_utf8 (sums_text empty_files))]" and ?less = "tl empty_files @ [(SUMS, encode_utf8 (sums_text empty_files))]"
  have sums: "map_of ?whole SUMS = Some (encode_utf8 (sums_text empty_files))" "map_of ?less SUMS = Some (encode_utf8 (sums_text empty_files))"
    by (simp_all only: last no option.case if_True simp_thms)
  have same: "map_of ?whole path = map_of empty_files path" "map_of ?less path = map_of (tl empty_files) path" if "path \<noteq> SUMS" for path
    using that by (simp_all only: last if_False)
  have "check_sums ?whole = Inr ()"
    by (subst sums_exact [OF empty_files_facts(1,2) some sums(1)], assumption, rule if_P) (use required same in auto)
  moreover have "map_of (tl empty_files) (codes ''README.md'') = None"
    using empty_files_facts(1) by (simp add: empty_files_def REQUIRED_def map_of_eq_None_iff image_image codes_eq)
  then have missing: "\<exists>rel \<in> set (REQUIRED @ [''MANIFEST.json'']). map_of ?less (codes rel) = None"
    using required [of "''README.md''"] same(2) [of "codes ''README.md''"] by (intro bexI [of _ "''README.md''"]) (simp_all add: REQUIRED_def)
  have "check_sums ?less = Inl SystemExit"
    by (subst sums_exact [OF empty_files_facts(1,2) some sums(2)], assumption, rule if_not_P) (use missing in blast)
  ultimately show ?thesis by blast
qed

end
