(* ===== verification/Dist_Tree.thy ===== *)
theory Dist_Tree
  imports Dist_Sums
begin

text \<open>
  The distribution's tree as \<^verbatim>\<open>src/scripts/make_dist.py\<close> assembles it and as \<^verbatim>\<open>src/scripts/check_dist.py\<close> checks it. Parameters are git,
  the repository's files, the tar format, JSON's texts and the programs that the check runs; file modes are left out.
\<close>

section \<open>Versions and pins\<close>

text \<open>
  The regular expressions of the two scripts: literal texts and runs of one class of characters, where what follows a run
  does not start with its class, so that a run is as long as possible. \<open>Open\<close> and \<open>Close\<close> mark the group.
\<close>

datatype pattern = Lit utext | Many "nat \<Rightarrow> bool" | Open | Close

fun match_at :: "pattern list \<Rightarrow> utext \<Rightarrow> utext \<Rightarrow> utext \<Rightarrow> utext option" where
  "match_at [] start grp t = Some grp"
| "match_at (Lit l # ps) start grp t = (if starts l t then match_at ps start grp (drop (length l) t) else None)"
| "match_at (Many P # ps) start grp t = (if takeWhile P t = [] then None else match_at ps start grp (dropWhile P t))"
| "match_at (Open # ps) start grp t = match_at ps t grp t"
| "match_at (Close # ps) start grp t = match_at ps start (take (length start - length t) start) t"

fun search :: "pattern list \<Rightarrow> utext \<Rightarrow> utext option" where
  "search ps [] = match_at ps [] [] []"
| "search ps (c # t) = (case match_at ps [] [] (c # t) of Some g \<Rightarrow> Some g | None \<Rightarrow> search ps t)"

definition version_char :: "nat \<Rightarrow> bool" where
  "version_char c \<longleftrightarrow> digit c \<or> c = 46"

definition PINS :: "(string \<times> pattern list) list" where
  "PINS =
     [(''zephyr'', [Lit (codes ''--mr ''), Open, Lit (codes ''v''), Many version_char, Close]),
      (''zephyr_sdk'', [Lit (codes ''zephyr-sdk-''), Open, Many version_char, Close, Lit (codes ''_linux'')]),
      (''rust'', [Lit (codes ''toolchain: \"''), Open, Many version_char, Close, Lit (codes ''\"'')]),
      (''hack_tools'', [Lit (codes ''hack_tools/releases/download/''), Open, Lit (codes ''v''), Many version_char, Close, Lit (codes ''/has-'')]),
      (''msp430_gcc'', [Lit (codes ''msp430-gcc-''), Open, Many version_char, Close, Lit (codes ''_linux64'')]),
      (''oss_cad_suite'', [Lit (codes ''setup-oss-cad-suite@v''), Many digit, Many white, Lit (codes ''with:''), Many white,
         Lit (codes ''version: '' @ [39]), Open, Many (\<lambda>c. digit c \<or> c = 45), Close, Lit [39]])]"

datatype json = JStr utext | JInt int | JBool bool | JReal utext | JObj "(utext \<times> json) list"

definition tool_pins :: "dist_os \<Rightarrow> utext \<Rightarrow> (utext \<times> json) list result" where
  "tool_pins os repo =
     rbind (read_strict os (join_all repo (map codes [''.github'', ''workflows'', ''ci.yml'']))) (\<lambda>ci.
       rmapM (\<lambda>(name, pattern). case search pattern ci of None \<Rightarrow> Inl SystemExit | Some v \<Rightarrow> Inr (codes name, JStr v)) PINS)"

definition stage_version :: "dist_os \<Rightarrow> utext \<Rightarrow> nat \<Rightarrow> int result" where
  "stage_version os repo n =
     rbind (read_strict os (join_all repo [codes ''firmware'', codes ''stage'' @ dec n, codes ''src'', codes ''main.rs''])) (\<lambda>text.
       case search [Lit (codes ''const STAGE'' @ dec n @ codes ''_VERSION: u32 = ''), Open, Many digit, Close, Lit (codes '';'')] text of
         None \<Rightarrow> Inl SystemExit
       | Some v \<Rightarrow> Inr (int (dec_value v)))"

section \<open>The tree\<close>

definition FILES :: "(string \<times> string) list" where
  "FILES =
     [(''README.md'', ''docs/dist-README.md''),
      (''docs/APP_DEVELOPMENT.md'', ''docs/APP_DEVELOPMENT.md''),
      (''LICENSE'', ''LICENSE''),
      (''bitstream/pack.fs'', ''build/synth/pack.fs''),
      (''sd/VUX9K/STAGE2.BIN'', ''build/firmware/stage2/STAGE2.BIN''),
      (''sd/VUX9K/APPS/HELLO.BIN'', ''build/firmware/apps/HELLO.BIN''),
      (''sd/VUX9K/APPS/ZEPHYR.BIN'', ''build/firmware/apps/ZEPHYR.BIN''),
      (''sd/VUX9K/APPS/IRQECHO.BIN'', ''build/firmware/apps/IRQECHO.BIN''),
      (''sd/VUX9K/APPS/BC.BIN'', ''build/firmware/apps/BC.BIN''),
      (''sd/VUX9K/APPS/MPY.BIN'', ''build/firmware/apps/MPY.BIN''),
      (''sd/VUX9K/APPS/HACK.BIN'', ''build/firmware/apps/HACK.BIN''),
      (''demos/zephyr-demo.bin'', ''build/zephyr-demo/zephyr/zephyr.bin''),
      (''demos/hack-demo.bin'', ''build/hack/firmware.bin''),
      (''tools/vux_tool.py'', ''tools/vux_tool.py''),
      (''tools/requirements.txt'', ''tools/requirements.txt''),
      (''tools/70-vux9k-board.rules'', ''tools/70-vux9k-board.rules''),
      (''hack/main.c'', ''hack_demo/src/main.c''),
      (''hack/uart.c'', ''hack_demo/src/uart.c''),
      (''hack/uart.h'', ''hack_demo/src/uart.h''),
      (''emu/vux9k-emu'', ''build/emu/target/release/vux9k-emu''),
      (''emu/vux9k_emu.abi3.so'', ''build/emu/python/vux9k_emu.abi3.so''),
      (''emu/firmware/firmware.hex'', ''build/firmware/firmware.hex'')]"

definition REPO_URL :: utext where "REPO_URL = codes ''https://github.com/takayuki-nagata/VUX9K''"

definition BSP_ARCHIVE :: utext where "BSP_ARCHIVE = codes ''zephyr/vux9k-zephyr-bsp.tar.gz''"

definition BSP_PREFIX :: utext where "BSP_PREFIX = codes ''vux9k-zephyr-bsp''"

definition GUIDE :: utext where "GUIDE = codes ''docs/APP_DEVELOPMENT.md''"

definition MANIFEST :: utext where "MANIFEST = codes ''MANIFEST.json''"

definition THIRD_PARTY :: utext where "THIRD_PARTY = codes ''THIRD_PARTY_LICENSES.txt''"

record dist_env =
  de_os :: dist_os
  de_repo :: utext
  de_git :: "string list \<Rightarrow> utext"
  de_commit_time :: int
  de_tracked :: "utext list"
  de_executable :: "utext \<Rightarrow> bool"
  de_tar_gz :: "(utext \<times> bool \<times> byte list) list \<Rightarrow> int \<Rightarrow> byte list"
  de_pnr :: "(utext \<times> json) list result"
  de_json :: "(utext \<times> json) list \<Rightarrow> utext"
  de_walk :: "tree \<Rightarrow> tree"

definition repo_file :: "dist_env \<Rightarrow> utext \<Rightarrow> byte list result" where
  "repo_file env path = (case ds_file (de_os env) (join_path (de_repo env) path) of None \<Rightarrow> Inl FileNotFoundError | Some bs \<Rightarrow> Inr bs)"

text \<open>\<open>de_tracked\<close> are the lines of \<open>git ls-files zephyr_workspace\<close>.\<close>

definition bsp_members :: "dist_env \<Rightarrow> (utext \<times> bool \<times> byte list) list result" where
  "bsp_members env =
     rmapM (\<lambda>name. rmap (\<lambda>bs. (BSP_PREFIX @ drop (length ''zephyr_workspace'') name, de_executable env (join_path (de_repo env) name), bs))
         (repo_file env name))
       (sort (de_tracked env))"

definition bsp_archive :: "dist_env \<Rightarrow> byte list result" where
  "bsp_archive env = rmap (\<lambda>members. de_tar_gz env members (de_commit_time env)) (bsp_members env)"

definition guide_text :: "utext \<Rightarrow> utext \<Rightarrow> utext" where
  "guide_text sha text = replace_sub (codes ''](../README.md'') (codes '']('' @ REPO_URL @ codes ''/blob/'' @ sha @ codes ''/README.md'') text"

definition dist_manifest :: "dist_env \<Rightarrow> (utext \<times> json) list result" where
  "dist_manifest env =
     rbind (de_pnr env) (\<lambda>pnr.
     rbind (rlookup pnr (codes ''seed'')) (\<lambda>seed.
     rbind (rlookup pnr (codes ''slack_ns'')) (\<lambda>slack.
     rbind (rlookup pnr (codes ''target_mhz'')) (\<lambda>mhz.
     rbind (rlookup pnr (codes ''closure'')) (\<lambda>closure.
     rbind (stage_version (de_os env) (de_repo env) 1) (\<lambda>s1.
     rbind (stage_version (de_os env) (de_repo env) 2) (\<lambda>s2.
     rmap (\<lambda>pins.
       [(codes ''git_sha'', JStr (de_git env [''rev-parse'', ''HEAD''])),
        (codes ''git_describe'', JStr (de_git env [''describe'', ''--tags'', ''--always'', ''--dirty''])),
        (codes ''dirty'', JBool (de_git env [''status'', ''--porcelain'', ''--untracked-files=no''] \<noteq> [])),
        (codes ''bitstream'', JObj [(codes ''file'', JStr (codes ''bitstream/pack.fs'')), (codes ''pnr_seed'', seed),
           (codes ''sta_slack_ns'', slack), (codes ''sta_target_mhz'', mhz), (codes ''sta_closure'', closure)]),
        (codes ''stage1_version'', JInt s1),
        (codes ''stage2_version'', JInt s2),
        (codes ''pins'', JObj pins)])
       (tool_pins (de_os env) (de_repo env)))))))))"

definition copy_files :: "dist_env \<Rightarrow> tree result" where
  "copy_files env = rmapM (\<lambda>(dst, src). rmap (Pair (codes dst)) (repo_file env (codes src))) FILES"

definition make_dist :: "dist_env \<Rightarrow> utext \<Rightarrow> utext \<Rightarrow> tree result" where
  "make_dist env micropython_dir bc_clone_py_dir =
     (if list_ex (\<lambda>(dst, src). isl (repo_file env (codes src))) FILES then Inl SystemExit
      else
        rbind (copy_files env) (\<lambda>tree.
        rbind (read_tree tree GUIDE) (\<lambda>text.
        let tree = dict_set GUIDE (encode_utf8 (guide_text (de_git env [''rev-parse'', ''HEAD'']) text)) tree in
        rbind (bsp_archive env) (\<lambda>bsp.
        let tree = dict_set BSP_ARCHIVE bsp tree in
        rbind (third_party_licenses (de_os env) (de_repo env) micropython_dir bc_clone_py_dir) (\<lambda>notices.
        let tree = dict_set THIRD_PARTY (encode_utf8 notices) tree in
        rmap (\<lambda>m.
          let tree = dict_set MANIFEST (encode_utf8 (de_json env m @ [10])) tree
          in dict_set SUMS (encode_utf8 (sums_text (de_walk env tree))) tree)
          (dist_manifest env))))))"

section \<open>The check\<close>

definition CARD_FILES :: "(string \<times> int \<times> int) list" where
  "CARD_FILES =
     [(''sd/VUX9K/APPS/HELLO.BIN'', 1, 0x80000000), (''sd/VUX9K/APPS/ZEPHYR.BIN'', 1, 0x80000000), (''sd/VUX9K/APPS/IRQECHO.BIN'', 1, 0x80000000),
      (''sd/VUX9K/APPS/BC.BIN'', 1, 0x80000000), (''sd/VUX9K/APPS/MPY.BIN'', 1, 0x80000000), (''sd/VUX9K/APPS/HACK.BIN'', 0, 0)]"

definition CLI_RUNS :: "string list list" where
  "CLI_RUNS =
     [[''emu/vux9k-emu'', ''--no-firmware'', ''--load'', ''demos/zephyr-demo.bin'', ''--mode'', ''riscv'', ''--until'', ''All Rust application tasks finished successfully!''],
      [''emu/vux9k-emu'', ''--no-firmware'', ''--load'', ''demos/hack-demo.bin'', ''--mode'', ''hack'', ''--until'', ''ALL HACK C FIRMWARE TESTS PASSED''],
      [''python3'', ''tools/vux_tool.py'', ''mkfat'', ''card.img'', ''--file'', ''VUX9K/STAGE2.BIN=sd/VUX9K/STAGE2.BIN'', ''--file'', ''VUX9K/APPS/HELLO.BIN=sd/VUX9K/APPS/HELLO.BIN''],
      [''emu/vux9k-emu'', ''--firmware'', ''emu/firmware'', ''--sd'', ''card.img'', ''--until'', ''s2> '']]"

definition PY_EXAMPLE :: string where
  "PY_EXAMPLE = concat (map (\<lambda>l. l @ [CHR 0x0A])
     ['''',
      ''import sys'',
      ''sys.path.insert(0, \"emu\")'',
      ''import vux9k_emu'',
      '''',
      ''soc = vux9k_emu.Soc(\"real\")'',
      ''with open(\"demos/zephyr-demo.bin\", \"rb\") as f:'',
      ''    soc.load_app(f.read(), \"riscv\", 0x8000_0000)'',
      ''end = soc.run_until_tx(b\"All Rust application tasks finished successfully!\", 40_000_000)'',
      ''assert end is not None, soc.uart_received()'',
      ''print(f\"demo finished after {soc.cycle} cycles ({soc.cycle / 18e6:.2f} s at 18 MHz)\")''])"

definition PY_CARD_EXAMPLE :: string where
  "PY_CARD_EXAMPLE = concat (map (\<lambda>l. l @ [CHR 0x0A])
     ['''',
      ''import sys'',
      ''sys.path[:0] = [\"emu\", \"tools\"]'',
      ''import vux9k_emu'',
      ''import vux_tool'',
      '''',
      ''files = {}'',
      ''for name in (\"STAGE2.BIN\", \"APPS/HELLO.BIN\"):'',
      ''    with open(f\"sd/VUX9K/{name}\", \"rb\") as f:'',
      ''        files[f\"VUX9K/{name}\"] = f.read()'',
      ''soc = vux9k_emu.Soc(\"real\")'',
      ''soc.load_readmemh(open(\"emu/firmware/firmware.hex\").read())'',
      ''soc.sd_insert(vux_tool.build_fat32_image(files))'',
      ''assert soc.run_until_tx(b\"s2> \", 40_000_000) is not None, soc.uart_received()'',
      ''soc.uart_send(b\"run VUX9K/APPS/HELLO.BIN'' @ [CHR 0x5C] @ ''r\")'',
      ''assert soc.run_until_tx(b\"for the first stage.'' @ [CHR 0x5C] @ ''n\", 20_000_000) is not None, soc.uart_received()'',
      ''print(soc.uart_received().decode().splitlines()[-2])''])"

text \<open>\<open>ck_json\<close> is \<open>json.load\<close> of a file with an object, \<open>ck_tar_names\<close> the names in a tar file; \<open>ck_run\<close> runs a command in the copy.\<close>

record 'fs check_env =
  ck_json :: "byte list \<Rightarrow> (utext \<times> json) list result"
  ck_tar_names :: "byte list \<Rightarrow> utext list result"
  ck_copy :: "tree \<Rightarrow> 'fs"
  ck_run :: "utext list \<Rightarrow> 'fs \<Rightarrow> int \<times> 'fs"
  ck_python :: utext

definition tree_file :: "tree \<Rightarrow> utext \<Rightarrow> byte list result" where
  "tree_file tree path = (case map_of tree path of None \<Rightarrow> Inl FileNotFoundError | Some bs \<Rightarrow> Inr bs)"

definition check_card :: "tree \<Rightarrow> (utext \<times> json) list \<Rightarrow> string \<times> int \<times> int \<Rightarrow> unit \<Rightarrow> unit result" where
  "check_card tree m e u =
     (case e of (rel, mode, load) \<Rightarrow>
        rbind (tree_file tree (codes rel)) (\<lambda>data.
          if length data < 32 then Inl StructError
          else if unpack_u 4 0 data \<noteq> 0x56555839 \<or> (unpack_u 4 8 data, unpack_u 4 16 data) \<noteq> (mode, load) \<or> unpack_u 4 12 data \<noteq> int (length data) - 64
          then Inl SystemExit
          else if ends (codes ''STAGE2.BIN'') (codes rel)
          then rbind (rlookup m (codes ''stage2_version'')) (\<lambda>v. if JInt (unpack_u 4 28 data) \<noteq> v then Inl SystemExit else Inr ())
          else Inr ()))"

definition check_manifest :: "'fs check_env \<Rightarrow> tree \<Rightarrow> (utext \<times> json) list result" where
  "check_manifest ck tree =
     rbind (tree_file tree MANIFEST) (\<lambda>bs.
     rbind (ck_json ck bs) (\<lambda>m.
       if list_ex (\<lambda>key. codes key \<notin> set (map fst m)) [''git_sha'', ''git_describe'', ''dirty'', ''bitstream'', ''stage1_version'', ''stage2_version'', ''pins'']
       then Inl SystemExit
       else
         rbind (rfold (check_card tree m) (CARD_FILES @ [(''sd/VUX9K/STAGE2.BIN'', 1, 0x80700000)]) ()) (\<lambda>_.
         rbind (tree_file tree BSP_ARCHIVE) (\<lambda>tar.
         rbind (ck_tar_names ck tar) (\<lambda>names.
           if list_ex (\<lambda>rel. codes (''vux9k-zephyr-bsp/'' @ rel) \<notin> set names)
                [''zephyr/module.yml'', ''LICENSE'', ''README.md'', ''boards/vux9k/vux9k/board.yml'', ''app/CMakeLists.txt'']
           then Inl SystemExit else Inr m)))))"

definition check_guide :: "tree \<Rightarrow> unit result" where
  "check_guide tree =
     rbind (read_tree tree GUIDE) (\<lambda>guide.
       if list_ex (\<lambda>example. \<not> occurs (strip (codes example)) guide) [PY_EXAMPLE, PY_CARD_EXAMPLE] then Inl SystemExit
       else if occurs (codes ''](../README.md'') guide then Inl SystemExit else Inr ())"

fun run_each :: "'fs check_env \<Rightarrow> utext list list \<Rightarrow> 'fs \<Rightarrow> unit result" where
  "run_each ck [] fs = Inr ()"
| "run_each ck (cmd # cmds) fs = (case ck_run ck cmd fs of (code, fs) \<Rightarrow> if code \<noteq> 0 then Inl SystemExit else run_each ck cmds fs)"

definition run_demos :: "'fs check_env \<Rightarrow> tree \<Rightarrow> unit result" where
  "run_demos ck tree =
     run_each ck (map (map codes) CLI_RUNS @ map (\<lambda>example. [ck_python ck, codes ''-I'', codes ''-c'', codes example]) [PY_EXAMPLE, PY_CARD_EXAMPLE])
       (ck_copy ck tree)"

definition check_dist :: "'fs check_env \<Rightarrow> tree \<Rightarrow> (utext \<times> json) list result" where
  "check_dist ck tree =
     rbind (check_sums tree) (\<lambda>_. rbind (check_manifest ck tree) (\<lambda>m. rbind (check_guide tree) (\<lambda>_. rmap (\<lambda>_. m) (run_demos ck tree))))"

section \<open>The links of the guide\<close>

lemma starts_Cons [simp]: "starts (a # p) (b # t) \<longleftrightarrow> a = b \<and> starts p t" "starts [] t" "\<not> starts (a # p) []"
  by (auto simp: starts_def)

lemma starts_prefix: "starts p t \<longleftrightarrow> (\<exists>r. t = p @ r)"
  by (auto simp: starts_def) (metis append_take_drop_id)

lemma occurs_step: "p \<noteq> [] \<Longrightarrow> occurs p (c # t) \<longleftrightarrow> starts p (c # t) \<or> occurs p t"
  by (auto simp: occurs_def)

lemma occurs_iff: "p \<noteq> [] \<Longrightarrow> occurs p t \<longleftrightarrow> (\<exists>a b. t = a @ p @ b)"
proof (induction t)
  case Nil
  then show ?case by (simp add: occurs_def)
next
  case (Cons c t)
  have "(\<exists>a b. c # t = a @ p @ b) \<longleftrightarrow> (\<exists>b. c # t = p @ b) \<or> (\<exists>a b. t = a @ p @ b)"
    by (metis append_Cons append_Nil append_eq_Cons_conv)
  then show ?case using Cons by (auto simp: occurs_step starts_prefix)
qed

lemma occurs_skip: "c \<notin> set ns \<Longrightarrow> occurs (c # cs) (ns @ t) \<longleftrightarrow> occurs (c # cs) t"
  by (induction ns) (auto simp: occurs_step)

lemma replaced_prefix:
  assumes "c \<notin> set cs" "starts cs (replace_sub (c # os) (c # ns) xs)"
  shows "starts cs xs"
  using assms
proof (induction xs arbitrary: cs)
  case (Cons x xs)
  then show ?case by (cases cs) (auto split: if_splits)
qed simp

text \<open>A text that begins with a mark which is not in its rest, replaced by another such text, is gone afterwards.\<close>

lemma replaced_gone:
  assumes "c \<notin> set cs" "c \<notin> set ns" and differ: "\<And>t. \<not> starts cs (ns @ t)"
  shows "\<not> occurs (c # cs) (replace_sub (c # cs) (c # ns) xs)"
proof (induction "c # cs" "c # ns" xs rule: replace_sub.induct)
  case 1
  then show ?case by (simp add: occurs_def)
next
  case (2 x xs)
  show ?case
  proof (cases "starts (c # cs) (x # xs)")
    case True
    let ?r = "replace_sub (c # cs) (c # ns) (drop (length (c # cs)) (x # xs))"
    have "\<not> occurs (c # cs) ?r" using 2(1) True by simp
    moreover have "replace_sub (c # cs) (c # ns) (x # xs) = c # ns @ ?r" using True by simp
    ultimately show ?thesis using differ assms(2) by (simp add: occurs_step occurs_skip)
  next
    case False
    then have "\<not> occurs (c # cs) (replace_sub (c # cs) (c # ns) xs)" using 2(2) by simp
    moreover have "replace_sub (c # cs) (c # ns) (x # xs) = x # replace_sub (c # cs) (c # ns) xs" using False by auto
    moreover have "\<not> starts (c # cs) (x # replace_sub (c # cs) (c # ns) xs)"
      using False replaced_prefix [OF assms(1), of cs ns xs] by auto
    ultimately show ?thesis by (simp only: occurs_step list.distinct not_False_eq_True simp_thms)
  qed
qed

text \<open>\<open>avoids p t\<close>: \<open>p\<close> starts nowhere in \<open>t\<close>, whatever follows \<open>t\<close>.\<close>

fun clashes :: "'a list \<Rightarrow> 'a list \<Rightarrow> bool" where
  "clashes (a # p) (b # t) \<longleftrightarrow> a \<noteq> b \<or> clashes p t"
| "clashes p t \<longleftrightarrow> False"

fun avoids :: "'a list \<Rightarrow> 'a list \<Rightarrow> bool" where
  "avoids p [] \<longleftrightarrow> True"
| "avoids p (c # t) \<longleftrightarrow> clashes p (c # t) \<and> avoids p t"

lemma clashes_starts: "clashes p t \<Longrightarrow> \<not> starts p (t @ r)"
  by (induction p t rule: clashes.induct) auto

lemma replace_avoids: "avoids old ex \<Longrightarrow> replace_sub old new (ex @ b) = ex @ replace_sub old new b"
proof (induction ex)
  case (Cons c ex)
  then show ?case using clashes_starts [of old "c # ex" b] by simp
qed simp

lemma replace_keeps:
  assumes "avoids old ex" "ex = e # es" "e \<notin> set old"
  shows "\<exists>a' b'. replace_sub old new (a @ ex @ b) = a' @ ex @ b'"
proof (induction a rule: length_induct)
  case (1 a)
  show ?case
  proof (cases a)
    case Nil
    then show ?thesis using replace_avoids [OF assms(1)] by (metis append_Nil)
  next
    case (Cons x a2)
    show ?thesis
    proof (cases "old \<noteq> [] \<and> starts old (a @ ex @ b)")
      case True
      then obtain r where r: "a @ ex @ b = old @ r" by (auto simp: starts_prefix)
      have le: "length old \<le> length a"
      proof (rule ccontr)
        assume "\<not> length old \<le> length a"
        then have "old ! length a = (a @ ex @ b) ! length a" by (simp add: r nth_append)
        also have "\<dots> = e" by (simp add: assms(2))
        finally show False using assms(3) \<open>\<not> length old \<le> length a\<close> by (metis linorder_not_le nth_mem)
      qed
      have "replace_sub old new (a @ ex @ b) = new @ replace_sub old new (drop (length old) a @ ex @ b)"
        using True Cons le drop_append [of "length old" a "ex @ b"] by simp
      moreover have "length (drop (length old) a) < length a" using True Cons by simp
      ultimately show ?thesis using 1 by (metis append.assoc)
    next
      case False
      then have "replace_sub old new (a @ ex @ b) = x # replace_sub old new (a2 @ ex @ b)" by (auto simp: Cons)
      then show ?thesis using 1 Cons by (metis append_Cons length_Cons lessI)
    qed
  qed
qed

lemma replace_chars: "set (replace_sub old new xs) \<subseteq> set new \<union> set xs"
proof (induction old new xs rule: replace_sub.induct)
  case (2 old new x xs)
  have "set (drop (length old) (x # xs)) \<subseteq> set (x # xs)" by (rule set_drop_subset)
  then show ?case using 2 by auto
qed simp

fun no_pair :: "'a \<Rightarrow> 'a \<Rightarrow> 'a list \<Rightarrow> bool" where
  "no_pair c d [] \<longleftrightarrow> True"
| "no_pair c d [x] \<longleftrightarrow> x \<noteq> c"
| "no_pair c d (x # y # t) \<longleftrightarrow> \<not> (x = c \<and> y = d) \<and> no_pair c d (y # t)"

lemma no_pair_avoids: "no_pair c d t \<Longrightarrow> avoids (c # d # p) t"
  by (induction c d t rule: no_pair.induct) auto

lemma no_pair_codes: "no_pair (of_char c) (of_char d) (codes t) \<longleftrightarrow> no_pair c d t"
  by (induction c d t rule: no_pair.induct) (simp_all add: codes_def)

text \<open>What the script knows of an example: a line end, the lines, a line end.\<close>

definition example_ok :: "string \<Rightarrow> bool" where
  "example_ok t \<longleftrightarrow> (let m = butlast (tl t) in t \<noteq> [] \<and> hd t = CHR 0x0A \<and> last t = CHR 0x0A \<and> m \<noteq> [] \<and> hd m = CHR ''i'' \<and> last m = CHR '')'' \<and>
     no_pair CHR '']'' CHR ''('' m)"

lemma example_ok_demo: "example_ok PY_EXAMPLE"
  by code_simp

lemma example_ok_card: "example_ok PY_CARD_EXAMPLE"
  by code_simp

lemma strip_around: "u \<noteq> [] \<Longrightarrow> \<not> white (hd u) \<Longrightarrow> \<not> white (last u) \<Longrightarrow> strip (10 # u @ [10]) = u"
proof -
  assume u: "u \<noteq> []" "\<not> white (hd u)" "\<not> white (last u)"
  have w: "white 10" by (simp add: white_def)
  have d: "xs \<noteq> [] \<Longrightarrow> \<not> white (hd xs) \<Longrightarrow> dropWhile white (xs @ ys) = xs @ ys" for xs ys by (cases xs) auto
  have "dropWhile white (rev u) = rev u" using d [of "rev u" "[]"] u by (simp add: hd_rev)
  then show ?thesis using d [of u "[10]"] u w by (simp add: strip_def)
qed

lemma strip_example:
  assumes "example_ok t"
  shows "t = CHR 0x0A # butlast (tl t) @ [CHR 0x0A]" "strip (codes t) = codes (butlast (tl t))" "butlast (tl t) \<noteq> []" "hd (butlast (tl t)) = CHR ''i''"
    "avoids (codes ''](../README.md'') (codes (butlast (tl t)))"
proof -
  define m where "m = butlast (tl t)"
  have m: "t \<noteq> []" "hd t = CHR 0x0A" "last t = CHR 0x0A" "m \<noteq> []" "hd m = CHR ''i''" "last m = CHR '')''" "no_pair CHR '']'' CHR ''('' m"
    using assms by (simp_all add: example_ok_def m_def Let_def)
  then have "tl t \<noteq> []" by (auto simp: m_def)
  then have "t = hd t # butlast (tl t) @ [last (tl t)]" using m(1) by simp
  then have t: "t = CHR 0x0A # m @ [CHR 0x0A]" using m(2,3) \<open>tl t \<noteq> []\<close> by (simp add: m_def last_tl)
  then show "t = CHR 0x0A # butlast (tl t) @ [CHR 0x0A]" unfolding m_def .
  have "\<not> white (hd (codes m))" "\<not> white (last (codes m))" using m(4-6) by (simp_all add: codes_def hd_map last_map white_def)
  then show "strip (codes t) = codes (butlast (tl t))" using strip_around [of "codes m"] m(4) by (simp add: t codes_def)
  show "butlast (tl t) \<noteq> []" "hd (butlast (tl t)) = CHR ''i''" using m(4,5) by (simp_all add: m_def)
  have "no_pair (of_char CHR '']'') (of_char CHR ''('') (codes m)" using m(7) by (simp only: no_pair_codes)
  then show "avoids (codes ''](../README.md'') (codes (butlast (tl t)))"
    using no_pair_avoids [of "of_char CHR '']''" "of_char CHR ''(''" "codes m" "codes ''../README.md''"] by (simp add: codes_def m_def)
qed

lemma example_stays:
  assumes "example_ok t" "occurs (strip (codes t)) text"
  shows "occurs (strip (codes t)) (guide_text sha text)"
proof -
  define m where "m = butlast (tl t)"
  note t = strip_example(2-) [OF assms(1), folded m_def]
  obtain r where r: "codes m = 105 # codes r" using t(2,3) by (cases m) (simp_all add: codes_def)
  have "105 \<notin> set (codes ''](../README.md'')" by (simp add: codes_def)
  moreover obtain a b where "text = a @ codes m @ b" using assms(2) t(1) r by (auto simp: occurs_iff)
  ultimately have "\<exists>a' b'. guide_text sha text = a' @ codes m @ b'"
    unfolding guide_text_def using replace_keeps [OF t(4) r] by blast
  then show ?thesis using t(1) r by (simp add: occurs_iff)
qed

lemma guide_links_gone:
  assumes "93 \<notin> set sha"
  shows "\<not> occurs (codes ''](../README.md'') (guide_text sha text)"
proof -
  define cs where "cs = codes ''(../README.md''"
  define ns where "ns = codes ''('' @ REPO_URL @ codes ''/blob/'' @ sha @ codes ''/README.md''"
  have e: "codes ''](../README.md'' = 93 # cs" "codes '']('' @ REPO_URL @ codes ''/blob/'' @ sha @ codes ''/README.md'' = 93 # ns"
    by (simp_all add: cs_def ns_def codes_def)
  have "93 \<notin> set cs" "93 \<notin> set ns" "\<not> starts cs (ns @ t)" for t
    using assms by (simp_all add: cs_def ns_def codes_def REPO_URL_def)
  then show ?thesis using replaced_gone [of 93 cs ns "text"] by (simp add: guide_text_def e)
qed

section \<open>What the script makes passes the check\<close>

lemma read_written:
  "list_all scalar t \<Longrightarrow> 13 \<notin> set t \<Longrightarrow> map_of tree path = Some (encode_utf8 t) \<Longrightarrow> read_tree tree path = Inr t"
  by (simp add: read_tree_def decode_encode text_mode_id)

lemma read_tree_chars:
  assumes "read_tree tree path = Inr t"
  shows "13 \<notin> set t \<and> list_all scalar t"
proof -
  obtain bs u where "decode_strict bs = Inr u" "t = text_mode u"
    using assms by (auto simp: read_tree_def split: option.splits)
  then show ?thesis using decode_scalars [of bs u] text_mode_chars [of u] by (auto simp: list_all_iff scalar_def)
qed

definition hex_sha :: "utext \<Rightarrow> bool" where
  "hex_sha t \<longleftrightarrow> list_all (\<lambda>c. digit c \<or> 97 \<le> c \<and> c \<le> 102) t"

lemma guide_text_chars:
  assumes "13 \<notin> set t" "list_all scalar t" "hex_sha sha"
  shows "13 \<notin> set (guide_text sha t) \<and> list_all scalar (guide_text sha t)"
proof -
  define new where "new = codes '']('' @ REPO_URL @ codes ''/blob/'' @ sha @ codes ''/README.md''"
  have "list_all (\<lambda>c. scalar c \<and> c \<noteq> 13) new"
    using assms(3) by (auto simp: new_def codes_def REPO_URL_def scalar_def hex_sha_def list_all_iff digit_def)
  moreover have "set (guide_text sha t) \<subseteq> set new \<union> set t" unfolding guide_text_def new_def by (rule replace_chars)
  ultimately show ?thesis using assms(1,2) by (auto simp: list_all_iff)
qed

text \<open>A file that \<open>vux_tool.py\<close> has made, with the fields of its header that the check reads.\<close>

definition v4_made :: "byte list \<Rightarrow> int \<Rightarrow> int \<Rightarrow> int \<Rightarrow> bool" where
  "v4_made data mode load version \<longleftrightarrow>
     (\<exists>fs src name m la entry h. build_vux9_v4_image fs src name m version la entry None None = Inr (data, h) \<and>
        hd_mode h = mode \<and> hd_load_addr h = load)"

lemma v4_fields:
  assumes "v4_made data mode load version"
  shows "64 \<le> length data \<and> unpack_u 4 0 data = VUX_MAGIC \<and> unpack_u 4 8 data = mode \<and> unpack_u 4 16 data = load \<and>
    unpack_u 4 12 data = int (length data) - 64 \<and> unpack_u 4 28 data = version"
proof -
  obtain fs src name m la entry h where b: "build_vux9_v4_image fs src name m version la entry None None = Inr (data, h)"
    "hd_mode h = mode" "hd_load_addr h = load"
    using assms unfolding v4_made_def by blast
  obtain p d where p: "read_payload fs src = Inr (p, d)"
    using b(1) by (cases "read_payload fs src") (auto simp: build_vux9_v4_image_def)
  have h: "header_ok h" "data = header_bytes h @ stored_payload m p" "h = v4_header p (or_else name d) m version la entry"
    using b(1) unfolding build_eq [OF p] by (auto simp: Let_def split: if_splits)
  have "hd_size h = int (length (stored_payload m p))" "hd_version h = version" unfolding h(3) by (simp_all add: v4_header_def Let_def)
  moreover have "header_parse data = Some (h\<lparr>hd_name := padded_name (hd_name h)\<rparr>)" unfolding h(2) by (rule parse_header_bytes) (rule h(1))
  ultimately show ?thesis using b(2,3) h(2) by (cases h) (auto simp: header_parse_def HEADER_LEN_def split: if_splits)
qed

lemma check_card_ok:
  assumes "map_of tree (codes rel) = Some data" "v4_made data mode load version"
    "ends (codes ''STAGE2.BIN'') (codes rel) \<Longrightarrow> map_of m (codes ''stage2_version'') = Some (JInt version)"
  shows "check_card tree m (rel, mode, load) u = Inr ()"
  using v4_fields [OF assms(2)] assms by (simp add: check_card_def tree_file_def rlookup_def VUX_MAGIC_def)

definition tree_keys :: "string list" where
  "tree_keys = map fst FILES @ [''zephyr/vux9k-zephyr-bsp.tar.gz'', ''THIRD_PARTY_LICENSES.txt'', ''MANIFEST.json'']"

lemma tree_keys_facts:
  "distinct tree_keys" "list_all (\<lambda>k. plain_path (codes k)) tree_keys" "''SHA256SUMS'' \<notin> set tree_keys"
  "list_all (\<lambda>rel. rel \<in> set tree_keys) (REQUIRED @ [''MANIFEST.json''])"
  by (simp_all add: tree_keys_def FILES_def plain_path_def codes_def REQUIRED_def)

lemma rmapM_keys: "rmapM f xs = Inr ys \<Longrightarrow> (\<And>x y. f x = Inr y \<Longrightarrow> g y = h x) \<Longrightarrow> map g ys = map h xs"
  by (induction xs arbitrary: ys) auto

lemma copied_keys: "copy_files env = Inr t \<Longrightarrow> map fst t = map (\<lambda>f. codes (fst f)) FILES"
  unfolding copy_files_def by (erule rmapM_keys) auto

lemma copied_file:
  assumes "copy_files env = Inr t" "(dst, src) \<in> set FILES" "repo_file env (codes src) = Inr bs"
  shows "map_of t (codes dst) = Some bs"
proof -
  have d: "distinct (map fst t)"
    using tree_keys_facts(1) unfolding copied_keys [OF assms(1)] by (auto simp: tree_keys_def distinct_map inj_on_def codes_eq)
  obtain i where i: "i < length FILES" "FILES ! i = (dst, src)" using assms(2) by (auto simp: in_set_conv_nth)
  have "rmap (Pair (codes dst)) (repo_file env (codes src)) = Inr (t ! i)" "i < length t"
    using rmapM_nth [OF assms(1) [unfolded copy_files_def], of i] rmapM_length [OF assms(1) [unfolded copy_files_def]] i by simp_all
  then have "(codes dst, bs) \<in> set t" using assms(3) nth_mem [of i t] by simp
  then show ?thesis using d by (rule map_of_is_SomeI [rotated])
qed

lemma sums_pass:
  assumes keys: "distinct (map fst t)" "set (map fst t) = codes ` set tree_keys" and walk: "mset found = mset t"
  shows "check_sums (dict_set SUMS (encode_utf8 (sums_text found)) t) = Inr ()"
proof -
  have same: "mset (map fst found) = mset (map fst t)" using walk by (simp only: mset_map)
  have d: "distinct (map fst found)" using mset_eq_imp_distinct_iff [OF same] keys(1) by (simp only: simp_thms)
  have k: "set (map fst found) = codes ` set tree_keys" using mset_eq_setD [OF same] keys(2) by (simp only: simp_thms)
  have m: "map_of found = map_of t" using d keys(1) mset_eq_setD [OF walk] by (simp add: map_of_inject_set)
  have plain: "plain_path (fst f)" if "f \<in> set found" for f
  proof -
    have "fst f \<in> codes ` set tree_keys" using that k by (metis image_eqI set_map)
    then show ?thesis using tree_keys_facts(2) by (auto simp: list_all_iff)
  qed
  have "codes ''README.md'' \<in> set (map fst found)" unfolding k by (simp add: tree_keys_def FILES_def)
  then obtain f where f: "codes ''README.md'' = fst f" "f \<in> set found" unfolding set_map by (rule imageE)
  then have some: "\<exists>f \<in> set found. fst f \<noteq> SUMS" by (intro bexI [of _ f]) (simp_all add: SUMS_def codes_eq flip: f(1))
  have required: "codes rel \<noteq> SUMS \<and> map_of t (codes rel) \<noteq> None" if "rel \<in> set (REQUIRED @ [''MANIFEST.json''])" for rel
  proof -
    have "rel \<in> set tree_keys" using that tree_keys_facts(4) unfolding list_all_iff by blast
    then show ?thesis using tree_keys_facts(3) keys(2) by (auto simp: SUMS_def codes_eq map_of_eq_None_iff)
  qed
  have "map_of (dict_set SUMS (encode_utf8 (sums_text found)) t) SUMS = Some (encode_utf8 (sums_text found))" by simp
  from sums_exact [OF d plain some this] show ?thesis using required m by (auto intro!: if_P)
qed

lemma made_parts:
  assumes "make_dist env mpy_dir bc_dir = Inr tree"
  obtains t0 guide bsp notices m t where
    "copy_files env = Inr t0" "read_tree t0 GUIDE = Inr guide" "bsp_archive env = Inr bsp" "dist_manifest env = Inr m"
    "t = dict_set MANIFEST (encode_utf8 (de_json env m @ [10])) (dict_set THIRD_PARTY (encode_utf8 notices) (dict_set BSP_ARCHIVE bsp
       (dict_set GUIDE (encode_utf8 (guide_text (de_git env [''rev-parse'', ''HEAD'']) guide)) t0)))"
    "tree = dict_set SUMS (encode_utf8 (sums_text (de_walk env t))) t"
  using assms by (auto simp: make_dist_def Let_def split: if_splits)

lemma made_keys:
  assumes "copy_files env = Inr t0"
    "t = dict_set MANIFEST m (dict_set THIRD_PARTY n (dict_set BSP_ARCHIVE b (dict_set GUIDE g t0)))"
  shows "distinct (map fst t)" "set (map fst t) = codes ` set tree_keys"
proof -
  have k: "set (map fst t0) = (\<lambda>f. codes (fst f)) ` set FILES" using copied_keys [OF assms(1)] by (metis set_map)
  have "distinct (map fst t0)"
    using tree_keys_facts(1) unfolding copied_keys [OF assms(1)] by (auto simp: tree_keys_def distinct_map inj_on_def codes_eq)
  then show "distinct (map fst t)" unfolding assms(2) by (intro dict_set_distinct)
  have "GUIDE \<in> set (map fst t0)" unfolding k by (auto simp: GUIDE_def FILES_def)
  then show "set (map fst t) = codes ` set tree_keys"
    unfolding assms(2) dict_set_keys k tree_keys_def by (auto simp: BSP_ARCHIVE_def THIRD_PARTY_def MANIFEST_def image_image simp flip: k)
qed

lemmas path_consts = SUMS_def MANIFEST_def THIRD_PARTY_def BSP_ARCHIVE_def GUIDE_def

lemma made_lookup:
  assumes "copy_files env = Inr t0" "(dst, src) \<in> set FILES" "repo_file env (codes src) = Inr bs" "codes dst \<noteq> GUIDE"
    "tree = dict_set SUMS s (dict_set MANIFEST m (dict_set THIRD_PARTY n (dict_set BSP_ARCHIVE b (dict_set GUIDE g t0))))"
  shows "map_of tree (codes dst) = Some bs"
proof -
  have "list_all (\<lambda>f. fst f \<notin> set [''SHA256SUMS'', ''MANIFEST.json'', ''THIRD_PARTY_LICENSES.txt'', ''zephyr/vux9k-zephyr-bsp.tar.gz'']) FILES"
    by (simp add: FILES_def)
  then have "dst \<notin> set [''SHA256SUMS'', ''MANIFEST.json'', ''THIRD_PARTY_LICENSES.txt'', ''zephyr/vux9k-zephyr-bsp.tar.gz'']"
    using assms(2) by (auto simp: list_all_iff)
  then show ?thesis using copied_file [OF assms(1-3)] assms(4,5) by (simp add: path_consts codes_eq)
qed

lemma bsp_names:
  assumes "bsp_members env = Inr es" and tracked: "codes (''zephyr_workspace'' @ rel) \<in> set (de_tracked env)"
  shows "codes (''vux9k-zephyr-bsp'' @ rel) \<in> set (map fst es)"
proof -
  have n: "map fst es = map (\<lambda>name. BSP_PREFIX @ drop (length ''zephyr_workspace'') name) (sort (de_tracked env))"
    using assms(1) unfolding bsp_members_def by (rule rmapM_keys) auto
  have e: "codes (''vux9k-zephyr-bsp'' @ rel) = BSP_PREFIX @ drop (length ''zephyr_workspace'') (codes (''zephyr_workspace'' @ rel))"
    by (simp add: BSP_PREFIX_def codes_def)
  show ?thesis unfolding n e set_map set_sort using tracked by (rule imageI)
qed

lemma rfold_unit: "(\<And>x u. x \<in> set xs \<Longrightarrow> f x u = Inr ()) \<Longrightarrow> rfold f xs () = Inr ()"
  by (induction xs) simp_all

lemma manifest_keys:
  assumes "dist_manifest env = Inr m"
  shows "list_all (\<lambda>key. codes key \<in> set (map fst m)) [''git_sha'', ''git_describe'', ''dirty'', ''bitstream'', ''stage1_version'', ''stage2_version'', ''pins''] \<and>
    (\<exists>v. stage_version (de_os env) (de_repo env) 2 = Inr v \<and> map_of m (codes ''stage2_version'') = Some (JInt v))"
  using assms by (auto simp: dist_manifest_def codes_eq)

text \<open>The files of the BSP that the check looks for.\<close>

definition bsp_tracked :: "dist_env \<Rightarrow> bool" where
  "bsp_tracked env \<longleftrightarrow> list_all (\<lambda>rel. codes (''zephyr_workspace'' @ rel) \<in> set (de_tracked env))
     [''/zephyr/module.yml'', ''/LICENSE'', ''/README.md'', ''/boards/vux9k/vux9k/board.yml'', ''/app/CMakeLists.txt'']"

text \<open>What the build and the repository have to provide: the guide with its examples, the card's files as the tool makes them, the BSP's files.\<close>

definition dist_inputs :: "dist_env \<Rightarrow> bool" where
  "dist_inputs env \<longleftrightarrow>
     hex_sha (de_git env [''rev-parse'', ''HEAD'']) \<and>
     (\<forall>t. mset (de_walk env t) = mset t) \<and>
     (\<forall>text. read_strict (de_os env) (join_path (de_repo env) (codes ''docs/APP_DEVELOPMENT.md'')) = Inr text \<longrightarrow>
        occurs (strip (codes PY_EXAMPLE)) text \<and> occurs (strip (codes PY_CARD_EXAMPLE)) text) \<and>
     (\<forall>(rel, mode, load) \<in> set CARD_FILES. \<exists>src data version. (rel, src) \<in> set FILES \<and> repo_file env (codes src) = Inr data \<and> v4_made data mode load version) \<and>
     (\<exists>data version. repo_file env (codes ''build/firmware/stage2/STAGE2.BIN'') = Inr data \<and>
        stage_version (de_os env) (de_repo env) 2 = Inr version \<and> v4_made data 1 0x80700000 version) \<and>
     bsp_tracked env"

text \<open>The tree of \<open>make_dist\<close>, from its parts.\<close>

definition whole_tree :: "byte list \<Rightarrow> byte list \<Rightarrow> byte list \<Rightarrow> byte list \<Rightarrow> byte list \<Rightarrow> tree \<Rightarrow> tree" where
  "whole_tree sums manifest notices bsp guide t0 =
     dict_set SUMS sums (dict_set MANIFEST manifest (dict_set THIRD_PARTY notices (dict_set BSP_ARCHIVE bsp (dict_set GUIDE guide t0))))"

lemma made_cards:
  assumes parts: "copy_files env = Inr t0" "tree = whole_tree sums manifest notices bsp guide t0"
    and inputs: "dist_inputs env"
    and v: "stage_version (de_os env) (de_repo env) 2 = Inr v" "map_of m (codes ''stage2_version'') = Some (JInt v)"
  shows "rfold (check_card tree m) (CARD_FILES @ [(''sd/VUX9K/STAGE2.BIN'', 1, 0x80700000)]) () = Inr ()"
proof (rule rfold_unit)
  note lookup = made_lookup [OF parts(1) _ _ _ parts(2) [unfolded whole_tree_def]]
  fix e u
  assume "e \<in> set (CARD_FILES @ [(''sd/VUX9K/STAGE2.BIN'', 1, 0x80700000)])"
  then consider "e \<in> set CARD_FILES" | "e = (''sd/VUX9K/STAGE2.BIN'', 1, 0x80700000)" by auto
  then show "check_card tree m e u = Inr ()"
  proof cases
    case 1
    obtain rel mode load where e: "e = (rel, mode, load)" by (metis prod_cases3)
    have apps: "list_all (\<lambda>e. codes (fst e) \<noteq> GUIDE \<and> \<not> ends (codes ''STAGE2.BIN'') (codes (fst e))) CARD_FILES"
      by (simp add: CARD_FILES_def path_consts codes_eq) (simp add: ends_def codes_def)
    obtain src data version where "(rel, src) \<in> set FILES" "repo_file env (codes src) = Inr data" "v4_made data mode load version"
      using inputs 1 unfolding dist_inputs_def e by blast
    then show ?thesis using lookup apps 1 unfolding e by (intro check_card_ok) (auto simp: list_all_iff)
  next
    case 2
    obtain data where d: "repo_file env (codes ''build/firmware/stage2/STAGE2.BIN'') = Inr data" "v4_made data 1 0x80700000 v"
      using inputs v(1) unfolding dist_inputs_def by auto
    have "map_of tree (codes ''sd/VUX9K/STAGE2.BIN'') = Some data"
      by (rule lookup [OF _ d(1)]) (simp_all add: FILES_def path_consts codes_eq)
    then show ?thesis unfolding 2 using d(2) v(2) by (rule check_card_ok)
  qed
qed

lemma made_bsp:
  assumes "bsp_archive env = Inr bsp" "dist_inputs env"
    and tar: "\<And>es. bsp_members env = Inr es \<Longrightarrow> ck_tar_names ck (de_tar_gz env es (de_commit_time env)) = Inr (map fst es)"
  shows "\<exists>names. ck_tar_names ck bsp = Inr names \<and>
    list_all (\<lambda>rel. codes (''vux9k-zephyr-bsp/'' @ rel) \<in> set names) [''zephyr/module.yml'', ''LICENSE'', ''README.md'', ''boards/vux9k/vux9k/board.yml'', ''app/CMakeLists.txt'']"
proof -
  obtain es where es: "bsp_members env = Inr es" "bsp = de_tar_gz env es (de_commit_time env)" using assms(1) by (auto simp: bsp_archive_def)
  have "bsp_tracked env" using assms(2) by (simp only: dist_inputs_def)
  then have "list_all (\<lambda>rel. codes (''vux9k-zephyr-bsp'' @ rel) \<in> set (map fst es))
     [''/zephyr/module.yml'', ''/LICENSE'', ''/README.md'', ''/boards/vux9k/vux9k/board.yml'', ''/app/CMakeLists.txt'']"
    unfolding bsp_tracked_def by (rule list.pred_mono_strong) (erule bsp_names [OF es(1)])
  then show ?thesis using tar [OF es(1)] es(2) by simp
qed

lemma made_manifest:
  assumes parts: "copy_files env = Inr t0" "bsp_archive env = Inr bsp" "dist_manifest env = Inr m"
    "tree = whole_tree sums (encode_utf8 (de_json env m @ [10])) notices bsp guide t0"
    and inputs: "dist_inputs env"
    and json: "ck_json ck (encode_utf8 (de_json env m @ [10])) = Inr m"
    and tar: "\<And>es. bsp_members env = Inr es \<Longrightarrow> ck_tar_names ck (de_tar_gz env es (de_commit_time env)) = Inr (map fst es)"
  shows "check_manifest ck tree = Inr m"
proof -
  obtain v where keys: "list_all (\<lambda>key. codes key \<in> set (map fst m)) [''git_sha'', ''git_describe'', ''dirty'', ''bitstream'', ''stage1_version'', ''stage2_version'', ''pins'']"
    and v: "stage_version (de_os env) (de_repo env) 2 = Inr v" "map_of m (codes ''stage2_version'') = Some (JInt v)"
    using manifest_keys [OF parts(3)] by blast
  have files: "tree_file tree MANIFEST = Inr (encode_utf8 (de_json env m @ [10]))" "tree_file tree BSP_ARCHIVE = Inr bsp"
    unfolding parts(4) whole_tree_def by (simp_all add: tree_file_def path_consts codes_eq)
  show ?thesis
    unfolding check_manifest_def files using json keys made_cards [OF parts(1,4) inputs v] made_bsp [where ck = ck, OF parts(2) inputs] tar
    by (auto simp: list_ex_iff list_all_iff)
qed

lemma made_guide:
  assumes parts: "copy_files env = Inr t0" "read_tree t0 GUIDE = Inr guide"
    "tree = whole_tree sums manifest notices bsp (encode_utf8 (guide_text (de_git env [''rev-parse'', ''HEAD'']) guide)) t0"
    and inputs: "dist_inputs env"
  shows "check_guide tree = Inr ()"
proof -
  let ?sha = "de_git env [''rev-parse'', ''HEAD'']"
  have sha: "hex_sha ?sha" using inputs by (simp only: dist_inputs_def)
  then have no93: "93 \<notin> set ?sha" by (auto simp: hex_sha_def list_all_iff digit_def)
  have "map_of tree GUIDE = Some (encode_utf8 (guide_text ?sha guide))"
    unfolding parts(3) whole_tree_def by (simp add: path_consts codes_eq)
  moreover have "13 \<notin> set (guide_text ?sha guide)" "list_all scalar (guide_text ?sha guide)"
    using guide_text_chars [OF _ _ sha] read_tree_chars [OF parts(2)] by blast+
  ultimately have r: "read_tree tree GUIDE = Inr (guide_text ?sha guide)" by (intro read_written)
  obtain bs where bs: "repo_file env GUIDE = Inr bs" "map_of t0 GUIDE = Some bs"
  proof -
    obtain i where "i < length FILES" "FILES ! i = (''docs/APP_DEVELOPMENT.md'', ''docs/APP_DEVELOPMENT.md'')"
      by (metis (no_types, lifting) FILES_def in_set_conv_nth list.set_intros)
    then obtain bs where "repo_file env GUIDE = Inr bs"
      using rmapM_nth [OF parts(1) [unfolded copy_files_def], of i] by (auto simp: GUIDE_def)
    moreover from this have "map_of t0 GUIDE = Some bs" unfolding GUIDE_def by (intro copied_file [OF parts(1)]) (simp add: FILES_def)
    ultimately show thesis by (rule that)
  qed
  have "read_strict (de_os env) (join_path (de_repo env) GUIDE) = Inr guide"
    using parts(2) bs by (auto simp: read_tree_def read_strict_def repo_file_def split: option.splits)
  then have "occurs (strip (codes PY_EXAMPLE)) guide" "occurs (strip (codes PY_CARD_EXAMPLE)) guide"
    using inputs unfolding dist_inputs_def GUIDE_def by blast+
  then have "occurs (strip (codes PY_EXAMPLE)) (guide_text ?sha guide)" "occurs (strip (codes PY_CARD_EXAMPLE)) (guide_text ?sha guide)"
    by (simp_all add: example_stays example_ok_demo example_ok_card)
  then show ?thesis using guide_links_gone [OF no93] by (simp add: check_guide_def r)
qed

text \<open>
  C37: Whatever the script makes of inputs as the build provides them passes the check: the checksums, the manifest with the
  card's files and the archive, and the guide. What is left are the runs of the demos.
\<close>

theorem dist_checks:
  assumes made: "make_dist env mpy_dir bc_dir = Inr tree"
    and inputs: "dist_inputs env"
    and json: "\<And>m. dist_manifest env = Inr m \<Longrightarrow> ck_json ck (encode_utf8 (de_json env m @ [10])) = Inr m"
    and tar: "\<And>es. bsp_members env = Inr es \<Longrightarrow> ck_tar_names ck (de_tar_gz env es (de_commit_time env)) = Inr (map fst es)"
  shows "\<exists>m. dist_manifest env = Inr m \<and> check_dist ck tree = rmap (\<lambda>_. m) (run_demos ck tree)"
  using made
proof (rule made_parts)
  fix t0 guide bsp notices m t
  assume parts: "copy_files env = Inr t0" "read_tree t0 GUIDE = Inr guide" "bsp_archive env = Inr bsp" "dist_manifest env = Inr m"
    and t: "t = dict_set MANIFEST (encode_utf8 (de_json env m @ [10])) (dict_set THIRD_PARTY (encode_utf8 notices) (dict_set BSP_ARCHIVE bsp
       (dict_set GUIDE (encode_utf8 (guide_text (de_git env [''rev-parse'', ''HEAD'']) guide)) t0)))"
    and tree: "tree = dict_set SUMS (encode_utf8 (sums_text (de_walk env t))) t"
  have whole: "tree = whole_tree (encode_utf8 (sums_text (de_walk env t))) (encode_utf8 (de_json env m @ [10])) (encode_utf8 notices) bsp
      (encode_utf8 (guide_text (de_git env [''rev-parse'', ''HEAD'']) guide)) t0"
    unfolding tree whole_tree_def by (simp only: t)
  have "mset (de_walk env t) = mset t" using inputs unfolding dist_inputs_def by blast
  then have "check_sums tree = Inr ()" unfolding tree by (intro sums_pass made_keys [OF parts(1) t])
  then show ?thesis
    using parts(4) made_manifest [where ck = ck, OF parts(1,3,4) whole inputs json [OF parts(4)]] tar made_guide [OF parts(1,2) whole inputs]
    by (simp add: check_dist_def)
qed

section \<open>A distribution\<close>

text \<open>A repository with empty files where nothing is asked of them.\<close>

definition test_image :: "string \<Rightarrow> int option \<Rightarrow> byte list" where
  "test_image mode load = (case build_vux9_v4_image (\<lambda>_. None) (Bytes []) [] mode 1 load None None None of Inl e \<Rightarrow> [] | Inr (data, h) \<Rightarrow> data)"

definition test_ci :: string where
  "test_ci = ''--mr v1 zephyr-sdk-1_linux toolchain: \"1\" hack_tools/releases/download/v1/has- msp430-gcc-1_linux64 setup-oss-cad-suite@v1 with: version: '' @
     [CHR 0x27, CHR ''1'', CHR 0x27]"

definition test_files :: "(string \<times> byte list) list" where
  "test_files =
     [(''docs/APP_DEVELOPMENT.md'', encode_utf8 (codes (PY_EXAMPLE @ PY_CARD_EXAMPLE))),
      (''build/firmware/stage2/STAGE2.BIN'', test_image ''riscv'' (Some 0x80700000)),
      (''build/firmware/apps/HELLO.BIN'', test_image ''riscv'' None),
      (''build/firmware/apps/ZEPHYR.BIN'', test_image ''riscv'' None),
      (''build/firmware/apps/IRQECHO.BIN'', test_image ''riscv'' None),
      (''build/firmware/apps/BC.BIN'', test_image ''riscv'' None),
      (''build/firmware/apps/MPY.BIN'', test_image ''riscv'' None),
      (''build/firmware/apps/HACK.BIN'', test_image ''hack'' None),
      (''firmware/stage1/src/main.rs'', encode_utf8 (codes ''const STAGE1_VERSION: u32 = 1;'')),
      (''firmware/stage2/src/main.rs'', encode_utf8 (codes ''const STAGE2_VERSION: u32 = 1;'')),
      (''.github/workflows/ci.yml'', encode_utf8 (codes test_ci))]"

definition test_os :: dist_os where
  "test_os = \<lparr>ds_cargo = (\<lambda>m p f. \<lparr>cm_packages = [], cm_nodes = []\<rparr>), ds_iter = sorted_list_of_set, ds_listdir = (\<lambda>_. Inr []),
     ds_file = (\<lambda>path. case map_of (map (\<lambda>(k, v). (codes k, v)) test_files) path of None \<Rightarrow> Some [] | Some bs \<Rightarrow> Some bs)\<rparr>"

definition test_env :: dist_env where
  "test_env = \<lparr>de_os = test_os, de_repo = [], de_git = (\<lambda>_. [97]), de_commit_time = 0,
     de_tracked = map (\<lambda>rel. codes (''zephyr_workspace'' @ rel)) [''/zephyr/module.yml'', ''/LICENSE'', ''/README.md'', ''/boards/vux9k/vux9k/board.yml'', ''/app/CMakeLists.txt''],
     de_executable = (\<lambda>_. False), de_tar_gz = (\<lambda>_ _. []),
     de_pnr = Inr [(codes ''seed'', JInt 1), (codes ''slack_ns'', JReal [48]), (codes ''target_mhz'', JInt 18), (codes ''closure'', JBool True)],
     de_json = (\<lambda>_. []), de_walk = (\<lambda>t. t)\<rparr>"

lemma map_of_codes: "map_of (map (\<lambda>(k, v). (codes k, v)) kvs) (codes k) = map_of kvs k"
  by (induction kvs) (auto simp: codes_eq)

lemma test_file: "ds_file test_os (codes k) = Some (case map_of test_files k of None \<Rightarrow> [] | Some bs \<Rightarrow> bs)"
  by (simp add: test_os_def map_of_codes split: option.split)

lemma test_env_simps:
  "de_os test_env = test_os" "de_repo test_env = []" "de_git test_env args = [97]" "de_walk test_env t = t"
  by (simp_all add: test_env_def)

lemma join_empty: "join_path [] p = p"
  by (simp add: join_path_def)

lemma test_repo_file: "repo_file test_env (codes k) = Inr (case map_of test_files k of None \<Rightarrow> [] | Some bs \<Rightarrow> bs)"
  by (simp add: repo_file_def test_env_simps join_empty test_file)

lemma test_image_made:
  "mode = ''riscv'' \<and> load \<in> {None, Some 0x80700000} \<or> mode = ''hack'' \<and> load = None \<Longrightarrow>
   v4_made (test_image mode load) (if mode = ''hack'' then 0 else 1) (case load of None \<Rightarrow> if mode = ''hack'' then 0 else 0x80000000 | Some a \<Rightarrow> a) 1"
proof -
  assume m: "mode = ''riscv'' \<and> load \<in> {None, Some 0x80700000} \<or> mode = ''hack'' \<and> load = None"
  define h where "h = v4_header [] (or_else [] None) mode 1 load None"
  have "header_ok h"
    using m crc32_fits [of "[]"] by (auto simp: h_def header_ok_def v4_header_def stored_payload_def pack_hack_def fits_def Let_def)
  then have "build_vux9_v4_image (\<lambda>_. None) (Bytes []) [] mode 1 load None None None = Inr (header_bytes h @ stored_payload mode [], h)"
    using build_eq [of "\<lambda>_. None" "Bytes []" "[]" None "[]" mode 1 load None] by (simp add: read_payload_def h_def Let_def)
  moreover have "hd_mode h = (if mode = ''hack'' then 0 else 1)" "hd_load_addr h = (case load of None \<Rightarrow> if mode = ''hack'' then 0 else 0x80000000 | Some a \<Rightarrow> a)"
    by (simp_all add: h_def v4_header_def Let_def)
  ultimately show ?thesis unfolding v4_made_def test_image_def by fastforce
qed

lemma guide_no_cr: "CHR 0x0D \<notin> set (PY_EXAMPLE @ PY_CARD_EXAMPLE)"
  by (simp add: PY_EXAMPLE_def PY_CARD_EXAMPLE_def)

lemma test_read:
  assumes "map_of test_files k = Some (encode_utf8 (codes t))" "CHR 0x0D \<notin> set t"
  shows "read_strict test_os (codes k) = Inr (codes t)"
  using plain_codes [OF assms(2)] assms(1) by (simp add: read_strict_def test_file)

lemma test_empty: "map_of test_files k = None \<Longrightarrow> read_strict test_os (codes k) = Inr []"
  by (simp add: read_strict_def test_file decode_strict_def encode_utf8_def decode_utf8_def)

lemma test_versions: "stage_version test_os [] 1 = Inr 1" "stage_version test_os [] 2 = Inr 1"
proof -
  have p: "join_all [] [codes ''firmware'', codes ''stage'' @ dec 1, codes ''src'', codes ''main.rs''] = codes ''firmware/stage1/src/main.rs''"
    "join_all [] [codes ''firmware'', codes ''stage'' @ dec 2, codes ''src'', codes ''main.rs''] = codes ''firmware/stage2/src/main.rs''"
    by (simp_all add: join_all_def join_path_def codes_def starts_def ends_def dec.simps)
  have t: "read_strict test_os (codes ''firmware/stage1/src/main.rs'') = Inr (codes ''const STAGE1_VERSION: u32 = 1;'')"
    "read_strict test_os (codes ''firmware/stage2/src/main.rs'') = Inr (codes ''const STAGE2_VERSION: u32 = 1;'')"
    by (rule test_read; simp add: test_files_def)+
  show "stage_version test_os [] 1 = Inr 1" "stage_version test_os [] 2 = Inr 1"
    unfolding stage_version_def p t by (simp_all add: codes_def dec.simps digit_def dec_value_def)
qed

lemma test_pins: "\<exists>pins. tool_pins test_os [] = Inr pins"
proof -
  have p: "join_all [] (map codes [''.github'', ''workflows'', ''ci.yml'']) = codes ''.github/workflows/ci.yml''"
    by (simp add: join_all_def join_path_def codes_def starts_def ends_def)
  have t: "read_strict test_os (codes ''.github/workflows/ci.yml'') = Inr (codes test_ci)"
    by (rule test_read) (simp_all add: test_files_def, simp add: test_ci_def)
  have "\<exists>v. search pattern (codes test_ci) = Some v" if "(name, pattern) \<in> set PINS" for name pattern
    using that by (auto simp: PINS_def test_ci_def codes_def version_char_def digit_def white_def)
  then show ?thesis unfolding tool_pins_def p t rbind_simps by (intro rmapM_total) force
qed

lemma test_inputs: "dist_inputs test_env"
proof -
  have "hex_sha (de_git test_env [''rev-parse'', ''HEAD''])" by (simp add: test_env_simps hex_sha_def)
  moreover have "read_strict test_os (codes ''docs/APP_DEVELOPMENT.md'') = Inr (codes (PY_EXAMPLE @ PY_CARD_EXAMPLE))"
    by (rule test_read) (simp add: test_files_def, rule guide_no_cr)
  moreover have "occurs (strip (codes t)) (codes (a @ t @ b))" if "example_ok t" for a t b
  proof -
    note e = strip_example [OF that]
    have "codes (a @ t @ b) = (codes a @ [10]) @ codes (butlast (tl t)) @ 10 # codes b" by (subst e(1)) (simp add: codes_def)
    moreover have ne: "codes (butlast (tl t)) \<noteq> []" using e(3) by (simp add: codes_def)
    ultimately show ?thesis unfolding e(2) occurs_iff [OF ne] by blast
  qed
  from this [OF example_ok_demo, of "[]" PY_CARD_EXAMPLE] this [OF example_ok_card, of PY_EXAMPLE "[]"]
  have "occurs (strip (codes PY_EXAMPLE)) (codes (PY_EXAMPLE @ PY_CARD_EXAMPLE))" "occurs (strip (codes PY_CARD_EXAMPLE)) (codes (PY_EXAMPLE @ PY_CARD_EXAMPLE))"
    by simp_all
  moreover have "\<forall>(rel, mode, load) \<in> set CARD_FILES. \<exists>src data version. (rel, src) \<in> set FILES \<and> repo_file test_env (codes src) = Inr data \<and> v4_made data mode load version"
  proof -
    have "v4_made (test_image ''riscv'' None) 1 0x80000000 1" "v4_made (test_image ''hack'' None) 0 0 1"
      using test_image_made [of "''riscv''" None] test_image_made [of "''hack''" None] by simp_all
    then show ?thesis by (simp add: CARD_FILES_def FILES_def test_repo_file test_files_def) blast
  qed
  moreover have "repo_file test_env (codes ''build/firmware/stage2/STAGE2.BIN'') = Inr (test_image ''riscv'' (Some 0x80700000))"
    unfolding test_repo_file by (simp add: test_files_def)
  moreover have "v4_made (test_image ''riscv'' (Some 0x80700000)) 1 0x80700000 1" using test_image_made [of "''riscv''" "Some 0x80700000"] by simp
  moreover have "bsp_tracked test_env" by (simp add: bsp_tracked_def test_env_def)
  ultimately show ?thesis unfolding dist_inputs_def test_env_simps join_empty using test_versions(2) by auto
qed

lemma test_made: "\<exists>tree. make_dist test_env [] [] = Inr tree"
proof -
  have "\<exists>t0. copy_files test_env = Inr t0"
    unfolding copy_files_def by (rule rmapM_total) (auto simp: test_repo_file)
  then obtain t0 where t0: "copy_files test_env = Inr t0" by blast
  have "map_of t0 (codes ''docs/APP_DEVELOPMENT.md'') = Some (encode_utf8 (codes (PY_EXAMPLE @ PY_CARD_EXAMPLE)))"
    by (rule copied_file [OF t0]) (simp add: FILES_def, simp add: test_repo_file test_files_def)
  then have "read_tree t0 GUIDE = Inr (codes (PY_EXAMPLE @ PY_CARD_EXAMPLE))"
    using plain_codes [OF guide_no_cr] by (simp add: read_tree_def GUIDE_def)
  moreover have "\<exists>bsp. bsp_archive test_env = Inr bsp"
  proof -
    have some: "\<exists>bs. repo_file test_env path = Inr bs" for path
      by (simp add: repo_file_def test_env_simps join_empty test_os_def split: option.split)
    have "\<exists>y. rmap f (repo_file test_env path) = Inr y" for f :: "byte list \<Rightarrow> utext \<times> bool \<times> byte list" and path
      using some [of path] by (auto simp del: split_paired_Ex)
    then have "\<exists>es. bsp_members test_env = Inr es" unfolding bsp_members_def by (rule rmapM_total)
    then show ?thesis by (auto simp: bsp_archive_def)
  qed
  moreover have "\<exists>n. third_party_licenses test_os [] [] [] = Inr n"
  proof -
    have l: "join_all [] [[], codes ''LICENSE''] = codes ''LICENSE''" by (simp add: join_all_def join_path_def)
    have c: "crates_of test_os e = Inr []" for e
      by (cases e) (simp add: crates_of_def test_os_def linked_into_def dict_of_def link_loop.simps Let_def)
    have r: "rmapM (crates_of test_os) LINKED_CRATES = Inr [[], [], []]" by (simp add: LINKED_CRATES_def c)
    have e: "read_strict test_os (join_all [] [[], codes ''LICENSE'']) = Inr []" unfolding l by (rule test_empty) (simp add: test_files_def)
    obtain out where "rfold (link_binary test_os) LINKED_CRATES (notices_head [], []) = Inr (out, [])"
      using links_fold [OF r, of "notices_head []" "[]"] by auto
    then show ?thesis by (simp add: third_party_licenses_def notices_lines_def e unshipped_section_def)
  qed
  moreover obtain pins where "tool_pins test_os [] = Inr pins" using test_pins by blast
  then have "\<exists>m. dist_manifest test_env = Inr m"
    unfolding dist_manifest_def test_env_simps test_versions by (simp add: test_env_def rlookup_def codes_eq)
  ultimately show ?thesis using t0 unfolding make_dist_def test_env_simps by (auto simp: list_ex_iff test_repo_file Let_def)
qed

definition test_check :: "unit check_env" where
  "test_check = \<lparr>ck_json = (\<lambda>_. dist_manifest test_env), ck_tar_names = (\<lambda>_. rmap (map fst) (bsp_members test_env)), ck_copy = (\<lambda>_. ()),
     ck_run = (\<lambda>cmd fs. (0, fs)), ck_python = []\<rparr>"

theorem dist_checks_witness: "\<exists>tree m. make_dist test_env [] [] = Inr tree \<and> check_dist test_check tree = Inr m"
proof -
  obtain tree where t: "make_dist test_env [] [] = Inr tree" using test_made by blast
  obtain m where "check_dist test_check tree = rmap (\<lambda>_. m) (run_demos test_check tree)"
    using dist_checks [OF t test_inputs, of test_check] by (auto simp: test_check_def)
  moreover have "run_each test_check cmds fs = Inr ()" for cmds fs by (induction cmds) (simp_all add: test_check_def)
  ultimately show ?thesis using t by (simp add: run_demos_def)
qed

end
