(* ===== verification/Lockstep_All.thy ===== *)
theory Lockstep_All
  imports Lockstep_Random Card_Setup Emu_Port Board_Port Soc_Start Serial_Bridge Dist_Tree
begin

text \<open>
  The list of all programs of \<^verbatim>\<open>src/sim/integration/lockstep_programs.py\<close> with their stimulus, and the cards some of them
  use. What is outside the module is a parameter: \<open>rng\<close> gives the draws of \<open>random.Random(seed)\<close>, \<open>root\<close> and \<open>fs\<close> are the
  repository's root and its binary files, \<open>hexf\<close> its text files by lines, \<open>seeds\<close> the value of \<open>LOCKSTEP_SEEDS\<close>.

  The theorems show that every program assembles and fits the ROM, that what is written into the window lies in
  the ranges that are zeroed before, that the stimulus ends before the run does, and that the card of the first stage's
  programs holds a second stage that its checks accept.
\<close>

section \<open>Run lengths and stimulus\<close>

definition HACK_DEMO_CYCLES :: int where "HACK_DEMO_CYCLES = 1480000"
definition TRAPS_RX_CYCLE :: int where "TRAPS_RX_CYCLE = 1500"
definition AMO_RX_CYCLE :: int where "AMO_RX_CYCLE = 100"
definition XCACHE_HACK_CYCLES :: int where "XCACHE_HACK_CYCLES = 6000"
definition S2_LAUNCH_CYCLES :: int where "S2_LAUNCH_CYCLES = 18000"
definition S2_RUN_HELLO_AT :: int where "S2_RUN_HELLO_AT = 14600000"
definition S2_RUN_HELLO_CYCLES :: int where "S2_RUN_HELLO_CYCLES = 20300000"
definition MULDIV_CYCLES :: int where "MULDIV_CYCLES = 9000"
definition CLINT_RX_CYCLE :: int where "CLINT_RX_CYCLE = 100"
definition CLINT_CYCLES :: int where "CLINT_CYCLES = 4000"
definition LITEUART_RX_CYCLE :: int where "LITEUART_RX_CYCLE = 3000"
definition LITEUART_RX2_CYCLE :: int where "LITEUART_RX2_CYCLE = 40000"
definition LITEUART_CYCLES :: int where "LITEUART_CYCLES = 60000"
definition LITEUART_HACK_RX_CYCLE :: int where "LITEUART_HACK_RX_CYCLE = 1000"
definition LITEUART_HACK_CYCLES :: int where "LITEUART_HACK_CYCLES = 8000"

lemmas cycle_consts = HACK_DEMO_CYCLES_def TRAPS_RX_CYCLE_def AMO_RX_CYCLE_def XCACHE_HACK_CYCLES_def S2_LAUNCH_CYCLES_def
  S2_RUN_HELLO_AT_def S2_RUN_HELLO_CYCLES_def MULDIV_CYCLES_def CLINT_RX_CYCLE_def CLINT_CYCLES_def LITEUART_RX_CYCLE_def
  LITEUART_RX2_CYCLE_def LITEUART_CYCLES_def LITEUART_HACK_RX_CYCLE_def LITEUART_HACK_CYCLES_def UART_DROP_RX_CYCLE_def
  UART_DROP_READ_def UART_DROP_CYCLES_def UART_FRAME_def UART_BIT_def

section \<open>Cards\<close>

definition card_sectors :: "(string \<times> byte list) list \<Rightarrow> (nat \<times> byte list) list result" where
  "card_sectors files = rmap image_sectors (build_fat32_image files 8192 1 ''VUX9K'')"

definition stage2_card :: "(nat \<times> byte list) list result" where
  "stage2_card =
     rbind (hash_program STAGE2_BASE False) (\<lambda>payload.
     rbind (build_vux9_v4_image (\<lambda>_. None) (Bytes payload) ''test'' ''riscv'' 10 (Some STAGE2_BASE) None None None) (\<lambda>(data, _).
     card_sectors [(''VUX9K/STAGE2.BIN'', data)]))"

definition STAGE2_FILE :: "string \<Rightarrow> string" where "STAGE2_FILE root = root @ ''/build/firmware/stage2/STAGE2.BIN''"
definition HELLO_FILE :: "string \<Rightarrow> string" where "HELLO_FILE root = root @ ''/build/firmware/apps/HELLO.BIN''"

definition s2_hello_card :: "file_system \<Rightarrow> string \<Rightarrow> (nat \<times> byte list) list result" where
  "s2_hello_card fs root =
     (case fs (STAGE2_FILE root) of
        None \<Rightarrow> Inr []
      | Some stage2 \<Rightarrow> (case fs (HELLO_FILE root) of
            None \<Rightarrow> Inr []
          | Some hello \<Rightarrow> card_sectors [(''VUX9K/STAGE2.BIN'', stage2), (''VUX9K/APPS/HELLO.BIN'', hello)]))"

section \<open>The list\<close>

text \<open>\<open>Program(name, cycles)\<close> with the defaults of the other fields.\<close>

definition new_program :: "string \<Rightarrow> int \<Rightarrow> Program" where
  "new_program name c = \<lparr>p_name = name, cycles = c, imem_words = None, uart_rx = [], button = [], sd_sectors = [],
     xmem_init = [], slow = False, needs = []\<rparr>"

definition rom_prog :: "string \<Rightarrow> int \<Rightarrow> (int \<times> byte list) list \<Rightarrow> int list result \<Rightarrow> Program result" where
  "rom_prog name c rx words = rmap (\<lambda>ws. (new_program name c)\<lparr>imem_words := Some ws, uart_rx := rx\<rparr>) words"

definition hack_prog :: "string \<Rightarrow> int \<Rightarrow> (int \<times> byte list) list \<Rightarrow> int list result \<Rightarrow> Program result" where
  "hack_prog name c rx words =
     rbind hack_stub (\<lambda>rom. rbind words (\<lambda>ws. rmap (\<lambda>img.
       (new_program name c)\<lparr>imem_words := Some rom, uart_rx := rx, xmem_init := [(HACK_I_BASE, img)]\<rparr>) (hack_image_bytes ws)))"

definition card_prog :: "string \<Rightarrow> int \<Rightarrow> (int \<times> byte list) list \<Rightarrow> bool \<Rightarrow> string list \<Rightarrow> (nat \<times> byte list) list result \<Rightarrow> Program result" where
  "card_prog name c rx sl nd sds = rmap (\<lambda>s. (new_program name c)\<lparr>sd_sectors := s, uart_rx := rx, slow := sl, needs := nd\<rparr>) sds"

definition bytes_of :: "string \<Rightarrow> byte list" where
  "bytes_of s = map of_char s"

definition hack_demo_prog :: "(string \<Rightarrow> string list option) \<Rightarrow> string \<Rightarrow> Program result" where
  "hack_demo_prog hexf root =
     rbind (case hexf (root @ ''/build/hack/firmware.hex'') of None \<Rightarrow> Inl FileNotFoundError | Some ls \<Rightarrow> hex_words ls) (\<lambda>ws.
     rbind (hack_image_bytes ws) (\<lambda>hack_demo.
     rassert (int (length hack_demo) \<le> HACK_DEMO_BYTES)
     (rmap (\<lambda>rom. (new_program ''hack_demo'' HACK_DEMO_CYCLES)\<lparr>imem_words := Some rom, xmem_init := [(HACK_I_BASE, hack_demo)]\<rparr>)
       hack_stub)))"

definition muldiv_prog :: "Program result" where
  "muldiv_prog = rmap (\<lambda>(md_rom, md_code).
     (new_program ''muldiv'' MULDIV_CYCLES)\<lparr>imem_words := Some md_rom, xmem_init := [(MULDIV_CODE, md_code)]\<rparr>) muldiv"

text \<open>\<open>int(x)\<close> and \<open>str(n)\<close> in base ten.\<close>

fun dec_under :: "bool \<Rightarrow> nat \<Rightarrow> string \<Rightarrow> nat option" where
  "dec_under ok acc [] = (if ok then Some acc else None)"
| "dec_under ok acc (c # s) =
     (if c = CHR ''_'' then (if ok then dec_under False acc s else None)
      else if 48 \<le> (of_char c :: nat) \<and> (of_char c :: nat) \<le> 57 then dec_under True (acc * 10 + (of_char c - 48)) s else None)"

definition int_base10 :: "string \<Rightarrow> int result" where
  "int_base10 x =
     (let s = strip_blank x;
          neg = (s \<noteq> [] \<and> hd s = CHR ''-'');
          s = (if s \<noteq> [] \<and> (hd s = CHR ''-'' \<or> hd s = CHR ''+'') then tl s else s)
      in case dec_under False 0 s of None \<Rightarrow> Inl ValueError | Some v \<Rightarrow> Inr (if neg then - int v else int v))"

definition int_str :: "int \<Rightarrow> string" where
  "int_str n = (if n < 0 then CHR ''-'' # nat_str (nat (- n)) else nat_str (nat n))"

definition seed_progs :: "(int \<Rightarrow> draws) \<Rightarrow> string \<Rightarrow> Program list result" where
  "seed_progs rng seeds =
     rbind (rmapM int_base10 (filter (\<lambda>x. x \<noteq> []) (split_at CHR '','' seeds)))
       (rmapM (\<lambda>s. rmap (\<lambda>p. p\<lparr>slow := True\<rparr>) (rom_prog (''random_rv_'' @ int_str s) 200000 [] (random_rv (rng s) 1500 0))))"

definition listed_progs :: "(int \<Rightarrow> draws) \<Rightarrow> file_system \<Rightarrow> (string \<Rightarrow> string list option) \<Rightarrow> string \<Rightarrow> Program result list" where
  "listed_progs rng fs hexf root =
     map (\<lambda>seed. rom_prog (''random_rv_'' @ int_str seed) 20000 [] (random_rv (rng seed) 300 0)) [1, 2, 3] @
     [rom_prog ''traps'' 6000 [(TRAPS_RX_CYCLE, bytes_of ''Z'')] traps,
      hack_demo_prog hexf root,
      card_prog ''s1_autoboot'' 3300000 [] False [] stage2_card,
      card_prog ''s1_cli'' 3600000 [(600000, [0x0D]), (1300000, bytes_of ''h''), (2000000, bytes_of ''i'')] True [] stage2_card,
      hack_prog ''hack_soft_reset'' 20000 [] (hack_soft_reset True False),
      rom_prog ''boot_mode_hack'' 6000 [] boot_mode_hack,
      rom_prog ''sd_clkdiv'' 30000 [] sd_clkdiv,
      rom_prog ''s2_launch'' S2_LAUNCH_CYCLES [] (s2_launch False),
      rom_prog ''s2_launch_hack'' S2_LAUNCH_CYCLES [] (s2_launch True),
      rom_prog ''xmem'' 17500 [] xmem,
      rom_prog ''random_rv_xmem_4'' 13000 [] (random_rv (rng 4) 300 (XMEM + 0x400)),
      rom_prog ''xcache'' 18000 [] xcache,
      hack_prog ''xcache_hack'' XCACHE_HACK_CYCLES [] xcache_hack,
      rom_prog ''rom_stores'' 2000 [] rom_stores,
      muldiv_prog,
      hack_prog ''boot_mode_rv32'' 20000 [] (hack_soft_reset True True),
      card_prog ''s2_run_hello'' S2_RUN_HELLO_CYCLES [(S2_RUN_HELLO_AT, bytes_of ''run VUX9K/APPS/HELLO.BIN'' @ [0x0D])] True
        [STAGE2_FILE root, HELLO_FILE root] (s2_hello_card fs root),
      rom_prog ''umode'' 4000 [] umode,
      rom_prog ''amo'' 9000 [(AMO_RX_CYCLE, bytes_of ''Z'')] amo,
      rom_prog ''clint'' CLINT_CYCLES [(CLINT_RX_CYCLE, bytes_of ''Z'')] clint,
      rom_prog ''uart_drop'' UART_DROP_CYCLES [(UART_DROP_RX_CYCLE, map of_nat [0x40..<0x61])] uart_drop,
      rom_prog ''liteuart'' LITEUART_CYCLES [(LITEUART_RX_CYCLE, bytes_of ''R''), (LITEUART_RX2_CYCLE, bytes_of ''S'')] liteuart,
      hack_prog ''liteuart_hack'' LITEUART_HACK_CYCLES [(LITEUART_HACK_RX_CYCLE, bytes_of ''h'')] liteuart_hack]"

definition programs ::
  "(int \<Rightarrow> draws) \<Rightarrow> file_system \<Rightarrow> (string \<Rightarrow> string list option) \<Rightarrow> string \<Rightarrow> string \<Rightarrow> Program list result" where
  "programs rng fs hexf root seeds =
     rbind (rmapM (\<lambda>p. p) (listed_progs rng fs hexf root)) (\<lambda>progs. rmap (\<lambda>more. progs @ more) (seed_progs rng seeds))"

section \<open>Parts that assemble\<close>

definition words_ok :: "nat \<Rightarrow> int list result \<Rightarrow> bool" where
  "words_ok n r \<longleftrightarrow> (\<exists>ws. r = Inr ws \<and> length ws \<le> n \<and> list_all (fits 32) ws)"

lemma rom_ok_words: "rom_ok r \<longleftrightarrow> words_ok 0xE00 r"
  by (simp add: rom_ok_def words_ok_def)

lemma hack_programs_ok:
  "words_ok 0x200 (hack_soft_reset True False)" "words_ok 0x200 (hack_soft_reset True True)"
  "words_ok 0x200 xcache_hack" "words_ok 0x200 liteuart_hack"
  by (simp_all add: words_ok_def hack_soft_reset_def hack_soft_reset_code_def xcache_hack_def xcache_hack_code_def
      liteuart_hack_def liteuart_hack_code_def hack_eval XCACHE_HACK_WORDS_def fits_def)

lemma pack_words_ok:
  assumes "list_all (fits 32) words"
  shows "\<exists>bs. pack_words words = Inr bs \<and> length bs = 4 * length words"
proof -
  have u: "rmapM (pack_u 4) words = Inr (map (le_bytes 4) words)"
    using assms by (induction words) (simp_all add: pack_u_def fits_def)
  have "length (concat (map (le_bytes 4) ws)) = 4 * length ws" for ws
    by (induction ws) simp_all
  with u show ?thesis by (simp add: pack_words_def)
qed

lemma muldiv_built: "\<exists>ws bs. muldiv = Inr (ws, bs) \<and> length ws \<le> 0xE00 \<and> list_all (fits 32) ws \<and> length bs \<le> 0x100"
proof -
  have w: "code_ok MULDIV_CODE muldiv_window_code" "code_size muldiv_window_code \<le> 0x40"
    by (simp_all add: muldiv_window_code_def code_ok_def rom_simps MUL_OPS_def)
  obtain code where c: "build MULDIV_CODE muldiv_window_code = Inr code" "length code \<le> 0x40" "list_all (fits 32) code"
    using build_ok [OF w(1)] w(2) by auto
  have r: "code_ok 0 muldiv_rom_code" "code_size muldiv_rom_code \<le> 0xE00"
    by (simp_all add: muldiv_rom_code_def code_ok_def rom_simps MUL_OPS_def MULDIV_PAIRS_def)
  obtain ws where "build 0 muldiv_rom_code = Inr ws" "length ws \<le> 0xE00" "list_all (fits 32) ws"
    using build_ok [OF r(1)] r(2) by auto
  then show ?thesis using c pack_words_ok [OF c(3)] by (auto simp: muldiv_def)
qed

lemma hash_program_ok: "\<exists>bs. hash_program STAGE2_BASE False = Inr bs \<and> length bs = 24"
proof -
  have w: "code_ok STAGE2_BASE (hash_code False)" "code_size (hash_code False) = 6"
    by (simp_all add: hash_code_def code_ok_def rom_simps)
  obtain ws where "build STAGE2_BASE (hash_code False) = Inr ws" "length ws = 6" "list_all (fits 32) ws"
    using build_ok [OF w(1)] w(2) by auto
  then show ?thesis using pack_words_ok [of ws] by (auto simp: hash_program_def)
qed

section \<open>The first stage's card\<close>

lemma stage2_file_ok:
  assumes "hash_program STAGE2_BASE False = Inr payload" "length payload = 24"
  defines "h \<equiv> v4_header payload ''test'' ''riscv'' 10 (Some STAGE2_BASE) None"
  shows "build_vux9_v4_image (\<lambda>_. None) (Bytes payload) ''test'' ''riscv'' 10 (Some STAGE2_BASE) None None None = Inr (header_bytes h @ payload, h)"
    and "header_ok h" "length (header_bytes h @ payload) = 88"
proof -
  have ok: "header_ok h" using assms(2)
    by (simp add: h_def header_ok_def v4_header_def Let_def STAGE2_BASE_def fits_def crc32_fits [unfolded fits_def, simplified])
  have "read_payload (\<lambda>_. None) (Bytes payload) = Inr (payload, None)" by (simp add: read_payload_def)
  from build_eq [OF this] show "build_vux9_v4_image (\<lambda>_. None) (Bytes payload) ''test'' ''riscv'' 10 (Some STAGE2_BASE) None None None = Inr (header_bytes h @ payload, h)"
    using ok by (simp add: or_else_def Let_def h_def)
  show "header_ok h" by (rule ok)
  show "length (header_bytes h @ payload) = 88" using assms(2) by simp
qed

lemma stage2_card_ok:
  "\<exists>sds payload. stage2_card = Inr sds \<and> hash_program STAGE2_BASE False = Inr payload \<and>
     header_ok (v4_header payload ''test'' ''riscv'' 10 (Some STAGE2_BASE) None) \<and>
     card_sectors [(''VUX9K/STAGE2.BIN'', header_bytes (v4_header payload ''test'' ''riscv'' 10 (Some STAGE2_BASE) None) @ payload)] = Inr sds"
proof -
  obtain payload where p: "hash_program STAGE2_BASE False = Inr payload" "length payload = 24" using hash_program_ok by blast
  note f = stage2_file_ok [OF p]
  let ?d = "header_bytes (v4_header payload ''test'' ''riscv'' 10 (Some STAGE2_BASE) None) @ payload"
  have "?d \<noteq> []" "length ?d \<le> 512" using f(3) p(2) by auto
  then obtain img where "build_fat32_image [(''VUX9K/STAGE2.BIN'', ?d)] 8192 1 ''VUX9K'' = Inr img"
    using default_card [OF stage2_tree] by blast
  then obtain sds where "card_sectors [(''VUX9K/STAGE2.BIN'', ?d)] = Inr sds" by (simp only: card_sectors_def rmap_simps)
  moreover from this have "stage2_card = Inr sds" by (simp only: stage2_card_def p(1) f(1) rbind_simps prod.case)
  ultimately show ?thesis using p(1) f(2) by blast
qed

text \<open>
  The card of the first stage's programs boots. \<open>stage2_card\<close> returns a card; read over the bus of the SD model it is a
  FAT32 volume on which \<open>VUX9K/STAGE2.BIN\<close> is a v4 file that passes the firmware's checks, has version 10, loads and
  starts at \<open>STAGE2_BASE\<close>, and carries the words of the program that prints its sign from that address.
\<close>

theorem stage2_card_boots:
  "\<exists>sds payload img data h. stage2_card = Inr sds \<and> hash_program STAGE2_BASE False = Inr payload \<and>
     fst (bus_reads [0..<10240] (preload_card True sds (sd_new plain_config))) = img \<and>
     img_read img [map of_char ''VUX9K      '', map of_char ''STAGE2  BIN''] = Some data \<and>
     image_valid data \<and> drop HEADER_LEN data = payload \<and> header_parse data = Some h \<and> hd_version h = 10 \<and> hd_mode h = 1 \<and>
     hd_load_addr h = STAGE2_BASE \<and> hd_entry_point h = STAGE2_BASE"
proof -
  obtain sds payload where c: "stage2_card = Inr sds" and p: "hash_program STAGE2_BASE False = Inr payload"
    and ok: "header_ok (v4_header payload ''test'' ''riscv'' 10 (Some STAGE2_BASE) None)"
    and cs: "card_sectors [(''VUX9K/STAGE2.BIN'', header_bytes (v4_header payload ''test'' ''riscv'' 10 (Some STAGE2_BASE) None) @ payload)] = Inr sds"
    using stage2_card_ok by blast
  define h where "h = v4_header payload ''test'' ''riscv'' 10 (Some STAGE2_BASE) None"
  define data where "data = header_bytes h @ payload"
  have fs: "fat_sectors [(''VUX9K/STAGE2.BIN'', data)] = Inr sds" using cs by (simp add: card_sectors_def fat_sectors_def data_def h_def)
  have path: "path_parts ''VUX9K/STAGE2.BIN'' = Inr [map of_char ''VUX9K      '', map of_char ''STAGE2  BIN'']" by code_simp
  have good: "17 \<notin> set (mute_cmds plain_config)" "\<not> read_error plain_config" "bad_sectors plain_config = []"
    by simp_all
  obtain img where "fst (bus_reads [0..<10240] (preload_card True sds (sd_new plain_config))) = img"
    "\<forall>(path, x) \<in> set [(''VUX9K/STAGE2.BIN'', data)]. \<exists>parts. path_parts path = Inr parts \<and> img_read img parts = Some x"
    using card_served [OF fs good, of True] by blast
  then have i: "fst (bus_reads [0..<10240] (preload_card True sds (sd_new plain_config))) = img"
    "img_read img [map of_char ''VUX9K      '', map of_char ''STAGE2  BIN''] = Some data"
    using path by (simp_all del: upt_rec_numeral)
  have hs: "hd_size h = int (length payload)" "hd_crc32 h = crc32 payload" by (simp_all add: h_def v4_header_def)
  have "image_valid data" using header_valid [OF ok [folded h_def] hs] by (simp add: data_def)
  moreover have "drop HEADER_LEN data = payload" by (simp add: data_def HEADER_LEN_def)
  moreover have "header_parse data = Some (h\<lparr>hd_name := padded_name (hd_name h)\<rparr>)"
    using ok by (simp add: data_def parse_header_bytes h_def)
  moreover have "hd_version h = 10" "hd_mode h = 1" "hd_load_addr h = STAGE2_BASE" "hd_entry_point h = STAGE2_BASE"
    by (simp_all add: h_def v4_header_def)
  ultimately show ?thesis using c p i
    by (intro exI [of _ sds] exI [of _ payload] exI [of _ img] exI [of _ data] exI [of _ "h\<lparr>hd_name := padded_name (hd_name h)\<rparr>"]) simp
qed

section \<open>All programs\<close>

text \<open>
  What a program's setup must satisfy: the ROM's size and words, the bytes put into the window before the run
  (\<open>xmem_init\<close>) and the times of the UART bytes. The stores that a program makes when it runs are not bounded by it.
\<close>

definition window_used :: "int set" where
  "window_used = (\<Union>(a, b) \<in> set XMEM_USED. {a..<b})"

fun rx_ok :: "int \<Rightarrow> int \<Rightarrow> (int \<times> byte list) list \<Rightarrow> bool" where
  "rx_ok start end_at [] \<longleftrightarrow> start \<le> end_at"
| "rx_ok start end_at ((at, bs) # rx) \<longleftrightarrow> start \<le> at \<and> rx_ok (at + int (length bs) * UART_FRAME) end_at rx"

definition prog_ok :: "Program \<Rightarrow> bool" where
  "prog_ok p \<longleftrightarrow>
     (case imem_words p of None \<Rightarrow> True | Some ws \<Rightarrow> length ws \<le> 0xE00 \<and> list_all (fits 32) ws) \<and>
     list_all (\<lambda>(a, d). {a - XMEM..<a - XMEM + int (length d)} \<subseteq> window_used) (xmem_init p) \<and>
     rx_ok 0 (cycles p) (uart_rx p)"

definition prog_is :: "string \<Rightarrow> Program result \<Rightarrow> bool" where
  "prog_is name r \<longleftrightarrow> (\<exists>p. r = Inr p \<and> p_name p = name \<and> prog_ok p)"

lemma prog_isI: "r = Inr p \<Longrightarrow> p_name p = name \<Longrightarrow> prog_ok p \<Longrightarrow> prog_is name r"
  by (auto simp: prog_is_def)

lemma new_program_simps [simp]:
  "p_name (new_program n c) = n" "cycles (new_program n c) = c" "uart_rx (new_program n c) = []" "xmem_init (new_program n c) = []"
  "imem_words (new_program n c) = None"
  by (simp_all add: new_program_def)

lemma rom_prog_is: "rom_ok r \<Longrightarrow> rx_ok 0 c rx \<Longrightarrow> prog_is n (rom_prog n c rx r)"
  by (auto simp: prog_is_def rom_prog_def rom_ok_def prog_ok_def)

lemma card_prog_is: "r = Inr sds \<Longrightarrow> rx_ok 0 c rx \<Longrightarrow> prog_is n (card_prog n c rx sl nd r)"
  by (auto simp: prog_is_def card_prog_def prog_ok_def)

lemma hack_window: "n \<le> HACK_DEMO_BYTES \<Longrightarrow> {HACK_I_BASE - XMEM..<HACK_I_BASE - XMEM + n} \<subseteq> window_used"
proof -
  assume "n \<le> HACK_DEMO_BYTES"
  then have "{HACK_I_BASE - XMEM..<HACK_I_BASE - XMEM + n} \<subseteq> {0..<0x800} \<union> {0x800..<HACK_DEMO_BYTES}"
    by (auto simp: HACK_I_BASE_def XMEM_def)
  moreover have "(0, 0x800) \<in> set XMEM_USED" "(0x800, HACK_DEMO_BYTES) \<in> set XMEM_USED" by (simp_all add: XMEM_USED_def)
  then have "{0..<0x800} \<subseteq> window_used" "{0x800..<HACK_DEMO_BYTES} \<subseteq> window_used" unfolding window_used_def by blast+
  ultimately show ?thesis by blast
qed

lemma hack_prog_is:
  assumes "words_ok 0x200 r" "rx_ok 0 c rx"
  shows "prog_is n (hack_prog n c rx r)"
proof -
  obtain ws where w: "r = Inr ws" "length ws \<le> 0x200" "list_all (fits 32) ws" using assms(1) by (auto simp: words_ok_def)
  obtain img where i: "hack_image_bytes ws = Inr img" "length img = 4 * length ws" using pack_words_ok [OF w(3)] by (auto simp: hack_image_bytes_def)
  have "{HACK_I_BASE - XMEM..<HACK_I_BASE - XMEM + int (length img)} \<subseteq> window_used"
    using i(2) w(2) by (intro hack_window) (simp add: HACK_DEMO_BYTES_def)
  then show ?thesis
    using hack_stub_ok w(1) i(1) assms(2) by (auto simp: prog_is_def hack_prog_def rom_ok_def prog_ok_def)
qed

lemma muldiv_prog_is: "prog_is ''muldiv'' muldiv_prog"
proof -
  obtain ws bs where m: "muldiv = Inr (ws, bs)" "length ws \<le> 0xE00" "list_all (fits 32) ws" "length bs \<le> 0x100" using muldiv_built by blast
  have "(MULDIV_CODE - XMEM, MULDIV_CODE - XMEM + 0x100) \<in> set XMEM_USED" by (simp add: XMEM_USED_def)
  then have "{MULDIV_CODE - XMEM..<MULDIV_CODE - XMEM + 0x100} \<subseteq> window_used" unfolding window_used_def by blast
  moreover have "{MULDIV_CODE - XMEM..<MULDIV_CODE - XMEM + int (length bs)} \<subseteq> {MULDIV_CODE - XMEM..<MULDIV_CODE - XMEM + 0x100}" using m(4) by simp
  ultimately have u: "{MULDIV_CODE - XMEM..<MULDIV_CODE - XMEM + int (length bs)} \<subseteq> window_used" by (rule subset_trans [rotated])
  have "muldiv_prog = Inr ((new_program ''muldiv'' MULDIV_CYCLES)\<lparr>imem_words := Some ws, xmem_init := [(MULDIV_CODE, bs)]\<rparr>)"
    by (simp add: muldiv_prog_def m(1) del: rbind_eq_Inr rmap_eq_Inr)
  then show ?thesis by (rule prog_isI) (use m(2,3) u in \<open>simp_all add: prog_ok_def MULDIV_CYCLES_def\<close>)
qed

lemma hack_demo_prog_is:
  assumes "hexf (root @ ''/build/hack/firmware.hex'') = Some ls" "hex_words ls = Inr ws" "list_all (fits 32) ws" "4 * length ws \<le> 0x1600"
  shows "prog_is ''hack_demo'' (hack_demo_prog hexf root)"
proof -
  obtain img where i: "hack_image_bytes ws = Inr img" "length img = 4 * length ws" using pack_words_ok [OF assms(3)] by (auto simp: hack_image_bytes_def)
  have b: "int (length img) \<le> HACK_DEMO_BYTES" using i(2) assms(4) by (simp add: HACK_DEMO_BYTES_def)
  obtain rom where r: "hack_stub = Inr rom" "length rom \<le> 0xE00" "list_all (fits 32) rom" using hack_stub_ok by (auto simp: rom_ok_def)
  have "hack_demo_prog hexf root = Inr ((new_program ''hack_demo'' HACK_DEMO_CYCLES)\<lparr>imem_words := Some rom, xmem_init := [(HACK_I_BASE, img)]\<rparr>)"
    using b by (simp add: hack_demo_prog_def assms(1,2) i(1) r(1) del: rbind_eq_Inr rmap_eq_Inr)
  then show ?thesis by (rule prog_isI) (use r(2,3) hack_window [OF b] in \<open>simp_all add: prog_ok_def HACK_DEMO_CYCLES_def\<close>)
qed

lemma progs_are: "list_all2 prog_is names rs \<Longrightarrow> \<exists>ps. rmapM (\<lambda>p. p) rs = Inr ps \<and> map p_name ps = names \<and> list_all prog_ok ps"
  by (induction rule: list_all2_induct) (auto simp: prog_is_def)

definition program_names :: "string list" where
  "program_names = [''random_rv_1'', ''random_rv_2'', ''random_rv_3'', ''traps'', ''hack_demo'', ''s1_autoboot'', ''s1_cli'',
     ''hack_soft_reset'', ''boot_mode_hack'', ''sd_clkdiv'', ''s2_launch'', ''s2_launch_hack'', ''xmem'', ''random_rv_xmem_4'',
     ''xcache'', ''xcache_hack'', ''rom_stores'', ''muldiv'', ''boot_mode_rv32'', ''s2_run_hello'', ''umode'', ''amo'', ''clint'',
     ''uart_drop'', ''liteuart'', ''liteuart_hack'']"

lemma listed_progs_are:
  assumes "hexf (root @ ''/build/hack/firmware.hex'') = Some ls" "hex_words ls = Inr ws" "list_all (fits 32) ws" "4 * length ws \<le> 0x1600"
    and "s2_hello_card fs root = Inr hello"
  shows "list_all2 prog_is program_names (listed_progs rng fs hexf root)"
proof -
  have n: "int_str 1 = ''1''" "int_str 2 = ''2''" "int_str 3 = ''3''"
    by (code_simp, code_simp, code_simp)
  obtain sds where s: "stage2_card = Inr sds" using stage2_card_ok by blast
  have r: "rom_ok (random_rv d 300 base)" for d base by (rule random_rv_rom) simp
  show ?thesis
    unfolding listed_progs_def program_names_def list.map append.simps list_all2_Cons n
    by (intro conjI rom_prog_is card_prog_is [OF s] card_prog_is [OF assms(5)] hack_prog_is muldiv_prog_is hack_demo_prog_is [where hexf = hexf and root = root, OF assms(1-4)]
        list_all2_Nil [THEN iffD2] r traps_ok boot_mode_hack_ok sd_clkdiv_ok s2_launch_ok xmem_ok xcache_ok rom_stores_ok umode_ok
        amo_ok clint_ok uart_drop_ok liteuart_ok hack_programs_ok)
      (simp_all add: cycle_consts bytes_of_def)
qed

text \<open>
  C40: the list of programs. When \<open>LOCKSTEP_SEEDS\<close> is empty, the Hack demo's hex file is read, has 32-bit words and is at
  most \<open>0x1600\<close> bytes long, and the card for \<open>s2_run_hello\<close> can be built, \<open>programs\<close> returns 26 programs with distinct names,
  whatever the random generator draws. Each ROM fits and has 32-bit words; the bytes put into the wait-state window before
  a run lie in the ranges that are zeroed (\<open>XMEM_USED\<close>); a program's UART bytes do not overlap on the line and have arrived
  before its run ends. Nothing is said of the stores that a program makes.
\<close>

theorem programs_built:
  assumes "hexf (root @ ''/build/hack/firmware.hex'') = Some ls" "hex_words ls = Inr ws" "list_all (fits 32) ws" "4 * length ws \<le> 0x1600"
    and "s2_hello_card fs root = Inr hello"
  shows "\<exists>ps. programs rng fs hexf root [] = Inr ps \<and> length ps = 26 \<and> distinct (map p_name ps) \<and> list_all prog_ok ps"
proof -
  obtain ps where p: "rmapM (\<lambda>p. p) (listed_progs rng fs hexf root) = Inr ps" "map p_name ps = program_names" "list_all prog_ok ps"
    using progs_are [OF listed_progs_are [where hexf = hexf and root = root, OF assms]] by blast
  have d: "distinct program_names" "length program_names = 26" by (simp_all add: program_names_def)
  have "length ps = length (map p_name ps)" by simp
  then show ?thesis using p d by (simp add: programs_def seed_progs_def)
qed

theorem programs_built_witness:
  "hex_words [''00000000''] = Inr [0] \<and>
   (\<exists>ps. programs (\<lambda>s i. i) (\<lambda>_. None) (\<lambda>_. Some [''00000000'']) ''r'' [] = Inr ps \<and> length ps = 26 \<and> list_all prog_ok ps)"
proof -
  have h: "hex_words [''00000000''] = Inr [0]" by code_simp
  have c: "s2_hello_card (\<lambda>_. None) ''r'' = Inr []" by (simp add: s2_hello_card_def)
  show ?thesis
    using programs_built [where hexf = "\<lambda>_. Some [''00000000'']" and root = "''r''" and rng = "\<lambda>s i. i", OF refl h _ _ c] h by (auto simp: fits_def)
qed

text \<open>
  The ranges of the window that are zeroed before a program are non-empty, made of whole words and
  inside the 8 MB window.
\<close>

theorem xmem_used_in_window:
  "list_all (\<lambda>(a, b). 0 \<le> a \<and> a < b \<and> b \<le> XMEM_BYTES \<and> a mod 4 = 0 \<and> b mod 4 = 0) XMEM_USED"
  by (simp add: XMEM_USED_def lockstep_consts)

end
