(* ===== verification/Spec2Isabelle.thy ===== *)
theory Spec2Isabelle
  imports Lockstep_All
begin

text \<open>
  A verification development for VUX9K, a small SoC for the Tang Nano 9K board (an RV32 and Hack CPU in Veryl), its two-stage
  boot firmware and emulator (Rust), and the Python code around them. It models the Python code: the host tool, the
  assemblers, the test programs, the models the simulations run against, and the scripts that make and measure images.

  \<^bold>\<open>Parts of the program and their theories\<close>

  \<^item> \<^verbatim>\<open>src/sim/unit\<close>: reference models of the ALU, the multiplier, the Hack ALU and the immediate generator. \<open>Unit_Models\<close>
    proves them equal to the operations on 32-bit words.
  \<^item> \<^verbatim>\<open>src/sim/integration/rv32_asm.py\<close>: tables, encoders and the \<open>Asm\<close> object in \<open>RV32_Asm\<close>; the fields of its words in
    \<open>RV32_Decode\<close>; where code and labels lie and when assembling succeeds in \<open>RV32_Layout\<close> and \<open>RV32_Contract\<close>. A machine
    that decodes the words (\<open>RV32_Machine\<close>) is the specification that \<open>li\<close>, \<open>la\<close>, branches and whole programs are measured
    against. \<open>Hack_Asm\<close> is \<^verbatim>\<open>hack_asm.py\<close>.
  \<^item> \<^verbatim>\<open>src/sim/integration/lockstep_programs.py\<close>: every program that the RTL and the emulator run in step
    (\<open>Lockstep_Base\<close>, \<open>Lockstep_Window\<close>, \<open>Lockstep_Privileged\<close>, \<open>Lockstep_Boot\<close>, \<open>Lockstep_Mmio\<close>, \<open>Lockstep_Random\<close>) and their list
    (\<open>Lockstep_All\<close>). All of the listed ones assemble and fit the ROM, the random one for every outcome of its
    generator; with the 1500 blocks that \<open>LOCKSTEP_SEEDS\<close> asks for it assembles, and may exceed the size that it checks itself.
    \<open>Lockstep_Run\<close> runs the boot sequences on the machine and shows which stores they make.
  \<^item> \<^verbatim>\<open>src/tools/vux_tool.py\<close>, files: VUX9 v4 headers, payloads and checksums in \<open>Image_Tool\<close>; FAT32 card images in \<open>Fat_Image\<close>
    (the builder), \<open>Fat_Clusters\<close> and \<open>Fat_Tree\<close> (what it allocates and writes), \<open>Fat_Read\<close> (a reader, the specification),
    \<open>Fat_Space\<close> (the clusters a tree needs, and what filling them raises) and \<open>Fat_Card\<close> (a built image reads back as the
    files given, and exactly which calls raise what).
  \<^item> \<^verbatim>\<open>src/tools/vux_tool.py\<close>, serial: texts in \<open>Serial_Text\<close>, the calls over a port in \<open>Serial_Tool\<close>. \<open>Serial_Calls\<close> states what they
    need of a port as locales (\<open>timed_port\<close>, \<open>line_port\<close>, \<open>quiet_port\<close>, \<open>host_port\<close>, \<open>writing_port\<close>) and proves inside them that
    every call and command ends and what a transfer sends. \<open>Upload_Device\<close> is the firmware's receiver
    (\<^verbatim>\<open>src/firmware/fw_common/src/upload.rs\<close>); the two sides together complete a transfer.
  \<^item> \<^verbatim>\<open>src/tools/vux_tool.py\<close>, board: finding and opening the board's port, the line settings, the wait for ModemManager
    (whose files are decoded strictly, so that one that is not UTF-8 raises), the terminal monitor (over the locale
    \<open>terminal_port\<close>; its turns are an argument), the hardware reset and the whole command with its exit status, in \<open>Board_Port\<close>.
  \<^item> \<^verbatim>\<open>src/sim/emu/vux9k.py\<close>: the serial port and clock in emulated time and the paced sender, in \<open>Emu_Port\<close>, over the emulator's
    interface: what a read returns and how long it waits. The port of an emulator whose program sends finitely many bytes
    is shown to be a \<open>host_port\<close>, so that everything above holds for it.
  \<^item> \<^verbatim>\<open>src/sim/integration/sdcard_protocol.py\<close> and \<^verbatim>\<open>sdcard_model.py\<close>: the SD card's state machine in \<open>Sd_Card\<close> (invariant, blocks
    written are read back, and what each injected fault does to a transfer on the bus), and the card on the SPI pins in \<open>Spi_Pins\<close>, which refines it bit for bit.
  \<^item> \<^verbatim>\<open>src/sim/integration/virtual_serial.py\<close>: the UART frames on a line and the waits for received bytes, in \<open>Serial_Bridge\<close>.
  \<^item> \<^verbatim>\<open>src/sim/integration/soc_env.py\<close>: the cards of the test benches, in \<open>Card_Setup\<close>: files put on a card (of any type, strict
    or not) are read back over the SPI bus by the FAT reader, and the emulator's raw image is the same card. \<open>Soc_Start\<close> has the preloads of the ROM and the
    PSRAM and, with \<^verbatim>\<open>irq_echo_pace.py\<close>, the ROM words that start an application or hold it back, run on the machine: the
    application starts at its first byte, Hack starts with the program given, and a held application does not start
    before the line that overflows the UART's FIFO has arrived.
  \<^item> \<^verbatim>\<open>src/scripts\<close>: \<^verbatim>\<open>bin2hex.py\<close>, \<^verbatim>\<open>merge_firmware_hex.py\<close> and \<^verbatim>\<open>elf2bin.py\<close> in \<open>Firmware_Hex\<close>; the firmware's line coverage
    (\<^verbatim>\<open>coverage_fw.py\<close>) in \<open>Fw_Coverage\<close>; the ISA tests' verdicts and results (\<^verbatim>\<open>run_riscv_tests.py\<close>, \<^verbatim>\<open>hex_runner.py\<close>) in
    \<open>Isa_Report\<close>.
  \<^item> \<^verbatim>\<open>src/scripts/make_dist.py\<close> and \<^verbatim>\<open>check_dist.py\<close>: the crates that the binaries link and their licence expressions in
    \<open>Dist_Crates\<close>, the notices file in \<open>Dist_Licenses\<close> (its acceptance is exact for choices of licences; expressions with \<open>AND\<close>
    are outside, as the script misreads them), the checksums in \<open>Dist_Sums\<close>, the whole tree and its check in \<open>Dist_Tree\<close>: a
    tree that the first script makes passes the second. \<open>Utf8_Text\<close> has the round trip of UTF-8.

  \<open>VPrelude\<close> has what they share: bytes, little-endian packing, results with Python's exceptions, pieces of lists.

  \<^bold>\<open>How code is modelled\<close>

  A Python function is a function; one that raises returns an exception or a value (\<open>'a result\<close>); an object is a record
  and a method that mutates it returns the new one. Python's integers are \<open>int\<close>, bytes are 8-bit words, registers and bus
  values of the reference models are integers masked as in the code and proved against 32-bit words. Dictionaries whose
  order matters are association lists. A coroutine of a simulation is a step function over the events it waits for.

  \<^bold>\<open>Loops and bounds\<close>

  Loops over data are structural or have a termination proof (the FAT size search by the distance to its bound, the UART
  receiver by what is left of the line). A loop that waits for a device is a partial function into \<open>option\<close>; the locales'
  assumptions on time and on the device make it return, and the properties say so. Two waits on the emulator have fuel,
  a turn for each cycle until their deadline; every turn takes a cycle at least, so that the fuel is enough
  (\<open>wait_ends\<close>, \<open>drain_ends\<close>).

  Times are integers: microseconds for the host tool, cycles for the emulator, picoseconds on the pins. Where the code
  computes with floating point (a clock's rate, a percentage) the model computes exactly.

  \<^bold>\<open>Parameters\<close>

  Code outside the repository and the Rust and Veryl parts are arguments with named assumptions: the serial port and its
  device, the emulated SoC, the random generator, the file system, git and cargo, what pyelftools reads from an ELF file,
  the texts of JSON and tar files, the outcome of a simulator's run. Interpretations on the models show that the assumptions can hold: the firmware's transfer as a
  device on the wire and as a program on the emulator, the SD card as a block store, the built card as a FAT volume.

  \<^bold>\<open>Not modelled\<close>

  The parsing of command lines (argparse); starting simulators and synthesis, mutation, release and benchmark scripts
  (subprocesses and file-system walks); file modes and printed messages; the emulator, the firmware except transfer v2, and the RTL.
\<close>

end
